(* ===== verification/Prelude.thy ===== *)
theory Prelude
  imports Main "HOL-Library.Word" "HOL-Library.List_Lexorder"
begin

unbundle bit_operations_syntax

text \<open>
  Shared vocabulary of the development: byte strings and machine integers, Rust's
  \<^verbatim>\<open>Ordering\<close>, the error monad that stands for \<^verbatim>\<open>Result\<close> and the \<^verbatim>\<open>?\<close> operator,
  big-endian framing of integers, and the interface of an order-preserving code
  (locale \<open>order_code\<close>) that the key encoders of the model crate implement.
\<close>

section \<open>Types\<close>

type_synonym u8 = "8 word"
type_synonym u16 = "16 word"
type_synonym u32 = "32 word"
type_synonym u64 = "64 word"

text \<open>A Rust \<^verbatim>\<open>i64\<close> is kept as its 64 bits and read with \<open>sint\<close>; an \<^verbatim>\<open>f64\<close> is kept as
  its IEEE-754 bit pattern (\<^verbatim>\<open>to_bits\<close> and \<^verbatim>\<open>from_bits\<close> are the identity).\<close>

type_synonym i64 = "64 word"
type_synonym i16 = "16 word"
type_synonym f64 = "64 word"
type_synonym f32 = "32 word"
type_synonym bytes = "8 word list"

named_theorems result_simps
named_theorems eval_simps

section \<open>Rust's Ordering\<close>

datatype ordering = Less | Equal | Greater

definition cmp :: "'a::linorder \<Rightarrow> 'a \<Rightarrow> ordering" where
  "cmp a b = (if a < b then Less else if a = b then Equal else Greater)"

fun then_with :: "ordering \<Rightarrow> ordering \<Rightarrow> ordering" where
  "then_with Equal o' = o'"
| "then_with Less o' = Less"
| "then_with Greater o' = Greater"

lemma then_with_Equal_right [simp]: "then_with o' Equal = o'"
  by (cases o') auto

lemma then_with_assoc: "then_with (then_with a b) c = then_with a (then_with b c)"
  by (cases a) auto

lemma then_with_eq_Equal [simp]: "then_with a b = Equal \<longleftrightarrow> a = Equal \<and> b = Equal"
  by (cases a) auto

lemma cmp_Equal [simp]: "cmp a b = Equal \<longleftrightarrow> a = b"
  by (simp add: cmp_def)

lemma cmp_Less [simp]: "cmp a b = Less \<longleftrightarrow> a < b"
  by (simp add: cmp_def)

lemma cmp_Greater [simp]: "cmp a b = Greater \<longleftrightarrow> b < a"
  by (auto simp: cmp_def)

lemma cmp_LessI [simp]: "a < b \<Longrightarrow> cmp a b = Less"
  and cmp_GreaterI [simp]: "b < a \<Longrightarrow> cmp a b = Greater"
  by simp_all

lemma cmp_refl [simp]: "cmp a a = Equal"
  by simp

lemma cmp_mono_iff:
  assumes "(a < b) = (c < d)" "(a = b) = (c = d)"
  shows "cmp a b = cmp c d"
  using assms by (simp add: cmp_def)

text \<open>Byte strings (and every list over a linear order) compare lexicographically, as Rust's
  \<^verbatim>\<open>Ord\<close> for slices does.\<close>

lemma cmp_Cons: "cmp (a # x) (b # y) = then_with (cmp a b) (cmp x y)"
  by (auto simp: cmp_def)

lemma cmp_Nil_Cons [simp]: "cmp [] (b # y) = Less" "cmp (b # y) [] = Greater" "cmp [] [] = Equal"
  by simp_all

lemma cmp_append_same [simp]: "cmp (p @ x) (p @ y) = cmp x y"
  by (induction p) (simp_all add: cmp_Cons cmp_refl)

lemma cmp_append_eq_length:
  "length a = length b \<Longrightarrow> cmp (a @ s) (b @ t) = then_with (cmp a b) (cmp s t)"
  by (induction a b rule: list_induct2) (auto simp: cmp_Cons then_with_assoc)

text \<open>A strictly ascending association list is determined by the map it stands for.\<close>

lemma sorted_map_of_inject:
  assumes "sorted_wrt (<) (map fst (xs :: ('k :: linorder \<times> 'v) list))" "sorted_wrt (<) (map fst ys)"
    "map_of xs = map_of ys"
  shows "xs = ys"
proof -
  have d: "distinct (map fst xs)" "distinct (map fst ys)" using assms by (simp_all add: strict_sorted_iff)
  then have "set xs = set ys" using map_of_inject_set [OF d] assms(3) by simp
  moreover have "sorted (map fst xs)" "sorted (map fst ys)" using assms by (simp_all add: strict_sorted_iff)
  ultimately show ?thesis
    using d by (metis distinct_map map_sorted_distinct_set_unique sup.idem)
qed

section \<open>Result and the question-mark operator\<close>

definition rbind :: "'e + 'a \<Rightarrow> ('a \<Rightarrow> 'e + 'b) \<Rightarrow> 'e + 'b" where
  "rbind m f = (case m of Inl e \<Rightarrow> Inl e | Inr x \<Rightarrow> f x)"

lemma rbind_simps [simp, result_simps]:
  "rbind (Inl e) f = Inl e"
  "rbind (Inr x) f = f x"
  by (simp_all add: rbind_def)

lemma rbind_cong [fundef_cong]:
  "m = n \<Longrightarrow> (\<And>x. n = Inr x \<Longrightarrow> f x = g x) \<Longrightarrow> rbind m f = rbind n g"
  by (cases n) (auto simp: rbind_def)

lemma rbind_Inr_iff [result_simps]:
  "rbind m f = Inr y \<longleftrightarrow> (\<exists>x. m = Inr x \<and> f x = Inr y)"
  by (cases m) (auto simp: rbind_def)

lemma rbind_Inl_iff:
  "rbind m f = Inl e \<longleftrightarrow> m = Inl e \<or> (\<exists>x. m = Inr x \<and> f x = Inl e)"
  by (cases m) (auto simp: rbind_def)

lemma rbind_assoc: "rbind (rbind m f) g = rbind m (\<lambda>x. rbind (f x) g)"
  by (cases m) auto

text \<open>\<^verbatim>\<open>map_err\<close> on a \<^verbatim>\<open>Result\<close> and \<^verbatim>\<open>ok_or\<close> on an \<^verbatim>\<open>Option\<close>.\<close>

definition map_err :: "('e \<Rightarrow> 'f) \<Rightarrow> 'e + 'a \<Rightarrow> 'f + 'a" where
  "map_err g m = (case m of Inl e \<Rightarrow> Inl (g e) | Inr x \<Rightarrow> Inr x)"

lemma map_err_simps [simp, result_simps]:
  "map_err g (Inl e) = Inl (g e)"
  "map_err g (Inr x) = Inr x"
  by (simp_all add: map_err_def)

lemma map_err_Inr_iff [simp, result_simps]: "map_err g m = Inr x \<longleftrightarrow> m = Inr x"
  by (cases m) auto

definition ok_or :: "'e \<Rightarrow> 'a option \<Rightarrow> 'e + 'a" where
  "ok_or e m = (case m of None \<Rightarrow> Inl e | Some x \<Rightarrow> Inr x)"

lemma ok_or_simps [simp, result_simps]:
  "ok_or e None = Inl e"
  "ok_or e (Some x) = Inr x"
  by (simp_all add: ok_or_def)

lemma ok_or_Inr_iff [simp, result_simps]: "ok_or e m = Inr x \<longleftrightarrow> m = Some x"
  by (cases m) auto

section \<open>Big-endian integers\<close>

text \<open>The \<open>k\<close> low-order bytes of a number, most significant first, as \<^verbatim>\<open>to_be_bytes\<close> lays
  them out, and the number a byte string spells.\<close>

fun be_of_nat :: "nat \<Rightarrow> nat \<Rightarrow> bytes" where
  "be_of_nat 0 n = []"
| "be_of_nat (Suc k) n = of_nat (n div 256 ^ k mod 256) # be_of_nat k n"

fun nat_of_be :: "bytes \<Rightarrow> nat" where
  "nat_of_be [] = 0"
| "nat_of_be (b # bs) = unat b * 256 ^ length bs + nat_of_be bs"

text \<open>For the kernel's simplifier to compute on closed terms.\<close>

lemma be_of_nat_numeral [eval_simps]:
  "be_of_nat (numeral k) n =
     of_nat (n div 256 ^ pred_numeral k mod 256) # be_of_nat (pred_numeral k) n"
  by (simp only: numeral_eq_Suc be_of_nat.simps)

lemma replicate_by_numeral [eval_simps]:
  "replicate (numeral k) x = x # replicate (pred_numeral k) x"
  by (simp only: numeral_eq_Suc replicate_Suc)

lemma length_be_of_nat [simp]: "length (be_of_nat k n) = k"
  by (induction k) auto

lemma unat_byte_of_nat_mod [simp]: "unat (of_nat (n mod 256) :: u8) = n mod 256"
  by (simp add: unat_of_nat)

lemma unat_bounds:
  "unat (a :: u8) < 256" "unat (b :: u16) < 65536" "unat (c :: u32) < 4294967296"
  "unat (d :: u64) < 18446744073709551616"
  using unsigned_less [of a, where ?'a = nat] unsigned_less [of b, where ?'a = nat]
    unsigned_less [of c, where ?'a = nat] unsigned_less [of d, where ?'a = nat] by simp_all

lemma nat_of_be_bound: "nat_of_be bs < 256 ^ length bs"
proof (induction bs)
  case Nil
  then show ?case by simp
next
  case (Cons b bs)
  have "unat b < 256" by (rule unat_bounds)
  then have "unat b + 1 \<le> 256" by simp
  then have "(unat b + 1) * 256 ^ length bs \<le> 256 * 256 ^ length bs"
    by (rule mult_le_mono1)
  then have "unat b * 256 ^ length bs + 256 ^ length bs \<le> 256 * 256 ^ length bs"
    by (simp only: add_mult_distrib mult_1)
  with Cons show ?case by (simp only: nat_of_be.simps length_Cons power_Suc)
qed

lemma nat_of_be_of_nat: "nat_of_be (be_of_nat k n) = n mod 256 ^ k"
proof (induction k)
  case 0
  then show ?case by simp
next
  case (Suc k)
  have "n mod 256 ^ Suc k = 256 ^ k * (n div 256 ^ k mod 256) + n mod 256 ^ k"
    using mod_mult2_eq [of n "256 ^ k" 256] by (simp add: mult.commute)
  with Suc show ?case by simp
qed

lemma nat_of_be_of_nat_small [simp]: "n < 256 ^ k \<Longrightarrow> nat_of_be (be_of_nat k n) = n"
  by (simp add: nat_of_be_of_nat)

lemma be_of_nat_of_be [simp]: "length bs = k \<Longrightarrow> be_of_nat k (nat_of_be bs) = bs"
proof (induction bs arbitrary: k)
  case Nil
  then show ?case by simp
next
  case (Cons b bs)
  have le: "nat_of_be bs < 256 ^ length bs" by (rule nat_of_be_bound)
  have b: "unat b < 256" by (rule unat_bounds)
  have tail: "be_of_nat m (x * 256 ^ m + y) = be_of_nat m y" for m x y
  proof -
    have "be_of_nat j (x * 256 ^ m + y) = be_of_nat j y" if "j \<le> m" for j
      using that
    proof (induction j)
      case 0
      then show ?case by simp
    next
      case (Suc j)
      then obtain d where d: "m = Suc (j + d)" by (metis add_Suc less_iff_Suc_add less_eq_Suc_le)
      have "x * 256 ^ m + y = y + (x * 256 ^ d * 256) * 256 ^ j"
        by (simp add: d power_add)
      then have "(x * 256 ^ m + y) div 256 ^ j = y div 256 ^ j + (x * 256 ^ d) * 256"
        by (simp only: div_mult_self1) simp
      then have "(x * 256 ^ m + y) div 256 ^ j mod 256 = y div 256 ^ j mod 256"
        by (simp only: mod_mult_self1)
      then show ?case using Suc by simp
    qed
    then show ?thesis by simp
  qed
  show ?case using Cons b le by (auto simp: tail)
qed

lemma cmp_be_of_nat:
  "m < 256 ^ k \<Longrightarrow> n < 256 ^ k \<Longrightarrow>
     cmp (be_of_nat k m) (be_of_nat k n) = cmp m n"
proof -
  have step: "cmp (be_of_nat k m) (be_of_nat k n) = cmp (m mod 256 ^ k) (n mod 256 ^ k)" for k
  proof (induction k)
    case 0
    then show ?case by simp
  next
    case (Suc k)
    let ?q = "\<lambda>x. x div 256 ^ k mod 256 :: nat"
    let ?r = "\<lambda>x. x mod 256 ^ k :: nat"
    have split: "x mod 256 ^ Suc k = ?q x * 256 ^ k + ?r x" for x :: nat
      using mod_mult2_eq [of x "256 ^ k" 256] by (simp add: mult.commute)
    have hd: "cmp (of_nat (?q m) :: u8) (of_nat (?q n)) = cmp (?q m) (?q n)"
      by (rule cmp_mono_iff) (simp_all add: word_less_nat_alt word_unat_eq_iff)
    have lex: "cmp (a * p + b) (c * p + d) = then_with (cmp a c) (cmp b d)"
      if "b < p" "d < p" for a b c d p :: nat
    proof -
      consider "a < c" | "a = c" | "c < a" by linarith
      then show ?thesis
      proof cases
        case 1
        then have "(a + 1) * p \<le> c * p" by (intro mult_le_mono1) simp
        with 1 that have "a * p + b < c * p + d" by (simp add: algebra_simps)
        with 1 show ?thesis by (simp add: cmp_def)
      next
        case 2
        then show ?thesis by (auto simp: cmp_def)
      next
        case 3
        then have "(c + 1) * p \<le> a * p" by (intro mult_le_mono1) simp
        with 3 that have "c * p + d < a * p + b" by (simp add: algebra_simps)
        with 3 show ?thesis by (simp add: cmp_def)
      qed
    qed
    show ?case
      by (simp only: be_of_nat.simps cmp_Cons hd Suc.IH split [of m] split [of n])
        (simp add: lex)
  qed
  assume "m < 256 ^ k" "n < 256 ^ k"
  with step show ?thesis by simp
qed

text \<open>The fixed-width encodings the sources use.\<close>

definition be_u64 :: "u64 \<Rightarrow> bytes" where "be_u64 w = be_of_nat 8 (unat w)"
definition be_u32 :: "u32 \<Rightarrow> bytes" where "be_u32 w = be_of_nat 4 (unat w)"
definition be_u16 :: "u16 \<Rightarrow> bytes" where "be_u16 w = be_of_nat 2 (unat w)"
definition u64_of_be :: "bytes \<Rightarrow> u64" where "u64_of_be bs = of_nat (nat_of_be bs)"
definition u32_of_be :: "bytes \<Rightarrow> u32" where "u32_of_be bs = of_nat (nat_of_be bs)"
definition u16_of_be :: "bytes \<Rightarrow> u16" where "u16_of_be bs = of_nat (nat_of_be bs)"

lemmas be_defs [eval_simps] = be_u64_def be_u32_def be_u16_def u64_of_be_def u32_of_be_def u16_of_be_def

lemma length_be [simp]:
  "length (be_u64 w) = 8" "length (be_u32 x) = 4" "length (be_u16 y) = 2"
  by (simp_all add: be_u64_def be_u32_def be_u16_def)

lemma u64_of_be_u64 [simp]: "u64_of_be (be_u64 w) = w"
  using unat_bounds(4) [of w] by (simp add: be_u64_def u64_of_be_def)

lemma u32_of_be_u32 [simp]: "u32_of_be (be_u32 w) = w"
  using unat_bounds(3) [of w] by (simp add: be_u32_def u32_of_be_def)

lemma u16_of_be_u16 [simp]: "u16_of_be (be_u16 w) = w"
  using unat_bounds(2) [of w] by (simp add: be_u16_def u16_of_be_def)

lemma be_u64_of_be [simp]: "length bs = 8 \<Longrightarrow> be_u64 (u64_of_be bs) = bs"
  using nat_of_be_bound [of bs] by (simp add: be_u64_def u64_of_be_def unat_of_nat)

lemma be_u32_of_be [simp]: "length bs = 4 \<Longrightarrow> be_u32 (u32_of_be bs) = bs"
  using nat_of_be_bound [of bs] by (simp add: be_u32_def u32_of_be_def unat_of_nat)

lemma be_u16_of_be [simp]: "length bs = 2 \<Longrightarrow> be_u16 (u16_of_be bs) = bs"
  using nat_of_be_bound [of bs] by (simp add: be_u16_def u16_of_be_def unat_of_nat)

lemma cmp_be_u64: "cmp (be_u64 a) (be_u64 b) = cmp a b"
proof -
  have "cmp (be_u64 a) (be_u64 b) = cmp (unat a) (unat b)"
    using unat_bounds(4) [of a] unat_bounds(4) [of b] by (simp add: be_u64_def cmp_be_of_nat)
  also have "\<dots> = cmp a b"
    by (rule cmp_mono_iff) (simp_all add: word_less_nat_alt word_unat_eq_iff)
  finally show ?thesis .
qed

lemma cmp_be_u16: "cmp (be_u16 a) (be_u16 b) = cmp a b"
proof -
  have "cmp (be_u16 a) (be_u16 b) = cmp (unat a) (unat b)"
    using unat_bounds(2) [of a] unat_bounds(2) [of b] by (simp add: be_u16_def cmp_be_of_nat)
  also have "\<dots> = cmp a b"
    by (rule cmp_mono_iff) (simp_all add: word_less_nat_alt word_unat_eq_iff)
  finally show ?thesis .
qed

section \<open>Flipping the sign bit\<close>

text \<open>Flipping the top bit of a two's complement word is adding half the range, so unsigned
  order afterwards is signed order before.\<close>

lemma xor_top_bit:
  fixes a :: "'a::len word"
  shows "a XOR 2 ^ (LENGTH('a) - 1) = a + 2 ^ (LENGTH('a) - 1)"
proof -
  let ?n = "LENGTH('a) - 1" and ?s = "2 ^ (LENGTH('a) - 1) :: 'a word"
  have s2: "?s + ?s = 0"
  proof -
    have "?s + ?s = 2 ^ LENGTH('a)"
      by (metis len_gt_0 mult_2 power_eq_if less_numeral_extra(3))
    then show ?thesis by simp
  qed
  show ?thesis
  proof (cases "bit a ?n")
    case False
    have "a XOR ?s = a OR ?s"
      using False by (intro bit_eqI) (auto simp: bit_simps)
    also have "\<dots> = a + ?s"
      using False by (intro disjunctive_add_eq_or [symmetric] bit_eqI) (auto simp: bit_simps)
    finally show ?thesis .
  next
    case True
    have "a XOR ?s = a AND NOT ?s"
      using True by (intro bit_eqI) (auto simp: bit_simps)
    also have "\<dots> = a - ?s"
      using True by (intro disjunctive_diff_eq_and_not [symmetric] bit_eqI) (auto simp: bit_simps)
    also have "\<dots> = a + ?s" by (simp only: minus_unique [OF s2] diff_conv_add_uminus)
    finally show ?thesis .
  qed
qed

lemma uint_exp_less: "n < LENGTH('a) \<Longrightarrow> uint (2 ^ n :: 'a::len word) = 2 ^ n"
  by transfer (simp add: take_bit_of_exp)

lemma uint_xor_top_bit:
  fixes a :: "'a::len word"
  shows "uint (a XOR 2 ^ (LENGTH('a) - 1)) = sint a + 2 ^ (LENGTH('a) - 1)"
proof -
  have "sint a = take_bit LENGTH('a) (uint a + 2 ^ (LENGTH('a) - 1)) - 2 ^ (LENGTH('a) - 1)"
    by (simp add: sint_uint signed_take_bit_eq_take_bit_shift)
  moreover have "uint (a XOR 2 ^ (LENGTH('a) - 1)) = take_bit LENGTH('a) (uint a + 2 ^ (LENGTH('a) - 1))"
    by (simp only: xor_top_bit uint_word_ariths(1)) (simp add: take_bit_eq_mod uint_exp_less)
  ultimately show ?thesis by simp
qed

lemma cmp_xor_top_bit:
  fixes a b :: "'a::len word"
  shows "cmp (a XOR 2 ^ (LENGTH('a) - 1)) (b XOR 2 ^ (LENGTH('a) - 1)) = cmp (sint a) (sint b)"
  by (rule cmp_mono_iff)
    (simp_all add: word_less_def uint_xor_top_bit word_uint_eq_iff del: One_nat_def)

section \<open>Order-preserving codes\<close>

text \<open>
  An order-preserving self-delimiting code: comparing two encodings, each followed by
  arbitrary further bytes, is comparing the encoded things first and the continuations only
  on a tie. The law is closed under concatenation, which is what makes tuple keys
  memcomparable.
\<close>

locale order_code =
  fixes enc :: "'a \<Rightarrow> bytes"
    and ord :: "'a \<Rightarrow> 'a \<Rightarrow> ordering"
    and ok :: "'a \<Rightarrow> bool"
  assumes code: "ok a \<Longrightarrow> ok b \<Longrightarrow>
    cmp (enc a @ s) (enc b @ t) = then_with (ord a b) (cmp s t)"
begin

lemma enc_order: "ok a \<Longrightarrow> ok b \<Longrightarrow> cmp (enc a) (enc b) = ord a b"
  using code [of a b "[]" "[]"] by (simp add: cmp_refl)

lemma enc_eq_iff: "ok a \<Longrightarrow> ok b \<Longrightarrow> enc a = enc b \<longleftrightarrow> ord a b = Equal"
  using enc_order [of a b] cmp_Equal [of "enc a" "enc b"] by simp

lemma enc_prefix_free:
  assumes "ok a" "ok b" "enc a @ s = enc b @ t"
  shows "ord a b = Equal"
proof -
  have "then_with (ord a b) (cmp s t) = Equal"
    using code [OF assms(1,2), of s t] assms(3) by simp
  then show ?thesis by simp
qed

lemma concat_code:
  "length as = length bs \<Longrightarrow> list_all ok as \<Longrightarrow> list_all ok bs \<Longrightarrow>
     cmp (concat (map enc as) @ s) (concat (map enc bs) @ t) =
     then_with (foldr then_with (map2 ord as bs) Equal) (cmp s t)"
  by (induction as bs rule: list_induct2) (simp_all add: code then_with_assoc)

end

end
