(* ===== verification/Store.thy ===== *)
theory Store
  imports Prelude
begin

text \<open>
  The chunk store of \<^verbatim>\<open>crates/acetone-store\<close>: the opaque content address \<^verbatim>\<open>Hash\<close>
  (\<^verbatim>\<open>hash.rs\<close>), the error type (\<^verbatim>\<open>error.rs\<close>), the \<^verbatim>\<open>ChunkStore\<close> trait (\<^verbatim>\<open>store.rs\<close>) as a
  record of operations with its contract as the locale \<open>chunk_store\<close>, and the git backend's
  \<^verbatim>\<open>put\<close> and \<^verbatim>\<open>get\<close> (\<^verbatim>\<open>git.rs\<close>) over the object database of the \<^verbatim>\<open>gix\<close> library, which is
  a parameter with its own contract (locale \<open>gix_odb\<close>).
\<close>

section \<open>Content addresses\<close>

text \<open>A git object id: 20 bytes for SHA-1 repositories, 32 for SHA-256 ones.\<close>

typedef hash = "{bs :: bytes. length bs = 20 \<or> length bs = 32}"
  morphisms as_bytes Hash
  by (rule exI [of _ "replicate 20 0"]) simp

lemma length_as_bytes: "length (as_bytes h) = 20 \<or> length (as_bytes h) = 32"
  using as_bytes [of h] by simp

lemma as_bytes_Hash [simp]: "length bs = 20 \<or> length bs = 32 \<Longrightarrow> as_bytes (Hash bs) = bs"
  by (simp add: Hash_inverse)

instantiation hash :: linorder
begin

definition less_eq_hash :: "hash \<Rightarrow> hash \<Rightarrow> bool" where
  "less_eq_hash a b \<longleftrightarrow> as_bytes a \<le> as_bytes b"

definition less_hash :: "hash \<Rightarrow> hash \<Rightarrow> bool" where
  "less_hash a b \<longleftrightarrow> as_bytes a < as_bytes b"

instance
  by standard (auto simp: less_eq_hash_def less_hash_def as_bytes_inject less_le)

end

datatype store_error =
    NotARepository string
  | ObjectTooLarge u64 u64
  | WrongObjectKind hash string string
  | InvalidRefName string string
  | SymbolicRef string
  | CasFailed string
  | InvalidHash string
  | InvalidAnchor hash string
  | InvalidTrailer string string
  | InvalidSignature string
  | SignedTag string
  | SignedTagCreation string
  | StCorrupt string string
  | Backend string

definition hash_from_bytes :: "bytes \<Rightarrow> store_error + hash" where
  "hash_from_bytes bs =
     (if length bs = 20 \<or> length bs = 32 then Inr (Hash bs)
      else Inl (InvalidHash ''unsupported digest length''))"

lemma hash_from_as_bytes [simp]: "hash_from_bytes (as_bytes h) = Inr h"
  using length_as_bytes [of h] by (auto simp: hash_from_bytes_def as_bytes_inverse)

lemma hash_from_bytes_Inr: "hash_from_bytes bs = Inr h \<longleftrightarrow> bs = as_bytes h"
  using hash_from_as_bytes [of h] by (auto simp: hash_from_bytes_def Hash_inverse split: if_splits)

section \<open>The ChunkStore trait\<close>

text \<open>A store is a record of its operations on a state; \<^verbatim>\<open>put\<close> returns the address and the new
  state. The layers above take the record as an argument, as the Rust code is generic in
  \<^verbatim>\<open>S: ChunkStore\<close>.\<close>

record 's store_ops =
  st_put :: "'s \<Rightarrow> bytes \<Rightarrow> store_error + hash \<times> 's"
  st_get :: "'s \<Rightarrow> hash \<Rightarrow> store_error + bytes option"

fun put_batch :: "'s store_ops \<Rightarrow> 's \<Rightarrow> bytes list \<Rightarrow> store_error + hash list \<times> 's" where
  "put_batch S s [] = Inr ([], s)"
| "put_batch S s (c # cs) =
     rbind (st_put S s c) (\<lambda>(h, s). rbind (put_batch S s cs) (\<lambda>(hs, s). Inr (h # hs, s)))"

text \<open>The contract: the address is a function of the bytes, what was put can be fetched, and a
  put disturbs no chunk already there.\<close>

locale chunk_store =
  fixes S :: "'s store_ops"
    and addr :: "bytes \<Rightarrow> hash"
  assumes put_addr: "st_put S s d = Inr (h, s') \<Longrightarrow> h = addr d"
    and put_get: "st_put S s d = Inr (h, s') \<Longrightarrow> st_get S s' h = Inr (Some d)"
    and put_keeps: "st_put S s d = Inr (h, s') \<Longrightarrow> st_get S s k = Inr (Some x) \<Longrightarrow>
      st_get S s' k = Inr (Some x)"

section \<open>The git backend\<close>

datatype git_kind = Blob | GitTree | Commit | Tag

text \<open>What \<^verbatim>\<open>GitStore\<close> calls of \<^verbatim>\<open>gix\<close>: writing a blob, and the two lookups, which return \<open>None\<close> for an object they
  miss. A lookup takes the number of the attempt: a concurrent \<^verbatim>\<open>gc\<close> may make one attempt miss what the next one finds.\<close>

record 's gix_repo =
  gix_write_blob :: "'s \<Rightarrow> bytes \<Rightarrow> unit + hash \<times> 's"
  gix_try_find_header :: "'s \<Rightarrow> nat \<Rightarrow> hash \<Rightarrow> unit + (git_kind \<times> u64) option"
  gix_try_find_object :: "'s \<Rightarrow> nat \<Rightarrow> hash \<Rightarrow> unit + (git_kind \<times> bytes) option"

record 's git_store =
  repo :: "'s gix_repo"
  max_chunk_size :: u64

definition LOOKUP_ATTEMPTS :: nat where "LOOKUP_ATTEMPTS = 3"

fun git_kind_name :: "git_kind \<Rightarrow> string" where
  "git_kind_name Blob = ''blob''"
| "git_kind_name GitTree = ''tree''"
| "git_kind_name Commit = ''commit''"
| "git_kind_name Tag = ''tag''"

definition write_blob_capped ::
  "'s git_store \<Rightarrow> 's \<Rightarrow> bytes \<Rightarrow> string \<Rightarrow> store_error + hash \<times> 's" where
  "write_blob_capped G s data what =
     (let size = of_nat (length data)
      in if max_chunk_size G < size then Inl (ObjectTooLarge size (max_chunk_size G))
         else map_err (\<lambda>_. Backend what) (gix_write_blob (repo G) s data))"

fun retry :: "nat \<Rightarrow> nat \<Rightarrow> (nat \<Rightarrow> 'e + 'a option) \<Rightarrow> 'e + 'a option" where
  "retry 0 i lookup = Inr None"
| "retry (Suc n) i lookup =
     rbind (lookup i) (\<lambda>r. case r of Some x \<Rightarrow> Inr (Some x) | None \<Rightarrow> retry n (i + 1) lookup)"

definition find_header ::
  "'s git_store \<Rightarrow> 's \<Rightarrow> hash \<Rightarrow> store_error + (git_kind \<times> u64) option" where
  "find_header G s h =
     (let lookup = (\<lambda>i. map_err (\<lambda>_. Backend ''reading object header'')
                          (gix_try_find_header (repo G) s i h))
      in rbind (retry (LOOKUP_ATTEMPTS - 1) 0 lookup) (\<lambda>r.
           case r of Some header \<Rightarrow> Inr (Some header) | None \<Rightarrow> lookup (LOOKUP_ATTEMPTS - 1)))"

definition find_object_settled ::
  "'s git_store \<Rightarrow> 's \<Rightarrow> hash \<Rightarrow> string \<Rightarrow> store_error + git_kind \<times> bytes" where
  "find_object_settled G s h ctx =
     (let lookup = (\<lambda>i. map_err (\<lambda>_. Backend ctx) (gix_try_find_object (repo G) s i h))
      in rbind (retry (LOOKUP_ATTEMPTS - 1) 0 lookup) (\<lambda>r.
           case r of Some obj \<Rightarrow> Inr obj | None \<Rightarrow> rbind (lookup (LOOKUP_ATTEMPTS - 1)) (ok_or (Backend ctx))))"

definition read_object_checked ::
  "'s git_store \<Rightarrow> 's \<Rightarrow> hash \<Rightarrow> git_kind \<times> u64 \<Rightarrow> git_kind \<Rightarrow> string \<Rightarrow> store_error + bytes" where
  "read_object_checked G s h header expected expected_name =
     (if fst header \<noteq> expected
      then Inl (WrongObjectKind h expected_name (git_kind_name (fst header)))
      else if max_chunk_size G < snd header
      then Inl (ObjectTooLarge (snd header) (max_chunk_size G))
      else rbind (find_object_settled G s h ''reading object'') (\<lambda>obj. Inr (snd obj)))"

definition git_put :: "'s git_store \<Rightarrow> 's \<Rightarrow> bytes \<Rightarrow> store_error + hash \<times> 's" where
  "git_put G s data = write_blob_capped G s data ''writing chunk''"

definition git_get :: "'s git_store \<Rightarrow> 's \<Rightarrow> hash \<Rightarrow> store_error + bytes option" where
  "git_get G s h =
     rbind (find_header G s h) (\<lambda>r. case r of
         None \<Rightarrow> Inr None
       | Some header \<Rightarrow>
           rbind (read_object_checked G s h header Blob ''blob'') (\<lambda>data. Inr (Some data)))"

definition git_store_ops :: "'s git_store \<Rightarrow> 's store_ops" where
  "git_store_ops G = \<lparr>st_put = git_put G, st_get = git_get G\<rparr>"

text \<open>An object is found when one of the attempts returns it and those before it missed it.\<close>

definition finds :: "(nat \<Rightarrow> 'e + 'a option) \<Rightarrow> 'a \<Rightarrow> bool" where
  "finds lookup x \<longleftrightarrow> (\<exists>i < LOOKUP_ATTEMPTS. lookup i = Inr (Some x) \<and> (\<forall>j < i. lookup j = Inr None))"

text \<open>The documented behaviour of a git object database: an object id is a function of the content, a written blob is
  found with its size within the attempts, objects found stay found, also while a \<^verbatim>\<open>gc\<close> moves them to a pack.\<close>

locale gix_odb =
  fixes R :: "'s gix_repo"
    and addr :: "bytes \<Rightarrow> hash"
  assumes write_addr: "gix_write_blob R s d = Inr (h, s') \<Longrightarrow> h = addr d"
    and write_find: "gix_write_blob R s d = Inr (h, s') \<Longrightarrow>
      finds (\<lambda>i. gix_try_find_header R s' i h) (Blob, of_nat (length d)) \<and>
      finds (\<lambda>i. gix_try_find_object R s' i h) (Blob, d)"
    and write_keeps: "gix_write_blob R s d = Inr (h, s') \<Longrightarrow>
      finds (\<lambda>i. gix_try_find_header R s i k) z \<Longrightarrow> finds (\<lambda>i. gix_try_find_header R s' i k) z"
      "gix_write_blob R s d = Inr (h, s') \<Longrightarrow>
      finds (\<lambda>i. gix_try_find_object R s i k) x \<Longrightarrow> finds (\<lambda>i. gix_try_find_object R s' i k) x"

lemma finds_iff:
  "finds f x \<longleftrightarrow> f 0 = Inr (Some x) \<or> f 0 = Inr None \<and> (f 1 = Inr (Some x) \<or> f 1 = Inr None \<and> f 2 = Inr (Some x))"
  by (auto simp: finds_def LOOKUP_ATTEMPTS_def numeral_3_eq_3 numeral_2_eq_2 Ex_less_Suc2 All_less_Suc2)

lemma retried:
  "(\<exists>r. retry (LOOKUP_ATTEMPTS - 1) 0 f = Inr r \<and> (case r of Some x \<Rightarrow> x = z | None \<Rightarrow> f (LOOKUP_ATTEMPTS - 1) = Inr (Some z))) \<longleftrightarrow> finds f z"
  by (auto simp: finds_iff LOOKUP_ATTEMPTS_def numeral_2_eq_2 rbind_Inr_iff split: option.splits)

lemma finds_map_err [simp]: "finds (\<lambda>i. map_err g (f i)) z \<longleftrightarrow> finds f z"
  by (simp add: finds_def map_err_Inr_iff)

lemma find_header_Some:
  "find_header G s h = Inr (Some z) \<longleftrightarrow> finds (\<lambda>i. gix_try_find_header (repo G) s i h) z"
proof -
  let ?f = "\<lambda>i. map_err (\<lambda>_. Backend ''reading object header'') (gix_try_find_header (repo G) s i h)"
  have "find_header G s h = Inr (Some z) \<longleftrightarrow>
      (\<exists>r. retry (LOOKUP_ATTEMPTS - 1) 0 ?f = Inr r \<and> (case r of Some x \<Rightarrow> x = z | None \<Rightarrow> ?f (LOOKUP_ATTEMPTS - 1) = Inr (Some z)))"
    unfolding find_header_def Let_def rbind_Inr_iff by (intro ex_cong1 conj_cong refl) (simp split: option.split)
  also have "\<dots> \<longleftrightarrow> finds ?f z" by (rule retried)
  finally show ?thesis by simp
qed

lemma find_object_settled_Inr:
  "find_object_settled G s h ctx = Inr z \<longleftrightarrow> finds (\<lambda>i. gix_try_find_object (repo G) s i h) z"
proof -
  let ?f = "\<lambda>i. map_err (\<lambda>_. Backend ctx) (gix_try_find_object (repo G) s i h)"
  have "rbind m (ok_or e) = Inr z \<longleftrightarrow> m = Inr (Some z)" for m :: "store_error + (git_kind \<times> bytes) option" and e
    by (auto simp: rbind_Inr_iff)
  then have "find_object_settled G s h ctx = Inr z \<longleftrightarrow>
      (\<exists>r. retry (LOOKUP_ATTEMPTS - 1) 0 ?f = Inr r \<and> (case r of Some x \<Rightarrow> x = z | None \<Rightarrow> ?f (LOOKUP_ATTEMPTS - 1) = Inr (Some z)))"
    unfolding find_object_settled_def Let_def rbind_Inr_iff [of "retry _ _ _"] by (intro ex_cong1 conj_cong refl) (simp split: option.split)
  also have "\<dots> \<longleftrightarrow> finds ?f z" by (rule retried)
  finally show ?thesis by simp
qed

lemma git_get_Some:
  "git_get G s h = Inr (Some d) \<longleftrightarrow>
     (\<exists>size k. finds (\<lambda>i. gix_try_find_header (repo G) s i h) (Blob, size) \<and>
        size \<le> max_chunk_size G \<and> finds (\<lambda>i. gix_try_find_object (repo G) s i h) (k, d))"
proof -
  have "git_get G s h = Inr (Some d) \<longleftrightarrow> (\<exists>header. find_header G s h = Inr (Some header) \<and>
      read_object_checked G s h header Blob ''blob'' = Inr d)"
    by (auto simp: git_get_def rbind_Inr_iff split: option.splits)
  then show ?thesis
    by (auto simp: find_header_Some read_object_checked_def rbind_Inr_iff find_object_settled_Inr not_less split: if_splits)
qed

lemma git_put_Inr:
  "git_put G s d = Inr (h, s') \<longleftrightarrow>
     of_nat (length d) \<le> max_chunk_size G \<and> gix_write_blob (repo G) s d = Inr (h, s')"
  by (auto simp: git_put_def write_blob_capped_def Let_def not_less)

text \<open>The git backend keeps the contract of the trait, whatever repository it is opened on.\<close>

sublocale gix_odb < git: chunk_store "git_store_ops \<lparr>repo = R, max_chunk_size = cap\<rparr>" addr for cap
  by unfold_locales (auto simp: git_store_ops_def git_put_Inr git_get_Some
      dest: write_addr write_find write_keeps)

context gix_odb
begin

lemma git_contract: "chunk_store (git_store_ops \<lparr>repo = R, max_chunk_size = cap\<rparr>) addr"
  by (rule git.chunk_store_axioms)

end

section \<open>An object database in memory\<close>

text \<open>A repository whose objects are a map from ids to blobs. Writing a blob whose id already
  names other content fails, so the contract holds for every digest; \<open>mem_digest\<close> is a digest
  that can be evaluated.\<close>

type_synonym mem_objects = "(hash \<times> bytes) list"

definition mem_bytes :: "bytes \<Rightarrow> bytes" where
  "mem_bytes d = take 20 ((sum_list d + of_nat (length d)) # take 1 d @ rev d @ replicate 20 0)"

definition mem_digest :: "bytes \<Rightarrow> hash" where
  "mem_digest d = Hash (mem_bytes d)"

lemma length_mem_bytes [simp]: "length (mem_bytes d) = 20"
  by (simp add: mem_bytes_def)

definition mem_write :: "(bytes \<Rightarrow> hash) \<Rightarrow> mem_objects \<Rightarrow> bytes \<Rightarrow> unit + hash \<times> mem_objects" where
  "mem_write digest m d = (case map_of m (digest d) of
       None \<Rightarrow> Inr (digest d, (digest d, d) # m)
     | Some d' \<Rightarrow> if d' = d then Inr (digest d, m) else Inl ())"

definition mem_repo :: "(bytes \<Rightarrow> hash) \<Rightarrow> mem_objects gix_repo" where
  "mem_repo digest = \<lparr>gix_write_blob = mem_write digest,
     gix_try_find_header =
       (\<lambda>m _ h. Inr (map_option (\<lambda>d. (Blob, of_nat (length d))) (map_of m h))),
     gix_try_find_object = (\<lambda>m _ h. Inr (map_option (\<lambda>d. (Blob, d)) (map_of m h)))\<rparr>"

interpretation mem: gix_odb "mem_repo digest" digest for digest
  by unfold_locales (auto simp: mem_repo_def mem_write_def finds_iff split: option.splits if_splits)

definition mem_store :: "u64 \<Rightarrow> mem_objects store_ops" where
  "mem_store cap = git_store_ops \<lparr>repo = mem_repo mem_digest, max_chunk_size = cap\<rparr>"

lemma mem_chunk_store: "chunk_store (mem_store cap) mem_digest"
  unfolding mem_store_def by (rule mem.git_contract)

lemma mem_store_put [eval_simps]:
  "st_put (mem_store cap) m d =
     (if cap < of_nat (length d) then Inl (ObjectTooLarge (of_nat (length d)) cap)
      else case map_of m (mem_digest d) of
          None \<Rightarrow> Inr (mem_digest d, (mem_digest d, d) # m)
        | Some d' \<Rightarrow> if d' = d then Inr (mem_digest d, m) else Inl (Backend ''writing chunk''))"
  by (auto simp: mem_store_def git_store_ops_def git_put_def write_blob_capped_def mem_repo_def
      mem_write_def Let_def split: option.splits)

lemma mem_store_get [eval_simps]:
  "st_get (mem_store cap) m h = (case map_of m h of
       None \<Rightarrow> Inr None
     | Some d \<Rightarrow> if cap < of_nat (length d) then Inl (ObjectTooLarge (of_nat (length d)) cap)
                 else Inr (Some d))"
  by (auto simp: mem_store_def git_store_ops_def git_get_def find_header_def mem_repo_def Let_def LOOKUP_ATTEMPTS_def numeral_2_eq_2
      read_object_checked_def find_object_settled_def split: option.splits)

lemma mem_digest_eq [eval_simps]: "mem_digest a = mem_digest b \<longleftrightarrow> mem_bytes a = mem_bytes b"
  by (simp add: mem_digest_def Hash_inject)

lemma as_bytes_mem_digest [eval_simps]: "as_bytes (mem_digest d) = mem_bytes d"
  by (simp add: mem_digest_def)

lemma Hash_mem_digest: "as_bytes h = mem_bytes d \<longleftrightarrow> h = mem_digest d"
  by (metis as_bytes_inject as_bytes_mem_digest)

declare mem_bytes_def [eval_simps]

section \<open>Properties\<close>

text \<open>C22. The git backend implements the \<^verbatim>\<open>ChunkStore\<close> contract: over any object database
  that keeps what it is given, a chunk that \<^verbatim>\<open>put\<close> accepted is returned by \<^verbatim>\<open>get\<close> with the
  address a function of its bytes, and chunks already there stay.\<close>

theorem git_store_put_get:
  assumes "gix_odb R addr"
    and "st_put (git_store_ops \<lparr>repo = R, max_chunk_size = cap\<rparr>) s d = Inr (h, s')"
  shows "h = addr d \<and>
    st_get (git_store_ops \<lparr>repo = R, max_chunk_size = cap\<rparr>) s' h = Inr (Some d) \<and>
    (\<forall>k x. st_get (git_store_ops \<lparr>repo = R, max_chunk_size = cap\<rparr>) s k = Inr (Some x) \<longrightarrow>
       st_get (git_store_ops \<lparr>repo = R, max_chunk_size = cap\<rparr>) s' k = Inr (Some x))"
proof -
  have C: "chunk_store (git_store_ops \<lparr>repo = R, max_chunk_size = cap\<rparr>) addr"
    using assms(1) by (rule gix_odb.git_contract)
  show ?thesis
    using assms(2) chunk_store.put_addr [OF C] chunk_store.put_get [OF C]
      chunk_store.put_keeps [OF C] by blast
qed

theorem git_store_put_get_witness:
  "st_get (mem_store 10) [(mem_digest [7], [7])] (mem_digest [7]) = Inr (Some [7])"
proof -
  have p: "st_put (git_store_ops \<lparr>repo = mem_repo mem_digest, max_chunk_size = 10\<rparr>) [] [7] =
      Inr (mem_digest [7], [(mem_digest [7], [7])])"
    using mem_store_put [of 10 "[]" "[7]"] by (simp add: mem_store_def)
  show ?thesis
    using git_store_put_get [OF mem.gix_odb_axioms p] by (simp add: mem_store_def)
qed

end
