(* ===== verification/Prolly_Chunker.thy ===== *)
theory Prolly_Chunker
  imports Store
begin

text \<open>
  Content-defined chunking, \<^verbatim>\<open>crates/acetone-prolly/src/chunker.rs\<close>, with the error type of
  \<^verbatim>\<open>error.rs\<close> and the format constants and \<^verbatim>\<open>Root\<close> of \<^verbatim>\<open>lib.rs\<close>. The chunker's state is reset at
  every cut, so that a chunk boundary depends on the chunk's own entries only.
\<close>

section \<open>Errors, limits and roots\<close>

text \<open>\<open>Unreachable\<close> stands for the source's \<^verbatim>\<open>unreachable!\<close> branches.\<close>

datatype prolly_error =
    PStore store_error
  | MissingChunk hash
  | Corrupt string string
  | InvalidParams string
  | InvalidRoot string
  | KeyTooLong nat nat
  | ValueTooLong nat nat
  | TooManyEntries
  | ParamsMismatch
  | Unreachable

definition MAX_HEIGHT :: nat where "MAX_HEIGHT = 64"
definition MAX_KEY_LEN :: nat where "MAX_KEY_LEN = 2 ^ 32 - 1"
definition MAX_VALUE_LEN :: nat where "MAX_VALUE_LEN = 2 ^ 32 - 1"
definition MAX_CHUNK_MAX_BYTES :: u32 where "MAX_CHUNK_MAX_BYTES = push_bit 20 1"

record chunk_params =
  min_bytes :: u32
  mask_bits :: u32
  max_bytes :: u32

definition default_chunk_params :: chunk_params where
  "default_chunk_params = \<lparr>min_bytes = 1024, mask_bits = 12, max_bytes = 16384\<rparr>"

definition chunk_params_new :: "u32 \<Rightarrow> u32 \<Rightarrow> u32 \<Rightarrow> prolly_error + chunk_params" where
  "chunk_params_new min_b mask_b max_b =
     (if min_b = 0 then Inl (InvalidParams ''min_bytes must be at least 1'')
      else if max_b < min_b then Inl (InvalidParams ''min_bytes exceeds max_bytes'')
      else if MAX_CHUNK_MAX_BYTES < max_b
      then Inl (InvalidParams ''max_bytes exceeds the format maximum'')
      else if 64 \<le> mask_b then Inl (InvalidParams ''mask_bits must be below 64'')
      else Inr \<lparr>min_bytes = min_b, mask_bits = mask_b, max_bytes = max_b\<rparr>)"

definition valid_params :: "chunk_params \<Rightarrow> bool" where
  "valid_params p \<longleftrightarrow> 0 < min_bytes p \<and> min_bytes p \<le> max_bytes p \<and>
     max_bytes p \<le> MAX_CHUNK_MAX_BYTES \<and> mask_bits p < 64"

definition params_mask :: "chunk_params \<Rightarrow> u64" where
  "params_mask p = push_bit (unat (mask_bits p)) 1 - 1"

record root =
  root_hash :: hash
  root_height :: nat
  root_params :: chunk_params

definition root_new :: "hash \<Rightarrow> nat \<Rightarrow> chunk_params \<Rightarrow> prolly_error + root" where
  "root_new h height params =
     (if height = 0 \<or> MAX_HEIGHT < height then Inl (InvalidRoot ''height outside 1..=64'')
      else Inr \<lparr>root_hash = h, root_height = height, root_params = params\<rparr>)"

definition top_level :: "root \<Rightarrow> nat" where
  "top_level r = root_height r - 1"

datatype batch_op = Put bytes bytes | Delete bytes

fun op_key :: "batch_op \<Rightarrow> bytes" where
  "op_key (Put k v) = k"
| "op_key (Delete k) = k"

section \<open>The gear hash\<close>

definition splitmix64 :: "u64 \<Rightarrow> u64" where
  "splitmix64 state =
     (let z = state;
          z = (z XOR drop_bit 30 z) * 0xbf58476d1ce4e5b9;
          z = (z XOR drop_bit 27 z) * 0x94d049bb133111eb
      in z XOR drop_bit 31 z)"

fun gear_slots :: "nat \<Rightarrow> u64 \<Rightarrow> u64 list" where
  "gear_slots 0 state = []"
| "gear_slots (Suc n) state =
     (let state = state + 0x9e3779b97f4a7c15 in splitmix64 state # gear_slots n state)"

definition GEAR :: "u64 list" where
  "GEAR = gear_slots 256 0x9ae16a3b2f90404f"

lemma length_GEAR: "length GEAR = 256"
proof -
  have "length (gear_slots n s) = n" for n s by (induction n arbitrary: s) (simp_all add: Let_def)
  then show ?thesis by (simp add: GEAR_def)
qed

section \<open>The chunker\<close>

record chunker =
  ch_params :: chunk_params
  ch_hash :: u64
  ch_len :: u64
  ch_entries :: u64

definition chunker_new :: "chunk_params \<Rightarrow> chunker" where
  "chunker_new p = \<lparr>ch_params = p, ch_hash = 0, ch_len = 0, ch_entries = 0\<rparr>"

definition feed_entry :: "chunker \<Rightarrow> bytes \<Rightarrow> chunker \<times> bool" where
  "feed_entry c bs =
     (let c = c\<lparr>ch_hash := foldl (\<lambda>h b. push_bit 1 h + GEAR ! unat b) (ch_hash c) bs\<rparr>;
          c = c\<lparr>ch_len := ch_len c + of_nat (length bs)\<rparr>;
          c = c\<lparr>ch_entries := ch_entries c + 1\<rparr>
      in (c, if ch_entries c < 2 then False
             else if ucast (max_bytes (ch_params c)) \<le> ch_len c then True
             else ucast (min_bytes (ch_params c)) \<le> ch_len c \<and>
                  ch_hash c AND params_mask (ch_params c) < of_nat (length bs)))"

definition chunker_reset :: "chunker \<Rightarrow> chunker" where
  "chunker_reset c = c\<lparr>ch_hash := 0, ch_len := 0, ch_entries := 0\<rparr>"

text \<open>The state after any run of entries, and the decision on the last one.\<close>

definition feed_all :: "chunk_params \<Rightarrow> bytes list \<Rightarrow> chunker" where
  "feed_all p es = foldl (\<lambda>c e. fst (feed_entry c e)) (chunker_new p) es"

definition cut_after :: "chunk_params \<Rightarrow> bytes list \<Rightarrow> bytes \<Rightarrow> bool" where
  "cut_after p es e = snd (feed_entry (feed_all p es) e)"

lemma feed_all_simps [simp]:
  "feed_all p [] = chunker_new p"
  "feed_all p (es @ [e]) = fst (feed_entry (feed_all p es) e)"
  by (simp_all add: feed_all_def)

lemma ch_params_feed_all [simp]: "ch_params (feed_all p es) = p"
  by (induction es rule: rev_induct) (auto simp: chunker_new_def feed_entry_def Let_def)

lemma reset_feed_all [simp]: "chunker_reset (feed_all p es) = chunker_new p"
proof -
  have "chunker_reset c = chunker_new (ch_params c)" for c
    by (cases c) (simp add: chunker_reset_def chunker_new_def)
  then show ?thesis by simp
qed

lemma ch_entries_feed_all: "ch_entries (feed_all p es) = of_nat (length es)"
  by (induction es rule: rev_induct) (auto simp: chunker_new_def feed_entry_def Let_def)

lemma not_cut_first: "\<not> cut_after p [] e"
  by (simp add: cut_after_def feed_entry_def chunker_new_def Let_def)

lemma chunk_params_new_valid:
  "chunk_params_new a b c = Inr p \<longleftrightarrow>
     valid_params p \<and> min_bytes p = a \<and> mask_bits p = b \<and> max_bytes p = c"
  by (auto simp: chunk_params_new_def valid_params_def not_le not_less word_gt_0)

end
