(* ===== verification/Prolly_Node.thy ===== *)
theory Prolly_Node
  imports Prolly_Chunker
begin

text \<open>
  The node format of \<^verbatim>\<open>crates/acetone-prolly/src/node.rs\<close>: entries framed by their lengths under a
  level tag and a count. The decoder validates the level, strict key order and the framing;
  the theorems say that it inverts the encoding and accepts nothing else.
\<close>

section \<open>Nodes\<close>

definition NODE_HEADER_LEN :: nat where "NODE_HEADER_LEN = 5"

record node_ref =
  last_key :: bytes
  ref_hash :: hash

datatype node = Leaf "(bytes \<times> bytes) list" | Inner "node_ref list"

text \<open>\<^verbatim>\<open>slice::last\<close> and \<^verbatim>\<open>slice::first\<close>.\<close>

definition last_opt :: "'a list \<Rightarrow> 'a option" where
  "last_opt xs = (if xs = [] then None else Some (last xs))"

definition first_opt :: "'a list \<Rightarrow> 'a option" where
  "first_opt xs = (if xs = [] then None else Some (hd xs))"

fun node_last_key :: "node \<Rightarrow> bytes option" where
  "node_last_key (Leaf es) = map_option fst (last_opt es)"
| "node_last_key (Inner rs) = map_option last_key (last_opt rs)"

fun node_first_key :: "node \<Rightarrow> bytes option" where
  "node_first_key (Leaf es) = map_option fst (first_opt es)"
| "node_first_key (Inner rs) = map_option last_key (first_opt rs)"

abbreviation (input) corrupt :: "string \<Rightarrow> prolly_error" where
  "corrupt reason \<equiv> Corrupt ''tree node'' reason"

section \<open>Decoding\<close>

text \<open>The cursor is the unread suffix of the chunk.\<close>

definition take_bytes :: "nat \<Rightarrow> bytes \<Rightarrow> prolly_error + bytes \<times> bytes" where
  "take_bytes n r =
     (if length r < n then Inl (corrupt ''truncated node'') else Inr (take n r, drop n r))"

definition take_u8 :: "bytes \<Rightarrow> prolly_error + u8 \<times> bytes" where
  "take_u8 r = rbind (take_bytes 1 r) (\<lambda>(b, r). Inr (b ! 0, r))"

definition take_u32 :: "bytes \<Rightarrow> prolly_error + u32 \<times> bytes" where
  "take_u32 r = rbind (take_bytes 4 r) (\<lambda>(b, r). Inr (u32_of_be b, r))"

fun read_leaf_entries ::
  "nat \<Rightarrow> (bytes \<times> bytes) list \<Rightarrow> bytes \<Rightarrow> prolly_error + (bytes \<times> bytes) list \<times> bytes" where
  "read_leaf_entries 0 entries r = Inr (entries, r)"
| "read_leaf_entries (Suc n) entries r =
     rbind (take_u32 r) (\<lambda>(klen, r).
     rbind (take_bytes (unat klen) r) (\<lambda>(key, r).
     rbind (take_u32 r) (\<lambda>(vlen, r).
     rbind (take_bytes (unat vlen) r) (\<lambda>(val, r).
       if (case last_opt entries of Some (prev, _) \<Rightarrow> key \<le> prev | None \<Rightarrow> False)
       then Inl (corrupt ''leaf keys not strictly ascending'')
       else read_leaf_entries n (entries @ [(key, val)]) r))))"

fun read_inner_entries ::
  "nat \<Rightarrow> node_ref list \<Rightarrow> bytes \<Rightarrow> prolly_error + node_ref list \<times> bytes" where
  "read_inner_entries 0 refs r = Inr (refs, r)"
| "read_inner_entries (Suc n) refs r =
     rbind (take_u32 r) (\<lambda>(klen, r).
     rbind (take_bytes (unat klen) r) (\<lambda>(key, r).
     rbind (take_u8 r) (\<lambda>(hlen, r).
     rbind (take_bytes (unat hlen) r) (\<lambda>(hash_bytes, r).
     rbind (map_err (\<lambda>_. corrupt ''bad child hash'') (hash_from_bytes hash_bytes)) (\<lambda>h.
       if (case last_opt refs of Some prev \<Rightarrow> key \<le> last_key prev | None \<Rightarrow> False)
       then Inl (corrupt ''inner keys not strictly ascending'')
       else read_inner_entries n (refs @ [\<lparr>last_key = key, ref_hash = h\<rparr>]) r)))))"

definition decode_node :: "bytes \<Rightarrow> u8 \<Rightarrow> prolly_error + node" where
  "decode_node data expect_level =
     rbind (take_u8 data) (\<lambda>(level, r).
       if level \<noteq> expect_level then Inl (corrupt ''level tag'')
       else rbind (take_u32 r) (\<lambda>(count, r).
         rbind (if level = 0
                then rbind (read_leaf_entries (unat count) [] r) (\<lambda>(es, r). Inr (Leaf es, r))
                else if count = 0 then Inl (corrupt ''empty inner node'')
                else rbind (read_inner_entries (unat count) [] r) (\<lambda>(rs, r). Inr (Inner rs, r)))
           (\<lambda>(node, r).
             if r \<noteq> [] then Inl (corrupt ''trailing bytes after declared entries'')
             else Inr node)))"

definition decode_node_self :: "bytes \<Rightarrow> prolly_error + u8 \<times> node" where
  "decode_node_self data =
     rbind (ok_or (corrupt ''empty chunk'') (first_opt data)) (\<lambda>level.
     rbind (decode_node data level) (\<lambda>node. Inr (level, node)))"

definition read_node ::
  "'s store_ops \<Rightarrow> 's \<Rightarrow> hash \<Rightarrow> nat \<Rightarrow> bytes option \<Rightarrow> bytes option \<Rightarrow> prolly_error + node" where
  "read_node S s h expect_level expect_last_key min_key_exclusive =
     rbind (map_err PStore (st_get S s h)) (\<lambda>found.
     rbind (ok_or (MissingChunk h) found) (\<lambda>data.
     rbind (decode_node data (of_nat expect_level)) (\<lambda>node.
       if (case expect_last_key of None \<Rightarrow> False | Some want \<Rightarrow> node_last_key node \<noteq> Some want)
       then Inl (corrupt ''chunk does not end at the key its parent declares'')
       else if (case (min_key_exclusive, node_first_key node) of
             (Some m, Some first) \<Rightarrow> first \<le> m | _ \<Rightarrow> False)
       then Inl (corrupt ''chunk contains keys below its position in the tree'')
       else Inr node)))"

section \<open>Encoding\<close>

definition encode_leaf_entry :: "bytes \<Rightarrow> bytes \<Rightarrow> bytes \<Rightarrow> prolly_error + bytes" where
  "encode_leaf_entry key val out =
     (if 2 ^ 32 \<le> length key then Inl (KeyTooLong (length key) MAX_KEY_LEN)
      else if 2 ^ 32 \<le> length val then Inl (ValueTooLong (length val) MAX_VALUE_LEN)
      else Inr (out @ be_u32 (of_nat (length key)) @ key @ be_u32 (of_nat (length val)) @ val))"

definition encode_inner_entry :: "bytes \<Rightarrow> hash \<Rightarrow> bytes \<Rightarrow> prolly_error + bytes" where
  "encode_inner_entry key h out =
     (if 2 ^ 32 \<le> length key then Inl (KeyTooLong (length key) MAX_KEY_LEN)
      else let digest = as_bytes h
        in if 2 ^ 8 \<le> length digest
           then Inl (corrupt ''digest width exceeds the u8 length frame'')
           else Inr (out @ be_u32 (of_nat (length key)) @ key @ [of_nat (length digest)] @ digest))"

datatype entry = LeafEntry bytes bytes | InnerEntry bytes hash

fun entry_key :: "entry \<Rightarrow> bytes" where
  "entry_key (LeafEntry k v) = k"
| "entry_key (InnerEntry k h) = k"

fun node_entries :: "node \<Rightarrow> entry list" where
  "node_entries (Leaf es) = map (\<lambda>(k, v). LeafEntry k v) es"
| "node_entries (Inner rs) = map (\<lambda>r. InnerEntry (last_key r) (ref_hash r)) rs"


section \<open>The node format\<close>

text \<open>The bytes of an entry and of a node, and the entry lists that are nodes of a level.\<close>

fun entry_bytes :: "entry \<Rightarrow> bytes" where
  "entry_bytes (LeafEntry k v) = be_u32 (of_nat (length k)) @ k @ be_u32 (of_nat (length v)) @ v"
| "entry_bytes (InnerEntry k h) =
     be_u32 (of_nat (length k)) @ k @ [of_nat (length (as_bytes h))] @ as_bytes h"

fun entry_at :: "nat \<Rightarrow> entry \<Rightarrow> bool" where
  "entry_at l (LeafEntry k v) \<longleftrightarrow> l = 0 \<and> length k < 2 ^ 32 \<and> length v < 2 ^ 32"
| "entry_at l (InnerEntry k h) \<longleftrightarrow> 0 < l \<and> length k < 2 ^ 32"

definition node_bytes :: "nat \<Rightarrow> entry list \<Rightarrow> bytes" where
  "node_bytes l es = of_nat l # be_u32 (of_nat (length es)) @ concat (map entry_bytes es)"

definition wf_entries :: "nat \<Rightarrow> entry list \<Rightarrow> bool" where
  "wf_entries l es \<longleftrightarrow> list_all (entry_at l) es \<and> sorted_wrt (<) (map entry_key es) \<and>
     length es < 2 ^ 32 \<and> (0 < l \<longrightarrow> es \<noteq> [])"

fun entry_pair :: "entry \<Rightarrow> bytes \<times> bytes" where
  "entry_pair (LeafEntry k v) = (k, v)"
| "entry_pair (InnerEntry k h) = (k, [])"

fun entry_ref :: "entry \<Rightarrow> node_ref" where
  "entry_ref (InnerEntry k h) = \<lparr>last_key = k, ref_hash = h\<rparr>"
| "entry_ref (LeafEntry k v) = \<lparr>last_key = k, ref_hash = Hash (replicate 20 0)\<rparr>"

definition node_of :: "nat \<Rightarrow> entry list \<Rightarrow> node" where
  "node_of l es = (if l = 0 then Leaf (map entry_pair es) else Inner (map entry_ref es))"

lemma encode_entry_Inr:
  "encode_leaf_entry k v out = Inr x \<longleftrightarrow>
     entry_at 0 (LeafEntry k v) \<and> x = out @ entry_bytes (LeafEntry k v)"
  "encode_inner_entry k h out = Inr x \<longleftrightarrow>
     length k < 2 ^ 32 \<and> x = out @ entry_bytes (InnerEntry k h)"
  using length_as_bytes [of h]
  by (auto simp: encode_leaf_entry_def encode_inner_entry_def Let_def not_le)

lemma sorted_snoc_last:
  "sorted_wrt (<) (xs @ [x :: 'a :: linorder]) \<longleftrightarrow>
     sorted_wrt (<) xs \<and> (case last_opt xs of None \<Rightarrow> True | Some y \<Rightarrow> y < x)"
proof (cases xs rule: rev_cases)
  case (snoc ys y)
  then show ?thesis by (auto simp: sorted_wrt_append last_opt_def)
qed (simp add: last_opt_def)

lemma last_opt_map: "last_opt (map f xs) = map_option f (last_opt xs)"
  by (simp add: last_opt_def last_map)

lemma take_bytes_append [simp]: "length a = n \<Longrightarrow> take_bytes n (a @ r) = Inr (a, r)"
  by (simp add: take_bytes_def)

lemma take_bytes_Inr: "take_bytes n r = Inr (a, r') \<longleftrightarrow> r = a @ r' \<and> length a = n"
  by (auto simp: take_bytes_def)

lemma take_u32_append [simp]: "take_u32 (be_u32 w @ r) = Inr (w, r)"
  by (simp add: take_u32_def)

lemma take_u32_Inr: "take_u32 r = Inr (w, r') \<longleftrightarrow> r = be_u32 w @ r'"
  by (auto simp: take_u32_def rbind_Inr_iff take_bytes_Inr)

lemma take_u8_Cons [simp]: "take_u8 (b # r) = Inr (b, r)"
  by (simp add: take_u8_def take_bytes_def)

lemma take_u8_Inr: "take_u8 r = Inr (b, r') \<longleftrightarrow> r = b # r'"
  by (cases r) (auto simp: take_u8_def take_bytes_def)

lemma unat_length_u32: "length k < 2 ^ 32 \<Longrightarrow> unat (of_nat (length k) :: u32) = length k"
  by (simp add: unat_of_nat)

lemma unat_length_digest: "unat (of_nat (length (as_bytes h)) :: u8) = length (as_bytes h)"
  using length_as_bytes [of h] by auto

lemma entry_key_of [simp]: "fst (entry_pair e) = entry_key e" "last_key (entry_ref e) = entry_key e"
  by (cases e; simp)+

lemma read_leaf_entries_write:
  "list_all (entry_at 0) es \<Longrightarrow> sorted_wrt (<) (map fst acc @ map entry_key es) \<Longrightarrow>
     read_leaf_entries (length es) acc (concat (map entry_bytes es) @ r) =
       Inr (acc @ map entry_pair es, r)"
proof (induction es arbitrary: acc)
  case (Cons e es)
  then obtain k v where e: "e = LeafEntry k v" by (cases e) auto
  have "sorted_wrt (<) (map fst acc @ [k])"
    using Cons.prems(2) by (auto simp: e sorted_wrt_append)
  then have "\<not> (case last_opt acc of Some (prev, _) \<Rightarrow> k \<le> prev | None \<Rightarrow> False)"
    by (auto simp: sorted_snoc_last last_opt_map split: option.splits)
  then show ?case using Cons.prems Cons.IH [of "acc @ [(k, v)]"]
    by (simp add: e unat_length_u32)
qed simp

lemma read_inner_entries_write:
  "list_all (entry_at l) es \<Longrightarrow> 0 < l \<Longrightarrow> sorted_wrt (<) (map last_key acc @ map entry_key es) \<Longrightarrow>
     read_inner_entries (length es) acc (concat (map entry_bytes es) @ r) =
       Inr (acc @ map entry_ref es, r)"
proof (induction es arbitrary: acc)
  case (Cons e es)
  then obtain k h where e: "e = InnerEntry k h" by (cases e) auto
  have "sorted_wrt (<) (map last_key acc @ [k])"
    using Cons.prems(3) by (auto simp: e sorted_wrt_append)
  then have "\<not> (case last_opt acc of Some prev \<Rightarrow> k \<le> last_key prev | None \<Rightarrow> False)"
    by (auto simp: sorted_snoc_last last_opt_map split: option.splits)
  then show ?case using Cons.prems Cons.IH [of "acc @ [\<lparr>last_key = k, ref_hash = h\<rparr>]"]
    by (simp add: e unat_length_u32 unat_length_digest)
qed simp

lemma node_entries_of: "list_all (entry_at l) es \<Longrightarrow> node_entries (node_of l es) = es"
proof -
  have "list_all (entry_at l) es \<Longrightarrow> l = 0 \<Longrightarrow>
      map (\<lambda>(k, v). LeafEntry k v) (map entry_pair es) = es"
    by (induction es) (auto elim!: entry_at.elims)
  moreover have "list_all (entry_at l) es \<Longrightarrow> 0 < l \<Longrightarrow>
      map (\<lambda>x. InnerEntry (last_key x) (ref_hash x)) (map entry_ref es) = es"
    by (induction es) (auto elim!: entry_at.elims)
  ultimately show "list_all (entry_at l) es \<Longrightarrow> node_entries (node_of l es) = es"
    by (auto simp: node_of_def)
qed

lemma decode_node_bytes:
  assumes "wf_entries l es" "l < 256"
  shows "decode_node (node_bytes l es) (of_nat l) = Inr (node_of l es)"
proof (cases "l = 0")
  case True
  with assms show ?thesis
    using read_leaf_entries_write [of es "[]" "[]"]
    by (simp add: wf_entries_def decode_node_def node_bytes_def node_of_def unat_length_u32)
next
  case False
  have "(of_nat l :: u8) \<noteq> 0" "(of_nat (length es) :: u32) \<noteq> 0"
    using False assms by (auto simp: wf_entries_def word_unat_eq_iff unat_of_nat)
  with False assms show ?thesis
    using read_inner_entries_write [of l es "[]" "[]"]
    by (simp add: wf_entries_def decode_node_def node_bytes_def node_of_def unat_length_u32)
qed

lemma read_leaf_entries_strict:
  "read_leaf_entries n acc r = Inr (es, r') \<Longrightarrow> sorted_wrt (<) (map fst acc) \<Longrightarrow>
     \<exists>ys. es = acc @ map entry_pair ys \<and> length ys = n \<and> r = concat (map entry_bytes ys) @ r' \<and>
       list_all (entry_at 0) ys \<and> sorted_wrt (<) (map fst es)"
proof (induction n acc r rule: read_leaf_entries.induct)
  case (2 n acc r)
  from "2.prems" obtain kl r1 k r2 vl r3 v r4 where t: "take_u32 r = Inr (kl, r1)"
    "take_bytes (unat kl) r1 = Inr (k, r2)" "take_u32 r2 = Inr (vl, r3)"
    "take_bytes (unat vl) r3 = Inr (v, r4)"
    "\<not> (case last_opt acc of Some (prev, _) \<Rightarrow> k \<le> prev | None \<Rightarrow> False)"
    and rest: "read_leaf_entries n (acc @ [(k, v)]) r4 = Inr (es, r')"
    by (auto simp: rbind_Inr_iff split: if_splits)
  have "sorted_wrt (<) (map fst (acc @ [(k, v)]))"
    using "2.prems"(2) t(5)
    by (simp add: sorted_snoc_last last_opt_map not_le split: option.splits prod.splits)
  from "2.IH" [OF t(1) refl t(2) refl t(3) refl t(4) refl t(5) rest this] obtain ys where
    "es = (acc @ [(k, v)]) @ map entry_pair ys" "length ys = n"
    "r4 = concat (map entry_bytes ys) @ r'" "list_all (entry_at 0) ys" "sorted_wrt (<) (map fst es)"
    by blast
  moreover have "length k < 2 ^ 32" "length v < 2 ^ 32" "of_nat (length k) = kl" "of_nat (length v) = vl"
    using t(2,4) unat_bounds(3) [of kl] unat_bounds(3) [of vl] by (auto simp: take_bytes_Inr)
  ultimately show ?case using t(1-4)
    by (intro exI [of _ "LeafEntry k v # ys"]) (auto simp: take_u32_Inr take_bytes_Inr)
qed auto

lemma read_inner_entries_strict:
  "read_inner_entries n acc r = Inr (es, r') \<Longrightarrow> sorted_wrt (<) (map last_key acc) \<Longrightarrow> 0 < l \<Longrightarrow>
     \<exists>ys. es = acc @ map entry_ref ys \<and> length ys = n \<and> r = concat (map entry_bytes ys) @ r' \<and>
       list_all (entry_at l) ys \<and> sorted_wrt (<) (map last_key es)"
proof (induction n acc r rule: read_inner_entries.induct)
  case (2 n acc r)
  from "2.prems" obtain kl r1 k r2 hl r3 hb r4 h where t: "take_u32 r = Inr (kl, r1)"
    "take_bytes (unat kl) r1 = Inr (k, r2)" "take_u8 r2 = Inr (hl, r3)"
    "take_bytes (unat hl) r3 = Inr (hb, r4)" "hash_from_bytes hb = Inr h"
    "\<not> (case last_opt acc of Some prev \<Rightarrow> k \<le> last_key prev | None \<Rightarrow> False)"
    and rest: "read_inner_entries n (acc @ [\<lparr>last_key = k, ref_hash = h\<rparr>]) r4 = Inr (es, r')"
    by (auto simp: rbind_Inr_iff split: if_splits)
  have "sorted_wrt (<) (map last_key (acc @ [\<lparr>last_key = k, ref_hash = h\<rparr>]))"
    using "2.prems"(2) t(6) by (simp add: sorted_snoc_last last_opt_map not_le split: option.splits)
  from "2.IH" [OF t(1) refl t(2) refl t(3) refl t(4) refl _ t(6) rest this] t(5) "2.prems"(3)
  obtain ys where
    "es = (acc @ [\<lparr>last_key = k, ref_hash = h\<rparr>]) @ map entry_ref ys" "length ys = n"
    "r4 = concat (map entry_bytes ys) @ r'" "list_all (entry_at l) ys"
    "sorted_wrt (<) (map last_key es)"
    by auto
  moreover have "length k < 2 ^ 32" "of_nat (length k) = kl" "of_nat (length hb) = hl" "hb = as_bytes h"
    using t(2,4,5) unat_bounds(3) [of kl] by (auto simp: take_bytes_Inr hash_from_bytes_Inr)
  ultimately show ?case using t(1-4) "2.prems"(3)
    by (intro exI [of _ "InnerEntry k h # ys"]) (auto simp: take_u32_Inr take_u8_Inr take_bytes_Inr)
qed auto

lemma decode_node_Inr:
  assumes "decode_node data lv = Inr n"
  shows "\<exists>es. data = node_bytes (unat lv) es \<and> wf_entries (unat lv) es \<and> n = node_of (unat lv) es"
proof -
  from assms obtain r count r1 where h: "data = lv # r" "r = be_u32 count @ r1"
    by (auto simp: decode_node_def rbind_Inr_iff take_u8_Inr take_u32_Inr split: if_splits)
  show ?thesis
  proof (cases "lv = 0")
    case True
    with assms h obtain es where "read_leaf_entries (unat count) [] r1 = Inr (es, [])" "n = Leaf es"
      by (auto simp: decode_node_def rbind_Inr_iff split: if_splits)
    with read_leaf_entries_strict [of "unat count" "[]" r1 es "[]"] obtain ys where
      "es = map entry_pair ys" "length ys = unat count" "r1 = concat (map entry_bytes ys)"
      "list_all (entry_at 0) ys" "sorted_wrt (<) (map fst es)" by auto
    with h True \<open>n = Leaf es\<close> unat_bounds(3) [of count] show ?thesis
      by (intro exI [of _ ys]) (auto simp: node_bytes_def wf_entries_def node_of_def comp_def)
  next
    case False
    with assms h obtain es where "read_inner_entries (unat count) [] r1 = Inr (es, [])" "n = Inner es"
      "count \<noteq> 0"
      by (auto simp: decode_node_def rbind_Inr_iff split: if_splits)
    moreover from False have lv: "0 < unat lv" by (simp add: unat_gt_0)
    ultimately obtain ys where
      "es = map entry_ref ys" "length ys = unat count" "r1 = concat (map entry_bytes ys)"
      "list_all (entry_at (unat lv)) ys" "sorted_wrt (<) (map last_key es)"
      using read_inner_entries_strict [of "unat count" "[]" r1 es "[]" "unat lv"] by auto
    with h lv \<open>n = Inner es\<close> \<open>count \<noteq> 0\<close> unat_bounds(3) [of count] show ?thesis
      by (intro exI [of _ ys])
        (auto simp: node_bytes_def wf_entries_def node_of_def comp_def unat_eq_zero)
  qed
qed

lemma read_node_Inr:
  "read_node S s h l elk mke = Inr n \<longleftrightarrow>
     (\<exists>data. st_get S s h = Inr (Some data) \<and> decode_node data (of_nat l) = Inr n \<and>
        (\<forall>k. elk = Some k \<longrightarrow> node_last_key n = Some k) \<and>
        (\<forall>m f. mke = Some m \<longrightarrow> node_first_key n = Some f \<longrightarrow> m < f))"
proof -
  have l: "(case elk of None \<Rightarrow> False | Some want \<Rightarrow> node_last_key x \<noteq> Some want) \<longleftrightarrow>
      \<not> (\<forall>k. elk = Some k \<longrightarrow> node_last_key x = Some k)" for x
    by (cases elk) auto
  have f: "(case (mke, node_first_key x) of (Some m, Some first) \<Rightarrow> first \<le> m | _ \<Rightarrow> False) \<longleftrightarrow>
      \<not> (\<forall>m f. mke = Some m \<longrightarrow> node_first_key x = Some f \<longrightarrow> m < f)" for x
    by (cases mke; cases "node_first_key x") (auto simp: not_less)
  have d: "(if c then Inl e else m) = Inr n \<longleftrightarrow> \<not> c \<and> m = Inr n"
    for c :: bool and m and n :: node and e :: prolly_error by auto
  show ?thesis unfolding read_node_def l f rbind_Inr_iff d by auto
qed

lemma read_node_Inner: "read_node S s h l elk mke = Inr (Inner rs) \<Longrightarrow> 0 < l \<and> rs \<noteq> []"
  by (auto simp: read_node_Inr node_of_def wf_entries_def dest!: decode_node_Inr split: if_splits
      intro!: gr0I)

lemma read_node_Leaf: "read_node S s h l elk mke = Inr (Leaf es) \<Longrightarrow> l < 256 \<Longrightarrow> l = 0"
  by (auto simp: read_node_Inr node_of_def unat_of_nat dest!: decode_node_Inr split: if_splits)

section \<open>Properties\<close>

text \<open>C21. The node format, exactly: a chunk decodes at a level if and only if it is the encoding
  of a list of entries of that level with strictly ascending keys, lengths within their frames and,
  above the leaves, at least one entry; the decoded node is that list. In particular the encoding of
  such a list is read back, and no other chunk is accepted.\<close>

theorem decode_node_iff:
  "decode_node data lv = Inr n \<longleftrightarrow>
     (\<exists>es. wf_entries (unat lv) es \<and> data = node_bytes (unat lv) es \<and> n = node_of (unat lv) es)"
  using decode_node_Inr [of data lv n] decode_node_bytes [of "unat lv"] unat_bounds(1) [of lv] by auto

end
