(* ===== verification/Prolly_Tree.thy ===== *)
theory Prolly_Tree
  imports Prolly_Node "HOL-Library.Multiset"
begin

text \<open>
  Construction, lookup and batched mutation of prolly trees,
  \<^verbatim>\<open>crates/acetone-prolly/src/tree.rs\<close>: the level builder, the rebuild of a level from a stream of
  fresh entries and untouched nodes, the promotion of one level's chunks to the next level's
  entries, \<^verbatim>\<open>bulk_load\<close>, \<^verbatim>\<open>apply_batch\<close> and \<^verbatim>\<open>get\<close>. A function that writes takes the store
  state and returns the new one; an error drops it (chunks written before are unreferenced).
\<close>

section \<open>Streams\<close>

datatype item =
    Old node_ref bool
  | Subtree node_ref nat bool
  | Fresh "entry list" "hash option"

datatype out_item =
    OutChunk node_ref
  | OutSubtree node_ref nat bool

record opened_inner =
  opened_node :: node_ref
  opened_final :: bool
  opened_children :: "hash list"

section \<open>The level builder\<close>

record level_builder =
  lb_level :: nat
  lb_chunker :: chunker
  lb_buf :: bytes
  lb_count :: u32
  lb_last_key :: bytes
  lb_out :: "out_item list"
  lb_current_base :: "hash option"
  lb_recorder :: "(hash \<times> hash) list option"

definition lb_new :: "nat \<Rightarrow> chunk_params \<Rightarrow> (hash \<times> hash) list option \<Rightarrow> level_builder" where
  "lb_new level params recorder =
     \<lparr>lb_level = level, lb_chunker = chunker_new params, lb_buf = [], lb_count = 0,
      lb_last_key = [], lb_out = [], lb_current_base = None, lb_recorder = recorder\<rparr>"

definition at_boundary :: "level_builder \<Rightarrow> bool" where
  "at_boundary b \<longleftrightarrow> lb_count b = 0"

definition lb_emit ::
  "'s store_ops \<Rightarrow> 's \<Rightarrow> level_builder \<Rightarrow> prolly_error + level_builder \<times> 's" where
  "lb_emit S s b =
     (let chunk = [of_nat (lb_level b)] @ be_u32 (lb_count b) @ lb_buf b
      in rbind (map_err PStore (st_put S s chunk)) (\<lambda>(h, s).
           let b = (case (lb_recorder b, lb_current_base b) of
                 (Some rec, Some base) \<Rightarrow>
                   if base \<noteq> h then b\<lparr>lb_recorder := Some (rec @ [(h, base)])\<rparr> else b
               | _ \<Rightarrow> b);
               b = b\<lparr>lb_out := lb_out b @ [OutChunk \<lparr>last_key = lb_last_key b, ref_hash = h\<rparr>]\<rparr>;
               b = b\<lparr>lb_last_key := [], lb_buf := [], lb_count := 0,
                     lb_chunker := chunker_reset (lb_chunker b)\<rparr>
           in Inr (b, s)))"

definition lb_push ::
  "'s store_ops \<Rightarrow> 's \<Rightarrow> level_builder \<Rightarrow> entry \<Rightarrow> prolly_error + level_builder \<times> 's" where
  "lb_push S s b e =
     (let start = length (lb_buf b)
      in rbind (case e of
             LeafEntry key val \<Rightarrow> encode_leaf_entry key val (lb_buf b)
           | InnerEntry key h \<Rightarrow> encode_inner_entry key h (lb_buf b)) (\<lambda>buf.
         if lb_count b = - 1 then Inl TooManyEntries
         else let b = b\<lparr>lb_buf := buf, lb_count := lb_count b + 1, lb_last_key := entry_key e\<rparr>;
                  (c, cut) = feed_entry (lb_chunker b) (drop start buf);
                  b = b\<lparr>lb_chunker := c\<rparr>
              in if cut then lb_emit S s b else Inr (b, s)))"

fun lb_push_all ::
  "'s store_ops \<Rightarrow> 's \<Rightarrow> level_builder \<Rightarrow> entry list \<Rightarrow> prolly_error + level_builder \<times> 's" where
  "lb_push_all S s b [] = Inr (b, s)"
| "lb_push_all S s b (e # es) = rbind (lb_push S s b e) (\<lambda>(b, s). lb_push_all S s b es)"

section \<open>Chunking a level\<close>

text \<open>The children of an opened subtree, re-queued in order; only the last child of a final
  subtree is final.\<close>

fun child_items :: "nat \<Rightarrow> nat \<Rightarrow> bool \<Rightarrow> node_ref list \<Rightarrow> item list" where
  "child_items level child_level fin [] = []"
| "child_items level child_level fin (r # rs) =
     (if child_level = level then Old r (fin \<and> rs = [])
      else Subtree r child_level (fin \<and> rs = [])) # child_items level child_level fin rs"

function chunk_items ::
  "'s store_ops \<Rightarrow> nat \<Rightarrow> item list \<Rightarrow> level_builder \<Rightarrow> 's \<Rightarrow> prolly_error + level_builder \<times> 's" where
  "chunk_items S level [] b s = Inr (b, s)"
| "chunk_items S level (Fresh entries base # queue) b s =
     rbind (lb_push_all S s (b\<lparr>lb_current_base := base\<rparr>) entries) (\<lambda>(b, s).
       chunk_items S level queue b s)"
| "chunk_items S level (Old node is_final # queue) b s =
     (if at_boundary b \<and> (\<not> is_final \<or> queue = [])
      then chunk_items S level queue (b\<lparr>lb_out := lb_out b @ [OutChunk node]\<rparr>) s
      else rbind (read_node S s (ref_hash node) level (Some (last_key node)) None) (\<lambda>n.
           rbind (lb_push_all S s (b\<lparr>lb_current_base := Some (ref_hash node)\<rparr>) (node_entries n))
             (\<lambda>(b, s). chunk_items S level queue b s)))"
| "chunk_items S level (Subtree node sub_level is_final # queue) b s =
     (if at_boundary b \<and> (\<not> is_final \<or> queue = [])
      then chunk_items S level queue
             (b\<lparr>lb_out := lb_out b @ [OutSubtree node sub_level is_final]\<rparr>) s
      else rbind (read_node S s (ref_hash node) sub_level (Some (last_key node)) None) (\<lambda>n.
           case n of
             Leaf _ \<Rightarrow> Inl Unreachable
           | Inner refs \<Rightarrow>
               chunk_items S level (child_items level (sub_level - 1) is_final refs @ queue) b s))"
  by pat_completeness auto

text \<open>A queue ends because an opened subtree is replaced by items strictly below it.\<close>

fun item_rank :: "item \<Rightarrow> nat" where
  "item_rank (Subtree node l fin) = l"
| "item_rank (Old node fin) = 0"
| "item_rank (Fresh entries base) = 0"

lemma child_items_rank: "i \<in> set (child_items level l fin rs) \<Longrightarrow> item_rank i \<le> l"
  by (induction level l fin rs rule: child_items.induct) auto

lemma queue_decreases:
  "\<forall>i \<in> set is. item_rank i < r \<Longrightarrow>
     (mset (map item_rank (is @ queue)), add_mset r (mset (map item_rank queue)))
       \<in> mult {(x, y). x < (y :: nat)}"
  using one_step_implies_mult [of "{#r#}" "mset (map item_rank is)" "{(x, y). x < (y :: nat)}"
      "mset (map item_rank queue)"]
  by (auto simp: union_commute)

termination chunk_items
proof (relation "inv_image (mult {(x, y). x < (y :: nat)})
    (\<lambda>(S, level, queue, b, s). mset (map item_rank queue))", goal_cases)
  case 1
  have "wf {(x, y). x < (y :: nat)}" by (rule wf)
  then show ?case by (intro wf_inv_image wf_mult)
next
  case (6 S level node sl fin queue b s n refs)
  then have "0 < sl" by (auto dest: read_node_Inner)
  then have "\<forall>i \<in> set (child_items level (sl - 1) fin refs). item_rank i < sl"
    by (auto dest!: child_items_rank)
  then show ?case using queue_decreases [of _ sl queue] by simp
qed (use queue_decreases [of "[]"] in simp_all)

declare chunk_items.simps [simp del]

definition chunk_level ::
  "'s store_ops \<Rightarrow> 's \<Rightarrow> nat \<Rightarrow> chunk_params \<Rightarrow> item list \<Rightarrow> (hash \<times> hash) list option \<Rightarrow>
     prolly_error + out_item list \<times> (hash \<times> hash) list option \<times> 's" where
  "chunk_level S s level params items recorder =
     rbind (chunk_items S level items (lb_new level params recorder) s) (\<lambda>(b, s).
     rbind (if 0 < lb_count b then lb_emit S s b else Inr (b, s)) (\<lambda>(b, s).
     rbind (if lb_out b = [] \<and> level = 0 then lb_emit S s b else Inr (b, s)) (\<lambda>(b, s).
       Inr (lb_out b, lb_recorder b, s))))"

section \<open>Promotion\<close>

fun out_hash_is :: "out_item \<Rightarrow> hash \<Rightarrow> bool" where
  "out_hash_is (OutChunk c) h \<longleftrightarrow> ref_hash c = h"
| "out_hash_is (OutSubtree node l fin) h \<longleftrightarrow> False"

definition full_run :: "out_item list \<Rightarrow> hash list \<Rightarrow> bool" where
  "full_run outs children \<longleftrightarrow>
     length children \<le> length outs \<and> list_all2 out_hash_is (take (length children) outs) children"

text \<open>The search of the next opened parent whose children start the outputs: \<open>opened\<close> is the
  part of the list not yet passed over.\<close>

fun match_parent ::
  "out_item list \<Rightarrow> node_ref \<Rightarrow> opened_inner list \<Rightarrow> opened_inner list \<times> nat option" where
  "match_parent outs r [] = ([], None)"
| "match_parent outs r (cand # opened) =
     (if first_opt (opened_children cand) = Some (ref_hash r) \<and> full_run outs (opened_children cand)
      then (cand # opened, Some (length (opened_children cand)))
      else if last_key (opened_node cand) \<le> last_key r then match_parent outs r opened
      else (cand # opened, None))"

definition flush :: "entry list \<Rightarrow> item list \<Rightarrow> item list" where
  "flush fresh items = (if fresh \<noteq> [] then items @ [Fresh fresh None] else items)"

lemma match_parent_Some:
  "match_parent outs r opened = (opened', Some k) \<Longrightarrow>
     \<exists>cand rest. opened' = cand # rest \<and> k = length (opened_children cand) \<and> 0 < k \<and>
       full_run outs (opened_children cand) \<and> cand \<in> set opened \<and> set rest \<subseteq> set opened"
  by (induction outs r opened rule: match_parent.induct)
    (auto simp: first_opt_def split: if_splits)

function promote_from ::
  "out_item list \<Rightarrow> opened_inner list \<Rightarrow> nat \<Rightarrow> entry list \<Rightarrow> item list \<Rightarrow> item list" where
  "promote_from [] opened next_level fresh items = flush fresh items"
| "promote_from (OutSubtree node level is_final # outs) opened next_level fresh items =
     promote_from outs opened next_level []
       (flush fresh items @
        [if level = next_level then Old node is_final else Subtree node level is_final])"
| "promote_from (OutChunk r # outs) opened next_level fresh items =
     (case match_parent (OutChunk r # outs) r opened of
        (cand # rest, Some k) \<Rightarrow>
          promote_from (drop k (OutChunk r # outs)) rest next_level []
            (flush fresh items @ [Old (opened_node cand) (opened_final cand)])
      | (opened', _) \<Rightarrow>
          promote_from outs opened' next_level (fresh @ [InnerEntry (last_key r) (ref_hash r)]) items)"
  by pat_completeness auto
termination
  by (relation "measure (\<lambda>(outs, _). length outs)") (auto dest!: match_parent_Some [OF sym])

declare promote_from.simps [simp del]

definition promote :: "out_item list \<Rightarrow> opened_inner list \<Rightarrow> nat \<Rightarrow> item list" where
  "promote outputs opened next_level = promote_from outputs opened next_level [] []"

section \<open>Building a tree\<close>

fun root_of_out :: "chunk_params \<Rightarrow> nat \<Rightarrow> out_item \<Rightarrow> root" where
  "root_of_out params level (OutChunk r) =
     \<lparr>root_hash = ref_hash r, root_height = level + 1, root_params = params\<rparr>"
| "root_of_out params level (OutSubtree node sub_level fin) =
     \<lparr>root_hash = ref_hash node, root_height = sub_level + 1, root_params = params\<rparr>"

function build_levels ::
  "'s store_ops \<Rightarrow> 's \<Rightarrow> chunk_params \<Rightarrow> nat \<Rightarrow> item list \<Rightarrow> opened_inner list list \<Rightarrow>
     (hash \<times> hash) list option \<Rightarrow> prolly_error + root \<times> (hash \<times> hash) list option \<times> 's" where
  "build_levels S s params level items opened recorder =
     rbind (chunk_level S s level params items recorder) (\<lambda>(outputs, recorder, s).
       if length outputs = 1 then Inr (root_of_out params level (outputs ! 0), recorder, s)
       else if MAX_HEIGHT \<le> level + 1 then Inl (InvalidRoot ''tree exceeds the maximum height'')
       else let level = level + 1;
                opened_here = (if level < length opened then opened ! level else [])
            in build_levels S s params level (promote outputs opened_here level) opened recorder)"
  by pat_completeness auto
termination
  by (relation "measure (\<lambda>(S, s, params, level, _). MAX_HEIGHT - level)") auto

declare build_levels.simps [simp del]

text \<open>Sorting is stable, and of equal keys the last one wins.\<close>

fun dedup_last :: "('a \<Rightarrow> bytes) \<Rightarrow> 'a list \<Rightarrow> 'a list \<Rightarrow> 'a list" where
  "dedup_last key acc [] = acc"
| "dedup_last key acc (x # xs) =
     (if (case last_opt acc of Some y \<Rightarrow> key y = key x | None \<Rightarrow> False)
      then dedup_last key (butlast acc @ [x]) xs
      else dedup_last key (acc @ [x]) xs)"

definition bulk_load ::
  "'s store_ops \<Rightarrow> 's \<Rightarrow> chunk_params \<Rightarrow> (bytes \<times> bytes) list \<Rightarrow> prolly_error + root \<times> 's" where
  "bulk_load S s params entries =
     (let sorted = sort_key fst entries;
          deduped = map (\<lambda>(k, v). LeafEntry k v) (dedup_last fst [] sorted)
      in rbind (build_levels S s params 0 [Fresh deduped None] [] None) (\<lambda>(root, _, s).
           Inr (root, s)))"

definition empty_map :: "'s store_ops \<Rightarrow> 's \<Rightarrow> chunk_params \<Rightarrow> prolly_error + root \<times> 's" where
  "empty_map S s params = bulk_load S s params []"

section \<open>Batches\<close>

fun apply_op :: "batch_op \<Rightarrow> entry list" where
  "apply_op (Put k v) = [LeafEntry k v]"
| "apply_op (Delete k) = []"

fun merge_ops :: "(bytes \<times> bytes) list \<Rightarrow> batch_op list \<Rightarrow> entry list" where
  "merge_ops ((k, v) # old) (op # ops) =
     (case cmp k (op_key op) of
        Less \<Rightarrow> LeafEntry k v # merge_ops old (op # ops)
      | Equal \<Rightarrow> apply_op op @ merge_ops old ops
      | Greater \<Rightarrow> apply_op op @ merge_ops ((k, v) # old) ops)"
| "merge_ops ((k, v) # old) [] = LeafEntry k v # merge_ops old []"
| "merge_ops [] (op # ops) = apply_op op @ merge_ops [] ops"
| "merge_ops [] [] = []"

type_synonym descent = "item list \<times> opened_inner list list"

function (sequential) descend ::
  "'s store_ops \<Rightarrow> 's \<Rightarrow> hash \<Rightarrow> nat \<Rightarrow> bytes option \<Rightarrow> bytes option \<Rightarrow> bool \<Rightarrow> batch_op list \<Rightarrow>
     descent \<Rightarrow> prolly_error + descent"
  and descend_children ::
  "'s store_ops \<Rightarrow> 's \<Rightarrow> node_ref list \<Rightarrow> nat \<Rightarrow> bytes option \<Rightarrow> bool \<Rightarrow> batch_op list \<Rightarrow>
     descent \<Rightarrow> prolly_error + descent" where
  "descend S s h level expect_last_key min_key_exclusive is_final ops (items, opened) =
     rbind (read_node S s h level expect_last_key min_key_exclusive) (\<lambda>node. case node of
         Leaf entries \<Rightarrow> Inr (items @ [Fresh (merge_ops entries ops) (Some h)], opened)
       | Inner refs \<Rightarrow>
           let o' = \<lparr>opened_node = \<lparr>last_key = last_key (last refs), ref_hash = h\<rparr>,
                     opened_final = is_final, opened_children = map ref_hash refs\<rparr>;
               opened = opened[level := opened ! level @ [o']]
           in descend_children S s refs (level - 1) min_key_exclusive is_final ops (items, opened))"
| "descend_children S s [] child_level lower is_final ops d = Inr d"
| "descend_children S s (child # refs) child_level lower is_final ops (items, opened) =
     (let is_last = (refs = []);
          child_final = (is_final \<and> is_last);
          mine = (if is_last then ops else takeWhile (\<lambda>op. op_key op \<le> last_key child) ops);
          rest = drop (length mine) ops
      in rbind (if mine = []
                then Inr (items @ [if child_level = 0 then Old child child_final
                                   else Subtree child child_level child_final], opened)
                else descend S s (ref_hash child) child_level (Some (last_key child)) lower
                       child_final mine (items, opened)) (\<lambda>d.
           descend_children S s refs child_level (Some (last_key child)) is_final rest d))"
  by pat_completeness auto
termination
  by (relation "measures [case_sum (\<lambda>(S, s, h, level, _). level) (\<lambda>(S, s, refs, level, _). level),
      case_sum (\<lambda>_. 0) (\<lambda>(S, s, refs, _). Suc (length refs))]")
    (auto dest!: read_node_Inner)

declare descend.simps [simp del] descend_children.simps [simp del]

definition apply_batch_inner ::
  "'s store_ops \<Rightarrow> 's \<Rightarrow> root \<Rightarrow> batch_op list \<Rightarrow> (hash \<times> hash) list option \<Rightarrow>
     prolly_error + root \<times> (hash \<times> hash) list option \<times> 's" where
  "apply_batch_inner S s root ops recorder =
     (let ops = dedup_last op_key [] (sort_key op_key ops)
      in if ops = [] then Inr (root, recorder, s)
         else rbind (descend S s (root_hash root) (top_level root) None None True ops
                       ([], replicate (root_height root) [])) (\<lambda>(items, opened).
              build_levels S s (root_params root) 0 items opened recorder))"

definition apply_batch ::
  "'s store_ops \<Rightarrow> 's \<Rightarrow> root \<Rightarrow> batch_op list \<Rightarrow> prolly_error + root \<times> 's" where
  "apply_batch S s root ops =
     rbind (apply_batch_inner S s root ops None) (\<lambda>(r, _, s). Inr (r, s))"

definition apply_batch_recording ::
  "'s store_ops \<Rightarrow> 's \<Rightarrow> root \<Rightarrow> batch_op list \<Rightarrow>
     prolly_error + (root \<times> (hash \<times> hash) list) \<times> 's" where
  "apply_batch_recording S s root ops =
     rbind (apply_batch_inner S s root ops (Some [])) (\<lambda>(r, pairs, s).
       Inr ((r, case pairs of Some ps \<Rightarrow> ps | None \<Rightarrow> []), s))"

section \<open>Lookup\<close>

text \<open>\<^verbatim>\<open>slice::partition_point\<close> on a slice that is partitioned, and \<^verbatim>\<open>binary_search_by\<close> on a slice
  of strictly ascending keys: a decoded node always is one.\<close>

definition partition_point :: "('a \<Rightarrow> bool) \<Rightarrow> 'a list \<Rightarrow> nat" where
  "partition_point p xs = length (takeWhile p xs)"

definition binary_search_key :: "bytes \<Rightarrow> (bytes \<times> bytes) list \<Rightarrow> nat option" where
  "binary_search_key key es =
     (let i = partition_point (\<lambda>e. fst e < key) es
      in if i < length es \<and> fst (es ! i) = key then Some i else None)"

function get_from ::
  "'s store_ops \<Rightarrow> 's \<Rightarrow> bytes \<Rightarrow> hash \<Rightarrow> nat \<Rightarrow> bytes option \<Rightarrow> bytes option \<Rightarrow>
     prolly_error + bytes option" where
  "get_from S s key h level expect_last_key min_key_exclusive =
     rbind (read_node S s h level expect_last_key min_key_exclusive) (\<lambda>node. case node of
         Inner refs \<Rightarrow>
           let idx = partition_point (\<lambda>r. last_key r < key) refs
           in if idx = length refs then Inr None
              else get_from S s key (ref_hash (refs ! idx)) (level - 1)
                     (Some (last_key (refs ! idx)))
                     (if 0 < idx then Some (last_key (refs ! (idx - 1))) else min_key_exclusive)
       | Leaf entries \<Rightarrow> Inr (map_option (\<lambda>i. snd (entries ! i)) (binary_search_key key entries)))"
  by pat_completeness auto
termination
  by (relation "measure (\<lambda>(S, s, key, h, level, _). level)") (auto dest!: read_node_Inner)

declare get_from.simps [simp del]

definition prolly_get :: "'s store_ops \<Rightarrow> 's \<Rightarrow> root \<Rightarrow> bytes \<Rightarrow> prolly_error + bytes option" where
  "prolly_get S s root key = get_from S s key (root_hash root) (top_level root) None None"

end
