(* ===== verification/Prolly_Canon.thy ===== *)
theory Prolly_Canon
  imports Prolly_Tree
begin

text \<open>
  The reference definition of a prolly tree: \<open>chunks\<close> cuts a stream of entries where the chunker
  says so, \<open>lchunks\<close> iterates this from the entries of a map to the chunks of every level, and
  \<open>canon_root\<close> says that a root is the top of such levels and that all of their chunks are stored.
  A root is thereby a function of the map's contents, the parameters and the height. The ghost
  trees \<open>gtree\<close> give the same levels as nested nodes, for the operations that walk down.
\<close>

section \<open>Cutting a stream\<close>

definition cuts :: "chunk_params \<Rightarrow> entry list \<Rightarrow> entry \<Rightarrow> bool" where
  "cuts P pend e = cut_after P (map entry_bytes pend) (entry_bytes e)"

fun run :: "chunk_params \<Rightarrow> entry list \<Rightarrow> entry list \<Rightarrow> entry list list \<times> entry list" where
  "run P pend [] = ([], pend)"
| "run P pend (e # es) =
     (if cuts P pend e then (case run P [] es of (cs, p) \<Rightarrow> ((pend @ [e]) # cs, p))
      else run P (pend @ [e]) es)"

definition finish :: "entry list list \<times> entry list \<Rightarrow> entry list list" where
  "finish r = (if snd r = [] then fst r else fst r @ [snd r])"

definition chunks :: "chunk_params \<Rightarrow> entry list \<Rightarrow> entry list list" where
  "chunks P es = finish (run P [] es)"

text \<open>A chunk that ends in a cut of the chunker, and the lists of chunks of a whole level (\<open>fin\<close>)
  or of a part of it that does not include the end.\<close>

definition closed :: "chunk_params \<Rightarrow> entry list \<Rightarrow> bool" where
  "closed P c \<longleftrightarrow> run P [] c = ([c], [])"

definition fin_ok :: "chunk_params \<Rightarrow> bool \<Rightarrow> entry list list \<Rightarrow> bool" where
  "fin_ok P fin cs \<longleftrightarrow> cs \<noteq> [] \<and> (\<forall>c \<in> set (butlast cs). closed P c) \<and>
     (if fin then chunks P (last cs) = [last cs] else closed P (last cs))"

lemma run_append:
  "run P pend (xs @ ys) = (case run P pend xs of (cs, p) \<Rightarrow>
     (case run P p ys of (ds, q) \<Rightarrow> (cs @ ds, q)))"
  by (induction P pend xs rule: run.induct) (auto split: prod.splits)

lemma run_concat: "run P pend es = (cs, p) \<Longrightarrow> concat cs @ p = pend @ es"
  by (induction P pend es arbitrary: cs p rule: run.induct) (auto split: if_splits prod.splits)

lemma run_closed:
  "run P [] pend = ([], pend) \<Longrightarrow> run P pend es = (cs, p) \<Longrightarrow>
     (\<forall>c \<in> set cs. closed P c \<and> c \<noteq> []) \<and> run P [] p = ([], p)"
proof (induction P pend es arbitrary: cs p rule: run.induct)
  case (2 P pend e es)
  show ?case
  proof (cases "cuts P pend e")
    case True
    obtain ds q where r: "run P [] es = (ds, q)" by fastforce
    have "closed P (pend @ [e])" using "2.prems"(1) True by (simp add: closed_def run_append)
    with "2.IH"(1) [OF True _ r] "2.prems"(2) True r show ?thesis by auto
  next
    case False
    then have "run P [] (pend @ [e]) = ([], pend @ [e])"
      using "2.prems"(1) by (simp add: run_append)
    with "2.IH"(2) [OF False this] "2.prems"(2) False show ?thesis by simp
  qed
qed simp

lemma concat_chunks: "concat (chunks P es) = es"
  using run_concat [of P "[]" es "fst (run P [] es)" "snd (run P [] es)"]
  by (auto simp: chunks_def finish_def)

lemma chunks_Nil [simp]: "chunks P [] = []"
  by (simp add: chunks_def finish_def)

lemma chunks_eq_Nil [simp]: "chunks P es = [] \<longleftrightarrow> es = []"
  using concat_chunks [of P es] by auto

lemma finish_append: "finish (cs @ ds, p) = cs @ finish (ds, p)"
  by (simp add: finish_def)

lemma run_closed_append: "closed P c \<Longrightarrow> finish (run P [] (c @ es)) = c # chunks P es"
  by (auto simp: closed_def run_append chunks_def finish_def split: prod.splits)

lemma chunks_closed_append:
  "(\<forall>c \<in> set cs. closed P c) \<Longrightarrow> chunks P (concat cs @ es) = cs @ chunks P es"
proof (induction cs)
  case (Cons c cs)
  then show ?case using run_closed_append [of P c "concat cs @ es"] by (simp add: chunks_def)
qed simp

lemma closed_chunks: "closed P c \<Longrightarrow> chunks P c = [c]"
  by (simp add: closed_def chunks_def finish_def)

lemma fin_ok_chunks: "fin_ok P fin cs \<Longrightarrow> chunks P (concat cs) = cs"
proof -
  assume a: "fin_ok P fin cs"
  then have cs: "cs = butlast cs @ [last cs]" by (simp add: fin_ok_def)
  have "chunks P (concat (butlast cs) @ last cs) = butlast cs @ chunks P (last cs)"
    using a by (intro chunks_closed_append) (simp add: fin_ok_def)
  also have "\<dots> = cs" using a closed_chunks [of P "last cs"] by (simp add: fin_ok_def split: if_splits)
  finally show "chunks P (concat cs) = cs"
    by (metis concat.simps concat_append append_Nil2 cs)
qed

lemma chunks_fin_ok: "es \<noteq> [] \<Longrightarrow> fin_ok P True (chunks P es)"
proof -
  assume ne: "es \<noteq> []"
  obtain cs p where r: "run P [] es = (cs, p)" by fastforce
  have c: "\<forall>c \<in> set cs. closed P c \<and> c \<noteq> []" "run P [] p = ([], p)"
    using run_closed [OF _ r] by auto
  show "fin_ok P True (chunks P es)"
  proof (cases "p = []")
    case True
    with ne run_concat [OF r] have "cs \<noteq> []" by auto
    with True r c show ?thesis
      by (auto simp: fin_ok_def chunks_def [of P es] finish_def intro!: closed_chunks dest: in_set_butlastD)
  next
    case False
    with r c show ?thesis by (auto simp: fin_ok_def chunks_def finish_def)
  qed
qed

lemma chunks_nonempty: "c \<in> set (chunks P es) \<Longrightarrow> c \<noteq> []"
  using run_closed [of P "[]" es "fst (run P [] es)" "snd (run P [] es)"]
  by (auto simp: chunks_def finish_def split: if_splits)

text \<open>No cut is made before a chunk's second entry.\<close>

lemma closed_two: "closed P c \<Longrightarrow> 2 \<le> length c"
proof -
  assume c: "closed P c"
  have "c \<noteq> []" using c by (auto simp: closed_def)
  moreover have "c \<noteq> [e]" for e using c not_cut_first by (auto simp: closed_def cuts_def)
  ultimately show "2 \<le> length c" by (cases c rule: rev_cases; cases "butlast c") auto
qed

lemma length_chunks: "2 * length (chunks P es) \<le> length es + 1"
proof (cases "es = []")
  case False
  let ?cs = "chunks P es"
  have f: "fin_ok P True ?cs" by (rule chunks_fin_ok [OF False])
  have "2 * length (butlast ?cs) \<le> length (concat (butlast ?cs))"
  proof -
    have "\<forall>c \<in> set cs. closed P c \<Longrightarrow> 2 * length cs \<le> length (concat cs)" for cs
      by (induction cs) (auto dest: closed_two)
    from this [of "butlast ?cs"] show ?thesis using f by (simp add: fin_ok_def del: length_butlast)
  qed
  moreover have "0 < length (last ?cs)"
    using chunks_nonempty [of "last ?cs" P es] False by simp
  moreover have "length es = length (concat (butlast ?cs)) + length (last ?cs)"
    by (metis False append_butlast_last_id chunks_eq_Nil concat_append concat_chunks length_append
        concat.simps append_Nil2)
  ultimately show ?thesis unfolding length_butlast by linarith
qed simp

section \<open>The levels of a map\<close>

definition chunk_ref :: "(bytes \<Rightarrow> hash) \<Rightarrow> nat \<Rightarrow> entry list \<Rightarrow> node_ref" where
  "chunk_ref addr l c = \<lparr>last_key = (if c = [] then [] else entry_key (last c)),
     ref_hash = addr (node_bytes l c)\<rparr>"

fun ref_entry :: "node_ref \<Rightarrow> entry" where
  "ref_entry r = InnerEntry (last_key r) (ref_hash r)"

definition up :: "(bytes \<Rightarrow> hash) \<Rightarrow> nat \<Rightarrow> entry list \<Rightarrow> entry" where
  "up addr l c = ref_entry (chunk_ref addr l c)"

definition leaf_entries :: "(bytes \<times> bytes) list \<Rightarrow> entry list" where
  "leaf_entries kvs = map (\<lambda>(k, v). LeafEntry k v) kvs"

fun lchunks :: "(bytes \<Rightarrow> hash) \<Rightarrow> chunk_params \<Rightarrow> (bytes \<times> bytes) list \<Rightarrow> nat \<Rightarrow> entry list list" where
  "lchunks addr P kvs 0 = (if kvs = [] then [[]] else chunks P (leaf_entries kvs))"
| "lchunks addr P kvs (Suc l) = chunks P (map (up addr l) (lchunks addr P kvs l))"

definition stored :: "'s store_ops \<Rightarrow> (bytes \<Rightarrow> hash) \<Rightarrow> 's \<Rightarrow> nat \<Rightarrow> entry list \<Rightarrow> bool" where
  "stored S addr s l c \<longleftrightarrow>
     wf_entries l c \<and> st_get S s (addr (node_bytes l c)) = Inr (Some (node_bytes l c))"

text \<open>\<open>canon_root S addr s kvs root\<close>: the root is the one chunk of the top level, and every chunk
  of every level is stored under its address.\<close>

definition canon_root ::
  "'s store_ops \<Rightarrow> (bytes \<Rightarrow> hash) \<Rightarrow> 's \<Rightarrow> (bytes \<times> bytes) list \<Rightarrow> root \<Rightarrow> bool" where
  "canon_root S addr s kvs r \<longleftrightarrow>
     (let P = root_params r; L = top_level r
      in 1 \<le> root_height r \<and> root_height r \<le> MAX_HEIGHT \<and>
         sorted_wrt (<) (map fst kvs) \<and> (kvs = [] \<longrightarrow> L = 0) \<and>
         length (lchunks addr P kvs L) = 1 \<and>
         root_hash r = addr (node_bytes L (hd (lchunks addr P kvs L))) \<and>
         (\<forall>l \<le> L. \<forall>c \<in> set (lchunks addr P kvs l). stored S addr s l c))"

lemma entry_key_up [simp]: "c \<noteq> [] \<Longrightarrow> entry_key (up addr l c) = entry_key (last c)"
  by (simp add: up_def chunk_ref_def)

lemma length_leaf_entries [simp]: "length (leaf_entries kvs) = length kvs"
  by (simp add: leaf_entries_def)

lemma leaf_entries_eq_Nil [simp]: "leaf_entries kvs = [] \<longleftrightarrow> kvs = []" "leaf_entries [] = []"
  by (simp_all add: leaf_entries_def)

lemma map_key_leaf_entries [simp]: "map entry_key (leaf_entries kvs) = map fst kvs"
  by (auto simp: leaf_entries_def)

lemma lchunks_not_Nil: "lchunks addr P kvs l \<noteq> []"
  by (induction l) auto

lemma lchunks_nonempty: "kvs \<noteq> [] \<Longrightarrow> c \<in> set (lchunks addr P kvs l) \<Longrightarrow> c \<noteq> []"
  by (cases l) (auto simp: chunks_nonempty)

lemma lchunks_fin_ok: "kvs \<noteq> [] \<Longrightarrow> fin_ok P True (lchunks addr P kvs l)"
  by (cases l) (auto intro!: chunks_fin_ok simp: lchunks_not_Nil)

text \<open>Fan-out is at least two, so a level has at most half the chunks of the one below, rounded
  up, and some level within the maximum height has one.\<close>

lemma length_lchunks: "length (lchunks addr P kvs l) \<le> (length kvs + 2 ^ Suc l - 1) div 2 ^ Suc l \<or> length (lchunks addr P kvs l) = 1"
proof (induction l)
  case 0
  then show ?case using length_chunks [of P "leaf_entries kvs"] by auto
next
  case (Suc l)
  let ?n = "length (lchunks addr P kvs l)"
  have h: "2 * length (lchunks addr P kvs (Suc l)) \<le> ?n + 1"
    using length_chunks [of P "map (up addr l) (lchunks addr P kvs l)"] by simp
  from Suc show ?case
  proof
    assume "?n = 1"
    with h lchunks_not_Nil [of addr P kvs "Suc l"] show ?thesis
      by (cases "lchunks addr P kvs (Suc l)") auto
  next
    assume b: "?n \<le> (length kvs + 2 ^ Suc l - 1) div 2 ^ Suc l"
    have "2 * length (lchunks addr P kvs (Suc l)) \<le> (length kvs + 2 ^ Suc l - 1) div 2 ^ Suc l + 1"
      using h b by linarith
    also have "\<dots> = (length kvs + 2 ^ Suc (Suc l) - 1) div 2 ^ Suc l"
    proof -
      have "length kvs + 2 ^ Suc (Suc l) - 1 = (length kvs + 2 ^ Suc l - 1) + 2 ^ Suc l"
        by (simp add: algebra_simps)
      then show ?thesis by (metis div_add_self2 power_not_zero zero_neq_numeral)
    qed
    finally have "length (lchunks addr P kvs (Suc l)) \<le>
        (length kvs + 2 ^ Suc (Suc l) - 1) div 2 ^ Suc l div 2" by linarith
    then show ?thesis by (simp add: div_mult2_eq [symmetric] mult.commute)
  qed
qed

lemma sorted_last_keys:
  "sorted_wrt (<) (map entry_key (concat cs)) \<Longrightarrow> \<forall>c \<in> set cs. c \<noteq> [] \<Longrightarrow>
     sorted_wrt (<) (map (\<lambda>c. entry_key (last c)) cs)"
proof (induction cs)
  case (Cons c cs)
  then show ?case by (auto simp: sorted_wrt_append)
qed simp

lemma sorted_map_up:
  "sorted_wrt (<) (map entry_key (concat cs)) \<Longrightarrow> \<forall>c \<in> set cs. c \<noteq> [] \<Longrightarrow>
     sorted_wrt (<) (map entry_key (map (up addr l) cs))"
  using sorted_last_keys [of cs] by (simp add: comp_def cong: map_cong)

end
