(* ===== verification/Prolly_Build.thy ===== *)
theory Prolly_Build
  imports Prolly_Canon
begin

text \<open>
  The level builder and \<open>chunk_items\<close> compute the reference chunking: whatever mixture of fresh
  entries, untouched nodes and untouched subtrees a level is rebuilt from, the chunks that come out
  are \<open>chunks\<close> of the stream the mixture stands for, and they are stored. The lemmas are stated in the
  locale \<open>chunk_store\<close>: they hold for every store that keeps the trait's contract.
\<close>

section \<open>Outcomes\<close>

text \<open>\<open>ensures m Q\<close>: \<open>m\<close> returns a value satisfying \<open>Q\<close> or fails with an error that its environment
  is responsible for (the store's own, or a key, value or chunk beyond the format's frames), never
  with a complaint about the tree.\<close>

fun env_error :: "prolly_error \<Rightarrow> bool" where
  "env_error (PStore e) = True"
| "env_error (KeyTooLong a b) = True"
| "env_error (ValueTooLong a b) = True"
| "env_error TooManyEntries = True"
| "env_error _ = False"

definition ensures :: "prolly_error + 'a \<Rightarrow> ('a \<Rightarrow> bool) \<Rightarrow> bool" where
  "ensures m Q = (case m of Inl e \<Rightarrow> env_error e | Inr x \<Rightarrow> Q x)"

lemma ensures_simps [simp]:
  "ensures (Inl e) Q = env_error e"
  "ensures (Inr x) Q = Q x"
  by (simp_all add: ensures_def)

lemma ensures_rbind:
  "ensures m R \<Longrightarrow> (\<And>x. m = Inr x \<Longrightarrow> R x \<Longrightarrow> ensures (f x) Q) \<Longrightarrow> ensures (rbind m f) Q"
  by (cases m) auto

lemma ensures_mono: "ensures m R \<Longrightarrow> (\<And>x. R x \<Longrightarrow> Q x) \<Longrightarrow> ensures m Q"
  by (cases m) auto

lemma ensures_Inr: "ensures m Q \<Longrightarrow> m = Inr x \<Longrightarrow> Q x"
  by simp

section \<open>Growing stores\<close>

definition grows :: "'s store_ops \<Rightarrow> 's \<Rightarrow> 's \<Rightarrow> bool" where
  "grows S s s' \<longleftrightarrow> (\<forall>k x. st_get S s k = Inr (Some x) \<longrightarrow> st_get S s' k = Inr (Some x))"

lemma grows_refl [simp]: "grows S s s"
  by (simp add: grows_def)

lemma grows_trans: "grows S s s' \<Longrightarrow> grows S s' s'' \<Longrightarrow> grows S s s''"
  by (simp add: grows_def)

lemma stored_grows: "stored S addr s l c \<Longrightarrow> grows S s s' \<Longrightarrow> stored S addr s' l c"
  by (simp add: stored_def grows_def)

section \<open>The builder\<close>

fun kind_at :: "nat \<Rightarrow> entry \<Rightarrow> bool" where
  "kind_at l (LeafEntry k v) \<longleftrightarrow> l = 0"
| "kind_at l (InnerEntry k h) \<longleftrightarrow> 0 < l"

definition lb_inv :: "chunk_params \<Rightarrow> nat \<Rightarrow> level_builder \<Rightarrow> entry list \<Rightarrow> bool" where
  "lb_inv P l b pend \<longleftrightarrow>
     lb_level b = l \<and> lb_chunker b = feed_all P (map entry_bytes pend) \<and>
     lb_buf b = concat (map entry_bytes pend) \<and> lb_count b = of_nat (length pend) \<and>
     length pend < 2 ^ 32 \<and> list_all (entry_at l) pend \<and>
     lb_last_key b = (if pend = [] then [] else entry_key (last pend))"

lemma lb_inv_new: "lb_inv P l (lb_new l P rec) []"
  by (simp add: lb_inv_def lb_new_def)

lemma lb_inv_ignores [simp]:
  "lb_inv P l (b\<lparr>lb_current_base := x\<rparr>) pend = lb_inv P l b pend"
  "lb_inv P l (b\<lparr>lb_out := y\<rparr>) pend = lb_inv P l b pend"
  by (simp_all add: lb_inv_def)

lemma at_boundary_iff: "lb_inv P l b pend \<Longrightarrow> at_boundary b \<longleftrightarrow> pend = []"
  by (auto simp: lb_inv_def at_boundary_def word_unat_eq_iff unat_of_nat)

lemma lb_count_pos: "lb_inv P l b pend \<Longrightarrow> 0 < lb_count b \<longleftrightarrow> pend \<noteq> []"
  using at_boundary_iff [of P l b pend] by (simp add: at_boundary_def word_gt_0)

lemma digest_frame [simp]: "\<not> 256 \<le> length (as_bytes h)" "length (as_bytes h) < 256"
  using length_as_bytes [of h] by auto

context chunk_store
begin

lemma lb_emit_spec:
  assumes "lb_inv P l b pend"
  shows "ensures (lb_emit S s b) (\<lambda>(b', s'). grows S s s' \<and> lb_inv P l b' [] \<and>
    lb_out b' = lb_out b @ [OutChunk (chunk_ref addr l pend)] \<and>
    st_get S s' (addr (node_bytes l pend)) = Inr (Some (node_bytes l pend)))"
proof (cases "st_put S s (node_bytes l pend)")
  case (Inl e)
  with assms show ?thesis by (simp add: lb_emit_def lb_inv_def node_bytes_def Let_def)
next
  case (Inr r)
  obtain h s' where r: "r = (h, s')" by (cases r)
  have "h = addr (node_bytes l pend)" "st_get S s' h = Inr (Some (node_bytes l pend))" "grows S s s'"
    using Inr put_addr put_get put_keeps by (auto simp: r grows_def)
  with Inr assms show ?thesis
    by (auto simp: r lb_emit_def lb_inv_def node_bytes_def chunk_ref_def Let_def
        split: option.splits)
qed

lemma lb_push_spec:
  assumes "lb_inv P l b pend" "kind_at l e"
  shows "ensures (lb_push S s b e) (\<lambda>(b', s'). grows S s s' \<and> entry_at l e \<and>
    (if cuts P pend e
     then lb_inv P l b' [] \<and> lb_out b' = lb_out b @ [OutChunk (chunk_ref addr l (pend @ [e]))] \<and>
       length pend + 1 < 2 ^ 32 \<and>
       st_get S s' (addr (node_bytes l (pend @ [e]))) = Inr (Some (node_bytes l (pend @ [e])))
     else lb_inv P l b' (pend @ [e]) \<and> lb_out b' = lb_out b))"
    (is "ensures _ ?Q")
proof -
  define enc where "enc = (case e of LeafEntry key val \<Rightarrow> encode_leaf_entry key val (lb_buf b)
      | InnerEntry key h \<Rightarrow> encode_inner_entry key h (lb_buf b))"
  have encoded: "ensures enc (\<lambda>buf. entry_at l e \<and> buf = lb_buf b @ entry_bytes e)"
    using assms(2)
    by (cases e) (auto simp: enc_def encode_leaf_entry_def encode_inner_entry_def Let_def not_le)
  have push: "lb_push S s b e = rbind enc (\<lambda>buf.
      if lb_count b = - 1 then Inl TooManyEntries
      else let b1 = b\<lparr>lb_buf := buf, lb_count := lb_count b + 1, lb_last_key := entry_key e\<rparr>;
               (c, cut) = feed_entry (lb_chunker b1) (drop (length (lb_buf b)) buf);
               b2 = b1\<lparr>lb_chunker := c\<rparr>
           in if cut then lb_emit S s b2 else Inr (b2, s))"
    by (simp add: lb_push_def enc_def)
  have rest: "ensures (if lb_count b = - 1 then Inl TooManyEntries
      else let b1 = b\<lparr>lb_buf := buf, lb_count := lb_count b + 1, lb_last_key := entry_key e\<rparr>;
               (c, cut) = feed_entry (lb_chunker b1) (drop (length (lb_buf b)) buf);
               b2 = b1\<lparr>lb_chunker := c\<rparr>
           in if cut then lb_emit S s b2 else Inr (b2, s)) ?Q"
    if e: "entry_at l e" and buf: "buf = lb_buf b @ entry_bytes e" for buf
  proof (cases "lb_count b = - 1")
    case False
    have "snd (feed_entry (lb_chunker b) (entry_bytes e)) = cuts P pend e"
      using assms(1) by (simp add: lb_inv_def cuts_def cut_after_def)
    then obtain c where fe: "feed_entry (lb_chunker b) (entry_bytes e) = (c, cuts P pend e)"
      by (cases "feed_entry (lb_chunker b) (entry_bytes e)") auto
    define b2 where "b2 = b\<lparr>lb_buf := buf, lb_count := lb_count b + 1, lb_last_key := entry_key e,
      lb_chunker := c\<rparr>"
    have len: "length pend + 1 < 2 ^ 32"
      using False assms(1)
      by (auto simp: lb_inv_def word_unat_eq_iff unat_of_nat unsigned_minus_1_eq_mask mask_eq_exp_minus_1)
    have inv: "lb_inv P l b2 (pend @ [e])"
      using assms(1) e len fe by (simp add: lb_inv_def b2_def buf)
    have out: "lb_out b2 = lb_out b" by (simp add: b2_def)
    have "ensures (if cuts P pend e then lb_emit S s b2 else Inr (b2, s)) ?Q"
    proof (cases "cuts P pend e")
      case True
      then show ?thesis using lb_emit_spec [OF inv, of s] e len out
        by (auto elim!: ensures_mono)
    qed (use inv e out in auto)
    moreover have "(if lb_count b = - 1 then Inl TooManyEntries
      else let b1 = b\<lparr>lb_buf := buf, lb_count := lb_count b + 1, lb_last_key := entry_key e\<rparr>;
               (c, cut) = feed_entry (lb_chunker b1) (drop (length (lb_buf b)) buf);
               b2 = b1\<lparr>lb_chunker := c\<rparr>
           in if cut then lb_emit S s b2 else Inr (b2, s)) =
        (if cuts P pend e then lb_emit S s b2 else Inr (b2, s))"
      using False by (simp add: buf b2_def Let_def fe)
    ultimately show ?thesis by (simp only:)
  qed simp
  show ?thesis unfolding push using encoded by (rule ensures_rbind) (blast intro: rest)
qed

lemma stored_chunk:
  assumes "list_all (entry_at l) c" "sorted_wrt (<) (map entry_key c)" "length c < 2 ^ 32"
    "0 < l \<longrightarrow> c \<noteq> []" "st_get S s (addr (node_bytes l c)) = Inr (Some (node_bytes l c))"
  shows "stored S addr s l c"
  using assms by (simp add: stored_def wf_entries_def)

lemma lb_push_all_spec:
  assumes "lb_inv P l b pend" "list_all (kind_at l) es" "sorted_wrt (<) (map entry_key (pend @ es))"
  shows "ensures (lb_push_all S s b es) (\<lambda>(b', s'). grows S s s' \<and>
    lb_inv P l b' (snd (run P pend es)) \<and>
    lb_out b' = lb_out b @ map (\<lambda>c. OutChunk (chunk_ref addr l c)) (fst (run P pend es)) \<and>
    list_all (stored S addr s' l) (fst (run P pend es)))"
  using assms
proof (induction es arbitrary: b pend s)
  case (Cons e es)
  have k: "kind_at l e" using Cons.prems(2) by simp
  show ?case unfolding lb_push_all.simps
  proof (rule ensures_rbind [OF lb_push_spec [OF Cons.prems(1) k, of s]], clarify)
    fix b1 s1
    assume g: "grows S s s1" and e: "entry_at l e"
      and c: "if cuts P pend e
       then lb_inv P l b1 [] \<and> lb_out b1 = lb_out b @ [OutChunk (chunk_ref addr l (pend @ [e]))] \<and>
         length pend + 1 < 2 ^ 32 \<and>
         st_get S s1 (addr (node_bytes l (pend @ [e]))) = Inr (Some (node_bytes l (pend @ [e])))
       else lb_inv P l b1 (pend @ [e]) \<and> lb_out b1 = lb_out b"
    show "ensures (lb_push_all S s1 b1 es) (\<lambda>(b', s'). grows S s s' \<and>
      lb_inv P l b' (snd (run P pend (e # es))) \<and>
      lb_out b' = lb_out b @ map (\<lambda>c. OutChunk (chunk_ref addr l c)) (fst (run P pend (e # es))) \<and>
      list_all (stored S addr s' l) (fst (run P pend (e # es))))"
    proof (cases "cuts P pend e")
      case True
      have "list_all (entry_at l) (pend @ [e])" using Cons.prems(1) e by (simp add: lb_inv_def)
      then have st: "stored S addr s1 l (pend @ [e])"
        using c True Cons.prems(3) by (intro stored_chunk) (auto simp: sorted_wrt_append)
      show ?thesis
        using c True Cons.prems(2,3) g st
        by (intro ensures_mono [OF Cons.IH [of b1 "[]" s1]])
          (auto simp: sorted_wrt_append split: prod.splits intro: grows_trans stored_grows)
    next
      case False
      then show ?thesis
        using c Cons.prems(2,3) g
        by (intro ensures_mono [OF Cons.IH [of b1 "pend @ [e]" s1]])
          (auto split: prod.splits intro: grows_trans)
    qed
  qed
qed simp

end

end
