(* ===== verification/Prolly_Ghost.thy ===== *)
theory Prolly_Ghost
  imports Prolly_Build
begin

text \<open>
  Trees as nested nodes. A \<open>gtree\<close> is what a walk down from a hash would see; \<open>gok\<close> says that it
  is in the store, \<open>gaddr\<close> that every hash is the address of its node, \<open>gclosed\<close> that every level's
  nodes are cut by the chunker, the very last one excepted where the tree is the end of its levels.
\<close>

section \<open>Trees\<close>

datatype gtree = GLeaf hash "(bytes \<times> bytes) list" | GNode hash "gtree list"

fun ghash :: "gtree \<Rightarrow> hash" where
  "ghash (GLeaf h es) = h"
| "ghash (GNode h ts) = h"

fun glast :: "gtree \<Rightarrow> bytes" where
  "glast (GLeaf h es) = last ([] # map fst es)"
| "glast (GNode h ts) = last ([] # map glast ts)"

fun glevel :: "gtree \<Rightarrow> nat" where
  "glevel (GLeaf h es) = 0"
| "glevel (GNode h ts) = Suc (hd (map glevel ts @ [0]))"

definition gref :: "gtree \<Rightarrow> node_ref" where
  "gref t = \<lparr>last_key = glast t, ref_hash = ghash t\<rparr>"

fun gents :: "gtree \<Rightarrow> entry list" where
  "gents (GLeaf h es) = leaf_entries es"
| "gents (GNode h ts) = map (\<lambda>t. ref_entry (gref t)) ts"

fun gflat :: "gtree \<Rightarrow> (bytes \<times> bytes) list" where
  "gflat (GLeaf h es) = es"
| "gflat (GNode h ts) = concat (map gflat ts)"

definition gbytes :: "gtree \<Rightarrow> bytes" where
  "gbytes t = node_bytes (glevel t) (gents t)"

definition gstored :: "'s store_ops \<Rightarrow> 's \<Rightarrow> gtree \<Rightarrow> bool" where
  "gstored S s t \<longleftrightarrow> st_get S s (ghash t) = Inr (Some (gbytes t)) \<and> wf_entries (glevel t) (gents t) \<and>
     glevel t < MAX_HEIGHT"

fun gok :: "'s store_ops \<Rightarrow> 's \<Rightarrow> gtree \<Rightarrow> bool" where
  "gok S s (GLeaf h es) \<longleftrightarrow> gstored S s (GLeaf h es)"
| "gok S s (GNode h ts) \<longleftrightarrow> gstored S s (GNode h ts) \<and>
     (\<forall>t \<in> set ts. gok S s t \<and> Suc (glevel t) = glevel (GNode h ts) \<and> gents t \<noteq> [])"

fun gaddr :: "(bytes \<Rightarrow> hash) \<Rightarrow> gtree \<Rightarrow> bool" where
  "gaddr addr (GLeaf h es) \<longleftrightarrow> h = addr (gbytes (GLeaf h es))"
| "gaddr addr (GNode h ts) \<longleftrightarrow> h = addr (gbytes (GNode h ts)) \<and> (\<forall>t \<in> set ts. gaddr addr t)"

fun nodes_at :: "nat \<Rightarrow> gtree \<Rightarrow> gtree list" where
  "nodes_at k (GLeaf h es) = [GLeaf h es]"
| "nodes_at k (GNode h ts) =
     (if glevel (GNode h ts) \<le> k then [GNode h ts] else concat (map (nodes_at k) ts))"

definition gclosed :: "chunk_params \<Rightarrow> bool \<Rightarrow> gtree \<Rightarrow> bool" where
  "gclosed P fin t \<longleftrightarrow> (\<forall>k \<le> glevel t. fin_ok P fin (map gents (nodes_at k t)))"

lemma gok_gstored: "gok S s t \<Longrightarrow> gstored S s t"
  by (cases t) auto

lemma gaddr_ghash: "gaddr addr t \<Longrightarrow> ghash t = addr (gbytes t)"
  by (cases t) auto

lemma gok_grows: "gok S s t \<Longrightarrow> grows S s s' \<Longrightarrow> gok S s' t"
  by (induction t) (auto simp: gstored_def grows_def)

lemma glast_gents: "gents t \<noteq> [] \<Longrightarrow> glast t = entry_key (last (gents t))"
  by (cases t) (auto simp: leaf_entries_def last_map gref_def split: prod.splits)

lemma glast_Nil: "gents t = [] \<Longrightarrow> glast t = []"
  by (cases t) auto

lemma nodes_at_top [simp]: "nodes_at (glevel t) t = [t]" "glevel t \<le> k \<Longrightarrow> nodes_at k t = [t]"
  by (cases t; simp)+

lemma glevel_child:
  "gok S s (GNode h ts) \<Longrightarrow> t \<in> set ts \<Longrightarrow> glevel (GNode h ts) = Suc (glevel t)"
  by simp

lemma nodes_at_gok:
  "gok S s t \<Longrightarrow> k \<le> glevel t \<Longrightarrow> n \<in> set (nodes_at k t) \<Longrightarrow> gok S s n \<and> glevel n = k"
proof (induction t)
  case (GNode h ts)
  show ?case
  proof (cases "glevel (GNode h ts) \<le> k")
    case False
    with GNode.prems(3) obtain t where t: "t \<in> set ts" "n \<in> set (nodes_at k t)" by auto
    with GNode.prems(1) False have "k \<le> glevel t" using glevel_child [OF GNode.prems(1) t(1)] by simp
    with GNode.IH [OF t(1) _ _ t(2)] GNode.prems(1) t(1) show ?thesis by simp
  qed (use GNode.prems in auto)
qed auto

lemma nodes_at_gaddr: "gaddr addr t \<Longrightarrow> n \<in> set (nodes_at k t) \<Longrightarrow> gaddr addr n"
  by (induction t) (auto split: if_splits)

lemma nodes_at_not_Nil: "gok S s t \<Longrightarrow> nodes_at k t \<noteq> []"
proof (induction t)
  case (GNode h ts)
  have "ts \<noteq> []" using GNode.prems by (auto simp: gstored_def wf_entries_def)
  then obtain t ts' where "ts = t # ts'" by (cases ts) auto
  with GNode show ?case by simp
qed simp

text \<open>The entries of a level are the references to the nodes below, in order.\<close>

lemma level_entries:
  "gok S s t \<Longrightarrow> k < glevel t \<Longrightarrow>
     concat (map gents (nodes_at (Suc k) t)) = map (\<lambda>n. ref_entry (gref n)) (nodes_at k t)"
proof (induction t)
  case (GNode h ts)
  have l: "glevel (GNode h ts) = Suc (glevel t)" if "t \<in> set ts" for t
    by (rule glevel_child [OF GNode.prems(1) that])
  show ?case
  proof (cases "glevel (GNode h ts) = Suc k")
    case True
    then have "nodes_at k t = [t]" if "t \<in> set ts" for t using l [OF that] by simp
    then have "concat (map (nodes_at k) ts) = ts" by (induction ts) auto
    with True show ?thesis by simp
  next
    case False
    then have k: "k < glevel t" if "t \<in> set ts" for t using l [OF that] GNode.prems(2) by simp
    have "concat (map gents (nodes_at (Suc k) t)) = map (\<lambda>n. ref_entry (gref n)) (nodes_at k t)"
      if "t \<in> set ts" for t
      using GNode.IH [OF that] GNode.prems(1) k [OF that] that by simp
    then have "concat (map gents (concat (map (nodes_at (Suc k)) ts))) =
        map (\<lambda>n. ref_entry (gref n)) (concat (map (nodes_at k) ts))"
      by (induction ts) auto
    with False GNode.prems(2) show ?thesis by simp
  qed
qed simp

lemma chunk_ref_gref:
  "gaddr addr t \<Longrightarrow> chunk_ref addr (glevel t) (gents t) = gref t"
  using gaddr_ghash [of addr t] glast_gents [of t] glast_Nil [of t]
  by (auto simp: chunk_ref_def gref_def gbytes_def)

lemma level_up:
  assumes "gok S s t" "gaddr addr t" "k < glevel t"
  shows "concat (map gents (nodes_at (Suc k) t)) = map (up addr k) (map gents (nodes_at k t))"
proof -
  have "map (\<lambda>n. ref_entry (gref n)) (nodes_at k t) = map (\<lambda>n. up addr k (gents n)) (nodes_at k t)"
  proof (rule map_cong [OF refl])
    fix n assume n: "n \<in> set (nodes_at k t)"
    then have "glevel n = k" "gaddr addr n"
      using nodes_at_gok [OF assms(1) _ n] nodes_at_gaddr [OF assms(2) n] assms(3) by auto
    then show "ref_entry (gref n) = up addr k (gents n)"
      using chunk_ref_gref [of addr n] by (simp add: up_def)
  qed
  then show ?thesis using level_entries [OF assms(1,3)] by (simp add: comp_def)
qed

section \<open>Closedness of parts\<close>

lemma fin_ok_append:
  "fin_ok P fin (xs @ ys) \<Longrightarrow> xs \<noteq> [] \<Longrightarrow> ys \<noteq> [] \<Longrightarrow> fin_ok P False xs \<and> fin_ok P fin ys"
proof -
  assume a: "fin_ok P fin (xs @ ys)" "xs \<noteq> []" "ys \<noteq> []"
  have "last xs \<in> set (butlast (xs @ ys))" using a(2,3) by (simp add: butlast_append)
  moreover have "set (butlast xs) \<subseteq> set (butlast (xs @ ys))" "set (butlast ys) \<subseteq> set (butlast (xs @ ys))"
    using a(3) in_set_butlastD [of _ xs] by (auto simp: butlast_append)
  ultimately show "fin_ok P False xs \<and> fin_ok P fin ys" using a unfolding fin_ok_def by auto
qed

fun gclosed_list :: "chunk_params \<Rightarrow> bool \<Rightarrow> gtree list \<Rightarrow> bool" where
  "gclosed_list P fin [] = True"
| "gclosed_list P fin (t # ts) = (gclosed P (fin \<and> ts = []) t \<and> gclosed_list P fin ts)"

lemma gclosed_list_levels:
  assumes "\<And>k. k \<le> L \<Longrightarrow> fin_ok P fin (map gents (concat (map (nodes_at k) ts)))"
    and "\<And>t. t \<in> set ts \<Longrightarrow> gok S s t \<and> glevel t = L"
  shows "gclosed_list P fin ts"
  using assms
proof (induction ts)
  case (Cons t ts)
  have ne: "nodes_at k t \<noteq> []" for k using Cons.prems(2) [of t] nodes_at_not_Nil [of S s t k] by auto
  show ?case
  proof (cases "ts = []")
    case True
    with Cons.prems show ?thesis by (auto simp: gclosed_def)
  next
    case False
    then have ne2: "concat (map (nodes_at k) ts) \<noteq> []" for k
      using Cons.prems(2) [of "hd ts"] nodes_at_not_Nil [of S s "hd ts" k] by (cases ts) auto
    have "fin_ok P False (map gents (nodes_at k t)) \<and>
        fin_ok P fin (map gents (concat (map (nodes_at k) ts)))" if "k \<le> L" for k
      using fin_ok_append [of P fin "map gents (nodes_at k t)"] Cons.prems(1) [OF that] ne ne2 by simp
    with Cons.IH Cons.prems(2) False show ?thesis by (auto simp: gclosed_def)
  qed
qed simp

lemma gclosed_children:
  assumes "gclosed P fin (GNode h ts)" "gok S s (GNode h ts)"
  shows "gclosed_list P fin ts"
proof (rule gclosed_list_levels)
  let ?L = "glevel (GNode h ts) - 1"
  show "gok S s t \<and> glevel t = ?L" if "t \<in> set ts" for t using assms(2) that by simp
  show "fin_ok P fin (map gents (concat (map (nodes_at k) ts)))" if "k \<le> ?L" for k
  proof -
    have "k < glevel (GNode h ts)" using that by simp
    with assms(1) show ?thesis unfolding gclosed_def by (auto dest!: spec [of _ k])
  qed
qed

lemma gclosed_gents: "gclosed P fin t \<Longrightarrow> fin_ok P fin [gents t] \<and> gents t \<noteq> []"
  by (auto simp: gclosed_def fin_ok_def closed_def dest!: spec [of _ "glevel t"] split: if_splits)

lemma closed_not_Nil: "closed P c \<Longrightarrow> c \<noteq> []"
  by (auto simp: closed_def)

end
