(* ===== verification/Prolly_Level.thy ===== *)
theory Prolly_Level
  imports Prolly_Ghost
begin

text \<open>
  The correctness of rebuilding a level: \<open>chunk_level\<close> on any mixture of items, and \<open>promote\<close>,
  against the reference definitions of \<open>Prolly_Canon\<close>.
\<close>

section \<open>Reading a node of a tree\<close>

fun gnode :: "gtree \<Rightarrow> node" where
  "gnode (GLeaf h es) = Leaf es"
| "gnode (GNode h ts) = Inner (map gref ts)"

lemma node_of_gents: "node_of (glevel t) (gents t) = gnode t"
  by (cases t) (auto simp: node_of_def leaf_entries_def gref_def comp_def case_prod_beta)

lemma node_entries_gnode [simp]: "node_entries (gnode t) = gents t"
  by (cases t) (auto simp: leaf_entries_def)

lemma node_last_key_gnode: "gents t \<noteq> [] \<Longrightarrow> node_last_key (gnode t) = Some (glast t)"
  by (cases t) (auto simp: last_opt_def last_map gref_def)

lemma node_first_key_gnode: "gents t \<noteq> [] \<Longrightarrow> node_first_key (gnode t) = Some (entry_key (hd (gents t)))"
  by (cases t) (auto simp: first_opt_def leaf_entries_def hd_map gref_def split: prod.splits)

lemma read_gstored:
  assumes "gstored S s t" "elk = None \<or> elk = Some (glast t) \<and> gents t \<noteq> []"
    "\<forall>m. mke = Some m \<longrightarrow> gents t \<noteq> [] \<longrightarrow> m < entry_key (hd (gents t))"
  shows "read_node S s (ghash t) (glevel t) elk mke = Inr (gnode t)"
proof -
  have d: "decode_node (gbytes t) (of_nat (glevel t)) = Inr (gnode t)"
    using decode_node_bytes [of "glevel t" "gents t"] assms(1)
    by (simp add: gstored_def gbytes_def node_of_gents MAX_HEIGHT_def)
  have f: "\<exists>x. node_first_key (gnode t) = Some x \<Longrightarrow> gents t \<noteq> []"
    by (cases t) (auto simp: first_opt_def)
  show ?thesis unfolding read_node_Inr
    using assms d f node_last_key_gnode [of t] node_first_key_gnode [of t]
    by (auto simp: gstored_def)
qed

section \<open>Items and outputs\<close>

definition gt :: "'s store_ops \<Rightarrow> (bytes \<Rightarrow> hash) \<Rightarrow> 's \<Rightarrow> chunk_params \<Rightarrow> bool \<Rightarrow> gtree \<Rightarrow> bool" where
  "gt S addr s P fin t \<longleftrightarrow> gok S s t \<and> gaddr addr t \<and> gclosed P fin t"

definition level_stream :: "nat \<Rightarrow> gtree \<Rightarrow> entry list" where
  "level_stream l t = concat (map gents (nodes_at l t))"

fun item_ok ::
  "'s store_ops \<Rightarrow> (bytes \<Rightarrow> hash) \<Rightarrow> 's \<Rightarrow> chunk_params \<Rightarrow> nat \<Rightarrow> item \<Rightarrow> entry list \<Rightarrow> bool" where
  "item_ok S addr s P l (Fresh es base) st \<longleftrightarrow> st = es \<and> list_all (kind_at l) es"
| "item_ok S addr s P l (Old r fin) st \<longleftrightarrow>
     (\<exists>t. gref t = r \<and> glevel t = l \<and> gt S addr s P fin t \<and> st = gents t)"
| "item_ok S addr s P l (Subtree r sl fin) st \<longleftrightarrow>
     (\<exists>t. gref t = r \<and> glevel t = sl \<and> l < sl \<and> gt S addr s P fin t \<and> st = level_stream l t)"

fun out_ok ::
  "'s store_ops \<Rightarrow> (bytes \<Rightarrow> hash) \<Rightarrow> 's \<Rightarrow> chunk_params \<Rightarrow> nat \<Rightarrow> out_item \<Rightarrow> entry list list \<Rightarrow> bool" where
  "out_ok S addr s P l (OutChunk r) cs \<longleftrightarrow>
     (\<exists>c. cs = [c] \<and> r = chunk_ref addr l c \<and> stored S addr s l c)"
| "out_ok S addr s P l (OutSubtree r sl fin) cs \<longleftrightarrow>
     (\<exists>t. gref t = r \<and> glevel t = sl \<and> l < sl \<and> gt S addr s P fin t \<and> cs = map gents (nodes_at l t))"

lemma gt_grows: "gt S addr s P fin t \<Longrightarrow> grows S s s' \<Longrightarrow> gt S addr s' P fin t"
  by (auto simp: gt_def gok_grows)

lemma item_ok_grows: "item_ok S addr s P l i st \<Longrightarrow> grows S s s' \<Longrightarrow> item_ok S addr s' P l i st"
  by (cases i) (auto dest: gt_grows)

lemma items_ok_grows:
  "list_all2 (item_ok S addr s P l) is sts \<Longrightarrow> grows S s s' \<Longrightarrow> list_all2 (item_ok S addr s' P l) is sts"
  by (erule list_all2_mono) (rule item_ok_grows)

lemma out_ok_grows: "out_ok S addr s P l i cs \<Longrightarrow> grows S s s' \<Longrightarrow> out_ok S addr s' P l i cs"
  by (cases i) (auto dest: gt_grows stored_grows)

lemma outs_ok_grows:
  "list_all2 (out_ok S addr s P l) os css \<Longrightarrow> grows S s s' \<Longrightarrow> list_all2 (out_ok S addr s' P l) os css"
  by (erule list_all2_mono) (rule out_ok_grows)

lemma gents_kind: "gstored S s t \<Longrightarrow> list_all (kind_at (glevel t)) (gents t)"
  by (cases t) (auto simp: leaf_entries_def list_all_iff)

lemma gt_stored: "gt S addr s P fin t \<Longrightarrow> stored S addr s (glevel t) (gents t)"
  using gok_gstored [of S s t] gaddr_ghash [of addr t]
  by (auto simp: gt_def stored_def gstored_def gbytes_def)

lemma child_items_ok:
  assumes "\<forall>t \<in> set ts. gok S s t \<and> gaddr addr t \<and> glevel t = cl \<and> l \<le> cl" "gclosed_list P fin ts"
  shows "list_all2 (item_ok S addr s P l) (child_items l cl fin (map gref ts)) (map (level_stream l) ts)"
  using assms
proof (induction ts)
  case (Cons t ts)
  then show ?case by (auto simp: gt_def level_stream_def)
qed simp

lemma level_stream_node:
  "l < glevel (GNode h ts) \<Longrightarrow> level_stream l (GNode h ts) = concat (map (level_stream l) ts)"
proof -
  have "concat (map gents (concat (map (nodes_at l) ts))) = concat (map (level_stream l) ts)"
    by (induction ts) (auto simp: level_stream_def)
  then show "l < glevel (GNode h ts) \<Longrightarrow> ?thesis" by (simp add: level_stream_def)
qed

text \<open>A closed tree at a boundary of the stream stands for whole chunks.\<close>

lemma closed_pass:
  assumes "fin_ok P fin cs" "\<not> fin \<or> rest = []"
  shows "finish (run P [] (concat cs @ rest)) = cs @ finish (run P [] rest)"
proof (cases fin)
  case True
  with assms fin_ok_chunks [OF assms(1)] show ?thesis by (simp add: chunks_def finish_def)
next
  case False
  then have "\<forall>c \<in> set cs. closed P c"
    using assms(1) by (cases cs rule: rev_cases) (auto simp: fin_ok_def)
  from chunks_closed_append [OF this, of rest] show ?thesis by (simp add: chunks_def)
qed

section \<open>Chunking a level\<close>

lemma finish_run_append:
  "finish (run P pend (xs @ ys)) = fst (run P pend xs) @ finish (run P (snd (run P pend xs)) ys)"
  by (simp add: run_append finish_append split: prod.splits)

text \<open>The chunks of the outputs \<open>outs\<close> and the pending entries complete the chunking of the
  remaining stream.\<close>

definition chunked ::
  "'s store_ops \<Rightarrow> (bytes \<Rightarrow> hash) \<Rightarrow> chunk_params \<Rightarrow> nat \<Rightarrow> level_builder \<Rightarrow> 's \<Rightarrow> entry list list \<Rightarrow>
     level_builder \<times> 's \<Rightarrow> bool" where
  "chunked S addr P l b s goal r \<longleftrightarrow> (\<exists>outs css pend'. grows S s (snd r) \<and>
     lb_out (fst r) = lb_out b @ outs \<and> list_all2 (out_ok S addr (snd r) P l) outs css \<and>
     lb_inv P l (fst r) pend' \<and> concat css @ (if pend' = [] then [] else [pend']) = goal)"

lemma chunked_base [simp]:
  "chunked S addr P l (b\<lparr>lb_current_base := x\<rparr>) s goal = chunked S addr P l b s goal"
  by (simp add: chunked_def fun_eq_iff)

lemma chunked_step:
  assumes "chunked S addr P l b1 s1 goal1 r" "lb_out b1 = lb_out b @ before" "grows S s s1"
    "list_all2 (out_ok S addr s1 P l) before bss" "goal = concat bss @ goal1"
  shows "chunked S addr P l b s goal r"
proof -
  from assms(1) obtain outs css pend' where "grows S s1 (snd r)"
    "lb_out (fst r) = lb_out b1 @ outs" "list_all2 (out_ok S addr (snd r) P l) outs css"
    "lb_inv P l (fst r) pend'" "concat css @ (if pend' = [] then [] else [pend']) = goal1"
    by (auto simp: chunked_def)
  with assms show ?thesis unfolding chunked_def
    by (intro exI [of _ "before @ outs"] exI [of _ "bss @ css"] exI [of _ pend'])
      (auto intro: grows_trans outs_ok_grows list_all2_appendI)
qed

lemma chunk_outs_ok:
  "list_all (stored S addr s l) cs \<Longrightarrow>
     list_all2 (out_ok S addr s P l) (map (\<lambda>c. OutChunk (chunk_ref addr l c)) cs) (map (\<lambda>c. [c]) cs)"
  by (induction cs) auto

lemma concat_singletons [simp]: "concat (map (\<lambda>c. [c]) cs) = cs"
  by (induction cs) auto

context chunk_store
begin

lemma push_then_chunked:
  assumes inv: "lb_inv P l b pend" and k: "list_all (kind_at l) es"
    and so: "sorted_wrt (<) (map entry_key (pend @ es @ rest))"
    and items: "list_all2 (item_ok S addr s P l) items ess" "rest = concat ess"
    and IH: "\<And>b' s' pend. lb_push_all S s b es = Inr (b', s') \<Longrightarrow> lb_inv P l b' pend \<Longrightarrow>
      list_all2 (item_ok S addr s' P l) items ess \<Longrightarrow>
      sorted_wrt (<) (map entry_key (pend @ rest)) \<Longrightarrow>
      ensures (f (b', s')) (chunked S addr P l b' s' (finish (run P pend rest)))"
  shows "ensures (rbind (lb_push_all S s b es) f) (chunked S addr P l b s (finish (run P pend (es @ rest))))"
proof (rule ensures_rbind)
  show "ensures (lb_push_all S s b es) (\<lambda>(b', s'). grows S s s' \<and>
    lb_inv P l b' (snd (run P pend es)) \<and>
    lb_out b' = lb_out b @ map (\<lambda>c. OutChunk (chunk_ref addr l c)) (fst (run P pend es)) \<and>
    list_all (stored S addr s' l) (fst (run P pend es)))"
    using so by (intro lb_push_all_spec [OF inv k]) (auto simp: sorted_wrt_append)
next
  fix r
  assume m: "lb_push_all S s b es = Inr r"
  assume "case r of (b', s') \<Rightarrow> grows S s s' \<and>
    lb_inv P l b' (snd (run P pend es)) \<and>
    lb_out b' = lb_out b @ map (\<lambda>c. OutChunk (chunk_ref addr l c)) (fst (run P pend es)) \<and>
    list_all (stored S addr s' l) (fst (run P pend es))"
  then obtain b' s' where r: "r = (b', s')" "grows S s s'" "lb_inv P l b' (snd (run P pend es))"
    "lb_out b' = lb_out b @ map (\<lambda>c. OutChunk (chunk_ref addr l c)) (fst (run P pend es))"
    "list_all (stored S addr s' l) (fst (run P pend es))" by auto
  have "concat (fst (run P pend es)) @ snd (run P pend es) = pend @ es"
    by (rule run_concat [of P pend es]) simp
  then have "sorted_wrt (<) (map entry_key (snd (run P pend es) @ rest))"
    using so by (metis append.assoc map_append sorted_wrt_append)
  then have "ensures (f (b', s')) (chunked S addr P l b' s' (finish (run P (snd (run P pend es)) rest)))"
    using IH [OF m [unfolded r(1)] r(3) items_ok_grows [OF items(1) r(2)]] by simp
  then show "ensures (f r) (chunked S addr P l b s (finish (run P pend (es @ rest))))"
    unfolding r(1)
    by (rule ensures_mono)
      (rule chunked_step [OF _ r(4,2) chunk_outs_ok [OF r(5)]], auto simp: finish_run_append)
qed

end

lemma chunk_items_spec:
  "chunk_store S addr \<Longrightarrow> lb_inv P l b pend \<Longrightarrow> list_all2 (item_ok S addr s P l) items ess \<Longrightarrow>
     sorted_wrt (<) (map entry_key (pend @ concat ess)) \<Longrightarrow>
     ensures (chunk_items S l items b s) (chunked S addr P l b s (finish (run P pend (concat ess))))"
proof (induction S l items b s arbitrary: pend ess rule: chunk_items.induct)
  case (1 S level b s)
  then show ?case
    by (auto simp: chunk_items.simps(1) chunked_def finish_def intro!: exI [of _ "[]"] exI [of _ pend])
next
  case (2 S level entries base queue b s)
  then obtain sts where ess: "ess = entries # sts" "list_all (kind_at level) entries"
    "list_all2 (item_ok S addr s P level) queue sts"
    by (auto simp: list_all2_Cons1)
  let ?b = "b\<lparr>lb_current_base := base\<rparr>"
  have "ensures (rbind (lb_push_all S s ?b entries) (\<lambda>(b, s). chunk_items S level queue b s))
      (chunked S addr P level ?b s (finish (run P pend (entries @ concat sts))))"
    using "2.prems"
    by (intro chunk_store.push_then_chunked [OF "2.prems"(1) _ ess(2) _ ess(3) refl])
      (auto simp: ess intro!: "2.IH")
  then show ?case
    by (simp add: chunk_items.simps(2) ess(1))
next
  case (3 S level node fin queue b s)
  then obtain t sts where ess: "ess = gents t # sts" "gref t = node" "glevel t = level"
    "gt S addr s P fin t" "list_all2 (item_ok S addr s P level) queue sts"
    by (auto simp: list_all2_Cons1)
  have fin: "fin_ok P fin [gents t]" "gents t \<noteq> []" "gstored S s t"
    using ess(4) gclosed_gents [of P fin t] gok_gstored [of S s t] by (auto simp: gt_def)
  show ?case
  proof (cases "at_boundary b \<and> (\<not> fin \<or> queue = [])")
    case True
    then have pend: "pend = []" using at_boundary_iff [OF "3.prems"(2)] by simp
    have rest: "\<not> fin \<or> concat sts = []" using True ess(5) by auto
    let ?b = "b\<lparr>lb_out := lb_out b @ [OutChunk node]\<rparr>"
    have "ensures (chunk_items S level queue ?b s) (chunked S addr P level ?b s (finish (run P [] (concat sts))))"
      using "3.prems" True pend ess by (intro "3.IH"(1)) (auto simp: sorted_wrt_append)
    moreover have "out_ok S addr s P level (OutChunk node) [gents t]"
      using gt_stored [OF ess(4)] chunk_ref_gref [of addr t] ess by (auto simp: gt_def)
    moreover have "finish (run P pend (concat ess)) = [gents t] @ finish (run P [] (concat sts))"
      using closed_pass [OF fin(1) rest] pend ess(1) by simp
    ultimately show ?thesis unfolding chunk_items.simps(3) if_P [OF True]
      by (elim ensures_mono)
        (rule chunked_step [where before = "[OutChunk node]" and bss = "[[gents t]]"], auto)
  next
    case False
    let ?b = "b\<lparr>lb_current_base := Some (ref_hash node)\<rparr>"
    have rd: "read_node S s (ref_hash node) level (Some (last_key node)) None = Inr (gnode t)"
      using read_gstored [OF fin(3), of "Some (glast t)" None] fin(2) ess(2,3) by (auto simp: gref_def)
    have "ensures (rbind (lb_push_all S s ?b (gents t)) (\<lambda>(b, s). chunk_items S level queue b s))
        (chunked S addr P level ?b s (finish (run P pend (gents t @ concat sts))))"
    proof (rule chunk_store.push_then_chunked [OF "3.prems"(1) _ _ _ ess(5) refl])
      show "list_all (kind_at level) (gents t)" using gents_kind [OF fin(3)] ess(3) by simp
      fix b' s' pend'
      assume "lb_push_all S s ?b (gents t) = Inr (b', s')" "lb_inv P level b' pend'"
        "list_all2 (item_ok S addr s' P level) queue sts"
        "sorted_wrt (<) (map entry_key (pend' @ concat sts))"
      then show "ensures (case (b', s') of (b, s) \<Rightarrow> chunk_items S level queue b s)
          (chunked S addr P level b' s' (finish (run P pend' (concat sts))))"
        using "3.IH"(2) [OF False rd _ refl, of b' s' pend' sts] "3.prems"(1) by simp
    qed (use "3.prems" ess(1) in simp_all)
    then show ?thesis unfolding chunk_items.simps(3) if_not_P [OF False] rd
      by (simp add: ess(1))
  qed
next
  case (4 S level node sl fin queue b s)
  then obtain t sts where ess: "ess = level_stream level t # sts" "gref t = node" "glevel t = sl"
    "level < sl" "gt S addr s P fin t" "list_all2 (item_ok S addr s P level) queue sts"
    by (auto simp: list_all2_Cons1)
  have ok: "gok S s t" "gaddr addr t" "gclosed P fin t" "gstored S s t" "gents t \<noteq> []"
    using ess(5) gclosed_gents [of P fin t] gok_gstored [of S s t] by (auto simp: gt_def)
  show ?case
  proof (cases "at_boundary b \<and> (\<not> fin \<or> queue = [])")
    case True
    then have pend: "pend = []" using at_boundary_iff [OF "4.prems"(2)] by simp
    have rest: "\<not> fin \<or> concat sts = []" using True ess(6) by auto
    let ?b = "b\<lparr>lb_out := lb_out b @ [OutSubtree node sl fin]\<rparr>"
    have "ensures (chunk_items S level queue ?b s) (chunked S addr P level ?b s (finish (run P [] (concat sts))))"
      using "4.prems" True pend ess by (intro "4.IH"(1)) (auto simp: sorted_wrt_append)
    moreover have "out_ok S addr s P level (OutSubtree node sl fin) (map gents (nodes_at level t))"
      using ess by auto
    moreover have "finish (run P pend (concat ess)) =
        map gents (nodes_at level t) @ finish (run P [] (concat sts))"
      using closed_pass [of P fin "map gents (nodes_at level t)", OF _ rest] ok(3) ess(3,4) pend
      by (simp add: ess(1) level_stream_def gclosed_def)
    ultimately show ?thesis unfolding chunk_items.simps(4) if_P [OF True]
      by (elim ensures_mono)
        (rule chunked_step [where before = "[OutSubtree node sl fin]"
            and bss = "[map gents (nodes_at level t)]"], auto)
  next
    case False
    obtain h ts where t: "t = GNode h ts" using ess(3,4) by (cases t) auto
    have rd: "read_node S s (ref_hash node) sl (Some (last_key node)) None = Inr (Inner (map gref ts))"
      using read_gstored [OF ok(4), of "Some (glast t)" None] ok(5) ess(2,3) by (auto simp: gref_def t)
    have kids: "list_all2 (item_ok S addr s P level) (child_items level (sl - 1) fin (map gref ts))
        (map (level_stream level) ts)"
      using ok gclosed_children [of P fin h ts S s] ess(3,4) by (intro child_items_ok) (auto simp: t)
    have st: "level_stream level t = concat (map (level_stream level) ts)"
      using ess(3,4) by (simp add: t level_stream_node)
    have "ensures (chunk_items S level (child_items level (sl - 1) fin (map gref ts) @ queue) b s)
        (chunked S addr P level b s (finish (run P pend (concat (map (level_stream level) ts @ sts)))))"
      using "4.prems" kids ess(6) st ess(1)
      by (intro "4.IH"(2) [OF False rd]) (auto intro: list_all2_appendI)
    then show ?thesis unfolding chunk_items.simps(4) if_not_P [OF False] rd
      by (simp add: ess(1) st)
  qed
qed


lemma stored_Nil:
  "st_get S s (addr (node_bytes 0 [])) = Inr (Some (node_bytes 0 [])) \<Longrightarrow> stored S addr s 0 []"
  by (simp add: stored_def wf_entries_def)

lemma out_ok_not_Nil: "out_ok S addr s P l i cs \<Longrightarrow> cs \<noteq> []"
  by (cases i) (auto simp: gt_def nodes_at_not_Nil)

lemma outs_ok_not_Nil: "list_all2 (out_ok S addr s P l) os css \<Longrightarrow> concat css = [] \<longleftrightarrow> os = []"
proof (cases os)
  case (Cons i os')
  moreover assume "list_all2 (out_ok S addr s P l) os css"
  ultimately obtain cs rest where "css = cs # rest" "out_ok S addr s P l i cs"
    by (auto simp: list_all2_Cons1)
  with Cons show ?thesis using out_ok_not_Nil [of S addr s P l i cs] by auto
qed simp

lemma chunk_level_spec:
  assumes cs: "chunk_store S addr" and items: "list_all2 (item_ok S addr s P l) items ess"
    and so: "sorted_wrt (<) (map entry_key (concat ess))" and ne: "concat ess = [] \<longrightarrow> l = 0"
  shows "ensures (chunk_level S s l P items rec) (\<lambda>(outs, rec', s'). grows S s s' \<and>
    (\<exists>css. list_all2 (out_ok S addr s' P l) outs css \<and>
       concat css = (if concat ess = [] then [[]] else chunks P (concat ess))))"
proof -
  have 1: "ensures (chunk_items S l items (lb_new l P rec) s)
      (chunked S addr P l (lb_new l P rec) s (chunks P (concat ess)))"
    using chunk_items_spec [OF cs lb_inv_new items] so by (simp add: chunks_def)
  have 2: "ensures (if 0 < lb_count b then lb_emit S s1 b else Inr (b, s1)) (\<lambda>(b', s'). grows S s s' \<and>
      lb_inv P l b' [] \<and>
      (\<exists>css. list_all2 (out_ok S addr s' P l) (lb_out b') css \<and> concat css = chunks P (concat ess)))"
    if "chunked S addr P l (lb_new l P rec) s (chunks P (concat ess)) (b, s1)" for b s1
  proof -
    from that obtain css pend where c: "grows S s s1" "list_all2 (out_ok S addr s1 P l) (lb_out b) css"
      "lb_inv P l b pend" "concat css @ (if pend = [] then [] else [pend]) = chunks P (concat ess)"
      by (auto simp: chunked_def lb_new_def)
    show ?thesis
    proof (cases "pend = []")
      case True
      with c show ?thesis by (auto simp: lb_count_pos [OF c(3)] simp del: word_neq_0_conv)
    next
      case False
      have "concat (concat css) @ pend = concat ess"
        using arg_cong [OF c(4), of concat] False by (simp add: concat_chunks)
      then have "sorted_wrt (<) (map entry_key (concat (concat css) @ pend))" using so by simp
      then have "sorted_wrt (<) (map entry_key pend)"
        unfolding map_append sorted_wrt_append by blast
      then have st: "st_get S s' (addr (node_bytes l pend)) = Inr (Some (node_bytes l pend)) \<Longrightarrow>
          stored S addr s' l pend" for s'
        using c(3) False by (simp add: stored_def wf_entries_def lb_inv_def)
      have "list_all2 (out_ok S addr s' P l) (lb_out b @ [OutChunk (chunk_ref addr l pend)]) (css @ [[pend]])"
        if "grows S s1 s'" "st_get S s' (addr (node_bytes l pend)) = Inr (Some (node_bytes l pend))" for s'
        using that by (intro list_all2_appendI outs_ok_grows [OF c(2)]) (auto intro: st)
      then show ?thesis
        using False c(4) lb_count_pos [OF c(3)]
        by (auto intro!: ensures_mono [OF chunk_store.lb_emit_spec [OF cs c(3)]] exI [of _ "css @ [[pend]]"]
            intro: grows_trans [OF c(1)] simp del: word_neq_0_conv)
    qed
  qed
  have 3: "ensures (if lb_out b = [] \<and> l = 0 then lb_emit S s1 b else Inr (b, s1)) (\<lambda>(b', s'). grows S s s' \<and>
      (\<exists>css. list_all2 (out_ok S addr s' P l) (lb_out b') css \<and>
         concat css = (if concat ess = [] then [[]] else chunks P (concat ess))))"
    if "grows S s s1" "lb_inv P l b []" "list_all2 (out_ok S addr s1 P l) (lb_out b) css"
      "concat css = chunks P (concat ess)" for b s1 css
  proof (cases "lb_out b = [] \<and> l = 0")
    case True
    with that have e: "concat ess = []" by (metis chunks_eq_Nil concat.simps(1) list_all2_Nil)
    show ?thesis using True e
      by (auto intro!: ensures_mono [OF chunk_store.lb_emit_spec [OF cs that(2)]] exI [of _ "[[[]]]"]
          intro: grows_trans [OF that(1)] stored_Nil)
  next
    case False
    then have "concat ess \<noteq> []" using that(3,4) ne outs_ok_not_Nil [OF that(3)] by auto
    with that False show ?thesis by auto
  qed
  show ?thesis unfolding chunk_level_def
  proof (rule ensures_rbind [OF 1], clarify)
    fix b s1
    assume "chunked S addr P l (lb_new l P rec) s (chunks P (concat ess)) (b, s1)"
    then show "ensures (rbind (if 0 < lb_count b then lb_emit S s1 b else Inr (b, s1))
        (\<lambda>(b, s). rbind (if lb_out b = [] \<and> l = 0 then lb_emit S s b else Inr (b, s))
          (\<lambda>(b, s). Inr (lb_out b, lb_recorder b, s))))
      (\<lambda>(outs, rec', s'). grows S s s' \<and> (\<exists>css. list_all2 (out_ok S addr s' P l) outs css \<and>
         concat css = (if concat ess = [] then [[]] else chunks P (concat ess))))"
    proof (rule ensures_rbind [OF 2], clarify)
      fix b s1 css
      assume "grows S s s1" "lb_inv P l b []" "list_all2 (out_ok S addr s1 P l) (lb_out b) css"
        "concat css = chunks P (concat ess)"
      from 3 [OF this] show "ensures (rbind (if lb_out b = [] \<and> l = 0 then lb_emit S s1 b else Inr (b, s1))
          (\<lambda>(b, s). Inr (lb_out b, lb_recorder b, s)))
        (\<lambda>(outs, rec', s'). grows S s s' \<and> (\<exists>css. list_all2 (out_ok S addr s' P l) outs css \<and>
           concat css = (if concat ess = [] then [[]] else chunks P (concat ess))))"
        by (rule ensures_rbind) (auto simp del: concat_eq_Nil_conv)
    qed
  qed
qed

end
