(* ===== verification/Prolly_History.thy ===== *)
theory Prolly_History
  imports Prolly_Level
begin

text \<open>
  Whole trees: \<open>promote\<close> and \<open>build_levels\<close> produce the canonical levels, so \<^verbatim>\<open>bulk_load\<close> and
  \<^verbatim>\<open>apply_batch\<close> return roots that are determined by the map's contents, the parameters and the
  height.
\<close>

section \<open>Promotion\<close>

definition opened_ok ::
  "'s store_ops \<Rightarrow> (bytes \<Rightarrow> hash) \<Rightarrow> 's \<Rightarrow> chunk_params \<Rightarrow> nat \<Rightarrow> opened_inner \<Rightarrow> bool" where
  "opened_ok S addr s P l op \<longleftrightarrow> (\<exists>h ts. opened_node op = gref (GNode h ts) \<and>
     glevel (GNode h ts) = l \<and> gt S addr s P (opened_final op) (GNode h ts) \<and>
     opened_children op = map ghash ts)"

lemma opened_ok_grows: "opened_ok S addr s P l op \<Longrightarrow> grows S s s' \<Longrightarrow> opened_ok S addr s' P l op"
  unfolding opened_ok_def by (blast dest: gt_grows)

lemma node_bytes_inj:
  assumes "wf_entries l a" "wf_entries l b" "l < 256" "node_bytes l a = node_bytes l b"
  shows "a = b"
proof -
  have n: "node_of l a = node_of l b"
    using decode_node_bytes [OF assms(1,3)] decode_node_bytes [OF assms(2,3)]
    unfolding assms(4) by simp
  have "a = node_entries (node_of l a)"
    using assms(1) by (intro node_entries_of [symmetric]) (simp add: wf_entries_def)
  also have "\<dots> = b"
    unfolding n using assms(2) by (intro node_entries_of) (simp add: wf_entries_def)
  finally show ?thesis .
qed

text \<open>Outputs whose hashes are those of stored nodes have the contents of these nodes.\<close>

lemma run_is_children:
  assumes "list_all2 (out_ok S addr s P l) outs css" "list_all2 out_hash_is outs (map ghash ts)"
    "\<forall>t \<in> set ts. gok S s t \<and> gaddr addr t \<and> glevel t = l" "l < 256"
  shows "concat css = map gents ts"
  using assms
proof (induction ts arbitrary: outs css)
  case (Cons t ts)
  then obtain i outs' cs css' where eq: "outs = i # outs'" "css = cs # css'" "out_hash_is i (ghash t)"
    "out_ok S addr s P l i cs"
    by (auto simp: list_all2_Cons1 list_all2_Cons2)
  then obtain c where c: "cs = [c]" "stored S addr s l c" "addr (node_bytes l c) = ghash t"
    by (cases i) (auto simp: chunk_ref_def)
  have "gstored S s t" "glevel t = l" using Cons.prems(3) gok_gstored by auto
  then have "c = gents t"
    using c Cons.prems(4) by (intro node_bytes_inj [of l]) (auto simp: stored_def gstored_def gbytes_def)
  moreover have "concat css' = map gents ts" using Cons eq by auto
  ultimately show ?case by (simp add: eq c)
qed (auto simp: list_all2_Nil2)

lemma up_gents: "gaddr addr t \<Longrightarrow> up addr (glevel t) (gents t) = ref_entry (gref t)"
  using chunk_ref_gref [of addr t] by (simp add: up_def)

lemma match_parent_subset: "match_parent outs r opened = (opened', m) \<Longrightarrow> set opened' \<subseteq> set opened"
  by (induction outs r opened rule: match_parent.induct) (auto split: if_splits)

lemma flush_ok:
  assumes "list_all2 (item_ok S addr s P l) items ess" "list_all (kind_at l) fresh"
  shows "\<exists>ess'. list_all2 (item_ok S addr s P l) (flush fresh items) ess' \<and>
    concat ess' = concat ess @ fresh"
proof (cases "fresh = []")
  case False
  with assms show ?thesis
    by (intro exI [of _ "ess @ [fresh]"]) (auto simp: flush_def intro!: list_all2_appendI)
qed (use assms in \<open>auto simp: flush_def\<close>)

lemma out_subtree_item:
  assumes "out_ok S addr s P l (OutSubtree r sl fin) cs"
  shows "item_ok S addr s P (Suc l) (if sl = Suc l then Old r fin else Subtree r sl fin)
    (map (up addr l) cs)"
proof -
  from assms obtain t where t: "gref t = r" "glevel t = sl" "l < sl" "gt S addr s P fin t"
    "cs = map gents (nodes_at l t)" by auto
  have "concat (map gents (nodes_at (Suc l) t)) = map (up addr l) cs"
    using t level_up [of S s t addr l] by (simp add: gt_def)
  with t show ?thesis by (cases "sl = Suc l") (auto simp: level_stream_def intro!: exI [of _ t])
qed

lemma promote_from_spec:
  assumes "list_all2 (out_ok S addr s P l) outs css" "\<forall>op \<in> set opened. opened_ok S addr s P (Suc l) op"
    "list_all2 (item_ok S addr s P (Suc l)) items ess" "list_all (kind_at (Suc l)) fresh" "l < 256"
  shows "\<exists>ess'. list_all2 (item_ok S addr s P (Suc l)) (promote_from outs opened (Suc l) fresh items) ess' \<and>
    concat ess' = concat ess @ fresh @ map (up addr l) (concat css)"
  using assms
proof (induction outs opened "Suc l" fresh items arbitrary: css ess rule: promote_from.induct)
  case (1 opened fresh items)
  then show ?case using flush_ok [OF "1.prems"(3,4)] by (auto simp: promote_from.simps)
next
  case (2 node level fin outs opened fresh items)
  then obtain cs css' where eq: "css = cs # css'" "out_ok S addr s P l (OutSubtree node level fin) cs"
    "list_all2 (out_ok S addr s P l) outs css'" by (auto simp: list_all2_Cons1)
  obtain ess1 where e1: "list_all2 (item_ok S addr s P (Suc l)) (flush fresh items) ess1"
    "concat ess1 = concat ess @ fresh" using flush_ok [OF "2.prems"(3,4)] by auto
  have "list_all2 (item_ok S addr s P (Suc l))
      (flush fresh items @ [if level = Suc l then Old node fin else Subtree node level fin])
      (ess1 @ [map (up addr l) cs])"
    using e1(1) out_subtree_item [OF eq(2)] by (intro list_all2_appendI) auto
  from "2.hyps" [OF eq(3) "2.prems"(2) this _ "2.prems"(5)] show ?case
    by (simp add: promote_from.simps(2) e1(2) eq(1))
next
  case (3 r outs opened fresh items)
  then obtain c css' where eq: "css = [c] # css'" "r = chunk_ref addr l c" "stored S addr s l c"
    "list_all2 (out_ok S addr s P l) outs css'" by (auto simp: list_all2_Cons1)
  obtain opened' m where mp: "match_parent (OutChunk r # outs) r opened = (opened', m)" by fastforce
  show ?case
  proof (cases m)
    case (Some k)
    from match_parent_Some [OF mp [unfolded Some]] obtain cand rest where
      cand: "opened' = cand # rest" "k = length (opened_children cand)" "0 < k"
      "full_run (OutChunk r # outs) (opened_children cand)" "cand \<in> set opened" "set rest \<subseteq> set opened"
      by blast
    obtain h ts where op: "opened_node cand = gref (GNode h ts)" "glevel (GNode h ts) = Suc l"
      "gt S addr s P (opened_final cand) (GNode h ts)" "opened_children cand = map ghash ts"
      using "3.prems"(2) cand(5) by (auto simp: opened_ok_def)
    have kids: "\<forall>t \<in> set ts. gok S s t \<and> gaddr addr t \<and> glevel t = l"
      using op(2,3) by (auto simp: gt_def)
    have "concat (take k css) = map gents ts"
      using run_is_children [OF list_all2_takeI [OF "3.prems"(1)] _ kids "3.prems"(5), of k] cand(2,4) op(4)
      by (simp add: full_run_def)
    moreover have "map (up addr l) (map gents ts) = gents (GNode h ts)"
      using kids up_gents [of addr] by auto
    ultimately have up: "map (up addr l) (concat css) =
        gents (GNode h ts) @ map (up addr l) (concat (drop k css))"
      by (metis append_take_drop_id concat_append map_append)
    obtain ess1 where e1: "list_all2 (item_ok S addr s P (Suc l)) (flush fresh items) ess1"
      "concat ess1 = concat ess @ fresh" using flush_ok [OF "3.prems"(3,4)] by auto
    have rest_ok: "\<forall>op \<in> set rest. opened_ok S addr s P (Suc l) op"
      using cand(6) "3.prems"(2) by blast
    have "list_all2 (item_ok S addr s P (Suc l))
        (flush fresh items @ [Old (opened_node cand) (opened_final cand)]) (ess1 @ [gents (GNode h ts)])"
      using e1(1) op by (intro list_all2_appendI) (auto simp del: gents.simps intro!: exI [of _ "GNode h ts"])
    from "3.hyps"(3) [OF mp [unfolded Some cand(1), symmetric] refl refl list_all2_dropI [OF "3.prems"(1)] rest_ok this _ "3.prems"(5)]
    show ?thesis using e1(2) up
      by (simp add: promote_from.simps(3) mp Some cand(1))
  next
    case None
    have sub: "\<forall>op \<in> set opened'. opened_ok S addr s P (Suc l) op"
      using match_parent_subset [OF mp] "3.prems"(2) by blast
    have fr: "list_all (kind_at (Suc l)) (fresh @ [InnerEntry (last_key r) (ref_hash r)])"
      using "3.prems"(4) by simp
    have u: "InnerEntry (last_key r) (ref_hash r) = up addr l c" by (simp add: eq(2) up_def)
    show ?thesis
    proof (cases opened')
      case Nil
      from "3.hyps"(1) [OF mp [unfolded None Nil, symmetric] refl eq(4) _ "3.prems"(3) fr "3.prems"(5)]
      show ?thesis by (simp add: promote_from.simps(3) mp None Nil eq(1) u)
    next
      case (Cons x xs)
      from "3.hyps"(2) [OF mp [unfolded None Cons, symmetric] refl refl eq(4) sub [unfolded Cons] "3.prems"(3) fr "3.prems"(5)]
      show ?thesis by (simp add: promote_from.simps(3) mp None Cons eq(1) u)
    qed
  qed
qed

section \<open>Building\<close>

fun lstream :: "(bytes \<Rightarrow> hash) \<Rightarrow> chunk_params \<Rightarrow> (bytes \<times> bytes) list \<Rightarrow> nat \<Rightarrow> entry list" where
  "lstream addr P kvs 0 = leaf_entries kvs"
| "lstream addr P kvs (Suc l) = map (up addr l) (lchunks addr P kvs l)"

lemma lchunks_lstream:
  "lchunks addr P kvs l = (if lstream addr P kvs l = [] then [[]] else chunks P (lstream addr P kvs l))"
  by (cases l) (auto simp: lchunks_not_Nil)

lemma lstream_Nil: "lstream addr P kvs l = [] \<Longrightarrow> l = 0 \<and> kvs = []"
  by (cases l) (auto simp: lchunks_not_Nil)

lemma concat_lchunks: "concat (lchunks addr P kvs l) = lstream addr P kvs l"
  by (subst lchunks_lstream) (auto simp: concat_chunks)

lemma fin_ok_nonempty: "fin_ok P fin cs \<Longrightarrow> c \<in> set cs \<Longrightarrow> c \<noteq> []"
  using fin_ok_chunks [of P fin cs] chunks_nonempty [of c P "concat cs"] by simp

lemma sorted_lstream:
  assumes "sorted_wrt (<) (map fst kvs)" "0 < l \<longrightarrow> kvs \<noteq> []"
  shows "sorted_wrt (<) (map entry_key (lstream addr P kvs l))"
  using assms(2)
proof (induction l)
  case 0
  then show ?case using assms(1) by simp
next
  case (Suc l)
  then have "sorted_wrt (<) (map entry_key (lstream addr P kvs l))" and ne: "kvs \<noteq> []" by auto
  then show ?case
    using lchunks_nonempty [OF ne] unfolding lstream.simps
    by (intro sorted_map_up) (auto simp: concat_lchunks)
qed

lemma gt_nodes_stored:
  assumes "gt S addr s P fin t" "k \<le> glevel t" "n \<in> set (nodes_at k t)"
  shows "stored S addr s k (gents n)"
proof -
  have "gok S s n" "glevel n = k" "gaddr addr n"
    using assms nodes_at_gok [of S s t k n] nodes_at_gaddr [of addr t n k] by (auto simp: gt_def)
  then show ?thesis
    using gok_gstored [of S s n] gaddr_ghash [of addr n]
    by (auto simp: stored_def gstored_def gbytes_def)
qed

text \<open>A tree whose nodes at some level are that level's chunks has the chunks of every higher level.\<close>

lemma lchunks_tree:
  assumes "gt S addr s P fin t" "lchunks addr P kvs l = map gents (nodes_at l t)" "l \<le> k" "k \<le> glevel t"
  shows "lchunks addr P kvs k = map gents (nodes_at k t)"
  using assms(3,4)
proof (induction k rule: dec_induct)
  case (step k)
  then have "map (up addr k) (lchunks addr P kvs k) = concat (map gents (nodes_at (Suc k) t))"
    using assms(1) level_up [of S s t addr k] by (simp add: gt_def)
  moreover have "fin_ok P fin (map gents (nodes_at (Suc k) t))"
    using assms(1) step.prems by (simp add: gt_def gclosed_def)
  ultimately show ?case using fin_ok_chunks by simp
qed (use assms(2) in simp)

lemma canon_root_chunk:
  assumes "lchunks addr P kvs l = [c]" "stored S addr s l c" "l < MAX_HEIGHT"
    "sorted_wrt (<) (map fst kvs)" "kvs = [] \<longrightarrow> l = 0"
    "\<forall>k < l. \<forall>c \<in> set (lchunks addr P kvs k). stored S addr s k c"
  shows "canon_root S addr s kvs \<lparr>root_hash = addr (node_bytes l c), root_height = l + 1, root_params = P\<rparr>"
  using assms by (auto simp: canon_root_def top_level_def le_less)

lemma canon_root_subtree:
  assumes t: "gt S addr s P fin t" "l < glevel t" and l: "lchunks addr P kvs l = map gents (nodes_at l t)"
    and so: "sorted_wrt (<) (map fst kvs)" and nil: "kvs = [] \<longrightarrow> l = 0"
    and below: "\<forall>k < l. \<forall>c \<in> set (lchunks addr P kvs k). stored S addr s k c"
  shows "canon_root S addr s kvs \<lparr>root_hash = ghash t, root_height = glevel t + 1, root_params = P\<rparr>"
proof -
  have g: "gok S s t" "gaddr addr t" "glevel t < MAX_HEIGHT"
    using t(1) gok_gstored [of S s t] by (auto simp: gt_def gstored_def)
  have "kvs \<noteq> []"
  proof
    assume "kvs = []"
    with nil l have "[] \<in> set (map gents (nodes_at l t))" by (metis list.set_intros(1) lchunks.simps(1))
    moreover have "fin_ok P fin (map gents (nodes_at l t))" using t by (simp add: gt_def gclosed_def)
    ultimately show False using fin_ok_nonempty by blast
  qed
  moreover have "stored S addr s k c" if "k \<le> glevel t" "c \<in> set (lchunks addr P kvs k)" for k c
  proof (cases "k < l")
    case False
    then have "lchunks addr P kvs k = map gents (nodes_at k t)"
      using lchunks_tree [OF t(1) l, of k] that(1) by simp
    then show ?thesis using gt_nodes_stored [OF t(1) that(1)] that(2) by auto
  qed (use below that in blast)
  moreover have "lchunks addr P kvs (glevel t) = [gents t]"
    using lchunks_tree [OF t(1) l, of "glevel t"] t(2) by simp
  ultimately show ?thesis
    using g(3) so gaddr_ghash [OF g(2)] by (simp add: canon_root_def top_level_def gbytes_def)
qed

text \<open>By the fan-out bound, level 63 of any map that fits in memory is a single chunk.\<close>

lemma lchunks_top: "length kvs \<le> 2 ^ 64 \<Longrightarrow> length (lchunks addr P kvs 63) = 1"
proof -
  assume n: "length kvs \<le> 2 ^ 64"
  have "length (lchunks addr P kvs 63) \<le> 1"
  proof (rule disjE [OF length_lchunks [of addr P kvs 63]])
    assume "length (lchunks addr P kvs 63) \<le> (length kvs + 2 ^ Suc 63 - 1) div 2 ^ Suc 63"
    also have "\<dots> \<le> (2 ^ 64 + 2 ^ Suc 63 - 1) div 2 ^ Suc 63" using n by (intro div_le_mono) simp
    also have "\<dots> = 1" by simp
    finally show ?thesis .
  qed simp
  then show ?thesis using lchunks_not_Nil [of addr P kvs 63] by (cases "lchunks addr P kvs 63") auto
qed

lemma length_outs:
  assumes "list_all2 (out_ok S addr s P l) outs css" "length (concat css) = 1"
  shows "length outs = 1"
proof (cases outs)
  case (Cons i outs')
  with assms(1) obtain cs css' where c: "css = cs # css'" "out_ok S addr s P l i cs"
    "list_all2 (out_ok S addr s P l) outs' css'" by (auto simp: list_all2_Cons1)
  with assms(2) out_ok_not_Nil [OF c(2)] have "concat css' = []" by (cases cs) auto
  with outs_ok_not_Nil [OF c(3)] Cons show ?thesis by simp
qed (use assms in auto)

lemma root_of_outs:
  assumes "list_all2 (out_ok S addr s P l) [i] css" "concat css = lchunks addr P kvs l" "l < MAX_HEIGHT"
    "sorted_wrt (<) (map fst kvs)" "kvs = [] \<longrightarrow> l = 0"
    "\<forall>k < l. \<forall>c \<in> set (lchunks addr P kvs k). stored S addr s k c"
  shows "canon_root S addr s kvs (root_of_out P l i)"
proof (cases i)
  case (OutChunk r)
  with assms(1) obtain c where "css = [[c]]" "r = chunk_ref addr l c" "stored S addr s l c"
    by (auto simp: list_all2_Cons1)
  moreover from this(1) assms(2) have "lchunks addr P kvs l = [c]" by simp
  ultimately show ?thesis using canon_root_chunk [of addr P kvs l c S s] assms
    by (simp add: OutChunk chunk_ref_def)
next
  case (OutSubtree r sl fin)
  with assms(1,2) obtain t where "gref t = r" "glevel t = sl" "l < sl" "gt S addr s P fin t"
    "lchunks addr P kvs l = map gents (nodes_at l t)" by (auto simp: list_all2_Cons1)
  then show ?thesis using canon_root_subtree [of S addr s P fin t l kvs] assms
    by (auto simp: OutSubtree gref_def)
qed

lemma outs_stored:
  assumes "list_all2 (out_ok S addr s P l) outs css" "c \<in> set (concat css)"
  shows "stored S addr s l c"
  using assms
proof (induction outs css rule: list_all2_induct)
  case (Cons i outs cs css)
  show ?case
  proof (cases "c \<in> set cs")
    case True
    then show ?thesis using Cons.hyps(1) by (cases i) (auto, metis gt_nodes_stored less_imp_le)
  qed (use Cons in auto)
qed simp

text \<open>A stream of fresh entries only gives chunks only, so its first level with one output is its
  first level with one chunk.\<close>

fun is_fresh :: "item \<Rightarrow> bool" where
  "is_fresh (Fresh es base) = True"
| "is_fresh _ = False"

fun is_chunk :: "out_item \<Rightarrow> bool" where
  "is_chunk (OutChunk r) = True"
| "is_chunk _ = False"

lemma lb_emit_chunks:
  "lb_emit S s b = Inr (b', s') \<Longrightarrow> list_all is_chunk (lb_out b) \<Longrightarrow> list_all is_chunk (lb_out b')"
  by (cases "st_put S s ([of_nat (lb_level b)] @ be_u32 (lb_count b) @ lb_buf b)";
      cases "lb_recorder b"; cases "lb_current_base b")
    (auto simp: lb_emit_def Let_def split: if_splits)

lemma lb_push_all_chunks:
  "lb_push_all S s b es = Inr (b', s') \<Longrightarrow> list_all is_chunk (lb_out b) \<Longrightarrow> list_all is_chunk (lb_out b')"
proof (induction es arbitrary: b s)
  case (Cons e es)
  then obtain b1 s1 where p: "lb_push S s b e = Inr (b1, s1)" "lb_push_all S s1 b1 es = Inr (b', s')"
    by (auto simp: rbind_Inr_iff)
  have "list_all is_chunk (lb_out b1)"
    using p(1) Cons.prems(2)
    by (auto simp: lb_push_def rbind_Inr_iff Let_def split: if_splits prod.splits dest!: lb_emit_chunks)
  then show ?case using Cons.IH p(2) by blast
qed simp

lemma chunk_items_chunks:
  "chunk_items S l items b s = Inr (b', s') \<Longrightarrow> list_all is_fresh items \<Longrightarrow>
     list_all is_chunk (lb_out b) \<Longrightarrow> list_all is_chunk (lb_out b')"
proof (induction items arbitrary: b s)
  case (Cons i items)
  then obtain es base where i: "i = Fresh es base" by (cases i) auto
  with Cons.prems obtain b1 s1 where "lb_push_all S s (b\<lparr>lb_current_base := base\<rparr>) es = Inr (b1, s1)"
    "chunk_items S l items b1 s1 = Inr (b', s')" by (auto simp: chunk_items.simps rbind_Inr_iff)
  with Cons lb_push_all_chunks [of S s "b\<lparr>lb_current_base := base\<rparr>" es b1 s1] show ?case by simp
qed (simp add: chunk_items.simps)

lemma chunk_level_chunks:
  "chunk_level S s l P items rec = Inr (outs, rec', s') \<Longrightarrow> list_all is_fresh items \<Longrightarrow>
     list_all is_chunk outs"
  using chunk_items_chunks [of S l items "lb_new l P rec" s]
  by (fastforce simp: chunk_level_def rbind_Inr_iff lb_new_def split: if_splits dest: lb_emit_chunks)

lemma length_chunk_outs:
  "list_all2 (out_ok S addr s P l) outs css \<Longrightarrow> list_all is_chunk outs \<Longrightarrow> length (concat css) = length outs"
proof (induction outs css rule: list_all2_induct)
  case (Cons i outs cs css)
  then show ?case by (cases i) auto
qed simp

lemma promote_fresh:
  "list_all is_chunk outs \<Longrightarrow> list_all is_fresh items \<Longrightarrow> list_all is_fresh (promote_from outs [] l fresh items)"
proof (induction outs arbitrary: fresh)
  case (Cons i outs)
  then show ?case by (cases i) (auto simp: promote_from.simps)
qed (auto simp: promote_from.simps flush_def)

lemma build_levels_spec:
  assumes "chunk_store S addr" "list_all2 (item_ok S addr s P l) items ess"
    "concat ess = lstream addr P kvs l" "sorted_wrt (<) (map fst kvs)" "length kvs \<le> 2 ^ 64"
    "l < MAX_HEIGHT" "0 < l \<longrightarrow> kvs \<noteq> []"
    "\<forall>k < l. \<forall>c \<in> set (lchunks addr P kvs k). stored S addr s k c"
    "\<forall>k < length opened. \<forall>op \<in> set (opened ! k). opened_ok S addr s P k op"
    "fresh \<longrightarrow> list_all is_fresh items \<and> opened = []"
  shows "ensures (build_levels S s P l items opened rec) (\<lambda>(r, rec', s'). grows S s s' \<and>
    root_params r = P \<and> canon_root S addr s' kvs r \<and>
    (fresh \<longrightarrow> (\<forall>k. l \<le> k \<and> k < top_level r \<longrightarrow> length (lchunks addr P kvs k) \<noteq> 1)))"
  using assms
proof (induction S s P l items opened rec arbitrary: ess rule: build_levels.induct)
  case (1 S s P l items opened rec)
  have so: "sorted_wrt (<) (map entry_key (concat ess))"
    using sorted_lstream [OF "1.prems"(4,7)] "1.prems"(3) by simp
  have ne: "concat ess = [] \<longrightarrow> l = 0" using lstream_Nil "1.prems"(3) by metis
  show ?case unfolding build_levels.simps [of S s P l]
  proof (rule ensures_rbind [OF chunk_level_spec [OF "1.prems"(1,2) so ne]], clarify)
    fix outs rec' s' css
    assume cl: "chunk_level S s l P items rec = Inr (outs, rec', s')"
      and g: "grows S s s'" and out: "list_all2 (out_ok S addr s' P l) outs css"
      and c: "concat css = (if concat ess = [] then [[]] else chunks P (concat ess))"
    have c: "concat css = lchunks addr P kvs l" using c "1.prems"(3) by (subst lchunks_lstream) simp
    have st: "\<forall>k \<le> l. \<forall>c \<in> set (lchunks addr P kvs k). stored S addr s' k c"
      using "1.prems"(8) g outs_stored [OF out] by (auto simp: le_less c [symmetric] intro: stored_grows)
    show "ensures (if length outs = 1 then Inr (root_of_out P l (outs ! 0), rec', s')
        else if MAX_HEIGHT \<le> l + 1 then Inl (InvalidRoot ''tree exceeds the maximum height'')
        else let level = l + 1; opened_here = if level < length opened then opened ! level else []
          in build_levels S s' P level (promote outs opened_here level) opened rec')
      (\<lambda>(r, rec', s''). grows S s s'' \<and> root_params r = P \<and> canon_root S addr s'' kvs r \<and>
        (fresh \<longrightarrow> (\<forall>k. l \<le> k \<and> k < top_level r \<longrightarrow> length (lchunks addr P kvs k) \<noteq> 1)))"
    proof (cases "length outs = 1")
      case True
      then obtain i where i: "outs = [i]" by (cases outs) auto
      have "root_params (root_of_out P l i) = P" by (cases i) auto
      moreover have "fresh \<longrightarrow> top_level (root_of_out P l i) = l"
        using chunk_level_chunks [OF cl] "1.prems"(10) by (cases i) (auto simp: i top_level_def)
      ultimately show ?thesis
        using root_of_outs [OF out [unfolded i] c "1.prems"(6,4)] "1.prems"(7) st g by (auto simp: i)
    next
      case False
      have "kvs \<noteq> []" using False length_outs [OF out] "1.prems"(7) c by (cases l) auto
      have "l \<noteq> 63" using False length_outs [OF out] lchunks_top [OF "1.prems"(5)] c by auto
      then have nl: "\<not> MAX_HEIGHT \<le> l + 1" using "1.prems"(6) by (simp add: MAX_HEIGHT_def)
      define here where "here = (if l + 1 < length opened then opened ! (l + 1) else [])"
      have op: "opened_ok S addr s' P k op" if "k < length opened" "op \<in> set (opened ! k)" for k op
        using "1.prems"(9) that g by (auto intro: opened_ok_grows)
      have "l < 256" using "1.prems"(6) by (simp add: MAX_HEIGHT_def)
      from promote_from_spec [OF out, of here "[]" "[]" "[]"] op this
      obtain ess' where e: "list_all2 (item_ok S addr s' P (Suc l)) (promote outs here (Suc l)) ess'"
        "concat ess' = map (up addr l) (lchunks addr P kvs l)"
        by (auto simp: here_def promote_def c)
      have fr: "fresh \<longrightarrow> list_all is_fresh (promote outs here (l + 1)) \<and> opened = []"
        using "1.prems"(10) chunk_level_chunks [OF cl] promote_fresh [of outs "[]"]
        by (auto simp: promote_def here_def)
      have l1: "fresh \<longrightarrow> length (lchunks addr P kvs l) \<noteq> 1"
        using "1.prems"(10) chunk_level_chunks [OF cl] length_chunk_outs [OF out] False c by auto
      have ext: "(fresh \<longrightarrow> (\<forall>k. l + 1 \<le> k \<and> k < n \<longrightarrow> length (lchunks addr P kvs k) \<noteq> 1)) \<Longrightarrow>
          (fresh \<longrightarrow> (\<forall>k. l \<le> k \<and> k < n \<longrightarrow> length (lchunks addr P kvs k) \<noteq> 1))" for n
        using l1 by (metis Suc_eq_plus1 Suc_leI le_neq_implies_less)
      have "ensures (build_levels S s' P (l + 1) (promote outs here (l + 1)) opened rec')
          (\<lambda>(r, rec', s''). grows S s' s'' \<and> root_params r = P \<and> canon_root S addr s'' kvs r \<and>
            (fresh \<longrightarrow> (\<forall>k. l + 1 \<le> k \<and> k < top_level r \<longrightarrow> length (lchunks addr P kvs k) \<noteq> 1)))"
        using "1.prems" nl st op \<open>kvs \<noteq> []\<close> e fr
        by (intro "1.IH" [OF cl refl refl False nl refl here_def]) auto
      then have "ensures (build_levels S s' P (l + 1) (promote outs here (l + 1)) opened rec')
          (\<lambda>(r, rec', s''). grows S s s'' \<and> root_params r = P \<and> canon_root S addr s'' kvs r \<and>
            (fresh \<longrightarrow> (\<forall>k. l \<le> k \<and> k < top_level r \<longrightarrow> length (lchunks addr P kvs k) \<noteq> 1)))"
        using g ext by (elim ensures_mono) (blast intro: grows_trans)
      then show ?thesis using False nl by (simp only: Let_def here_def [symmetric] if_False)
    qed
  qed
qed

end
