(* ===== verification/Prolly_Batch.thy ===== *)
theory Prolly_Batch
  imports Prolly_History
begin

text \<open>
  \<^verbatim>\<open>bulk_load\<close> and \<^verbatim>\<open>apply_batch\<close> against their specifications: what map the new root stands for,
  and that the root is the canonical one of its height.
\<close>

section \<open>Sorting and deduplicating\<close>

definition norm :: "('a \<Rightarrow> bytes) \<Rightarrow> 'a list \<Rightarrow> 'a list" where
  "norm key xs = dedup_last key [] (sort_key key xs)"

definition last_list :: "'a list \<Rightarrow> 'a list" where
  "last_list xs = (if xs = [] then [] else [last xs])"

lemma dedup_last_spec:
  "sorted_wrt (<) (map key acc) \<Longrightarrow> sorted (map key (acc @ xs)) \<Longrightarrow>
     sorted_wrt (<) (map key (dedup_last key acc xs)) \<and>
     (\<forall>k. filter (\<lambda>y. key y = k) (dedup_last key acc xs) =
          last_list (filter (\<lambda>y. key y = k) (acc @ xs))) \<and>
     length (dedup_last key acc xs) \<le> length acc + length xs"
proof (induction key acc xs rule: dedup_last.induct)
  case (1 key acc)
  have "filter (\<lambda>y. key y = k) acc = last_list (filter (\<lambda>y. key y = k) acc)" for k
  proof -
    have "distinct (map key acc)" using "1.prems"(1) by (simp add: strict_sorted_iff)
    then have "length (filter (\<lambda>y. key y = k) acc) \<le> 1"
      by (induction acc) (auto simp: filter_empty_conv image_iff)
    then show ?thesis by (cases "filter (\<lambda>y. key y = k) acc") (auto simp: last_list_def)
  qed
  with 1 show ?case by simp
next
  case (2 key acc x xs)
  show ?case
  proof (cases "case last_opt acc of Some y \<Rightarrow> key y = key x | None \<Rightarrow> False")
    case True
    then obtain acc' y where acc: "acc = acc' @ [y]" "key y = key x"
      by (cases acc rule: rev_cases) (auto simp: last_opt_def)
    have "sorted_wrt (<) (map key (acc' @ [x]))" "sorted (map key ((acc' @ [x]) @ xs))"
      using "2.prems" acc by (auto simp: sorted_wrt_append)
    moreover have "last_list (filter (\<lambda>y. key y = k) ((acc' @ [x]) @ xs)) =
        last_list (filter (\<lambda>y. key y = k) (acc @ x # xs))" for k
      using acc(2) by (auto simp: acc(1) last_list_def)
    ultimately show ?thesis using "2.IH"(1) [OF True] True by (simp add: acc(1))
  next
    case False
    have "sorted_wrt (<) (map key (acc @ [x]))"
    proof (cases acc rule: rev_cases)
      case (snoc acc' y)
      with False "2.prems" have "key y < key x" by (auto simp: last_opt_def sorted_wrt_append)
      then show ?thesis using "2.prems"(1) snoc by (auto simp: sorted_wrt_append)
    qed simp
    then show ?thesis using "2.IH"(2) [OF False] False "2.prems"(2) by simp
  qed
qed

lemma norm_sorted: "sorted_wrt (<) (map key (norm key xs))"
  and norm_filter: "filter (\<lambda>y. key y = k) (norm key xs) = last_list (filter (\<lambda>y. key y = k) xs)"
  and length_norm: "length (norm key xs) \<le> length xs"
  using dedup_last_spec [of key "[]" "sort_key key xs"] sort_key_stable [of key k xs]
  by (auto simp: norm_def)

lemma norm_eq_Nil: "norm key xs = [] \<longleftrightarrow> xs = []"
proof
  assume n: "norm key xs = []"
  show "xs = []"
  proof (rule ccontr)
    assume "xs \<noteq> []"
    then obtain x ys where "xs = x # ys" by (cases xs) auto
    with norm_filter [of key "key x" xs] n show False by (simp add: last_list_def split: if_splits)
  qed
qed (simp add: norm_def)

lemma map_of_filter: "map_of (filter (\<lambda>e. fst e = k) xs) k = map_of xs k"
  by (induction xs) auto

lemma map_of_norm: "map_of (norm fst kvs) k = map_of (rev kvs) k"
proof -
  have "map_of (rev kvs) k = map_of (filter (\<lambda>e. fst e = k) (rev kvs)) k" by (simp add: map_of_filter)
  also have "\<dots> = map_of (last_list (filter (\<lambda>e. fst e = k) kvs)) k"
  proof (cases "filter (\<lambda>e. fst e = k) kvs" rule: rev_cases)
    case (snoc ys y)
    have "y \<in> set (filter (\<lambda>e. fst e = k) kvs)" unfolding snoc by simp
    then have "fst y = k" by simp
    with snoc show ?thesis by (cases y) (auto simp: last_list_def rev_filter [symmetric])
  qed (simp add: last_list_def rev_filter [symmetric])
  also have "\<dots> = map_of (norm fst kvs) k" by (metis map_of_filter norm_filter)
  finally show ?thesis by simp
qed

lemma leaf_kind: "list_all (kind_at 0) (leaf_entries kvs)"
  by (auto simp: leaf_entries_def list_all_iff)

lemma bulk_load_spec:
  assumes "chunk_store S addr" "length kvs \<le> 2 ^ 64"
  shows "ensures (bulk_load S s P kvs) (\<lambda>(r, s'). grows S s s' \<and> root_params r = P \<and>
    canon_root S addr s' (norm fst kvs) r \<and>
    (\<forall>k < top_level r. length (lchunks addr P (norm fst kvs) k) \<noteq> 1))"
proof -
  have "ensures (build_levels S s P 0 [Fresh (leaf_entries (norm fst kvs)) None] [] None)
      (\<lambda>(r, rec', s'). grows S s s' \<and> root_params r = P \<and> canon_root S addr s' (norm fst kvs) r \<and>
        (True \<longrightarrow> (\<forall>k. 0 \<le> k \<and> k < top_level r \<longrightarrow> length (lchunks addr P (norm fst kvs) k) \<noteq> 1)))"
    using assms norm_sorted [of fst kvs] length_norm [of fst kvs]
    by (intro build_levels_spec [where ess = "[leaf_entries (norm fst kvs)]"])
      (auto simp: leaf_kind MAX_HEIGHT_def)
  then show ?thesis
    unfolding bulk_load_def norm_def [symmetric] leaf_entries_def [symmetric] Let_def
    by (rule ensures_rbind) auto
qed

section \<open>Merging a batch into leaf entries\<close>

fun apply_to_map :: "batch_op \<Rightarrow> (bytes \<rightharpoonup> bytes) \<Rightarrow> (bytes \<rightharpoonup> bytes)" where
  "apply_to_map (Put k v) m = m(k \<mapsto> v)"
| "apply_to_map (Delete k) m = m(k := None)"

definition merged :: "(bytes \<times> bytes) list \<Rightarrow> batch_op list \<Rightarrow> (bytes \<times> bytes) list" where
  "merged kvs ops = map entry_pair (merge_ops kvs ops)"

lemma merge_ops_Nil: "merge_ops kvs [] = leaf_entries kvs"
  by (induction kvs) (auto simp: leaf_entries_def)

lemma apply_opD: "e \<in> set (apply_op op) \<Longrightarrow> \<exists>v. e = LeafEntry (op_key op) v"
  by (cases op) auto

lemma merge_ops_leaf: "e \<in> set (merge_ops kvs ops) \<Longrightarrow> \<exists>k v. e = LeafEntry k v"
  by (induction kvs ops rule: merge_ops.induct)
    (auto split: ordering.splits dest!: apply_opD)

lemma leaf_merged: "leaf_entries (merged kvs ops) = merge_ops kvs ops"
proof -
  have "(case entry_pair e of (k, v) \<Rightarrow> LeafEntry k v) = e" if "e \<in> set (merge_ops kvs ops)" for e
    using merge_ops_leaf [OF that] by auto
  then show ?thesis by (simp add: leaf_entries_def merged_def comp_def map_idI)
qed

lemma merge_ops_keys:
  "e \<in> set (merge_ops kvs ops) \<Longrightarrow> entry_key e \<in> fst ` set kvs \<union> op_key ` set ops"
  by (induction kvs ops rule: merge_ops.induct)
    (auto split: ordering.splits dest!: apply_opD)

lemma merge_ops_sorted:
  "sorted_wrt (<) (map fst kvs) \<Longrightarrow> sorted_wrt (<) (map op_key ops) \<Longrightarrow>
     sorted_wrt (<) (map entry_key (merge_ops kvs ops))"
proof (induction kvs ops rule: merge_ops.induct)
  case (1 k v old op ops)
  have lo: "k < x" if "x \<in> fst ` set old" for x using "1.prems"(1) that by auto
  have lp: "op_key op < x" if "x \<in> op_key ` set ops" for x using "1.prems"(2) that by auto
  show ?case
  proof (cases "cmp k (op_key op)")
    case Less
    then have "k < op_key op" by simp
    then show ?thesis using 1 Less lo lp
      by (fastforce dest!: merge_ops_keys)
  next
    case Equal
    then show ?thesis using 1 lo lp
      by (cases op) (fastforce dest!: merge_ops_keys)+
  next
    case Greater
    then have "op_key op < k" by simp
    then show ?thesis using 1 Greater lo lp
      by (cases op) (fastforce dest!: merge_ops_keys)+
  qed
next
  case (3 op ops)
  then show ?case by (cases op) (fastforce dest!: merge_ops_keys)+
qed (auto simp: merge_ops_Nil)

fun op_value :: "batch_op \<Rightarrow> bytes option" where
  "op_value (Put k v) = Some v"
| "op_value (Delete k) = None"

definition op_lookup :: "batch_op list \<Rightarrow> bytes option \<Rightarrow> bytes \<Rightarrow> bytes option" where
  "op_lookup ops v k = (case find (\<lambda>p. op_key p = k) ops of Some p \<Rightarrow> op_value p | None \<Rightarrow> v)"

lemma op_lookup_simps [simp]:
  "op_lookup [] v k = v"
  "op_lookup (p # ops) v k = (if op_key p = k then op_value p else op_lookup ops v k)"
  by (simp_all add: op_lookup_def)

lemma op_lookup_above: "\<forall>p \<in> set ops. k < op_key p \<Longrightarrow> op_lookup ops v k = v"
  by (induction ops) auto

lemma apply_to_map_at: "apply_to_map p m k = (if op_key p = k then op_value p else m k)"
  by (cases p) auto

lemma fold_apply_lookup:
  "sorted_wrt (<) (map op_key ops) \<Longrightarrow> fold apply_to_map ops m k = op_lookup ops (m k) k"
proof (induction ops arbitrary: m)
  case (Cons p ops)
  then show ?case using op_lookup_above [of ops k] by (auto simp: apply_to_map_at)
qed simp

lemma map_of_apply_op:
  "map_of (map entry_pair (apply_op p) @ xs) k =
     (if k = op_key p \<and> op_value p \<noteq> None then op_value p else map_of xs k)"
  by (cases p) auto

lemma map_of_merged_lookup:
  "sorted_wrt (<) (map fst kvs) \<Longrightarrow> sorted_wrt (<) (map op_key ops) \<Longrightarrow>
     map_of (map entry_pair (merge_ops kvs ops)) k = op_lookup ops (map_of kvs k) k"
proof (induction kvs ops rule: merge_ops.induct)
  case (1 k0 v old p ops)
  have old: "map_of old k = None" if "k \<le> k0"
    using "1.prems"(1) that by (auto simp: map_of_eq_None_iff)
  have up: "op_lookup ops w k = w" if "k \<le> op_key p" for w
    using "1.prems"(2) that by (intro op_lookup_above) auto
  consider (lt) "k0 < op_key p" | (eq) "k0 = op_key p" | (gt) "op_key p < k0" by force
  then show ?case
  proof cases
    case lt
    then show ?thesis using 1 up by auto
  next
    case eq
    then have c: "cmp k0 (op_key p) = Equal" by simp
    show ?thesis using "1.IH"(2) [OF c] "1.prems" up old eq
      by (auto simp: c map_of_apply_op simp del: map_of_append)
  next
    case gt
    then have c: "cmp k0 (op_key p) = Greater" by simp
    show ?thesis using "1.IH"(3) [OF c] "1.prems" up old gt
      by (auto simp: c map_of_apply_op simp del: map_of_append)
  qed
next
  case (3 p ops)
  have up: "op_lookup ops w k = w" if "k \<le> op_key p" for w
    using "3.prems"(2) that by (intro op_lookup_above) auto
  then show ?case using 3 by (auto simp: map_of_apply_op simp del: map_of_append)
qed auto

lemma map_of_merged:
  "sorted_wrt (<) (map fst kvs) \<Longrightarrow> sorted_wrt (<) (map op_key ops) \<Longrightarrow>
     map_of (merged kvs ops) k = fold apply_to_map ops (map_of kvs) k"
  by (simp add: merged_def map_of_merged_lookup fold_apply_lookup)

text \<open>Cutting the entries and the operations at a key.\<close>

lemma merge_ops_split:
  "(\<forall>e \<in> set a. fst e \<le> K) \<Longrightarrow> (\<forall>p \<in> set x. op_key p \<le> K) \<Longrightarrow>
     (\<forall>e \<in> set b. K < fst e) \<Longrightarrow> (\<forall>p \<in> set y. K < op_key p) \<Longrightarrow>
     merge_ops (a @ b) (x @ y) = merge_ops a x @ merge_ops b y"
proof (induction a x rule: merge_ops.induct)
  case (1 k v old op ops)
  then show ?case by (cases "cmp k (op_key op)") auto
next
  case (2 k v old)
  then show ?case
  proof (cases y)
    case (Cons p ps)
    with 2 have "k < op_key p" by auto
    with 2 Cons show ?thesis by simp
  qed simp
next
  case (3 op ops)
  then show ?case
  proof (cases b)
    case (Cons e es)
    with 3 have "op_key op < fst e" by auto
    with 3 Cons show ?thesis by (cases e) simp
  qed simp
qed simp

section \<open>The tree of a canonical root\<close>

lemma group_list:
  "concat css = map f ts \<Longrightarrow> \<exists>tss. ts = concat tss \<and> css = map (map f) tss"
proof (induction css arbitrary: ts)
  case (Cons c css)
  let ?n = "length c"
  have "map f (take ?n ts) = c" "map f (drop ?n ts) = concat css"
    using Cons.prems by (metis append_eq_conv_conj concat.simps(2) drop_map take_map)+
  moreover from Cons.IH [OF this(2) [symmetric]] obtain tss where
    "drop ?n ts = concat tss" "css = map (map f) tss" by blast
  ultimately show ?case
    by (intro exI [of _ "take ?n ts # tss"]) (simp, metis append_take_drop_id)
qed simp

lemma level_trees:
  assumes "kvs \<noteq> []" "l < MAX_HEIGHT" "\<forall>k \<le> l. \<forall>c \<in> set (lchunks addr P kvs k). stored S addr s k c"
  shows "\<exists>ts. (\<forall>t \<in> set ts. gok S s t \<and> gaddr addr t \<and> glevel t = l) \<and>
    (\<forall>k \<le> l. map gents (concat (map (nodes_at k) ts)) = lchunks addr P kvs k) \<and>
    concat (map gflat ts) = kvs"
  using assms(2,3)
proof (induction l)
  case 0
  let ?leaf = "\<lambda>c. GLeaf (addr (node_bytes 0 c)) (map entry_pair c)"
  have st: "stored S addr s 0 c" if "c \<in> set (chunks P (leaf_entries kvs))" for c
    using 0 that assms(1) by simp
  have ents: "leaf_entries (map entry_pair c) = c" if "list_all (entry_at 0) c" for c
    using node_entries_of [OF that] by (simp add: node_of_def leaf_entries_def)
  have "gok S s (?leaf c) \<and> gaddr addr (?leaf c) \<and> gents (?leaf c) = c"
    if "c \<in> set (chunks P (leaf_entries kvs))" for c
    using st [OF that] ents [of c]
    by (auto simp: stored_def wf_entries_def gstored_def gbytes_def MAX_HEIGHT_def)
  moreover have "concat (map (map entry_pair) (chunks P (leaf_entries kvs))) = kvs"
    by (simp only: map_concat [symmetric] concat_chunks) (simp add: leaf_entries_def comp_def case_prod_beta)
  ultimately show ?case using assms(1)
    by (intro exI [of _ "map ?leaf (chunks P (leaf_entries kvs))"])
      (auto simp: comp_def intro!: map_idI)
next
  case (Suc l)
  then obtain ts where ts: "\<forall>t \<in> set ts. gok S s t \<and> gaddr addr t \<and> glevel t = l"
    "\<forall>k \<le> l. map gents (concat (map (nodes_at k) ts)) = lchunks addr P kvs k"
    "concat (map gflat ts) = kvs" by auto
  let ?f = "\<lambda>t. ref_entry (gref t)"
  let ?node = "\<lambda>us. GNode (addr (node_bytes (Suc l) (map ?f us))) us"
  have "concat (map (nodes_at l) ts) = ts" using ts(1) by (induction ts) auto
  then have l: "lchunks addr P kvs l = map gents ts" using ts(2) by (auto dest!: spec [of _ l])
  have "map (up addr l) (map gents ts) = map ?f ts" using ts(1) up_gents [of addr] by auto
  then have up: "lchunks addr P kvs (Suc l) = chunks P (map ?f ts)"
    unfolding lchunks.simps(2) l by (rule arg_cong)
  from group_list [of "chunks P (map ?f ts)" ?f ts] obtain tss where
    tss: "ts = concat tss" "chunks P (map ?f ts) = map (map ?f) tss"
    by (auto simp: concat_chunks)
  have one: "gok S s (?node us) \<and> gaddr addr (?node us) \<and> glevel (?node us) = Suc l \<and>
      gents (?node us) = map ?f us" if us: "us \<in> set tss" for us
  proof -
    have c: "map ?f us \<in> set (lchunks addr P kvs (Suc l))" using us by (simp only: up tss(2)) auto
    have ne: "us \<noteq> []" using lchunks_nonempty [OF assms(1) c] by auto
    have "glevel (?node us) = Suc l" using ne ts(1) us by (cases us) (auto simp: tss(1))
    moreover have "stored S addr s (Suc l) (map ?f us)" using Suc.prems(2) c by blast
    moreover have "gents t \<noteq> []" if "t \<in> set us" for t
    proof -
      have "gents t \<in> set (lchunks addr P kvs l)" using that us by (auto simp: l tss(1))
      then show ?thesis using lchunks_nonempty [OF assms(1)] by blast
    qed
    ultimately show ?thesis using Suc.prems(1) ts(1) us
      by (auto simp: gstored_def stored_def gbytes_def tss(1))
  qed
  have "map gents (concat (map (nodes_at k) (map ?node tss))) = lchunks addr P kvs k" if "k \<le> Suc l" for k
  proof (cases "k = Suc l")
    case True
    have "concat (map (nodes_at k) (map ?node us)) = map ?node us" if "set us \<subseteq> set tss" for us
      using that one True by (induction us) (auto simp: nodes_at_top(2))
    then have "map gents (concat (map (nodes_at k) (map ?node tss))) = map (map ?f) tss"
      using one by (auto simp: comp_def)
    then show ?thesis using up tss(2) True by simp
  next
    case False
    have "concat (map (nodes_at k) (map ?node us)) = concat (map (nodes_at k) (concat us))"
      if "set us \<subseteq> set tss" for us
      using that
    proof (induction us)
      case (Cons u us)
      then have "\<not> glevel (?node u) \<le> k" using one False \<open>k \<le> Suc l\<close> by auto
      with Cons show ?case by simp
    qed simp
    then show ?thesis using ts(2) False that by (simp add: tss(1) [symmetric])
  qed
  moreover have "concat (map gflat (map ?node tss)) = kvs"
    unfolding ts(3) [symmetric] tss(1) by (induction tss) auto
  ultimately show ?case using one by (intro exI [of _ "map ?node tss"]) auto
qed

lemma canon_root_tree:
  assumes "canon_root S addr s kvs r" "kvs \<noteq> []"
  shows "\<exists>t. gt S addr s (root_params r) True t \<and> glevel t = top_level r \<and> ghash t = root_hash r \<and>
    gflat t = kvs \<and> (\<forall>k \<le> top_level r. map gents (nodes_at k t) = lchunks addr (root_params r) kvs k)"
proof -
  let ?L = "top_level r" and ?P = "root_params r"
  have L: "?L < MAX_HEIGHT" using assms(1) by (auto simp: canon_root_def top_level_def Let_def)
  obtain ts where ts: "\<forall>t \<in> set ts. gok S s t \<and> gaddr addr t \<and> glevel t = ?L"
    "\<forall>k \<le> ?L. map gents (concat (map (nodes_at k) ts)) = lchunks addr ?P kvs k"
    "concat (map gflat ts) = kvs"
    using level_trees [OF assms(2) L, of addr ?P S s] assms(1) by (auto simp: canon_root_def Let_def)
  have "concat (map (nodes_at ?L) ts) = ts" using ts(1) by (induction ts) auto
  then have "length ts = 1"
    using ts(2) assms(1) by (metis canon_root_def length_map order_refl)
  then obtain t where t: "ts = [t]" by (cases ts) auto
  have "gclosed ?P True t"
    using ts(1,2) lchunks_fin_ok [OF assms(2), of ?P addr] by (auto simp: gclosed_def t)
  moreover have "ghash t = root_hash r"
  proof -
    have "lchunks addr ?P kvs ?L = [gents t]" using ts(1,2) t by (metis (no_types, lifting)
      \<open>concat (map (nodes_at ?L) ts) = ts\<close> list.simps(8,9) order_refl)
    then show ?thesis using assms(1) ts(1) t gaddr_ghash [of addr t]
      by (simp add: canon_root_def Let_def gbytes_def)
  qed
  ultimately show ?thesis using ts t by (intro exI [of _ t]) (simp add: gt_def)
qed

section \<open>Descending\<close>

lemma glast_flat:
  "gok S s t \<Longrightarrow> gents t \<noteq> [] \<Longrightarrow> gflat t \<noteq> [] \<and> glast t = fst (last (gflat t))"
proof (induction t)
  case (GLeaf h es)
  then show ?case by (auto simp: leaf_entries_def last_map)
next
  case (GNode h ts)
  then obtain ts' t where ts: "ts = ts' @ [t]" by (cases ts rule: rev_cases) auto
  with GNode show ?case by auto
qed

lemma gents_keys: "gok S s t \<Longrightarrow> e \<in> set (gents t) \<Longrightarrow> entry_key e \<in> fst ` set (gflat t)"
proof (cases t)
  case (GNode h ts)
  moreover assume "gok S s t" "e \<in> set (gents t)"
  ultimately obtain u where u: "u \<in> set ts" "e = ref_entry (gref u)" "gok S s u" "gents u \<noteq> []" by auto
  from glast_flat [OF u(3,4)] have "glast u \<in> fst ` set (gflat u)" by simp
  with GNode u show ?thesis by (auto simp: gref_def)
qed (force simp: leaf_entries_def)

lemma level_stream_leaves: "gok S s t \<Longrightarrow> level_stream 0 t = leaf_entries (gflat t)"
proof (induction t)
  case (GNode h ts)
  have "level_stream 0 (GNode h ts) = concat (map (level_stream 0) ts)" by (simp add: level_stream_node)
  also have "map (level_stream 0) ts = map (\<lambda>t. leaf_entries (gflat t)) ts" using GNode by auto
  also have "concat \<dots> = leaf_entries (gflat (GNode h ts))"
    by (simp add: leaf_entries_def map_concat comp_def)
  finally show ?case .
qed (simp add: level_stream_def)

definition opens_ok ::
  "'s store_ops \<Rightarrow> (bytes \<Rightarrow> hash) \<Rightarrow> 's \<Rightarrow> chunk_params \<Rightarrow> opened_inner list list \<Rightarrow> bool" where
  "opens_ok S addr s P opened \<longleftrightarrow> (\<forall>k < length opened. \<forall>op \<in> set (opened ! k). opened_ok S addr s P k op)"

lemma opens_ok_update:
  "opens_ok S addr s P opened \<Longrightarrow> opened_ok S addr s P l op \<Longrightarrow>
     opens_ok S addr s P (opened[l := opened ! l @ [op]])"
  by (cases "l < length opened") (auto simp: opens_ok_def nth_list_update split: if_splits)

definition descended ::
  "'s store_ops \<Rightarrow> (bytes \<Rightarrow> hash) \<Rightarrow> 's \<Rightarrow> chunk_params \<Rightarrow> (bytes \<times> bytes) list \<Rightarrow> batch_op list \<Rightarrow>
     descent \<Rightarrow> prolly_error + descent \<Rightarrow> bool" where
  "descended S addr s P kvs ops d r \<longleftrightarrow> (\<exists>new ess opened'. r = Inr (fst d @ new, opened') \<and>
     list_all2 (item_ok S addr s P 0) new ess \<and> concat ess = merge_ops kvs ops \<and>
     length opened' = length (snd d) \<and> opens_ok S addr s P opened')"

lemma descendedI:
  "r = Inr (items @ new, opened') \<Longrightarrow> list_all2 (item_ok S addr s P 0) new ess \<Longrightarrow>
     concat ess = merge_ops kvs ops \<Longrightarrow> length opened' = length opened \<Longrightarrow>
     opens_ok S addr s P opened' \<Longrightarrow> descended S addr s P kvs ops (items, opened) r"
  unfolding descended_def by auto

lemma sorted_last_le: "sorted_wrt (<) (xs :: 'a :: linorder list) \<Longrightarrow> x \<in> set xs \<Longrightarrow> x \<le> last xs"
  by (induction xs) (auto intro: less_imp_le)

lemma sorted_dropWhile_above:
  "sorted_wrt (<) (map f xs) \<Longrightarrow> x \<in> set (dropWhile (\<lambda>x. f x \<le> (K :: 'a :: linorder)) xs) \<Longrightarrow> K < f x"
proof (induction xs)
  case (Cons y ys)
  then show ?case by (cases "f y \<le> K") auto
qed simp

lemma descend_children_ok:
  assumes "\<And>u fin elk mke ops d. u \<in> set us \<Longrightarrow> gclosed P fin u \<Longrightarrow> elk = Some (glast u) \<Longrightarrow>
      (\<forall>m. mke = Some m \<longrightarrow> (\<forall>e \<in> set (gflat u). m < fst e)) \<Longrightarrow> sorted_wrt (<) (map op_key ops) \<Longrightarrow>
      opens_ok S addr s P (snd d) \<Longrightarrow> cl < length (snd d) \<Longrightarrow>
      descended S addr s P (gflat u) ops d (descend S s (ghash u) cl elk mke fin ops d)"
    and "\<forall>u \<in> set us. gok S s u \<and> gaddr addr u \<and> glevel u = cl \<and> gents u \<noteq> []"
    and "gclosed_list P fin us" "sorted_wrt (<) (map fst (concat (map gflat us)))"
    and "\<forall>m. lower = Some m \<longrightarrow> (\<forall>e \<in> set (concat (map gflat us)). m < fst e)"
    and "sorted_wrt (<) (map op_key ops)" "us = [] \<longrightarrow> ops = []"
    and "opens_ok S addr s P (snd d)" "cl < length (snd d)"
  shows "descended S addr s P (concat (map gflat us)) ops d
    (descend_children S s (map gref us) cl lower fin ops d)"
  using assms
proof (induction us arbitrary: lower ops d)
  case Nil
  then show ?case
    by (cases d) (auto simp: descended_def descend_children.simps opens_ok_def)
next
  case (Cons u us)
  obtain items opened where d: "d = (items, opened)" by (cases d)
  have u: "gok S s u" "gaddr addr u" "glevel u = cl" "gents u \<noteq> []" "gclosed P (fin \<and> us = []) u"
    using Cons.prems by auto
  define mine where "mine = (if us = [] then ops else takeWhile (\<lambda>op. op_key op \<le> glast u) ops)"
  define rest where "rest = drop (length mine) ops"
  have ops: "ops = mine @ rest" by (simp add: mine_def rest_def dropWhile_eq_drop [symmetric])
  have so: "sorted_wrt (<) (map op_key mine)" "sorted_wrt (<) (map op_key rest)"
    using Cons.prems(6) unfolding ops by (auto simp: sorted_wrt_append)
  have "gflat u \<noteq> []" "glast u = fst (last (gflat u))" using glast_flat [OF u(1,4)] by auto
  then have last: "glast u = last (map fst (gflat u))" "map fst (gflat u) \<noteq> []" by (simp_all add: last_map)
  have keys: "\<forall>e \<in> set (gflat u). fst e \<le> glast u"
    using Cons.prems(4) last sorted_last_le [of "map fst (gflat u)"] by (auto simp: sorted_wrt_append)
  have above: "\<forall>e \<in> set (concat (map gflat us)). glast u < fst e"
    using Cons.prems(4) glast_flat [OF u(1,4)] last_in_set [of "gflat u"]
    by (simp add: sorted_wrt_append)
  have mine: "us \<noteq> [] \<Longrightarrow> \<forall>p \<in> set mine. op_key p \<le> glast u"
    by (auto simp: mine_def dest: set_takeWhileD)
  have split: "merge_ops (concat (map gflat (u # us))) ops =
      merge_ops (gflat u) mine @ merge_ops (concat (map gflat us)) rest"
  proof (cases "us = []")
    case False
    have "\<forall>p \<in> set rest. glast u < op_key p"
      using Cons.prems(6) False sorted_dropWhile_above [where f = op_key and K = "glast u" and xs = ops]
      by (simp add: rest_def mine_def dropWhile_eq_drop [symmetric])
    then show ?thesis
      using merge_ops_split [where a = "gflat u" and K = "glast u" and x = mine
          and b = "concat (map gflat us)" and y = rest] keys above mine [OF False]
      by (simp add: ops)
  qed (simp add: mine_def rest_def)
  define step where "step = (if mine = []
      then Inr (items @ [if cl = 0 then Old (gref u) (fin \<and> us = []) else Subtree (gref u) cl (fin \<and> us = [])], opened)
      else descend S s (ghash u) cl (Some (glast u)) lower (fin \<and> us = []) mine (items, opened))"
  have unfold: "descend_children S s (map gref (u # us)) cl lower fin ops d =
      rbind step (\<lambda>d. descend_children S s (map gref us) cl (Some (glast u)) fin rest d)"
    by (simp add: d descend_children.simps(2) Let_def step_def mine_def rest_def gref_def)
  have "descended S addr s P (gflat u) mine d step"
  proof (cases "mine = []")
    case True
    have "item_ok S addr s P 0 (if cl = 0 then Old (gref u) (fin \<and> us = []) else Subtree (gref u) cl (fin \<and> us = []))
        (leaf_entries (gflat u))"
      using u level_stream_leaves [OF u(1)] by (auto simp: gt_def level_stream_def intro!: exI [of _ u])
    then show ?thesis using True Cons.prems(8) unfolding d
      by (intro descendedI [where ess = "[leaf_entries (gflat u)]"]) (auto simp: step_def merge_ops_Nil d)
  next
    case False
    have "\<forall>m. lower = Some m \<longrightarrow> (\<forall>e \<in> set (gflat u). m < fst e)" using Cons.prems(5) by auto
    then show ?thesis
      using Cons.prems(1) [of u "fin \<and> us = []" "Some (glast u)" lower mine d] u so Cons.prems(8,9) False
      by (simp add: step_def d)
  qed
  then obtain new ess opened' where st: "step = Inr (items @ new, opened')"
    "list_all2 (item_ok S addr s P 0) new ess" "concat ess = merge_ops (gflat u) mine"
    "length opened' = length opened" "opens_ok S addr s P opened'"
    by (auto simp: descended_def d)
  have "descended S addr s P (concat (map gflat us)) rest (items @ new, opened')
      (descend_children S s (map gref us) cl (Some (glast u)) fin rest (items @ new, opened'))"
    using Cons.prems st(4,5) so above d by (intro Cons.IH) (auto simp: rest_def mine_def sorted_wrt_append)
  then obtain new2 ess2 opened2 where r2:
    "descend_children S s (map gref us) cl (Some (glast u)) fin rest (items @ new, opened') =
       Inr ((items @ new) @ new2, opened2)" "list_all2 (item_ok S addr s P 0) new2 ess2"
    "concat ess2 = merge_ops (concat (map gflat us)) rest" "length opened2 = length opened"
    "opens_ok S addr s P opened2"
    using st(4) by (auto simp: descended_def)
  show ?case unfolding d
  proof (rule descendedI)
    show "descend_children S s (map gref (u # us)) cl lower fin ops (items, opened) =
        Inr (items @ new @ new2, opened2)"
      using unfold st(1) r2(1) by (simp add: d)
    show "list_all2 (item_ok S addr s P 0) (new @ new2) (ess @ ess2)"
      using st(2) r2(2) by (rule list_all2_appendI)
    show "concat (ess @ ess2) = merge_ops (concat (map gflat (u # us))) ops"
      using st(3) r2(3) split by simp
  qed (use r2 in auto)
qed

lemma descend_ok:
  "gok S s t \<Longrightarrow> gaddr addr t \<Longrightarrow> (0 < glevel t \<longrightarrow> gclosed P fin t) \<Longrightarrow>
     elk = None \<or> elk = Some (glast t) \<and> gents t \<noteq> [] \<Longrightarrow>
     (\<forall>m. mke = Some m \<longrightarrow> (\<forall>e \<in> set (gflat t). m < fst e)) \<Longrightarrow> sorted_wrt (<) (map op_key ops) \<Longrightarrow>
     sorted_wrt (<) (map fst (gflat t)) \<Longrightarrow> opens_ok S addr s P (snd d) \<Longrightarrow> glevel t < length (snd d) \<Longrightarrow>
     descended S addr s P (gflat t) ops d (descend S s (ghash t) (glevel t) elk mke fin ops d)"
proof (induction t arbitrary: fin elk mke ops d)
  case (GLeaf h es)
  have m: "\<forall>m. mke = Some m \<longrightarrow> gents (GLeaf h es) \<noteq> [] \<longrightarrow> m < entry_key (hd (gents (GLeaf h es)))"
    using GLeaf.prems(5) by (cases es) (auto simp: leaf_entries_def)
  have rd: "read_node S s h 0 elk mke = Inr (Leaf es)"
    using read_gstored [OF gok_gstored [OF GLeaf.prems(1)] GLeaf.prems(4) m] by simp
  have k: "list_all (kind_at 0) (merge_ops es ops)"
    by (auto simp: list_all_iff dest!: merge_ops_leaf)
  show ?case using GLeaf.prems(8)
    by (cases d) (auto simp: descend.simps rd k intro!: descendedI [where ess = "[merge_ops es ops]"])
next
  case (GNode h ts)
  let ?t = "GNode h ts"
  obtain items opened where d: "d = (items, opened)" by (cases d)
  have ne: "gents ?t \<noteq> []" using gok_gstored [OF GNode.prems(1)] by (simp add: gstored_def wf_entries_def)
  have m: "\<forall>m. mke = Some m \<longrightarrow> gents ?t \<noteq> [] \<longrightarrow> m < entry_key (hd (gents ?t))"
    using GNode.prems(5) gents_keys [OF GNode.prems(1) hd_in_set [OF ne]] by fastforce
  have rd: "read_node S s h (glevel ?t) elk mke = Inr (Inner (map gref ts))"
    using read_gstored [OF gok_gstored [OF GNode.prems(1)] GNode.prems(4) m] by simp
  have cl: "gclosed P fin ?t" using GNode.prems(3) by simp
  define o' where "o' = \<lparr>opened_node = \<lparr>last_key = last_key (last (map gref ts)), ref_hash = h\<rparr>,
      opened_final = fin, opened_children = map ref_hash (map gref ts)\<rparr>"
  have "opened_ok S addr s P (glevel ?t) o'"
    using GNode.prems(1,2) cl ne
    by (auto simp: opened_ok_def o'_def gt_def gref_def last_map comp_def intro!: exI [of _ h] exI [of _ ts])
  then have op: "opens_ok S addr s P (opened[glevel ?t := opened ! glevel ?t @ [o']])"
    using GNode.prems(8) by (intro opens_ok_update) (simp_all add: d)
  have unfold: "descend S s h (glevel ?t) elk mke fin ops d =
      descend_children S s (map gref ts) (glevel ?t - 1) mke fin ops
        (items, opened[glevel ?t := opened ! glevel ?t @ [o']])"
    unfolding d descend.simps rd by (simp add: o'_def Let_def)
  have kids: "\<forall>u \<in> set ts. gok S s u \<and> gaddr addr u \<and> glevel u = glevel ?t - 1 \<and> gents u \<noteq> []"
    using GNode.prems(1,2) by auto
  have so: "sorted_wrt (<) (map fst (gflat u))" if "u \<in> set ts" for u
    using GNode.prems(7) that by (auto simp: in_set_conv_decomp sorted_wrt_append)
  have "descended S addr s P (concat (map gflat ts)) ops (items, opened[glevel ?t := opened ! glevel ?t @ [o']])
      (descend_children S s (map gref ts) (glevel ?t - 1) mke fin ops
        (items, opened[glevel ?t := opened ! glevel ?t @ [o']]))"
  proof (rule descend_children_ok)
    fix u fin' elk' mke' ops' and d' :: descent
    assume a: "u \<in> set ts" "gclosed P fin' u" "elk' = Some (glast u)"
      "\<forall>m. mke' = Some m \<longrightarrow> (\<forall>e \<in> set (gflat u). m < fst e)" "sorted_wrt (<) (map op_key ops')"
      "opens_ok S addr s P (snd d')" "glevel ?t - 1 < length (snd d')"
    show "descended S addr s P (gflat u) ops' d' (descend S s (ghash u) (glevel ?t - 1) elk' mke' fin' ops' d')"
      using GNode.IH [OF a(1), of fin' elk' mke' ops' d'] kids a so [OF a(1)] by auto
  qed (use GNode.prems kids op gclosed_children [OF cl GNode.prems(1)] ne in \<open>auto simp: d\<close>)
  then show ?case unfolding ghash.simps unfold by (auto simp: descended_def d)
qed


section \<open>Applying a batch\<close>

text \<open>Which tree a canonical root is the top of, the empty map's lone empty leaf included.\<close>

lemma canon_root_gtree:
  assumes "canon_root S addr s kvs r"
  shows "\<exists>t. gok S s t \<and> gaddr addr t \<and> (0 < glevel t \<longrightarrow> gclosed (root_params r) True t) \<and>
    glevel t = top_level r \<and> ghash t = root_hash r \<and> gflat t = kvs"
proof (cases "kvs = []")
  case True
  with assms have "stored S addr s 0 []" "root_hash r = addr (node_bytes 0 [])" "top_level r = 0"
    by (auto simp: canon_root_def Let_def)
  with True show ?thesis
    by (intro exI [of _ "GLeaf (root_hash r) []"])
      (simp add: stored_def gstored_def gbytes_def MAX_HEIGHT_def)
qed (use canon_root_tree [OF assms] in \<open>auto simp: gt_def\<close>)

lemma canon_root_sorted: "canon_root S addr s kvs r \<Longrightarrow> sorted_wrt (<) (map fst kvs)"
  by (simp add: canon_root_def Let_def)

lemma merged_sorted:
  "sorted_wrt (<) (map fst kvs) \<Longrightarrow> sorted_wrt (<) (map op_key ops) \<Longrightarrow>
     sorted_wrt (<) (map fst (merged kvs ops))"
  using merge_ops_sorted [of kvs ops] unfolding leaf_merged [symmetric] by simp

lemma length_apply_op: "length (apply_op p) \<le> 1"
  by (cases p) auto

lemma length_merge_ops: "length (merge_ops kvs ops) \<le> length kvs + length ops"
proof (induction kvs ops rule: merge_ops.induct)
  case (1 k v old op ops)
  then show ?case using length_apply_op [of op] by (cases "cmp k (op_key op)") auto
next
  case (3 op ops)
  then show ?case using length_apply_op [of op] by auto
qed auto

text \<open>The operations in order, the later of two on one key winning.\<close>

lemma fold_apply_filter:
  "fold apply_to_map ops m k = fold apply_to_map (filter (\<lambda>p. op_key p = k) ops) m k"
proof (induction ops arbitrary: m)
  case (Cons p ops)
  show ?case
  proof (cases "op_key p = k")
    case False
    have "fold apply_to_map xs (apply_to_map p m) k = fold apply_to_map xs m k"
      if "\<forall>q \<in> set xs. op_key q = k" for xs
    proof (cases xs rule: rev_cases)
      case (snoc ys y)
      then show ?thesis using that by (simp add: apply_to_map_at)
    qed (use False in \<open>simp add: apply_to_map_at\<close>)
    with False Cons show ?thesis by simp
  qed (use Cons in simp)
qed simp

lemma fold_apply_last_list:
  assumes "\<forall>p \<in> set ops. op_key p = k"
  shows "fold apply_to_map (last_list ops) m k = fold apply_to_map ops m k"
  using assms by (cases ops rule: rev_cases) (auto simp: last_list_def apply_to_map_at)

lemma fold_apply_norm: "fold apply_to_map (norm op_key ops) m = fold apply_to_map ops m"
proof (rule ext)
  fix k
  show "fold apply_to_map (norm op_key ops) m k = fold apply_to_map ops m k"
    by (subst (1 2) fold_apply_filter) (simp add: norm_filter fold_apply_last_list)
qed

lemma map_of_merged_norm:
  "sorted_wrt (<) (map fst kvs) \<Longrightarrow> map_of (merged kvs (norm op_key ops)) = fold apply_to_map ops (map_of kvs)"
  by (rule ext) (simp add: map_of_merged norm_sorted fold_apply_norm)

lemma apply_batch_inner_spec:
  assumes "chunk_store S addr" "canon_root S addr s kvs r" "length kvs + length ops \<le> 2 ^ 64"
  shows "ensures (apply_batch_inner S s r ops rec) (\<lambda>(r', rec', s'). grows S s s' \<and>
    root_params r' = root_params r \<and> canon_root S addr s' (merged kvs (norm op_key ops)) r')"
proof (cases "norm op_key ops = []")
  case True
  have "merged kvs [] = kvs" by (simp add: merged_def merge_ops_Nil leaf_entries_def comp_def case_prod_beta)
  with True assms(2) show ?thesis by (simp add: apply_batch_inner_def norm_def [symmetric])
next
  case False
  let ?ops = "norm op_key ops"
  let ?new = "merged kvs ?ops"
  note so = canon_root_sorted [OF assms(2)] and so' = norm_sorted [of op_key ops]
  obtain t where t: "gok S s t" "gaddr addr t" "0 < glevel t \<longrightarrow> gclosed (root_params r) True t"
    "glevel t = top_level r" "ghash t = root_hash r" "gflat t = kvs"
    using canon_root_gtree [OF assms(2)] by (elim exE conjE) (rule that)
  have h: "top_level r < root_height r" using assms(2) by (simp add: canon_root_def top_level_def Let_def)
  have "descended S addr s (root_params r) (gflat t) ?ops ([], replicate (root_height r) [])
      (descend S s (ghash t) (glevel t) None None True ?ops ([], replicate (root_height r) []))"
    by (rule descend_ok) (use t so so' h in \<open>simp_all add: opens_ok_def\<close>)
  then obtain items ess opened where d:
    "descend S s (root_hash r) (top_level r) None None True ?ops ([], replicate (root_height r) []) =
       Inr (items, opened)"
    "list_all2 (item_ok S addr s (root_params r) 0) items ess" "concat ess = merge_ops kvs ?ops"
    "opens_ok S addr s (root_params r) opened"
    unfolding t by (auto simp: descended_def)
  have "length ?new \<le> 2 ^ 64"
    using length_merge_ops [of kvs ?ops] length_norm [of op_key ops] assms(3) by (simp add: merged_def)
  then have "ensures (build_levels S s (root_params r) 0 items opened rec)
      (\<lambda>(r', rec', s'). grows S s s' \<and> root_params r' = root_params r \<and> canon_root S addr s' ?new r' \<and>
        (False \<longrightarrow> (\<forall>k. 0 \<le> k \<and> k < top_level r' \<longrightarrow> length (lchunks addr (root_params r) ?new k) \<noteq> 1)))"
    by (intro build_levels_spec [where ess = ess])
      (use assms(1) d merged_sorted [OF so so'] in
        \<open>simp_all only: leaf_merged MAX_HEIGHT_def opens_ok_def lstream.simps, auto\<close>)
  then show ?thesis using False
    by (simp add: apply_batch_inner_def norm_def [symmetric] d(1) Let_def)
qed

end
