(* ===== verification/Prolly_Lookup.thy ===== *)
theory Prolly_Lookup
  imports Prolly_Batch
begin

text \<open>
  \<^verbatim>\<open>get\<close> finds exactly the pairs of the map a canonical root stands for. The lemmas on where a
  key can lie among the children of a node are shared by every walk down the tree.
\<close>

section \<open>Where a key lies\<close>

lemma partition_point_le: "partition_point p xs \<le> length xs"
  by (simp add: partition_point_def length_takeWhile_le)

lemma partition_point_before: "i < partition_point p xs \<Longrightarrow> p (xs ! i)"
  unfolding partition_point_def by (metis nth_mem set_takeWhileD takeWhile_nth)

lemma partition_point_at: "partition_point p xs < length xs \<Longrightarrow> \<not> p (xs ! partition_point p xs)"
  unfolding partition_point_def by (rule nth_length_takeWhile)

lemma take_partition: "take (partition_point p xs) xs = takeWhile p xs"
  by (simp add: partition_point_def takeWhile_eq_take [symmetric])

lemma drop_partition: "drop (partition_point p xs) xs = dropWhile p xs"
  by (simp add: partition_point_def dropWhile_eq_drop [symmetric])

lemma map_of_before: "\<forall>e \<in> set xs. fst e < (k :: 'k :: linorder) \<Longrightarrow> map_of xs k = None"
  by (auto simp: map_of_eq_None_iff)

lemma map_of_after: "\<forall>e \<in> set xs. (k :: 'k :: linorder) < fst e \<Longrightarrow> map_of xs k = None"
  by (auto simp: map_of_eq_None_iff)

lemma binary_search_map_of:
  assumes "sorted_wrt (<) (map fst es)"
  shows "map_option (\<lambda>i. snd (es ! i)) (binary_search_key key es) = map_of es key"
proof -
  let ?p = "\<lambda>e. fst e < key"
  let ?i = "partition_point ?p es"
  have "map_of (takeWhile ?p es) key = None" by (rule map_of_before) (auto dest: set_takeWhileD)
  then have "map_of es key = map_of (dropWhile ?p es) key"
    by (subst takeWhile_dropWhile_id [of ?p es, symmetric], subst map_of_append)
      (simp add: map_add_def split: option.splits)
  also have "\<dots> = map_option (\<lambda>i. snd (es ! i)) (binary_search_key key es)"
  proof (cases "dropWhile ?p es")
    case Nil
    then have "?i = length es" using partition_point_le [of ?p es] by (simp add: drop_partition [symmetric])
    then have "binary_search_key key es = None" by (simp add: binary_search_key_def)
    with Nil show ?thesis by (simp only: option.map map_of.simps)
  next
    case (Cons e rest)
    then have i: "?i < length es" "es ! ?i = e"
      using drop_partition [of ?p es] by (metis drop_all list.discI not_le, metis hd_drop_conv_nth drop_all list.discI list.sel(1) not_le)
    have "sorted_wrt (<) (map fst (e # rest))"
      using assms unfolding Cons [symmetric] drop_partition [symmetric] by (simp add: drop_map [symmetric] sorted_wrt_drop)
    then have "fst e \<noteq> key \<Longrightarrow> map_of rest key = None"
      using partition_point_at [OF i(1)] i(2) by (intro map_of_after) auto
    then show ?thesis using i Cons by (cases e) (auto simp: binary_search_key_def Let_def)
  qed
  finally show ?thesis by simp
qed

text \<open>The keys of a tree lie above those of the trees before it and below its last key.\<close>

lemma gflat_le_glast:
  assumes "gok S s t" "gents t \<noteq> []" "sorted_wrt (<) (map fst (gflat t))" "e \<in> set (gflat t)"
  shows "fst e \<le> glast t"
proof -
  have "gflat t \<noteq> []" "glast t = last (map fst (gflat t))"
    using glast_flat [OF assms(1,2)] by (auto simp: last_map)
  then show ?thesis using sorted_last_le [OF assms(3), of "fst e"] assms(4) by simp
qed

lemma sorted_concat_parts:
  assumes "sorted_wrt (<) (map fst (concat (map gflat (us @ u # vs))))"
  shows "sorted_wrt (<) (map fst (gflat u))"
    "\<forall>e \<in> set (concat (map gflat us)). \<forall>d \<in> set (gflat u). fst e < fst d"
    "\<forall>e \<in> set (gflat u). \<forall>d \<in> set (concat (map gflat vs)). fst e < fst d"
  using assms by (auto simp: sorted_wrt_append)

lemma glast_mem: "gok S s t \<Longrightarrow> gents t \<noteq> [] \<Longrightarrow> \<exists>e \<in> set (gflat t). glast t = fst e"
  using glast_flat [of S s t] by (metis last_in_set)

definition route :: "bytes \<Rightarrow> gtree list \<Rightarrow> nat" where
  "route key ts = partition_point (\<lambda>r. last_key r < key) (map gref ts)"

lemma route_split:
  assumes "route key ts < length ts"
  shows "ts = take (route key ts) ts @ ts ! route key ts # drop (Suc (route key ts)) ts"
    "\<forall>u \<in> set (take (route key ts) ts). glast u < key" "key \<le> glast (ts ! route key ts)"
proof -
  show "ts = take (route key ts) ts @ ts ! route key ts # drop (Suc (route key ts)) ts"
    using id_take_nth_drop [OF assms] .
  show "\<forall>u \<in> set (take (route key ts) ts). glast u < key"
  proof
    fix u assume "u \<in> set (take (route key ts) ts)"
    then obtain i where i: "i < route key ts" "u = ts ! i" using assms by (auto simp: in_set_conv_nth)
    then show "glast u < key"
      using partition_point_before [of i "\<lambda>r. last_key r < key" "map gref ts"] assms by (simp add: route_def gref_def)
  qed
  show "key \<le> glast (ts ! route key ts)"
    using partition_point_at [of "\<lambda>r. last_key r < key" "map gref ts"] assms
    by (simp add: route_def gref_def not_less)
qed

lemma route_end: "route key ts = length ts \<Longrightarrow> u \<in> set ts \<Longrightarrow> glast u < key"
  using partition_point_before [of _ "\<lambda>r. last_key r < key" "map gref ts"]
  by (auto simp: in_set_conv_nth route_def gref_def)

lemma flat_below:
  assumes "\<forall>u \<in> set us. gok S s u \<and> gents u \<noteq> [] \<and> glast u < key"
    "sorted_wrt (<) (map fst (concat (map gflat us)))"
  shows "\<forall>e \<in> set (concat (map gflat us)). fst e < key"
proof
  fix e assume "e \<in> set (concat (map gflat us))"
  then obtain u where u: "u \<in> set us" "e \<in> set (gflat u)" by auto
  then obtain xs ys where "us = xs @ u # ys" by (auto simp: in_set_conv_decomp)
  then have "sorted_wrt (<) (map fst (gflat u))" using sorted_concat_parts(1) assms(2) by blast
  then have "fst e \<le> glast u" using gflat_le_glast [of S s u e] assms(1) u by auto
  then show "fst e < key" using assms(1) u by fastforce
qed

section \<open>Lookup\<close>

lemma get_from_ok:
  "gok S s t \<Longrightarrow> elk = None \<or> elk = Some (glast t) \<and> gents t \<noteq> [] \<Longrightarrow>
     (\<forall>m. mke = Some m \<longrightarrow> (\<forall>e \<in> set (gflat t). m < fst e)) \<Longrightarrow>
     sorted_wrt (<) (map fst (gflat t)) \<Longrightarrow>
     get_from S s key (ghash t) (glevel t) elk mke = Inr (map_of (gflat t) key)"
proof (induction t arbitrary: elk mke)
  case (GLeaf h es)
  have m: "\<forall>m. mke = Some m \<longrightarrow> gents (GLeaf h es) \<noteq> [] \<longrightarrow> m < entry_key (hd (gents (GLeaf h es)))"
    using GLeaf.prems(3) by (cases es) (auto simp: leaf_entries_def)
  have rd: "read_node S s h 0 elk mke = Inr (Leaf es)"
    using read_gstored [OF gok_gstored [OF GLeaf.prems(1)] GLeaf.prems(2) m] by simp
  show ?case using GLeaf.prems(4) by (simp add: get_from.simps rd binary_search_map_of)
next
  case (GNode h ts)
  let ?t = "GNode h ts"
  have ne: "gents ?t \<noteq> []" using gok_gstored [OF GNode.prems(1)] by (simp add: gstored_def wf_entries_def)
  have m: "\<forall>m. mke = Some m \<longrightarrow> gents ?t \<noteq> [] \<longrightarrow> m < entry_key (hd (gents ?t))"
    using GNode.prems(3) gents_keys [OF GNode.prems(1) hd_in_set [OF ne]] by fastforce
  have rd: "read_node S s h (glevel ?t) elk mke = Inr (Inner (map gref ts))"
    using read_gstored [OF gok_gstored [OF GNode.prems(1)] GNode.prems(2) m] by simp
  let ?i = "route key ts"
  have kids: "\<forall>u \<in> set ts. gok S s u \<and> gents u \<noteq> [] \<and> glevel u = glevel ?t - 1"
    using GNode.prems(1) by auto
  have so: "sorted_wrt (<) (map fst (concat (map gflat ts)))" using GNode.prems(4) by simp
  show ?case
  proof (cases "?i = length ts")
    case True
    then have "map_of (concat (map gflat ts)) key = None"
      using route_end [OF True] kids so by (intro map_of_before flat_below) auto
    then show ?thesis unfolding ghash.simps get_from.simps [of S s key h] rd
      using True by (simp add: route_def)
  next
    case False
    then have i: "?i < length ts" using partition_point_le [of _ "map gref ts"] by (simp add: route_def le_neq_implies_less)
    let ?u = "ts ! ?i"
    note sp = route_split [OF i]
    have u: "?u \<in> set ts" using i by simp
    note parts = sorted_concat_parts [OF so [unfolded arg_cong [OF sp(1), of "\<lambda>ts. sorted_wrt (<) (map fst (concat (map gflat ts)))"]]]
    have pre: "\<forall>e \<in> set (concat (map gflat (take ?i ts))). fst e < key"
    proof (rule flat_below)
      show "sorted_wrt (<) (map fst (concat (map gflat (take ?i ts))))"
        using so by (subst (asm) sp(1)) (simp add: sorted_wrt_append)
    qed (use kids sp(2) in \<open>auto dest: in_set_takeD\<close>)
    obtain w where w: "w \<in> set (gflat ?u)" "glast ?u = fst w" using glast_mem kids u by metis
    have post: "\<forall>e \<in> set (concat (map gflat (drop (Suc ?i) ts))). key < fst e"
      using parts(3) w sp(3) by fastforce
    have eq: "map_of (concat (map gflat ts)) key = map_of (gflat ?u) key"
      using map_of_before [OF pre] map_of_after [OF post]
      by (subst sp(1)) (simp add: map_add_def split: option.splits)
    define mke' where "mke' = (if 0 < ?i then Some (glast (ts ! (?i - 1))) else mke)"
    have "\<forall>m. mke' = Some m \<longrightarrow> (\<forall>e \<in> set (gflat ?u). m < fst e)"
    proof (cases "0 < ?i")
      case True
      then have p: "ts ! (?i - 1) \<in> set (take ?i ts)" using i by (auto simp: in_set_conv_nth intro!: exI [of _ "?i - 1"])
      moreover have "ts ! (?i - 1) \<in> set ts" using i by simp
      moreover from this obtain v where "v \<in> set (gflat (ts ! (?i - 1)))" "glast (ts ! (?i - 1)) = fst v"
        using glast_mem kids by metis
      ultimately have "v \<in> set (concat (map gflat (take ?i ts)))" "glast (ts ! (?i - 1)) = fst v" by auto
      with parts(2) True show ?thesis by (auto simp: mke'_def)
    qed (use GNode.prems(3) u in \<open>auto simp: mke'_def\<close>)
    then have "get_from S s key (ghash ?u) (glevel ?u) (Some (glast ?u)) mke' = Inr (map_of (gflat ?u) key)"
      using GNode.IH [OF u] kids u parts(1) by auto
    moreover have "get_from S s key h (glevel ?t) elk mke =
        get_from S s key (ghash ?u) (glevel ?t - 1) (Some (glast ?u)) mke'"
    proof -
      have l: "partition_point (\<lambda>r. last_key r < key) (map gref ts) = ?i" by (simp add: route_def)
      show ?thesis
        unfolding get_from.simps [of S s key h] rd using i
        by (simp add: l mke'_def gref_def Let_def del: glevel.simps)
    qed
    ultimately show ?thesis using kids u eq by (simp del: glevel.simps)
  qed
qed

text \<open>A root is \<open>intact\<close> when the walk down from it meets a well-formed tree that holds the given
  entries in strict key order. This is all the readers need; a canonical root is intact.\<close>

definition intact :: "'s store_ops \<Rightarrow> 's \<Rightarrow> (bytes \<times> bytes) list \<Rightarrow> root \<Rightarrow> bool" where
  "intact S s kvs r \<longleftrightarrow> sorted_wrt (<) (map fst kvs) \<and>
     (\<exists>t. gok S s t \<and> glevel t = top_level r \<and> ghash t = root_hash r \<and> gflat t = kvs)"

lemma intact_sorted: "intact S s kvs r \<Longrightarrow> sorted_wrt (<) (map fst kvs)"
  by (simp add: intact_def)

lemma intact_tree:
  assumes "intact S s kvs r"
  obtains t where "gok S s t" "glevel t = top_level r" "ghash t = root_hash r" "gflat t = kvs"
  using assms by (auto simp: intact_def)

lemma canon_intact: "canon_root S addr s kvs r \<Longrightarrow> intact S s kvs r"
  unfolding intact_def using canon_root_gtree [of S addr s kvs r] canon_root_sorted [of S addr s kvs r]
  by (auto simp del: sorted_wrt_map)

lemma prolly_get_intact:
  assumes "intact S s kvs r"
  shows "prolly_get S s r key = Inr (map_of kvs key)"
proof -
  obtain t where t: "gok S s t" "glevel t = top_level r" "ghash t = root_hash r" "gflat t = kvs"
    by (rule intact_tree [OF assms])
  show ?thesis
    using get_from_ok [OF t(1), of None None key] intact_sorted [OF assms] t(2-4)
    by (simp add: prolly_get_def)
qed

lemmas prolly_get_canon = prolly_get_intact [OF canon_intact]

end
