(* ===== verification/Prolly_Eval.thy ===== *)
theory Prolly_Eval
  imports Prolly_Lookup
begin

text \<open>
  Kernel evaluation of tree operations on small trees: rules that run the builder, the readers and
  the batch code on concrete bytes without ever expanding the gear table, and a map of five keys
  cut into chunks of two entries that the examples use.
\<close>

definition gear_roll :: "u64 \<Rightarrow> bytes \<Rightarrow> u64" where
  "gear_roll h bs = foldl (\<lambda>h b. push_bit 1 h + GEAR ! unat b) h bs"

lemma feed_entry_eval [eval_simps]:
  "feed_entry (\<lparr>ch_params = p, ch_hash = h, ch_len = l, ch_entries = n\<rparr>) bs =
     (\<lparr>ch_params = p, ch_hash = gear_roll h bs, ch_len = l + of_nat (length bs), ch_entries = n + 1\<rparr>,
      if n + 1 < 2 then False
      else if ucast (max_bytes p) \<le> l + of_nat (length bs) then True
      else ucast (min_bytes p) \<le> l + of_nat (length bs) \<and>
           gear_roll h bs AND params_mask p < of_nat (length bs))"
  by (simp add: feed_entry_def Let_def gear_roll_def)

lemma Hash_eq_mem_digest [eval_simps]:
  "length bs = 20 \<Longrightarrow> Hash bs = mem_digest d \<longleftrightarrow> bs = mem_bytes d"
  "length bs = 20 \<Longrightarrow> mem_digest d = Hash bs \<longleftrightarrow> bs = mem_bytes d"
  by (auto simp: mem_digest_def Hash_inject)

lemma read_entries_numeral [eval_simps]:
  "read_leaf_entries (numeral k) es r = read_leaf_entries (Suc (pred_numeral k)) es r"
  "read_inner_entries (numeral k) rs r = read_inner_entries (Suc (pred_numeral k)) rs r"
  by (simp_all add: numeral_eq_Suc)

lemmas tree_eval =
  eval_simps bulk_load_def build_levels.simps chunk_level_def chunk_items.simps lb_new_def
  lb_push_def lb_emit_def at_boundary_def chunker_new_def chunker_reset_def promote_def
  promote_from.simps flush_def full_run_def encode_leaf_entry_def encode_inner_entry_def MAX_KEY_LEN_def
  MAX_VALUE_LEN_def Let_def last_opt_def first_opt_def MAX_HEIGHT_def apply_batch_def
  apply_batch_inner_def descend.simps descend_children.simps read_node_def decode_node_def take_bytes_def take_u8_def
  take_u32_def top_level_def hash_from_bytes_def NODE_HEADER_LEN_def

definition tiny :: chunk_params where "tiny = \<lparr>min_bytes = 1, mask_bits = 0, max_bytes = 1\<rparr>"

definition five :: "(bytes \<times> bytes) list" where
  "five = [([1], [10]), ([2], [20]), ([3], [30]), ([4], [40]), ([5], [50])]"

text \<open>Its chunks: three leaves, two nodes over them, and the root.\<close>

definition five_leaves :: "bytes list" where
  "five_leaves =
    [[0, 0, 0, 0, 2, 0, 0, 0, 1, 1, 0, 0, 0, 1, 10, 0, 0, 0, 1, 2, 0, 0, 0, 1, 20],
     [0, 0, 0, 0, 2, 0, 0, 0, 1, 3, 0, 0, 0, 1, 30, 0, 0, 0, 1, 4, 0, 0, 0, 1, 40],
     [0, 0, 0, 0, 1, 0, 0, 0, 1, 5, 0, 0, 0, 1, 50]]"

definition five_inner :: "bytes list" where
  "five_inner =
    [[1, 0, 0, 0, 2, 0, 0, 0, 1, 2, 20, 64, 0, 20, 1, 0, 0, 0, 2, 1, 0, 0, 0, 10, 1, 0, 0, 0,
      1, 1, 0, 0, 0, 0, 1, 4, 20, 108, 0, 40, 1, 0, 0, 0, 4, 1, 0, 0, 0, 30, 1, 0, 0, 0, 3, 1,
      0],
     [1, 0, 0, 0, 1, 0, 0, 0, 1, 5, 20, 73, 0, 50, 1, 0, 0, 0, 5, 1, 0, 0, 0, 1, 0, 0, 0, 0, 0,
      0, 0]]"

definition five_top :: bytes where
  "five_top =
    [2, 0, 0, 0, 2, 0, 0, 0, 1, 4, 20, 142, 1, 0, 1, 3, 0, 0, 0, 1, 30, 0, 0, 0, 1, 4, 0, 0,
      0, 1, 40, 0, 0, 0, 1, 5, 20, 190, 1, 0, 0, 0, 0, 0, 0, 0, 1, 0, 0, 0, 1, 5, 0, 0, 0, 1,
      50]"

definition five_objs :: mem_objects where
  "five_objs = map (\<lambda>d. (mem_digest d, d)) (rev (five_leaves @ five_inner @ [five_top]))"

definition five_root :: root where
  "five_root = \<lparr>root_hash = mem_digest five_top, root_height = 3, root_params = tiny\<rparr>"

lemmas five_defs = tiny_def five_def five_leaves_def five_inner_def five_top_def five_objs_def five_root_def

lemma five_loaded: "bulk_load (mem_store 1000) [] tiny five = Inr (five_root, five_objs)"
  by (simp add: tree_eval five_defs)

lemma five_canon: "canon_root (mem_store 1000) mem_digest five_objs five five_root"
proof -
  have "norm fst five = five" by (simp add: norm_def five_def last_opt_def)
  then show ?thesis
    using bulk_load_spec [OF mem_chunk_store [of 1000], of five "[]" tiny]
    by (simp add: five_loaded) (simp add: five_def)
qed

lemma last_loaded:
  "bulk_load (mem_store 1000) [] tiny [([5], [50])] =
     Inr (\<lparr>root_hash = mem_digest (five_leaves ! 2), root_height = 1, root_params = tiny\<rparr>,
          [(mem_digest (five_leaves ! 2), five_leaves ! 2)])"
  by (simp add: tree_eval five_defs)

definition five_last :: root where
  "five_last = \<lparr>root_hash = mem_digest (five_inner ! 1), root_height = 2, root_params = tiny\<rparr>"

lemma five_deleted:
  "apply_batch (mem_store 1000) five_objs five_root [Delete [1], Delete [2], Delete [3], Delete [4]] =
     Inr (five_last, five_objs)"
  by (simp add: tree_eval five_defs five_last_def)

lemma five_last_canon: "canon_root (mem_store 1000) mem_digest five_objs [([5], [50])] five_last"
proof -
  let ?ops = "[Delete [1], Delete [2], Delete [3], Delete [4]]"
  have "merged five (norm op_key ?ops) = [([5], [50])]"
    by (simp add: merged_def norm_def five_def last_opt_def cmp_def)
  moreover have "apply_batch_inner (mem_store 1000) five_objs five_root ?ops None = Inr (five_last, None, five_objs)"
    by (simp add: tree_eval five_defs five_last_def)
  moreover have "length five + length ?ops \<le> 2 ^ 64" by (simp add: five_def)
  ultimately show ?thesis
    using apply_batch_inner_spec [OF mem_chunk_store five_canon, of ?ops None] by simp
qed


text \<open>The same map with the value of the fourth key changed, in the store it is written to.\<close>

definition five_mod_chunks :: "bytes list" where
  "five_mod_chunks =
    [[2, 0, 0, 0, 2, 0, 0, 0, 1, 4, 20, 4, 1, 0, 1, 3, 0, 0, 0, 1, 30, 0, 0, 0, 1, 4, 0, 0, 0,
      1, 99, 0, 0, 0, 1, 5, 20, 190, 1, 0, 0, 0, 0, 0, 0, 0, 1, 0, 0, 0, 1, 5, 0, 0, 0, 1, 50],
     [1, 0, 0, 0, 2, 0, 0, 0, 1, 2, 20, 64, 0, 20, 1, 0, 0, 0, 2, 1, 0, 0, 0, 10, 1, 0, 0, 0,
      1, 1, 0, 0, 0, 0, 1, 4, 20, 167, 0, 99, 1, 0, 0, 0, 4, 1, 0, 0, 0, 30, 1, 0, 0, 0, 3, 1,
      0],
     [0, 0, 0, 0, 2, 0, 0, 0, 1, 3, 0, 0, 0, 1, 30, 0, 0, 0, 1, 4, 0, 0, 0, 1, 99]]"

definition five_mod_objs :: mem_objects where
  "five_mod_objs = map (\<lambda>d. (mem_digest d, d)) five_mod_chunks @ five_objs"

definition five_mod :: root where
  "five_mod = \<lparr>root_hash = mem_digest (five_mod_chunks ! 0), root_height = 3, root_params = tiny\<rparr>"

lemmas five_mod_defs = five_mod_chunks_def five_mod_objs_def five_mod_def

lemma five_modified:
  "apply_batch_inner (mem_store 1000) five_objs five_root [Put [4] [99]] None = Inr (five_mod, None, five_mod_objs)"
  by (simp add: tree_eval five_defs five_mod_defs)

lemma five_mod_canon:
  "canon_root (mem_store 1000) mem_digest five_mod_objs
     [([1], [10]), ([2], [20]), ([3], [30]), ([4], [99]), ([5], [50])] five_mod"
  "grows (mem_store 1000) five_objs five_mod_objs"
proof -
  have "merged five (norm op_key [Put [4] [99]]) = [([1], [10]), ([2], [20]), ([3], [30]), ([4], [99]), ([5], [50])]"
    by (simp add: merged_def norm_def five_def last_opt_def cmp_def)
  moreover have "length five + length [Put [4] [99]] \<le> 2 ^ 64" by (simp add: five_def)
  ultimately show "canon_root (mem_store 1000) mem_digest five_mod_objs
     [([1], [10]), ([2], [20]), ([3], [30]), ([4], [99]), ([5], [50])] five_mod"
    "grows (mem_store 1000) five_objs five_mod_objs"
    using apply_batch_inner_spec [OF mem_chunk_store five_canon, of "[Put [4] [99]]" None]
    by (simp_all add: five_modified)
qed

end
