(* ===== verification/Prolly_Map.thy ===== *)
theory Prolly_Map
  imports Prolly_Eval
begin

text \<open>
  The map a prolly tree is: an abstract interface of persistent maps, its implementation by
  \<^verbatim>\<open>bulk_load\<close>, \<^verbatim>\<open>apply_batch\<close> and \<^verbatim>\<open>get\<close> over any chunk store, and how far the root is a function of
  the contents.
\<close>

section \<open>The interface\<close>

text \<open>What a client of the crate relies on. \<open>is_map s r m\<close>: in store state \<open>s\<close>, root \<open>r\<close> stands for
  the map \<open>m\<close>. Loading and updating return a root of the new map and keep every old root readable;
  the only failures are those of the environment.\<close>

locale persistent_map =
  fixes ok :: "'e \<Rightarrow> bool"
    and is_map :: "'s \<Rightarrow> 'r \<Rightarrow> ('k \<rightharpoonup> 'v) \<Rightarrow> bool"
    and fits :: "nat \<Rightarrow> ('k \<rightharpoonup> 'v) \<Rightarrow> bool"
    and load :: "'s \<Rightarrow> ('k \<times> 'v) list \<Rightarrow> 'e + 'r \<times> 's"
    and update :: "'s \<Rightarrow> 'r \<Rightarrow> 'o list \<Rightarrow> 'e + 'r \<times> 's"
    and lookup :: "'s \<Rightarrow> 'r \<Rightarrow> 'k \<Rightarrow> 'e + 'v option"
    and effect :: "'o \<Rightarrow> ('k \<rightharpoonup> 'v) \<Rightarrow> ('k \<rightharpoonup> 'v)"
  assumes load_ok: "fits (length kvs) Map.empty \<Longrightarrow> load s kvs = Inr (r, s') \<Longrightarrow>
      is_map s' r (map_of (rev kvs)) \<and> (\<forall>r0 m. is_map s r0 m \<longrightarrow> is_map s' r0 m)"
    and load_err: "fits (length kvs) Map.empty \<Longrightarrow> load s kvs = Inl e \<Longrightarrow> ok e"
    and update_ok: "is_map s r m \<Longrightarrow> fits (length ops) m \<Longrightarrow> update s r ops = Inr (r', s') \<Longrightarrow>
      is_map s' r' (fold effect ops m) \<and> (\<forall>r0 m0. is_map s r0 m0 \<longrightarrow> is_map s' r0 m0)"
    and update_err: "is_map s r m \<Longrightarrow> fits (length ops) m \<Longrightarrow> update s r ops = Inl e \<Longrightarrow> ok e"
    and lookup_ok: "is_map s r m \<Longrightarrow> lookup s r k = Inr (m k)"
begin

text \<open>A chain of updates, each on the root the one before returned.\<close>

fun run_updates :: "'s \<Rightarrow> 'r \<Rightarrow> 'o list list \<Rightarrow> 'e + 'r \<times> 's" where
  "run_updates s r [] = Inr (r, s)"
| "run_updates s r (ops # rest) =
     (case update s r ops of Inl e \<Rightarrow> Inl e | Inr (r', s') \<Rightarrow> run_updates s' r' rest)"

lemma run_updates_ok:
  assumes "is_map s r m" "run_updates s r batches = Inr (r', s')"
    "\<forall>i < length batches. fits (length (batches ! i)) (fold effect (concat (take i batches)) m)"
  shows "is_map s' r' (fold effect (concat batches) m)" "is_map s r0 m0 \<Longrightarrow> is_map s' r0 m0"
proof -
  have "is_map s' r' (fold effect (concat batches) m) \<and> (\<forall>r0 m0. is_map s r0 m0 \<longrightarrow> is_map s' r0 m0)"
    using assms
  proof (induction batches arbitrary: s r m)
    case (Cons ops rest)
    from Cons.prems(2) obtain r1 s1 where u: "update s r ops = Inr (r1, s1)"
      "run_updates s1 r1 rest = Inr (r', s')" by (auto split: sum.splits)
    have f: "fits (length ops) m" using Cons.prems(3) by (auto dest: spec [of _ 0])
    have "\<forall>i < length rest. fits (length (rest ! i))
        (fold effect (concat (take i rest)) (fold effect ops m))"
      using Cons.prems(3) by (auto dest: spec [of _ "Suc _"])
    with Cons.IH [OF _ u(2)] update_ok [OF Cons.prems(1) f u(1)] show ?case by auto
  qed simp
  then show "is_map s' r' (fold effect (concat batches) m)" "is_map s r0 m0 \<Longrightarrow> is_map s' r0 m0"
    by blast+
qed

lemma old_version_readable:
  assumes "is_map s r m" "fits (length ops) m" "update s r ops = Inr (r', s')"
  shows "lookup s' r k = Inr (m k)" "lookup s' r' k = Inr (fold effect ops m k)"
  using update_ok [OF assms] assms(1) lookup_ok by blast+

end

section \<open>The implementation\<close>

definition is_map :: "'s store_ops \<Rightarrow> (bytes \<Rightarrow> hash) \<Rightarrow> 's \<Rightarrow> root \<Rightarrow> (bytes \<rightharpoonup> bytes) \<Rightarrow> bool" where
  "is_map S addr s r m \<longleftrightarrow> (\<exists>kvs. canon_root S addr s kvs r \<and> m = map_of kvs)"

definition fits :: "nat \<Rightarrow> (bytes \<rightharpoonup> bytes) \<Rightarrow> bool" where
  "fits n m \<longleftrightarrow> card (dom m) + n \<le> 2 ^ 64"

lemma canon_root_grows:
  assumes "canon_root S addr s kvs r" "grows S s s'"
  shows "canon_root S addr s' kvs r"
proof -
  have "\<forall>l \<le> top_level r. \<forall>c \<in> set (lchunks addr (root_params r) kvs l). stored S addr s' l c"
    using assms(1) stored_grows [OF _ assms(2)] unfolding canon_root_def Let_def by metis
  with assms(1) show ?thesis
    unfolding canon_root_def Let_def by (elim conjE) (intro conjI; assumption)
qed

lemma is_map_grows: "is_map S addr s r m \<Longrightarrow> grows S s s' \<Longrightarrow> is_map S addr s' r m"
  unfolding is_map_def by (blast intro: canon_root_grows)

lemma card_dom_sorted:
  assumes "sorted_wrt (<) (map fst (kvs :: ('k :: linorder \<times> 'v) list))"
  shows "card (dom (map_of kvs)) = length kvs"
proof -
  have "distinct (map fst kvs)" using assms by (simp add: strict_sorted_iff)
  then show ?thesis using distinct_card [of "map fst kvs"] by (simp add: dom_map_of_conv_image_fst)
qed

lemma fits_canon: "canon_root S addr s kvs r \<Longrightarrow> fits n (map_of kvs) \<longleftrightarrow> length kvs + n \<le> 2 ^ 64"
  by (simp add: fits_def card_dom_sorted [OF canon_root_sorted])

lemma bulk_load_map:
  assumes "chunk_store S addr" "fits (length kvs) Map.empty"
  shows "ensures (bulk_load S s P kvs) (\<lambda>(r, s'). grows S s s' \<and> is_map S addr s' r (map_of (rev kvs)))"
proof -
  have m: "map_of (rev kvs) = map_of (norm fst kvs)" by (rule ext) (rule map_of_norm [symmetric])
  have "length kvs \<le> 2 ^ 64" using assms(2) by (simp add: fits_def)
  from bulk_load_spec [OF assms(1) this] show ?thesis
    by (rule ensures_mono) (auto simp: is_map_def m)
qed

lemma apply_batch_map:
  assumes "chunk_store S addr" "is_map S addr s r m" "fits (length ops) m"
  shows "ensures (apply_batch S s r ops) (\<lambda>(r', s'). grows S s s' \<and> root_params r' = root_params r \<and>
    is_map S addr s' r' (fold apply_to_map ops m))"
proof -
  obtain kvs where k: "canon_root S addr s kvs r" "m = map_of kvs" using assms(2) by (auto simp: is_map_def)
  have l: "length kvs + length ops \<le> 2 ^ 64" using assms(3) fits_canon [OF k(1)] k(2) by simp
  show ?thesis unfolding apply_batch_def
    by (rule ensures_rbind [OF apply_batch_inner_spec [OF assms(1) k(1) l]])
      (auto simp: is_map_def k(2) map_of_merged_norm [OF canon_root_sorted [OF k(1)], symmetric])
qed

lemma prolly_get_map: "is_map S addr s r m \<Longrightarrow> prolly_get S s r k = Inr (m k)"
  by (auto simp: is_map_def prolly_get_canon)

sublocale chunk_store \<subseteq> prolly: persistent_map env_error "is_map S addr" fits
  "\<lambda>s kvs. bulk_load S s P kvs" "apply_batch S" "prolly_get S" apply_to_map for P
proof (unfold_locales, goal_cases)
  case (1 kvs s r s')
  then show ?case
    using bulk_load_map [OF chunk_store_axioms, of kvs s P] by (auto intro: is_map_grows)
next
  case (2 kvs s e)
  then show ?case using bulk_load_map [OF chunk_store_axioms, of kvs s P] by simp
next
  case (3 s r m ops r' s')
  then show ?case
    using apply_batch_map [OF chunk_store_axioms, of s r m ops] by (auto intro: is_map_grows)
next
  case (4 s r m ops e)
  then show ?case using apply_batch_map [OF chunk_store_axioms, of s r m ops] by simp
next
  case (5 s r m k)
  then show ?case by (rule prolly_get_map)
qed

interpretation mem_map: chunk_store "mem_store cap" mem_digest for cap
  by (rule mem_chunk_store)

section \<open>How far a root is determined by its contents\<close>

lemma canon_root_unique:
  assumes "canon_root S addr s kvs r" "canon_root S' addr s' kvs r'" "root_params r = root_params r'"
    "root_height r = root_height r'"
  shows "r = r'"
  using assms by (cases r; cases r') (auto simp: canon_root_def top_level_def Let_def)

lemma single_chunk_up:
  assumes "length (lchunks addr P kvs k) = 1" "k < l"
  shows "length (lchunks addr P kvs l) = 1 \<and> length (hd (lchunks addr P kvs l)) = 1"
  using assms(2)
proof (induction l)
  case (Suc l)
  then have "length (lchunks addr P kvs l) = 1" using assms(1) by (cases "k = l") auto
  then obtain c where "lchunks addr P kvs l = [c]" by (cases "lchunks addr P kvs l") auto
  moreover have "chunks P [e] = [[e]]" for e
    by (simp add: chunks_def finish_def cuts_def not_cut_first)
  ultimately show ?case by simp
qed simp

text \<open>A root above the lowest level that is one chunk is an inner node with a single child.\<close>

lemma canon_root_single:
  assumes "canon_root S addr s kvs r" "length (lchunks addr (root_params r) kvs k) = 1" "k < top_level r"
  shows "\<exists>c. read_node S s (root_hash r) (top_level r) None None = Inr (Inner [c])"
proof -
  obtain t where t: "gok S s t" "gaddr addr t" "glevel t = top_level r" "ghash t = root_hash r"
    using canon_root_gtree [OF assms(1)] by (elim exE conjE) (rule that)
  let ?c = "hd (lchunks addr (root_params r) kvs (top_level r))"
  have one: "length ?c = 1" using single_chunk_up [OF assms(2,3)] by simp
  have st: "stored S addr s (top_level r) ?c" "root_hash r = addr (node_bytes (top_level r) ?c)"
    "top_level r < 256"
    using assms(1) by (auto simp: canon_root_def Let_def lchunks_not_Nil top_level_def MAX_HEIGHT_def)
  have "node_bytes (top_level r) (gents t) = node_bytes (top_level r) ?c"
    using gok_gstored [OF t(1)] st(1,2) t(3,4) by (simp add: gstored_def gbytes_def stored_def)
  then have "gents t = ?c"
    using gok_gstored [OF t(1)] st t(3) by (intro node_bytes_inj [of "top_level r"]) (auto simp: gstored_def stored_def)
  with one obtain h u where "t = GNode h [u]" using t(3) assms(3) by (cases t) (auto simp: length_Suc_conv)
  then show ?thesis
    using read_gstored [OF gok_gstored [OF t(1)], of None None] t(3,4) by simp
qed

section \<open>The recorder does not change the tree\<close>

definition forget :: "level_builder \<Rightarrow> level_builder" where
  "forget b = b\<lparr>lb_recorder := None\<rparr>"

lemma forget_simps [simp]:
  "lb_level (forget b) = lb_level b" "lb_chunker (forget b) = lb_chunker b" "lb_buf (forget b) = lb_buf b"
  "lb_count (forget b) = lb_count b" "lb_last_key (forget b) = lb_last_key b" "lb_out (forget b) = lb_out b"
  "lb_recorder (forget b) = None" "at_boundary (forget b) = at_boundary b"
  "forget (b\<lparr>lb_out := x\<rparr>) = (forget b)\<lparr>lb_out := x\<rparr>"
  "forget (b\<lparr>lb_current_base := y\<rparr>) = (forget b)\<lparr>lb_current_base := y\<rparr>"
  by (simp_all add: forget_def at_boundary_def)

lemma rbind_forget:
  assumes "\<And>x. m = Inr x \<Longrightarrow> f' (h x) = map_sum (\<lambda>e. e) g (f x)"
  shows "rbind (map_sum (\<lambda>e. e) h m) f' = map_sum (\<lambda>e. e) g (rbind m f)"
  using assms by (cases m) auto

lemma lb_emit_forget: "lb_emit S s (forget b) = map_sum (\<lambda>e. e) (\<lambda>(b, s). (forget b, s)) (lb_emit S s b)"
  by (cases "st_put S s ([of_nat (lb_level b)] @ be_u32 (lb_count b) @ lb_buf b)")
    (auto simp: lb_emit_def forget_def Let_def split: option.splits)

lemma lb_push_forget: "lb_push S s (forget b) e = map_sum (\<lambda>e. e) (\<lambda>(b, s). (forget b, s)) (lb_push S s b e)"
proof -
  have *: "(forget b)\<lparr>lb_buf := buf, lb_count := n, lb_last_key := k, lb_chunker := c\<rparr> =
      forget (b\<lparr>lb_buf := buf, lb_count := n, lb_last_key := k, lb_chunker := c\<rparr>)" for buf n k c
    by (simp add: forget_def)
  let ?enc = "case e of LeafEntry key val \<Rightarrow> encode_leaf_entry key val (lb_buf b)
      | InnerEntry key h \<Rightarrow> encode_inner_entry key h (lb_buf b)"
  show ?thesis
    by (cases e; cases ?enc) (simp_all add: lb_push_def Let_def * lb_emit_forget split: prod.splits)
qed

lemma lb_push_all_forget:
  "lb_push_all S s (forget b) es = map_sum (\<lambda>e. e) (\<lambda>(b, s). (forget b, s)) (lb_push_all S s b es)"
  by (induction es arbitrary: s b) (auto simp: lb_push_forget intro!: rbind_forget)

lemma chunk_items_forget:
  "chunk_items S l queue (forget b) s = map_sum (\<lambda>e. e) (\<lambda>(b, s). (forget b, s)) (chunk_items S l queue b s)"
proof (induction S l queue b s rule: chunk_items.induct)
  case (1 S l b s)
  then show ?case by (simp add: chunk_items.simps)
next
  case (2 S l entries base queue b s)
  have "lb_push_all S s ((forget b)\<lparr>lb_current_base := base\<rparr>) entries =
      map_sum (\<lambda>e. e) (\<lambda>(b, s). (forget b, s)) (lb_push_all S s (b\<lparr>lb_current_base := base\<rparr>) entries)"
    unfolding forget_simps(10) [symmetric] by (rule lb_push_all_forget)
  then show ?case using 2 by (auto simp: chunk_items.simps intro!: rbind_forget)
next
  case (3 S l node fin queue b s)
  show ?case
  proof (cases "at_boundary b \<and> (\<not> fin \<or> queue = [])")
    case True
    have "chunk_items S l queue (forget (b\<lparr>lb_out := lb_out b @ [OutChunk node]\<rparr>)) s =
        map_sum (\<lambda>e. e) (\<lambda>(b, s). (forget b, s)) (chunk_items S l queue (b\<lparr>lb_out := lb_out b @ [OutChunk node]\<rparr>) s)"
      using 3(1) [OF True] .
    then show ?thesis using True by (simp add: chunk_items.simps)
  next
    case False
    have push: "lb_push_all S s ((forget b)\<lparr>lb_current_base := base\<rparr>) es =
        map_sum (\<lambda>e. e) (\<lambda>(b, s). (forget b, s)) (lb_push_all S s (b\<lparr>lb_current_base := base\<rparr>) es)" for base es
      unfolding forget_simps(10) [symmetric] by (rule lb_push_all_forget)
    show ?thesis
      using False 3(2) [OF False]
      by (cases "read_node S s (ref_hash node) l (Some (last_key node)) None")
        (auto simp: chunk_items.simps push intro!: rbind_forget)
  qed
next
  case (4 S l node sl fin queue b s)
  show ?case
  proof (cases "at_boundary b \<and> (\<not> fin \<or> queue = [])")
    case True
    have "chunk_items S l queue (forget (b\<lparr>lb_out := lb_out b @ [OutSubtree node sl fin]\<rparr>)) s =
        map_sum (\<lambda>e. e) (\<lambda>(b, s). (forget b, s))
          (chunk_items S l queue (b\<lparr>lb_out := lb_out b @ [OutSubtree node sl fin]\<rparr>) s)"
      using 4(1) [OF True] .
    then show ?thesis using True by (simp add: chunk_items.simps)
  next
    case False
    then show ?thesis using 4(2) [OF False]
      by (cases "read_node S s (ref_hash node) sl (Some (last_key node)) None")
        (auto simp: chunk_items.simps split: node.splits)
  qed
qed

definition unrecorded :: "prolly_error + 'a \<times> 'b option \<times> 's \<Rightarrow> prolly_error + 'a \<times> 'b option \<times> 's" where
  "unrecorded m = map_sum (\<lambda>e. e) (\<lambda>(x, _, s). (x, None, s)) m"

lemma chunk_level_forget: "chunk_level S s l P items None = unrecorded (chunk_level S s l P items rec)"
proof -
  have new: "lb_new l P None = forget (lb_new l P rec)" by (simp add: lb_new_def forget_def)
  have step: "(if p then lb_emit S s (forget b) else Inr (forget b, s)) =
      map_sum (\<lambda>e. e) (\<lambda>(b, s). (forget b, s)) (if p then lb_emit S s b else Inr (b, s))" for p b s
    by (simp add: lb_emit_forget)
  show ?thesis
    unfolding chunk_level_def unrecorded_def new chunk_items_forget
    by (auto intro!: rbind_forget simp: step)
qed

lemma build_levels_forget:
  "build_levels S s P l items opened None = unrecorded (build_levels S s P l items opened rec)"
proof (induction S s P l items opened rec rule: build_levels.induct)
  case (1 S s P l items opened rec)
  show ?case
    unfolding build_levels.simps [of S s P l items opened]
      chunk_level_forget [of S s l P items rec] unrecorded_def
    by (rule rbind_forget) (auto simp: Let_def 1 [unfolded unrecorded_def])
qed

section \<open>Properties\<close>

text \<open>C18. Loading a map from any list of pairs, over any chunk store that keeps its contract, either
  fails with an error of the environment (the store's, or a key, value or chunk beyond the format's
  frames) or returns a root under which every key reads the last value the list gives it, and none
  otherwise; chunks already stored stay.\<close>

theorem bulk_load_contents:
  assumes "chunk_store S addr" "length kvs \<le> 2 ^ 64"
  shows "ensures (bulk_load S s P kvs) (\<lambda>(r, s'). grows S s s' \<and>
    (\<forall>k. prolly_get S s' r k = Inr (map_of (rev kvs) k)))"
proof -
  have "fits (length kvs) Map.empty" using assms(2) by (simp add: fits_def)
  from bulk_load_map [OF assms(1) this] show ?thesis
    by (rule ensures_mono) (auto simp: prolly_get_map)
qed

theorem bulk_load_contents_witness:
  "prolly_get (mem_store 1000) five_objs five_root [3] = Inr (Some [30])"
  using bulk_load_contents [OF mem_chunk_store [of 1000], of five "[]" tiny]
  by (simp add: five_loaded) (simp add: five_def)

text \<open>C5. Applying a batch to the root of a map gives a root of the map with the operations applied in
  order (the last one on a key winning), while the old root still reads the old map: the tree is a
  persistent map, and the only failures are those of the environment.\<close>

theorem apply_batch_contents:
  assumes "chunk_store S addr" "is_map S addr s r m" "fits (length ops) m"
  shows "ensures (apply_batch S s r ops) (\<lambda>(r', s').
    is_map S addr s' r' (fold apply_to_map ops m) \<and> is_map S addr s' r m \<and>
    (\<forall>k. prolly_get S s' r' k = Inr (fold apply_to_map ops m k) \<and> prolly_get S s' r k = Inr (m k)))"
  by (rule ensures_mono [OF apply_batch_map [OF assms]])
    (auto simp: prolly_get_map assms(2) intro: is_map_grows [OF assms(2)] dest: is_map_grows [OF assms(2)])

theorem apply_batch_contents_witness:
  "prolly_get (mem_store 1000) five_objs five_last [4] = Inr None \<and>
   prolly_get (mem_store 1000) five_objs five_root [4] = Inr (Some [40])"
proof -
  have "is_map (mem_store 1000) mem_digest five_objs five_root (map_of five)"
    using five_canon by (auto simp: is_map_def)
  moreover have "fits (length [Delete [1], Delete [2], Delete [3], Delete [4]]) (map_of five)"
    by (simp add: fits_canon [OF five_canon]) (simp add: five_def)
  ultimately have "ensures (apply_batch (mem_store 1000) five_objs five_root
      [Delete [1], Delete [2], Delete [3], Delete [4]]) (\<lambda>(r', s').
    is_map (mem_store 1000) mem_digest s' r'
      (fold apply_to_map [Delete [1], Delete [2], Delete [3], Delete [4]] (map_of five)) \<and>
    is_map (mem_store 1000) mem_digest s' five_root (map_of five) \<and>
    (\<forall>k. prolly_get (mem_store 1000) s' r' k =
        Inr (fold apply_to_map [Delete [1], Delete [2], Delete [3], Delete [4]] (map_of five) k) \<and>
      prolly_get (mem_store 1000) s' five_root k = Inr (map_of five k)))"
    by (rule apply_batch_contents [OF mem_chunk_store])
  then show ?thesis by (simp add: five_deleted) (simp add: five_def)
qed

text \<open>C6. History independence: whatever history of batches led to a map, the root is the one that
  loading its contents afresh (in any order, into any store) gives, provided the heights agree; the
  history's tree is never lower, and it can only be higher when its root is an inner node with a
  single child.\<close>

theorem apply_batch_history_independent:
  assumes "chunk_store S addr" "chunk_store S2 addr" "is_map S addr s r m" "fits (length ops) m"
    and "apply_batch S s r ops = Inr (r', s')"
    and "length kvs \<le> 2 ^ 64" "map_of (rev kvs) = fold apply_to_map ops m"
    and "bulk_load S2 t (root_params r) kvs = Inr (r2, t')"
  shows "root_height r2 \<le> root_height r' \<and> (root_height r2 = root_height r' \<longrightarrow> r' = r2) \<and>
    (root_height r2 < root_height r' \<longrightarrow>
       (\<exists>c. read_node S s' (root_hash r') (root_height r' - 1) None None = Inr (Inner [c])))"
proof -
  have p: "root_params r' = root_params r" "is_map S addr s' r' (fold apply_to_map ops m)"
    using apply_batch_map [OF assms(1,3,4)] assms(5) by simp_all
  then obtain kvs' where k: "canon_root S addr s' kvs' r'" "fold apply_to_map ops m = map_of kvs'"
    by (auto simp: is_map_def)
  have b: "root_params r2 = root_params r" "canon_root S2 addr t' (norm fst kvs) r2"
    "\<forall>k < top_level r2. length (lchunks addr (root_params r) (norm fst kvs) k) \<noteq> 1"
    using bulk_load_spec [OF assms(2,6), of t "root_params r"] assms(8) by simp_all
  have "map_of (norm fst kvs) = map_of kvs'" using assms(7) k(2) map_of_norm [of kvs] by (metis ext)
  then have eq: "norm fst kvs = kvs'"
    using sorted_map_of_inject [OF canon_root_sorted [OF b(2)] canon_root_sorted [OF k(1)]] by simp
  have one: "length (lchunks addr (root_params r) kvs' (top_level r')) = 1"
    "length (lchunks addr (root_params r) kvs' (top_level r2)) = 1"
    "1 \<le> root_height r'" "1 \<le> root_height r2"
    using k(1) b(2) p(1) b(1) unfolding eq canon_root_def Let_def by simp_all
  have "top_level r2 \<le> top_level r'" using one(1) b(3) eq not_less by metis
  then have "root_height r2 \<le> root_height r'" using one(3,4) unfolding top_level_def by linarith
  moreover have "root_height r2 = root_height r' \<Longrightarrow> r' = r2"
    using canon_root_unique [OF k(1) b(2) [unfolded eq]] p(1) b(1) by simp
  moreover have "\<exists>c. read_node S s' (root_hash r') (root_height r' - 1) None None = Inr (Inner [c])"
    if "root_height r2 < root_height r'"
    using canon_root_single [OF k(1), of "top_level r2"] one that p(1) by (simp add: top_level_def)
  ultimately show ?thesis by blast
qed

theorem apply_batch_history_independent_witness:
  "\<exists>c. read_node (mem_store 1000) five_objs (root_hash five_last) 1 None None = Inr (Inner [c])"
proof -
  let ?ops = "[Delete [1], Delete [2], Delete [3], Delete [4]]"
  have m: "is_map (mem_store 1000) mem_digest five_objs five_root (map_of five)"
    using five_canon by (auto simp: is_map_def)
  have f: "fits (length ?ops) (map_of five)"
    by (simp add: fits_canon [OF five_canon]) (simp add: five_def)
  have c: "map_of (rev [([5], [50])]) = fold apply_to_map ?ops (map_of five)"
    by (auto simp: five_def fun_eq_iff)
  have l: "bulk_load (mem_store 1000) [] (root_params five_root) [([5], [50])] =
      Inr (\<lparr>root_hash = mem_digest (five_leaves ! 2), root_height = 1, root_params = tiny\<rparr>,
          [(mem_digest (five_leaves ! 2), five_leaves ! 2)])"
    using last_loaded by (simp add: five_root_def)
  have n: "length [([5 :: u8], [50 :: u8])] \<le> 2 ^ 64" by simp
  show ?thesis
    using apply_batch_history_independent
      [OF mem_chunk_store mem_chunk_store m f five_deleted n c l] by (simp add: five_last_def)
qed

text \<open>C20. The heights need not agree: with chunks of two entries, deleting the first four of five
  keys leaves the last key under an inner node of one child, a tree of height two, where loading that
  key gives a leaf. The two roots of one map differ, against the crate's contract that
  \<^verbatim>\<open>apply_batch\<close> is bit-identical to \<^verbatim>\<open>bulk_load\<close>.\<close>

theorem apply_batch_not_bulk_load:
  "\<exists>s' r2 t'. apply_batch (mem_store 1000) five_objs five_root
       [Delete [1], Delete [2], Delete [3], Delete [4]] =
       Inr (five_last, s') \<and> root_height five_last = 2 \<and>
     bulk_load (mem_store 1000) [] tiny [([5], [50])] = Inr (r2, t') \<and>
     map_of (rev [([5], [50])]) = fold apply_to_map [Delete [1], Delete [2], Delete [3], Delete [4]]
       (map_of five) \<and>
     root_height r2 = 1 \<and> bulk_load (mem_store 1000) [] tiny five = Inr (five_root, five_objs)"
proof -
  have "map_of (rev [([5], [50])]) = fold apply_to_map [Delete [1], Delete [2], Delete [3], Delete [4]]
       (map_of five)"
    by (auto simp: five_def fun_eq_iff)
  then show ?thesis using five_loaded five_deleted last_loaded by (simp add: five_last_def)
qed

text \<open>C19. A loaded tree is shallow: at most 64 levels, and above its leaves at most the binary
  logarithm of the number of pairs, because no chunk but the last of a level has fewer than two
  entries.\<close>

theorem bulk_load_height:
  assumes "chunk_store S addr" "length kvs \<le> 2 ^ 64"
  shows "ensures (bulk_load S s P kvs) (\<lambda>(r, s'). 1 \<le> root_height r \<and> root_height r \<le> 64 \<and>
    (1 < root_height r \<longrightarrow> 2 ^ (root_height r - 1) < length kvs))"
proof (rule ensures_mono [OF bulk_load_spec [OF assms, of s P]], clarify, intro conjI impI)
  fix r s'
  assume c: "canon_root S addr s' (norm fst kvs) r" and P: "P = root_params r"
    and min: "\<forall>k < top_level r. length (lchunks addr (root_params r) (norm fst kvs) k) \<noteq> 1"
  show "1 \<le> root_height r" "root_height r \<le> 64"
    using c by (simp_all add: canon_root_def Let_def MAX_HEIGHT_def)
  assume h: "1 < root_height r"
  let ?k = "root_height r - 2" and ?n = "length (norm fst kvs)"
  have k: "Suc ?k = root_height r - 1" "?k < top_level r" using h by (auto simp: top_level_def)
  let ?c = "lchunks addr (root_params r) (norm fst kvs) ?k"
  have "length ?c \<noteq> 1" "length ?c \<noteq> 0" using min k(2) lchunks_not_Nil [of addr _ "norm fst kvs" ?k] by auto
  then have "2 \<le> length ?c" by linarith
  also have "\<dots> \<le> (?n + 2 ^ Suc ?k - 1) div 2 ^ Suc ?k"
    using length_lchunks [of addr "root_params r" "norm fst kvs" ?k] \<open>length ?c \<noteq> 1\<close> by blast
  finally have "2 * 2 ^ Suc ?k \<le> ?n + 2 ^ Suc ?k - 1"
    by (subst (asm) less_eq_div_iff_mult_less_eq) simp_all
  then have "2 ^ Suc ?k < ?n" using zero_less_power [of "2 :: nat" "Suc ?k"] by linarith
  then show "2 ^ (root_height r - 1) < length kvs" using length_norm [of fst kvs] k(1) by simp
qed

theorem bulk_load_height_witness: "root_height five_root = 3 \<and> 2 ^ (3 - 1) < length five"
proof -
  have "length five \<le> 2 ^ 64" by (simp add: five_def)
  from bulk_load_height [OF mem_chunk_store [of 1000] this, of "[]" tiny] show ?thesis
    by (simp add: five_loaded) (simp add: five_root_def)
qed

text \<open>Recording which chunk replaces which changes nothing of the tree: \<^verbatim>\<open>apply_batch_recording\<close>
  fails when \<^verbatim>\<open>apply_batch\<close> does, with the same error, and returns the same root and store otherwise.\<close>

lemma apply_batch_recording_same:
  "apply_batch S s r ops =
     (case apply_batch_recording S s r ops of Inl e \<Rightarrow> Inl e | Inr ((r', _), s') \<Rightarrow> Inr (r', s'))"
proof -
  have u: "apply_batch_inner S s r ops None = unrecorded (apply_batch_inner S s r ops rec)" for rec
    by (auto simp: apply_batch_inner_def Let_def unrecorded_def
        build_levels_forget [of S s "root_params r" 0 _ _ rec, unfolded unrecorded_def]
        intro!: rbind_forget [of _ _ "\<lambda>x. x", simplified sum.map_ident])
  show ?thesis
    unfolding apply_batch_def apply_batch_recording_def u [of "Some []"]
    by (cases "apply_batch_inner S s r ops (Some [])") (auto simp: unrecorded_def)
qed

end
