(* ===== verification/Prolly_Diff.thy ===== *)
theory Prolly_Diff
  imports Prolly_Map
begin

text \<open>
  Structural diff of two roots, \<^verbatim>\<open>crates/acetone-prolly/src/diff.rs\<close>: the stack of key-aligned regions
  whose contents differ, the alignment of child runs, the merge of leaf runs and the iterator over
  them. The diff of two maps is the ordered list of the keys whose values differ, whatever subtrees
  were skipped.
\<close>

section \<open>The iterator\<close>

record diff_entry =
  de_key :: bytes
  de_before :: "bytes option"
  de_after :: "bytes option"

record region =
  rg_level :: nat
  rg_a :: "node_ref list"
  rg_b :: "node_ref list"
  rg_pseudo :: bool

record leaf_merge =
  lm_a_refs :: "node_ref list"
  lm_b_refs :: "node_ref list"
  lm_a :: "(bytes \<times> bytes) list"
  lm_b :: "(bytes \<times> bytes) list"
  lm_pseudo :: bool

text \<open>The earliest region is the head of \<open>df_regions\<close>.\<close>

record diff_state =
  df_regions :: "region list"
  df_leaves :: "leaf_merge option"
  df_done :: bool

definition leaf_merge_new :: "region \<Rightarrow> leaf_merge" where
  "leaf_merge_new region =
     \<lparr>lm_a_refs = rg_a region, lm_b_refs = rg_b region, lm_a = [], lm_b = [], lm_pseudo = rg_pseudo region\<rparr>"

fun expect_last :: "bool \<Rightarrow> node_ref \<Rightarrow> bytes option" where
  "expect_last pseudo r = (if pseudo then None else Some (last_key r))"

fun top_up ::
  "'s store_ops \<Rightarrow> 's \<Rightarrow> bool \<Rightarrow> (bytes \<times> bytes) list \<Rightarrow> node_ref list \<Rightarrow>
     prolly_error + (bytes \<times> bytes) list \<times> node_ref list" where
  "top_up S s pseudo (e # buf) refs = Inr (e # buf, refs)"
| "top_up S s pseudo [] [] = Inr ([], [])"
| "top_up S s pseudo [] (r # refs) =
     rbind (read_node S s (ref_hash r) 0 (expect_last pseudo r) None) (\<lambda>node. case node of
         Leaf entries \<Rightarrow> top_up S s pseudo entries refs
       | Inner _ \<Rightarrow> Inl Unreachable)"

lemma top_up_shrinks:
  "top_up S s pseudo buf refs = Inr (buf', refs') \<Longrightarrow>
     length refs' \<le> length refs \<and> (length refs' = length refs \<longrightarrow> buf' = buf)"
proof (induction S s pseudo buf refs rule: top_up.induct)
  case (3 S s pseudo r refs)
  from "3.prems" obtain node where n: "read_node S s (ref_hash r) 0 (expect_last pseudo r) None = Inr node"
    by (cases "read_node S s (ref_hash r) 0 (expect_last pseudo r) None") auto
  show ?case using 3 n by (cases node) (auto simp del: expect_last.simps)
qed auto

function leaf_next_entry ::
  "'s store_ops \<Rightarrow> 's \<Rightarrow> leaf_merge \<Rightarrow> prolly_error + diff_entry option \<times> leaf_merge" where
  "leaf_next_entry S s m =
     rbind (top_up S s (lm_pseudo m) (lm_a m) (lm_a_refs m)) (\<lambda>(a, a_refs).
     rbind (top_up S s (lm_pseudo m) (lm_b m) (lm_b_refs m)) (\<lambda>(b, b_refs).
       let m = m\<lparr>lm_a := a, lm_a_refs := a_refs, lm_b := b, lm_b_refs := b_refs\<rparr>
       in case (a, b) of
            ([], []) \<Rightarrow> Inr (None, m)
          | ((k, va) # a', []) \<Rightarrow> Inr (Some \<lparr>de_key = k, de_before = Some va, de_after = None\<rparr>, m\<lparr>lm_a := a'\<rparr>)
          | ([], (k, vb) # b') \<Rightarrow> Inr (Some \<lparr>de_key = k, de_before = None, de_after = Some vb\<rparr>, m\<lparr>lm_b := b'\<rparr>)
          | ((ka, va) # a', (kb, vb) # b') \<Rightarrow>
              (case cmp ka kb of
                 Less \<Rightarrow> Inr (Some \<lparr>de_key = ka, de_before = Some va, de_after = None\<rparr>, m\<lparr>lm_a := a'\<rparr>)
               | Greater \<Rightarrow> Inr (Some \<lparr>de_key = kb, de_before = None, de_after = Some vb\<rparr>, m\<lparr>lm_b := b'\<rparr>)
               | Equal \<Rightarrow>
                   let m = m\<lparr>lm_a := a', lm_b := b'\<rparr>
                   in if va \<noteq> vb
                      then Inr (Some \<lparr>de_key = ka, de_before = Some va, de_after = Some vb\<rparr>, m)
                      else leaf_next_entry S s m)))"
  by pat_completeness auto
termination
  by (relation "measures [\<lambda>(S, s, m). length (lm_a_refs m) + length (lm_b_refs m),
    \<lambda>(S, s, m). length (lm_a m) + length (lm_b m)]") (auto dest!: top_up_shrinks sym [where t = "lm_a _"] sym [where t = "lm_b _"])

declare leaf_next_entry.simps [simp del]

fun expand ::
  "'s store_ops \<Rightarrow> 's \<Rightarrow> node_ref list \<Rightarrow> nat \<Rightarrow> bool \<Rightarrow> prolly_error + node_ref list" where
  "expand S s [] level pseudo = Inr []"
| "expand S s (r # refs) level pseudo =
     rbind (read_node S s (ref_hash r) level (expect_last pseudo r) None) (\<lambda>node. case node of
         Inner children \<Rightarrow> rbind (expand S s refs level pseudo) (\<lambda>rest. Inr (children @ rest))
       | Leaf _ \<Rightarrow> Inl Unreachable)"

text \<open>One region: both runs are extended, the side that ends first going ahead, until their last
  keys agree or both children lists are used up. Results in the region's two runs and what is left.\<close>

definition spans_agree :: "node_ref list \<Rightarrow> node_ref list \<Rightarrow> bool" where
  "spans_agree ra rb = (case (last_opt ra, last_opt rb) of
     (Some x, Some y) \<Rightarrow> last_key x = last_key y | _ \<Rightarrow> False)"

definition extends_a :: "node_ref list \<Rightarrow> node_ref list \<Rightarrow> bool" where
  "extends_a ra rb = (case (last_opt ra, last_opt rb) of
     (None, _) \<Rightarrow> True | (_, None) \<Rightarrow> False | (Some x, Some y) \<Rightarrow> last_key x < last_key y)"

fun extend_region ::
  "node_ref list \<Rightarrow> node_ref list \<Rightarrow> node_ref list \<Rightarrow> node_ref list \<Rightarrow>
     (node_ref list \<times> node_ref list) \<times> node_ref list \<times> node_ref list" where
  "extend_region ra rb (r # a) (q # b) =
     (if spans_agree ra rb then ((ra, rb), r # a, q # b)
      else if extends_a ra rb then extend_region (ra @ [r]) rb a (q # b)
      else extend_region ra (rb @ [q]) (r # a) b)"
| "extend_region ra rb (r # a) [] =
     (if spans_agree ra rb then ((ra, rb), r # a, []) else extend_region (ra @ [r]) rb a [])"
| "extend_region ra rb [] (q # b) =
     (if spans_agree ra rb then ((ra, rb), [], q # b) else extend_region ra (rb @ [q]) [] b)"
| "extend_region ra rb [] [] = ((ra, rb), [], [])"

lemma extend_region_shrinks:
  "extend_region ra rb a b = ((ra', rb'), a', b') \<Longrightarrow> length a' + length b' \<le> length a + length b \<and>
     (ra = [] \<and> rb = [] \<and> \<not> (a = [] \<and> b = []) \<longrightarrow> length a' + length b' < length a + length b)"
  by (induction ra rb a b rule: extend_region.induct)
    (auto simp: spans_agree_def last_opt_def split: if_splits)

definition heads_equal :: "node_ref list \<Rightarrow> node_ref list \<Rightarrow> bool" where
  "heads_equal a b = (case (a, b) of (r # _, q # _) \<Rightarrow> ref_hash r = ref_hash q | _ \<Rightarrow> False)"

function align_regions :: "node_ref list \<Rightarrow> node_ref list \<Rightarrow> nat \<Rightarrow> region list" where
  "align_regions a b level =
     (if a = [] \<and> b = [] then []
      else if heads_equal a b then align_regions (tl a) (tl b) level
      else case extend_region [] [] a b of ((ra, rb), a', b') \<Rightarrow>
        \<lparr>rg_level = level, rg_a = ra, rg_b = rb, rg_pseudo = False\<rparr> # align_regions a' b' level)"
  by pat_completeness auto
termination
proof (relation "measure (\<lambda>(a, b, level). length a + length b)", goal_cases)
  case (2 a b level)
  then show ?case by (cases a; cases b) (auto simp: heads_equal_def)
next
  case 3
  then show ?case by (auto dest!: extend_region_shrinks [OF sym] simp del: extend_region.simps)
qed simp

declare align_regions.simps [simp del]

lemma align_regions_level: "r \<in> set (align_regions a b level) \<Longrightarrow> rg_level r = level"
proof (induction a b level rule: align_regions.induct)
  case (1 a b level)
  show ?case
  proof (cases "a = [] \<and> b = [] \<or> heads_equal a b")
    case True
    with 1 show ?thesis by (auto simp: align_regions.simps [of a b] split: if_splits)
  next
    case False
    obtain ra rb a' b' where e: "extend_region [] [] a b = ((ra, rb), a', b')" by (metis surj_pair)
    with False 1 show ?thesis by (auto simp: align_regions.simps [of a b])
  qed
qed

text \<open>The pending work of a diff as ranks: a region of level \<open>l\<close> has rank \<open>l + 1\<close>, the leaf run being
  merged has rank zero.\<close>

fun diff_rank :: "diff_state \<Rightarrow> nat multiset" where
  "diff_rank d = mset (map (\<lambda>r. Suc (rg_level r)) (df_regions d)) +
     (case df_leaves d of None \<Rightarrow> {#} | Some _ \<Rightarrow> {#0#})"

lemma rank_replaced:
  "\<forall>x \<in># new. x < y \<Longrightarrow> (rest + new, add_mset y rest) \<in> mult {(x, y). x < (y :: nat)}"
  using one_step_implies_mult [of "{#y#}" new "{(x, y). x < (y :: nat)}" rest] by auto

function diff_next_entry ::
  "'s store_ops \<Rightarrow> 's \<Rightarrow> diff_state \<Rightarrow> prolly_error + diff_entry option \<times> diff_state" where
  "diff_next_entry S s d = (case df_leaves d of
       Some m \<Rightarrow>
         rbind (leaf_next_entry S s m) (\<lambda>(r, m). case r of
             Some entry \<Rightarrow> Inr (Some entry, d\<lparr>df_leaves := Some m\<rparr>)
           | None \<Rightarrow> diff_next_entry S s (d\<lparr>df_leaves := None\<rparr>))
     | None \<Rightarrow> (case df_regions d of
           [] \<Rightarrow> Inr (None, d)
         | region # regions \<Rightarrow>
             if rg_level region = 0
             then diff_next_entry S s (d\<lparr>df_regions := regions, df_leaves := Some (leaf_merge_new region)\<rparr>)
             else rbind (expand S s (rg_a region) (rg_level region) (rg_pseudo region)) (\<lambda>ca.
                  rbind (expand S s (rg_b region) (rg_level region) (rg_pseudo region)) (\<lambda>cb.
                    diff_next_entry S s
                      (d\<lparr>df_regions := align_regions ca cb (rg_level region - 1) @ regions\<rparr>)))))"
  by pat_completeness auto
termination
proof (relation "inv_image (mult {(x, y). x < (y :: nat)}) (\<lambda>(S, s, d). diff_rank d)", goal_cases)
  case 1
  have "wf {(x, y). x < (y :: nat)}" by (rule wf)
  then show ?case by (intro wf_inv_image wf_mult)
next
  case (2 S s d region regions)
  then show ?case using rank_replaced [of "{#0#}" 1 "mset (map (\<lambda>r. Suc (rg_level r)) regions)"] by simp
next
  case (3 S s d region regions ca cb)
  have "\<forall>x \<in># mset (map (\<lambda>r. Suc (rg_level r)) (align_regions ca cb (rg_level region - 1))). x < Suc (rg_level region)"
    using 3(3) by (auto dest!: align_regions_level)
  from rank_replaced [OF this, of "mset (map (\<lambda>r. Suc (rg_level r)) regions)"] 3 show ?case
    by (simp add: union_commute)
next
  case (4 S s d)
  then show ?case
    using one_step_implies_mult [of "{#0#}" "{#}" "{(x, y). x < (y :: nat)}"
        "mset (map (\<lambda>r. Suc (rg_level r)) (df_regions d))"]
    by simp
qed

declare diff_next_entry.simps [simp del]

section \<open>The diff of two roots\<close>

fun pseudo_ref :: "root \<Rightarrow> node_ref" where
  "pseudo_ref root = \<lparr>last_key = [], ref_hash = root_hash root\<rparr>"

text \<open>Expanding the taller side \<open>n\<close> levels down from \<open>level\<close>.\<close>

fun expand_down ::
  "'s store_ops \<Rightarrow> 's \<Rightarrow> node_ref list \<Rightarrow> nat \<Rightarrow> nat \<Rightarrow> prolly_error + node_ref list" where
  "expand_down S s refs level 0 = Inr refs"
| "expand_down S s refs level (Suc n) =
     rbind (expand S s refs level True) (\<lambda>refs. expand_down S s refs (level - 1) n)"

definition diff :: "'s store_ops \<Rightarrow> 's \<Rightarrow> root \<Rightarrow> root \<Rightarrow> prolly_error + diff_state" where
  "diff S s a b =
     (if root_hash a = root_hash b then Inr \<lparr>df_regions = [], df_leaves = None, df_done = True\<rparr>
      else let la = top_level a; lb = top_level b
           in rbind (expand_down S s [pseudo_ref a] la (la - lb)) (\<lambda>ra.
              rbind (expand_down S s [pseudo_ref b] lb (lb - la)) (\<lambda>rb.
                Inr \<lparr>df_regions = [\<lparr>rg_level = min la lb, rg_a = ra, rg_b = rb, rg_pseudo = True\<rparr>],
                     df_leaves = None, df_done = False\<rparr>)))"

definition diff_next ::
  "'s store_ops \<Rightarrow> 's \<Rightarrow> diff_state \<Rightarrow> (prolly_error + diff_entry) option \<times> diff_state" where
  "diff_next S s d =
     (if df_done d then (None, d)
      else case diff_next_entry S s d of
          Inr (Some entry, d) \<Rightarrow> (Some (Inr entry), d)
        | Inr (None, d) \<Rightarrow> (None, d\<lparr>df_done := True\<rparr>)
        | Inl e \<Rightarrow> (Some (Inl e), d\<lparr>df_done := True\<rparr>))"

text \<open>The first \<open>n\<close> calls of \<^verbatim>\<open>next\<close>, up to the first \<^verbatim>\<open>None\<close>.\<close>

fun diff_take :: "'s store_ops \<Rightarrow> 's \<Rightarrow> nat \<Rightarrow> diff_state \<Rightarrow> (prolly_error + diff_entry) list" where
  "diff_take S s 0 d = []"
| "diff_take S s (Suc n) d = (case diff_next S s d of
       (None, _) \<Rightarrow> []
     | (Some x, d) \<Rightarrow> x # diff_take S s n d)"

section \<open>The reference diff of two sorted lists\<close>

fun removed :: "bytes \<times> bytes \<Rightarrow> diff_entry" where
  "removed (k, v) = \<lparr>de_key = k, de_before = Some v, de_after = None\<rparr>"

fun added :: "bytes \<times> bytes \<Rightarrow> diff_entry" where
  "added (k, v) = \<lparr>de_key = k, de_before = None, de_after = Some v\<rparr>"

fun diff_list :: "(bytes \<times> bytes) list \<Rightarrow> (bytes \<times> bytes) list \<Rightarrow> diff_entry list" where
  "diff_list [] b = map added b"
| "diff_list a [] = map removed a"
| "diff_list ((ka, va) # a) ((kb, vb) # b) =
     (case cmp ka kb of
        Less \<Rightarrow> removed (ka, va) # diff_list a ((kb, vb) # b)
      | Greater \<Rightarrow> added (kb, vb) # diff_list ((ka, va) # a) b
      | Equal \<Rightarrow> (if va \<noteq> vb then [\<lparr>de_key = ka, de_before = Some va, de_after = Some vb\<rparr>] else [])
                 @ diff_list a b)"

lemma diff_list_Nil2 [simp]: "diff_list a [] = map removed a"
  by (cases a) auto

lemma de_key_simps [simp]: "de_key (removed e) = fst e" "de_key (added e) = fst e"
  by (cases e; simp)+

lemma diff_list_keys: "e \<in> set (diff_list a b) \<Longrightarrow> de_key e \<in> fst ` (set a \<union> set b)"
  by (induction a b rule: diff_list.induct) (auto simp: image_iff split: ordering.splits if_splits; force)+

lemma diff_list_sorted:
  "sorted_wrt (<) (map fst a) \<Longrightarrow> sorted_wrt (<) (map fst b) \<Longrightarrow> sorted_wrt (<) (map de_key (diff_list a b))"
proof (induction a b rule: diff_list.induct)
  case (3 ka va a kb vb b)
  have a: "ka < x" if "x \<in> fst ` set a" for x using "3.prems"(1) that by auto
  have b: "kb < x" if "x \<in> fst ` set b" for x using "3.prems"(2) that by auto
  consider "ka < kb" | "ka = kb" | "kb < ka" by force
  then show ?case
  proof cases
    case 1
    with 3 a b show ?thesis by (fastforce dest!: diff_list_keys)
  next
    case 2
    with 3 a b show ?thesis by (fastforce dest!: diff_list_keys)
  next
    case 3
    then have "cmp ka kb = Greater" by simp
    with 3 "3.IH" "3.prems" a b show ?thesis by (fastforce dest!: diff_list_keys)
  qed
qed (auto simp: comp_def)

lemma diff_list_same: "diff_list (c @ a) (c @ b) = diff_list a b"
  by (induction c) (auto simp: cmp_def)

lemma diff_list_self [simp]: "diff_list a a = []"
  using diff_list_same [of a "[]" "[]"] by simp

lemma diff_list_left:
  "(\<forall>e \<in> set a1. \<forall>d \<in> set b. fst e < fst d) \<Longrightarrow> diff_list (a1 @ a2) b = map removed a1 @ diff_list a2 b"
proof (induction a1)
  case (Cons e a1)
  then show ?case by (cases e; cases b) (auto simp: cmp_def)
qed simp

lemma diff_list_right:
  "(\<forall>e \<in> set b1. \<forall>d \<in> set a. fst e < fst d) \<Longrightarrow> diff_list a (b1 @ b2) = map added b1 @ diff_list a b2"
proof (induction b1)
  case (Cons e b1)
  then show ?case by (cases e; cases a) (auto simp: cmp_def)
qed simp

lemma diff_list_split:
  "(\<forall>e \<in> set a1 \<union> set b1. fst e \<le> K) \<Longrightarrow> (\<forall>e \<in> set a2 \<union> set b2. K < fst e) \<Longrightarrow>
     diff_list (a1 @ a2) (b1 @ b2) = diff_list a1 b1 @ diff_list a2 b2"
proof (induction a1 b1 rule: diff_list.induct)
  case (1 b)
  then show ?case using diff_list_right [of b a2 b2] by force
next
  case (2 e a)
  then show ?case using diff_list_left [of "e # a" b2 a2] by force
next
  case (3 ka va a kb vb b)
  then show ?case by (cases "cmp ka kb") auto
qed

lemma in_removed: "e \<in> set (map removed xs) \<longleftrightarrow>
    (\<exists>v. de_before e = Some v \<and> de_after e = None \<and> (de_key e, v) \<in> set xs)"
  by (cases e) force

lemma in_added: "e \<in> set (map added xs) \<longleftrightarrow>
    (\<exists>v. de_before e = None \<and> de_after e = Some v \<and> (de_key e, v) \<in> set xs)"
  by (cases e) force

lemma diff_list_iff:
  assumes "sorted_wrt (<) (map fst a)" "sorted_wrt (<) (map fst b)"
  shows "e \<in> set (diff_list a b) \<longleftrightarrow> de_before e = map_of a (de_key e) \<and> de_after e = map_of b (de_key e) \<and>
    de_before e \<noteq> de_after e"
  using assms
proof (induction a b rule: diff_list.induct)
  case (1 b)
  then have "distinct (map fst b)" by (auto simp: strict_sorted_iff)
  then have m: "map_of b k = Some v \<longleftrightarrow> (k, v) \<in> set b" for k v by simp
  have "e \<in> set (map added b) \<longleftrightarrow> de_before e = None \<and> de_after e = map_of b (de_key e) \<and> de_after e \<noteq> None"
    unfolding in_added m [symmetric] by (cases "de_after e") (simp_all, metis)
  then show ?case by auto
next
  case (2 ea a)
  let ?a = "ea # a"
  have "distinct (map fst ?a)" using "2.prems"(1) by (auto simp: strict_sorted_iff)
  then have m: "map_of ?a k = Some v \<longleftrightarrow> (k, v) \<in> set ?a" for k v by (simp del: map_of.simps)
  have "e \<in> set (map removed ?a) \<longleftrightarrow> de_before e = map_of ?a (de_key e) \<and> de_after e = None \<and> de_before e \<noteq> None"
    unfolding in_removed m [symmetric] by (cases "de_before e") (simp_all del: map_of.simps, metis)
  then show ?case unfolding diff_list_Nil2 by (metis map_of.simps(1))
next
  case (3 ka va a kb vb b)
  have n: "map_of a k = None" if "k \<le> ka" for k
    using "3.prems"(1) that by (auto simp: map_of_eq_None_iff)
  have n': "map_of b k = None" if "k \<le> kb" for k
    using "3.prems"(2) that by (auto simp: map_of_eq_None_iff)
  obtain k x y where e: "e = \<lparr>de_key = k, de_before = x, de_after = y\<rparr>" by (cases e) auto
  consider (lt) "ka < kb" | (eq) "ka = kb" | (gt) "kb < ka" by force
  then show ?case
  proof cases
    case lt
    then have "cmp ka kb = Less" by simp
    then show ?thesis using "3.IH"(1) "3.prems" n n' lt by (auto simp: e)
  next
    case eq
    then have "cmp ka kb = Equal" by simp
    then show ?thesis using "3.IH"(2) "3.prems" n n' eq by (auto simp: e)
  next
    case gt
    then have "cmp ka kb = Greater" by simp
    then show ?thesis using "3.IH"(3) "3.prems" n n' gt by (auto simp: e)
  qed
qed

section \<open>Runs of nodes\<close>

definition flat_run :: "gtree list \<Rightarrow> (bytes \<times> bytes) list" where
  "flat_run ts = concat (map gflat ts)"

lemma flat_run_simps [simp]:
  "flat_run [] = []" "flat_run (t # ts) = gflat t @ flat_run ts" "flat_run (ts @ us) = flat_run ts @ flat_run us"
  by (simp_all add: flat_run_def)

text \<open>References to stored trees; those of a region below the roots carry real last keys.\<close>

definition run_of :: "'s store_ops \<Rightarrow> 's \<Rightarrow> nat \<Rightarrow> bool \<Rightarrow> node_ref list \<Rightarrow> gtree list \<Rightarrow> bool" where
  "run_of S s l pseudo refs ts \<longleftrightarrow> map ref_hash refs = map ghash ts \<and>
     (\<forall>t \<in> set ts. gok S s t \<and> glevel t = l) \<and>
     (\<not> pseudo \<longrightarrow> refs = map gref ts \<and> (\<forall>t \<in> set ts. gents t \<noteq> []))"

lemma run_of_Cons:
  "run_of S s l pseudo (r # refs) ts \<Longrightarrow> \<exists>t ts'. ts = t # ts' \<and> ref_hash r = ghash t \<and> gok S s t \<and>
     glevel t = l \<and> (expect_last pseudo r = None \<or> expect_last pseudo r = Some (glast t) \<and> gents t \<noteq> []) \<and>
     run_of S s l pseudo refs ts'"
  by (cases ts) (auto simp: run_of_def gref_def)

lemma run_of_Nil: "run_of S s l pseudo [] ts \<longleftrightarrow> ts = []"
  by (auto simp: run_of_def)

lemma run_of_read:
  assumes "gok S s t" "expect_last pseudo r = None \<or> expect_last pseudo r = Some (glast t) \<and> gents t \<noteq> []"
  shows "read_node S s (ghash t) (glevel t) (expect_last pseudo r) None = Inr (gnode t)"
  using read_gstored [OF gok_gstored [OF assms(1)] assms(2), of None] by simp

text \<open>Content addressing: trees of one store with the same hash are the same tree.\<close>

lemma gstored_gents_unique:
  assumes "gstored S s t" "gstored S s u" "ghash t = ghash u"
  shows "glevel t = glevel u \<and> gents t = gents u"
proof -
  have b: "node_bytes (glevel t) (gents t) = node_bytes (glevel u) (gents u)"
    and l: "glevel t < 256" "glevel u < 256"
    using assms by (simp_all add: gstored_def gbytes_def MAX_HEIGHT_def)
  then have "(of_nat (glevel t) :: u8) = of_nat (glevel u)" by (simp add: node_bytes_def)
  then have "glevel t = glevel u" using l by (simp add: word_unat_eq_iff unat_of_nat)
  with b l show ?thesis
    using assms node_bytes_inj [of "glevel t" "gents t" "gents u"] by (simp add: gstored_def)
qed

lemma gtree_unique: "gok S s t \<Longrightarrow> gok S s u \<Longrightarrow> ghash t = ghash u \<Longrightarrow> t = u"
proof (induction t arbitrary: u)
  case (GLeaf h es)
  have e: "glevel u = 0" "gents u = leaf_entries es"
    using gstored_gents_unique [OF gok_gstored gok_gstored, OF GLeaf.prems] by simp_all
  then obtain ds where u: "u = GLeaf h ds" using GLeaf.prems(3) by (cases u) auto
  then have "map entry_pair (leaf_entries ds) = map entry_pair (leaf_entries es)" using e by simp
  then show ?case by (simp add: u leaf_entries_def comp_def case_prod_beta)
next
  case (GNode h ts)
  have e: "glevel u = glevel (GNode h ts)" "gents u = gents (GNode h ts)"
    using gstored_gents_unique [OF gok_gstored gok_gstored, OF GNode.prems] by simp_all
  then obtain us where u: "u = GNode h us" using GNode.prems(3) by (cases u) auto
  then have m: "map ghash us = map ghash ts"
    using e(2) by (auto simp: gref_def list_eq_iff_nth_eq map_equality_iff)
  have "us = ts"
  proof (rule nth_equalityI)
    show l: "length us = length ts" using m by (rule map_eq_imp_length_eq)
    fix i assume i: "i < length us"
    then have "ts ! i = us ! i"
      using GNode.IH [of "ts ! i" "us ! i"] GNode.prems(1,2) m l u
      by (metis (no_types, lifting) gok.simps(2) nth_map nth_mem)
    then show "us ! i = ts ! i" by simp
  qed
  then show ?case using u by simp
qed

section \<open>Regions\<close>

lemma top_up_ok:
  "run_of S s 0 pseudo refs ts \<Longrightarrow> \<exists>buf' refs' ts'. top_up S s pseudo buf refs = Inr (buf', refs') \<and>
     run_of S s 0 pseudo refs' ts' \<and> buf' @ flat_run ts' = buf @ flat_run ts \<and> (buf' = [] \<longrightarrow> ts' = [])"
proof (induction S s pseudo buf refs arbitrary: ts rule: top_up.induct)
  case (3 S s pseudo r refs)
  from run_of_Cons [OF "3.prems"] obtain t ts' where t: "ts = t # ts'" "ref_hash r = ghash t" "gok S s t"
    "glevel t = 0" "expect_last pseudo r = None \<or> expect_last pseudo r = Some (glast t) \<and> gents t \<noteq> []"
    "run_of S s 0 pseudo refs ts'" by blast
  obtain h es where g: "t = GLeaf h es" using t(4) by (cases t) auto
  have rd: "read_node S s (ref_hash r) 0 (expect_last pseudo r) None = Inr (Leaf es)"
    using run_of_read [OF t(3,5)] t(2) by (simp add: g)
  show ?case using "3.IH" [OF rd refl t(6)] rd t(1) by (simp add: g del: expect_last.simps)
qed (auto simp: run_of_Nil)

lemma expand_ok:
  "run_of S s l pseudo refs ts \<Longrightarrow> 0 < l \<Longrightarrow> \<exists>us. expand S s refs l pseudo = Inr (map gref us) \<and>
     run_of S s (l - 1) False (map gref us) us \<and> flat_run us = flat_run ts"
proof (induction S s refs l pseudo arbitrary: ts rule: expand.induct)
  case (1 S s l pseudo)
  then show ?case by (auto simp: run_of_Nil run_of_def)
next
  case (2 S s r refs l pseudo)
  from run_of_Cons [OF "2.prems"(1)] obtain t ts' where t: "ts = t # ts'" "ref_hash r = ghash t" "gok S s t"
    "glevel t = l" "expect_last pseudo r = None \<or> expect_last pseudo r = Some (glast t) \<and> gents t \<noteq> []"
    "run_of S s l pseudo refs ts'" by blast
  obtain h us where g: "t = GNode h us" using t(4) "2.prems"(2) by (cases t) auto
  have rd: "read_node S s (ref_hash r) l (expect_last pseudo r) None = Inr (Inner (map gref us))"
    using run_of_read [OF t(3,5)] t(2,4) by (simp add: g)
  obtain vs where v: "expand S s refs l pseudo = Inr (map gref vs)" "run_of S s (l - 1) False (map gref vs) vs"
    "flat_run vs = flat_run ts'"
    using "2.IH" [OF rd refl t(6) "2.prems"(2)] by blast
  have "run_of S s (l - 1) False (map gref (us @ vs)) (us @ vs)"
    using v(2) t(3,4) g by (auto simp: run_of_def gref_def)
  with rd v t(1) show ?case
    by (intro exI [of _ "us @ vs"]) (simp add: g flat_run_def del: expect_last.simps)
qed

definition region_ok :: "'s store_ops \<Rightarrow> 's \<Rightarrow> region \<Rightarrow> diff_entry list \<Rightarrow> bool" where
  "region_ok S s r es \<longleftrightarrow> (\<exists>ts us. run_of S s (rg_level r) (rg_pseudo r) (rg_a r) ts \<and>
     run_of S s (rg_level r) (rg_pseudo r) (rg_b r) us \<and> sorted_wrt (<) (map fst (flat_run ts)) \<and>
     sorted_wrt (<) (map fst (flat_run us)) \<and> es = diff_list (flat_run ts) (flat_run us))"

lemma region_okI:
  "run_of S s (rg_level r) (rg_pseudo r) (rg_a r) ts \<Longrightarrow> run_of S s (rg_level r) (rg_pseudo r) (rg_b r) us \<Longrightarrow>
     sorted_wrt (<) (map fst (flat_run ts)) \<Longrightarrow> sorted_wrt (<) (map fst (flat_run us)) \<Longrightarrow>
     region_ok S s r (diff_list (flat_run ts) (flat_run us))"
  unfolding region_ok_def by blast

lemma extend_region_parts:
  "extend_region ra rb a b = ((ra', rb'), a', b') \<Longrightarrow>
     \<exists>x y. a = x @ a' \<and> b = y @ b' \<and> ra' = ra @ x \<and> rb' = rb @ y \<and>
       (a' = [] \<and> b' = [] \<or> spans_agree ra' rb')"
proof (induction ra rb a b rule: extend_region.induct)
  case (1 ra rb r a q b)
  then show ?case by (auto split: if_splits)
qed (auto split: if_splits)

text \<open>The keys of a run reach its last reference's key, and those of the run behind lie above.\<close>

lemma run_span:
  assumes "run_of S s l False (map gref (ts @ us)) (ts @ us)" "sorted_wrt (<) (map fst (flat_run (ts @ us)))"
    "ts \<noteq> []"
  shows "\<forall>e \<in> set (flat_run ts). fst e \<le> glast (last ts)" "\<forall>e \<in> set (flat_run us). glast (last ts) < fst e"
proof -
  have "gok S s (last ts)" "gents (last ts) \<noteq> []" using assms(1,3) by (auto simp: run_of_def)
  from glast_flat [OF this] have l: "gflat (last ts) \<noteq> []" "glast (last ts) = fst (last (gflat (last ts)))" by auto
  have f: "flat_run ts = flat_run (butlast ts) @ gflat (last ts)"
    using assms(3) append_butlast_last_id [of ts] by (metis append_Nil2 flat_run_simps)
  then have "last (flat_run ts) = last (gflat (last ts))" "flat_run ts \<noteq> []" using l(1) by auto
  then have last: "glast (last ts) = last (map fst (flat_run ts))" using l(2) by (simp add: last_map)
  have so: "sorted_wrt (<) (map fst (flat_run ts))" using assms(2) by (simp add: sorted_wrt_append)
  show "\<forall>e \<in> set (flat_run ts). fst e \<le> glast (last ts)"
    using sorted_last_le [OF so] unfolding last by simp
  have "last (flat_run ts) \<in> set (flat_run ts)" using \<open>flat_run ts \<noteq> []\<close> by simp
  then show "\<forall>e \<in> set (flat_run us). glast (last ts) < fst e"
    using assms(2) \<open>flat_run ts \<noteq> []\<close> unfolding last by (auto simp: sorted_wrt_append last_map)
qed

lemma align_regions_ok:
  "run_of S s l False a ts \<Longrightarrow> run_of S s l False b us \<Longrightarrow> sorted_wrt (<) (map fst (flat_run ts)) \<Longrightarrow>
     sorted_wrt (<) (map fst (flat_run us)) \<Longrightarrow>
     \<exists>ess. list_all2 (region_ok S s) (align_regions a b l) ess \<and> concat ess = diff_list (flat_run ts) (flat_run us)"
proof (induction a b l arbitrary: ts us rule: align_regions.induct)
  case (1 a b l)
  consider (none) "a = []" "b = []" | (same) "\<not> (a = [] \<and> b = [])" "heads_equal a b"
    | (region) "\<not> (a = [] \<and> b = [])" "\<not> heads_equal a b" by blast
  then show ?case
  proof cases
    case none
    then show ?thesis using "1.prems" by (auto simp: align_regions.simps run_of_Nil)
  next
    case same
    then obtain r a' q b' where ab: "a = r # a'" "b = q # b'" "ref_hash r = ref_hash q"
      by (auto simp: heads_equal_def split: list.splits)
    from run_of_Cons [OF "1.prems"(1) [unfolded ab]] obtain t ts' where t: "ts = t # ts'" "ref_hash r = ghash t"
      "gok S s t" "run_of S s l False a' ts'" by blast
    from run_of_Cons [OF "1.prems"(2) [unfolded ab]] obtain u us' where u: "us = u # us'" "ref_hash q = ghash u"
      "gok S s u" "run_of S s l False b' us'" by blast
    have tu: "t = u" using gtree_unique [OF t(3) u(3)] t(2) u(2) ab(3) by simp
    have eq: "align_regions a b l = align_regions a' b' l"
      using same by (subst align_regions.simps) (simp add: ab)
    have ih: "\<exists>ess. list_all2 (region_ok S s) (align_regions (tl a) (tl b) l) ess \<and>
        concat ess = diff_list (flat_run ts') (flat_run us')"
      using t u "1.prems"(3,4) ab by (intro "1.IH"(1) [OF same]) (auto simp: sorted_wrt_append)
    show ?thesis unfolding eq using ih by (simp add: ab t(1) u(1) tu diff_list_same)
  next
    case region
    obtain ra rb a' b' where e: "extend_region [] [] a b = ((ra, rb), a', b')" by (metis surj_pair)
    from extend_region_parts [OF e] have parts: "a = ra @ a'" "b = rb @ b'"
      "a' = [] \<and> b' = [] \<or> spans_agree ra rb" by auto
    have m: "a = map gref ts" "b = map gref us" using "1.prems"(1,2) by (simp_all add: run_of_def)
    from m(1) parts(1) obtain ts1 ts2 where ts: "ts = ts1 @ ts2" "ra = map gref ts1" "a' = map gref ts2"
      by (metis map_eq_append_conv)
    from m(2) parts(2) obtain us1 us2 where us: "us = us1 @ us2" "rb = map gref us1" "b' = map gref us2"
      by (metis map_eq_append_conv)
    have runs: "run_of S s l False ra ts1" "run_of S s l False a' ts2" "run_of S s l False rb us1"
      "run_of S s l False b' us2"
      using "1.prems"(1,2) by (auto simp: run_of_def ts us)
    have so: "sorted_wrt (<) (map fst (flat_run ts1))" "sorted_wrt (<) (map fst (flat_run ts2))"
      "sorted_wrt (<) (map fst (flat_run us1))" "sorted_wrt (<) (map fst (flat_run us2))"
      using "1.prems"(3,4) by (auto simp: ts us sorted_wrt_append)
    obtain ess where ess: "list_all2 (region_ok S s) (align_regions a' b' l) ess"
      "concat ess = diff_list (flat_run ts2) (flat_run us2)"
      using "1.IH"(2) [OF region e [symmetric] refl refl runs(2,4) so(2,4)] by blast
    have "diff_list (flat_run ts) (flat_run us) =
        diff_list (flat_run ts1) (flat_run us1) @ diff_list (flat_run ts2) (flat_run us2)"
      using parts(3)
    proof
      assume "a' = [] \<and> b' = []"
      then show ?thesis by (simp add: ts us)
    next
      assume sp: "spans_agree ra rb"
      then have ne: "ts1 \<noteq> []" "us1 \<noteq> []" and k: "glast (last ts1) = glast (last us1)"
        by (auto simp: spans_agree_def last_opt_def ts us last_map gref_def split: if_splits)
      have "run_of S s l False (map gref (ts1 @ ts2)) (ts1 @ ts2)" "run_of S s l False (map gref (us1 @ us2)) (us1 @ us2)"
        using "1.prems"(1,2) m by (simp_all add: ts us)
      from run_span [OF this(1) _ ne(1)] run_span [OF this(2) _ ne(2)] "1.prems"(3,4) show ?thesis
        unfolding ts us flat_run_simps k
        by (intro diff_list_split [where K = "glast (last us1)"]) auto
    qed
    moreover have "region_ok S s \<lparr>rg_level = l, rg_a = ra, rg_b = rb, rg_pseudo = False\<rparr>
        (diff_list (flat_run ts1) (flat_run us1))"
      using runs so by (auto simp: region_ok_def)
    moreover have "align_regions a b l =
        \<lparr>rg_level = l, rg_a = ra, rg_b = rb, rg_pseudo = False\<rparr> # align_regions a' b' l"
      using region by (subst align_regions.simps) (simp add: e)
    ultimately show ?thesis using ess
      by (intro exI [of _ "diff_list (flat_run ts1) (flat_run us1) # ess"]) simp
  qed
qed

section \<open>Stepping\<close>

definition merge_pending :: "'s store_ops \<Rightarrow> 's \<Rightarrow> leaf_merge \<Rightarrow> diff_entry list \<Rightarrow> bool" where
  "merge_pending S s m es \<longleftrightarrow> (\<exists>ts us. run_of S s 0 (lm_pseudo m) (lm_a_refs m) ts \<and>
     run_of S s 0 (lm_pseudo m) (lm_b_refs m) us \<and> es = diff_list (lm_a m @ flat_run ts) (lm_b m @ flat_run us))"

lemma leaf_next_entry_ok:
  "merge_pending S s m es \<Longrightarrow> (case es of
       [] \<Rightarrow> \<exists>m'. leaf_next_entry S s m = Inr (None, m')
     | e # es' \<Rightarrow> \<exists>m'. leaf_next_entry S s m = Inr (Some e, m') \<and> merge_pending S s m' es')"
proof (induction S s m arbitrary: es rule: leaf_next_entry.induct)
  case (1 S s m)
  from "1.prems" obtain ts us where r: "run_of S s 0 (lm_pseudo m) (lm_a_refs m) ts"
    "run_of S s 0 (lm_pseudo m) (lm_b_refs m) us" "es = diff_list (lm_a m @ flat_run ts) (lm_b m @ flat_run us)"
    by (auto simp: merge_pending_def)
  from top_up_ok [OF r(1), of "lm_a m"] obtain a ar ts' where a: "top_up S s (lm_pseudo m) (lm_a m) (lm_a_refs m) = Inr (a, ar)"
    "run_of S s 0 (lm_pseudo m) ar ts'" "a @ flat_run ts' = lm_a m @ flat_run ts" "a = [] \<longrightarrow> ts' = []" by blast
  from top_up_ok [OF r(2), of "lm_b m"] obtain b br us' where b: "top_up S s (lm_pseudo m) (lm_b m) (lm_b_refs m) = Inr (b, br)"
    "run_of S s 0 (lm_pseudo m) br us'" "b @ flat_run us' = lm_b m @ flat_run us" "b = [] \<longrightarrow> us' = []" by blast
  have es: "es = diff_list (a @ flat_run ts') (b @ flat_run us')" using r(3) a(3) b(3) by simp
  let ?m = "m\<lparr>lm_a := a, lm_a_refs := ar, lm_b := b, lm_b_refs := br\<rparr>"
  have pend: "merge_pending S s (?m\<lparr>lm_a := x, lm_b := y\<rparr>) (diff_list (x @ flat_run ts') (y @ flat_run us'))" for x y
    using a(2) b(2) by (auto simp: merge_pending_def)
  have pa: "merge_pending S s (?m\<lparr>lm_a := x\<rparr>) (diff_list (x @ flat_run ts') (b @ flat_run us'))" for x
    using pend [where x = x and y = b] by (simp add: merge_pending_def)
  have pb: "merge_pending S s (?m\<lparr>lm_b := y\<rparr>) (diff_list (a @ flat_run ts') (y @ flat_run us'))" for y
    using pend [where x = a and y = y] by (simp add: merge_pending_def)
  note unf = leaf_next_entry.simps [of S s m]
  show ?case
  proof (cases a)
    case Nil
    show ?thesis
    proof (cases b)
      case Nil
      then show ?thesis using \<open>a = []\<close> a(1,4) b(1,4) es by (simp add: unf)
    next
      case (Cons e b')
      then show ?thesis using \<open>a = []\<close> a(1,4) b(1,4) es pb [of b'] by (cases e) (simp add: unf)
    qed
  next
    case (Cons d a')
    show ?thesis
    proof (cases b)
      case Nil
      then show ?thesis using Cons a(1,4) b(1,4) es pa [of a'] by (cases d) (simp add: unf)
    next
      case b': (Cons e b')
      obtain ka va kb vb where de: "d = (ka, va)" "e = (kb, vb)" by (cases d; cases e)
      show ?thesis
      proof (cases "cmp ka kb")
        case Less
        then show ?thesis using Cons b' de a(1,4) b(1,4) es pa [of a'] by (simp add: unf)
      next
        case Greater
        then show ?thesis using Cons b' de a(1,4) b(1,4) es pb [of b'] by (simp add: unf)
      next
        case Equal
        show ?thesis
        proof (cases "va = vb")
          case False
          then show ?thesis using Equal Cons b' de a(1,4) b(1,4) es pend [where x = a' and y = b'] by (simp add: unf)
        next
          case True
          have "es = diff_list (a' @ flat_run ts') (b' @ flat_run us')"
            using True Equal es Cons b' de by simp
          then have p: "merge_pending S s (?m\<lparr>lm_a := a', lm_b := b'\<rparr>) es"
            using pend [where x = a' and y = b'] by simp
          have eq: "leaf_next_entry S s m = leaf_next_entry S s (?m\<lparr>lm_a := a', lm_b := b'\<rparr>)"
            using True Equal Cons b' de a(1) b(1) by (simp add: unf)
          have "\<not> va \<noteq> vb" using True by simp
          from "1.IH" [OF a(1) refl b(1) refl refl refl Cons de(1) [symmetric] b' de(2) [symmetric] Equal refl
              this p] show ?thesis unfolding eq .
        qed
      qed
    qed
  qed
qed

definition diff_pending :: "'s store_ops \<Rightarrow> 's \<Rightarrow> diff_state \<Rightarrow> diff_entry list \<Rightarrow> bool" where
  "diff_pending S s d es \<longleftrightarrow> (\<exists>es0 ess.
     (case df_leaves d of None \<Rightarrow> es0 = [] | Some m \<Rightarrow> merge_pending S s m es0) \<and>
     list_all2 (region_ok S s) (df_regions d) ess \<and> es = es0 @ concat ess)"

lemma diff_next_entry_ok:
  "diff_pending S s d es \<Longrightarrow> (case es of
       [] \<Rightarrow> \<exists>d'. diff_next_entry S s d = Inr (None, d')
     | e # es' \<Rightarrow> \<exists>d'. diff_next_entry S s d = Inr (Some e, d') \<and> diff_pending S s d' es' \<and>
         df_done d' = df_done d)"
proof (induction S s d arbitrary: es rule: diff_next_entry.induct)
  case (1 S s d)
  note unf = diff_next_entry.simps [of S s d]
  from "1.prems" obtain es0 ess where p:
    "case df_leaves d of None \<Rightarrow> es0 = [] | Some m \<Rightarrow> merge_pending S s m es0"
    "list_all2 (region_ok S s) (df_regions d) ess" "es = es0 @ concat ess" by (auto simp: diff_pending_def)
  show ?case
  proof (cases "df_leaves d")
    case (Some m)
    then have m: "merge_pending S s m es0" using p(1) by simp
    show ?thesis
    proof (cases es0)
      case Nil
      with leaf_next_entry_ok [OF m] obtain m' where m': "leaf_next_entry S s m = Inr (None, m')" by auto
      have "diff_pending S s (d\<lparr>df_leaves := None\<rparr>) es" using p Nil by (auto simp: diff_pending_def)
      from "1.IH"(3) [OF Some m' refl refl this] show ?thesis
        by (simp add: unf Some m' split: list.splits)
    next
      case (Cons e es1)
      with leaf_next_entry_ok [OF m] obtain m' where "leaf_next_entry S s m = Inr (Some e, m')"
        "merge_pending S s m' es1" by auto
      then show ?thesis using p Cons Some by (auto simp: unf diff_pending_def)
    qed
  next
    case None
    then have es0: "es0 = []" using p(1) by simp
    show ?thesis
    proof (cases "df_regions d")
      case Nil
      then show ?thesis using p None es0 by (simp add: unf)
    next
      case (Cons r rs)
      with p(2) obtain e1 ess' where r: "region_ok S s r e1" "list_all2 (region_ok S s) rs ess'" "ess = e1 # ess'"
        by (auto simp: list_all2_Cons1)
      from r(1) obtain ts us where runs: "run_of S s (rg_level r) (rg_pseudo r) (rg_a r) ts"
        "run_of S s (rg_level r) (rg_pseudo r) (rg_b r) us" "sorted_wrt (<) (map fst (flat_run ts))"
        "sorted_wrt (<) (map fst (flat_run us))" "e1 = diff_list (flat_run ts) (flat_run us)"
        by (auto simp: region_ok_def)
      show ?thesis
      proof (cases "rg_level r = 0")
        case True
        have "merge_pending S s (leaf_merge_new r) e1"
          using runs True by (auto simp: merge_pending_def leaf_merge_new_def)
        then have "diff_pending S s (d\<lparr>df_regions := rs, df_leaves := Some (leaf_merge_new r)\<rparr>) es"
          using p(3) es0 r by (auto simp: diff_pending_def)
        from "1.IH"(1) [OF None Cons True this] show ?thesis
          using True by (simp add: unf None Cons split: list.splits)
      next
        case False
        then have l: "0 < rg_level r" by simp
        obtain ts' where a: "expand S s (rg_a r) (rg_level r) (rg_pseudo r) = Inr (map gref ts')"
          "run_of S s (rg_level r - 1) False (map gref ts') ts'" "flat_run ts' = flat_run ts"
          using expand_ok [OF runs(1) l] by blast
        obtain us' where b: "expand S s (rg_b r) (rg_level r) (rg_pseudo r) = Inr (map gref us')"
          "run_of S s (rg_level r - 1) False (map gref us') us'" "flat_run us' = flat_run us"
          using expand_ok [OF runs(2) l] by blast
        obtain es1 where "list_all2 (region_ok S s) (align_regions (map gref ts') (map gref us') (rg_level r - 1)) es1"
          "concat es1 = e1"
          using align_regions_ok [OF a(2) b(2)] a(3) b(3) runs(3-5) by auto
        then have "diff_pending S s
            (d\<lparr>df_regions := align_regions (map gref ts') (map gref us') (rg_level r - 1) @ rs\<rparr>) es"
          using p(3) es0 r None by (auto simp: diff_pending_def intro!: exI [of _ "es1 @ ess'"] list_all2_appendI)
        from "1.IH"(2) [OF None Cons False a(1) b(1) this] show ?thesis
          using False a(1) b(1) by (simp add: unf None Cons split: list.splits)
      qed
    qed
  qed
qed

lemma diff_take_ok:
  "diff_pending S s d es \<Longrightarrow> \<not> df_done d \<Longrightarrow> diff_take S s n d = map Inr (take n es)"
proof (induction n arbitrary: d es)
  case (Suc n)
  show ?case
  proof (cases es)
    case Nil
    with diff_next_entry_ok [OF Suc.prems(1)] Suc.prems(2) show ?thesis by (auto simp: diff_next_def)
  next
    case (Cons e es')
    with diff_next_entry_ok [OF Suc.prems(1)] obtain d' where "diff_next_entry S s d = Inr (Some e, d')"
      "diff_pending S s d' es'" "df_done d' = df_done d" by auto
    with Suc Cons show ?thesis by (simp add: diff_next_def)
  qed
qed simp

lemma expand_down_ok:
  "run_of S s l pseudo refs ts \<Longrightarrow> n \<le> l \<Longrightarrow> pseudo \<Longrightarrow> \<exists>refs' us. expand_down S s refs l n = Inr refs' \<and>
     run_of S s (l - n) True refs' us \<and> flat_run us = flat_run ts"
proof (induction n arbitrary: l pseudo refs ts)
  case (Suc n)
  then have "run_of S s l True refs ts" by simp
  from expand_ok [OF this] Suc.prems(2) obtain us where u: "expand S s refs l True = Inr (map gref us)"
    "run_of S s (l - 1) False (map gref us) us" "flat_run us = flat_run ts" by auto
  then have "run_of S s (l - 1) True (map gref us) us" by (simp add: run_of_def)
  from Suc.IH [OF this] Suc.prems(2) u show ?case by auto
qed auto

lemma diff_ok:
  assumes "intact S s kvs a" "intact S s kvs' b"
  shows "\<exists>d. diff S s a b = Inr d \<and> (\<forall>n. diff_take S s n d = map Inr (take n (diff_list kvs kvs')))"
proof -
  obtain t where t: "gok S s t" "glevel t = top_level a" "ghash t = root_hash a" "gflat t = kvs"
    by (rule intact_tree [OF assms(1)])
  obtain u where u: "gok S s u" "glevel u = top_level b" "ghash u = root_hash b" "gflat u = kvs'"
    by (rule intact_tree [OF assms(2)])
  show ?thesis
  proof (cases "root_hash a = root_hash b")
    case True
    then have "kvs = kvs'" using gtree_unique [OF t(1) u(1)] t(3,4) u(3,4) by simp
    moreover have "diff_take S s n \<lparr>df_regions = [], df_leaves = None, df_done = True\<rparr> = []" for n
      by (cases n) (simp_all add: diff_next_def)
    ultimately show ?thesis using True by (simp add: diff_def)
  next
    case False
    let ?la = "top_level a" and ?lb = "top_level b"
    have ra: "run_of S s ?la True [pseudo_ref a] [t]" and rb: "run_of S s ?lb True [pseudo_ref b] [u]"
      using t u by (simp_all add: run_of_def)
    have min: "?la - (?la - ?lb) = min ?la ?lb" "?lb - (?lb - ?la) = min ?la ?lb" by auto
    obtain refs ts where x: "expand_down S s [pseudo_ref a] ?la (?la - ?lb) = Inr refs"
      "run_of S s (min ?la ?lb) True refs ts" "flat_run ts = kvs"
      using expand_down_ok [OF ra, of "?la - ?lb"] t(4) by (auto simp: min simp del: pseudo_ref.simps)
    obtain refs' us where y: "expand_down S s [pseudo_ref b] ?lb (?lb - ?la) = Inr refs'"
      "run_of S s (min ?la ?lb) True refs' us" "flat_run us = kvs'"
      using expand_down_ok [OF rb, of "?lb - ?la"] u(4) by (auto simp: min simp del: pseudo_ref.simps)
    let ?d = "\<lparr>df_regions = [\<lparr>rg_level = min ?la ?lb, rg_a = refs, rg_b = refs', rg_pseudo = True\<rparr>],
                     df_leaves = None, df_done = False\<rparr>"
    have "region_ok S s \<lparr>rg_level = min ?la ?lb, rg_a = refs, rg_b = refs', rg_pseudo = True\<rparr> (diff_list kvs kvs')"
      unfolding x(3) [symmetric] y(3) [symmetric]
      by (rule region_okI) (use x y intact_sorted [OF assms(1)] intact_sorted [OF assms(2)] in simp_all)
    then have "diff_pending S s ?d (diff_list kvs kvs')" by (auto simp: diff_pending_def)
    from diff_take_ok [OF this] show ?thesis using False x(1) y(1)
      by (intro exI [of _ ?d]) (simp add: diff_def Let_def del: pseudo_ref.simps)
  qed
qed

section \<open>Properties\<close>

text \<open>C14. The diff of two intact roots opens without an error and yields, in ascending key order, exactly
  the keys whose values differ, with the value on either side: skipping subtrees with equal hashes,
  trees of different heights and different chunk boundaries change nothing.\<close>

theorem diff_yields_changes:
  assumes "intact S s kvs a" "intact S s kvs' b"
  shows "\<exists>d es. diff S s a b = Inr d \<and> (\<forall>n. diff_take S s n d = map Inr (take n es)) \<and>
    sorted_wrt (<) (map de_key es) \<and>
    set es = {\<lparr>de_key = k, de_before = map_of kvs k, de_after = map_of kvs' k\<rparr> | k. map_of kvs k \<noteq> map_of kvs' k}"
proof -
  note so = intact_sorted [OF assms(1)] intact_sorted [OF assms(2)]
  have "e \<in> set (diff_list kvs kvs') \<longleftrightarrow>
      (\<exists>k. e = \<lparr>de_key = k, de_before = map_of kvs k, de_after = map_of kvs' k\<rparr> \<and> map_of kvs k \<noteq> map_of kvs' k)" for e
    by (cases e) (auto simp: diff_list_iff [OF so])
  then show ?thesis using diff_ok [OF assms] diff_list_sorted [OF so] by blast
qed

theorem diff_yields_changes_witness:
  "\<exists>d es. diff (mem_store 1000) five_objs five_root five_last = Inr d \<and>
     diff_take (mem_store 1000) five_objs 9 d = map Inr (take 9 es) \<and>
     \<lparr>de_key = [4], de_before = Some [40], de_after = None\<rparr> \<in> set es"
proof -
  obtain d es where d: "diff (mem_store 1000) five_objs five_root five_last = Inr d"
    "\<And>n. diff_take (mem_store 1000) five_objs n d = map Inr (take n es)"
    "set es = {\<lparr>de_key = k, de_before = map_of five k, de_after = map_of [([5], [50])] k\<rparr> | k.
      map_of five k \<noteq> map_of [([5], [50])] k}"
    using diff_yields_changes [OF canon_intact canon_intact, OF five_canon five_last_canon] by blast
  have "\<lparr>de_key = [4], de_before = Some [40], de_after = None\<rparr> \<in> set es"
    unfolding d(3) by (auto simp: five_def intro!: exI [of _ "[4]"])
  with d show ?thesis by blast
qed

end
