(* ===== verification/Prolly_Merge.thy ===== *)
theory Prolly_Merge
  imports Prolly_Diff
begin

text \<open>
  Three-way merge of maps, \<^verbatim>\<open>crates/acetone-prolly/src/merge.rs\<close>: the two diffs against the base walked
  in step, the batch of clean changes and the conflicts. The loop is a partial function: \<open>None\<close>
  stands for a loop that does not end, and the theorem on merges of maps shows it ends.
\<close>

section \<open>Merging\<close>

record conflict =
  cf_key :: bytes
  cf_base :: "bytes option"
  cf_ours :: "bytes option"
  cf_theirs :: "bytes option"

record merge_outcome =
  mo_root :: root
  mo_conflicts :: "conflict list"

definition to_op :: "diff_entry \<Rightarrow> batch_op" where
  "to_op e = (case de_after e of Some v \<Rightarrow> Put (de_key e) v | None \<Rightarrow> Delete (de_key e))"

text \<open>\<^verbatim>\<open>next().transpose()?\<close>: the next difference, none at the end, or the error.\<close>

definition diff_pull :: "'s store_ops \<Rightarrow> 's \<Rightarrow> diff_state \<Rightarrow> prolly_error + diff_entry option \<times> diff_state" where
  "diff_pull S s d = (case diff_next S s d of
       (None, d) \<Rightarrow> Inr (None, d)
     | (Some (Inl e), d) \<Rightarrow> Inl e
     | (Some (Inr x), d) \<Rightarrow> Inr (Some x, d))"

type_synonym merge_acc = "batch_op list \<times> conflict list"

text \<open>Both sides changed the key: the change is taken once when it is the same, and is a conflict
  otherwise, with the key removed from the merged map.\<close>

definition merge_both :: "diff_entry \<Rightarrow> diff_entry \<Rightarrow> merge_acc \<Rightarrow> merge_acc" where
  "merge_both oe te acc = (case acc of (ops, conflicts) \<Rightarrow>
     if de_after oe = de_after te then (ops @ [to_op oe], conflicts)
     else (ops @ [Delete (de_key oe)],
           conflicts @ [\<lparr>cf_key = de_key oe, cf_base = de_before te, cf_ours = de_after oe,
                         cf_theirs = de_after te\<rparr>]))"

partial_function (option) merge_loop ::
  "'s store_ops \<Rightarrow> 's \<Rightarrow> diff_state \<Rightarrow> diff_state \<Rightarrow> diff_entry option \<Rightarrow> diff_entry option \<Rightarrow> merge_acc \<Rightarrow>
     (prolly_error + merge_acc) option" where
  "merge_loop S s ours_diff theirs_diff o' t acc = (case (o', t) of
       (None, None) \<Rightarrow> Some (Inr acc)
     | (Some oe, None) \<Rightarrow> (case diff_pull S s ours_diff of
           Inl e \<Rightarrow> Some (Inl e)
         | Inr (o', ours_diff) \<Rightarrow> merge_loop S s ours_diff theirs_diff o' None (fst acc @ [to_op oe], snd acc))
     | (None, Some te) \<Rightarrow> (case diff_pull S s theirs_diff of
           Inl e \<Rightarrow> Some (Inl e)
         | Inr (t, theirs_diff) \<Rightarrow> merge_loop S s ours_diff theirs_diff None t (fst acc @ [to_op te], snd acc))
     | (Some oe, Some te) \<Rightarrow> (case cmp (de_key oe) (de_key te) of
           Less \<Rightarrow> (case diff_pull S s ours_diff of
               Inl e \<Rightarrow> Some (Inl e)
             | Inr (o', ours_diff) \<Rightarrow>
                 merge_loop S s ours_diff theirs_diff o' (Some te) (fst acc @ [to_op oe], snd acc))
         | Greater \<Rightarrow> (case diff_pull S s theirs_diff of
               Inl e \<Rightarrow> Some (Inl e)
             | Inr (t, theirs_diff) \<Rightarrow>
                 merge_loop S s ours_diff theirs_diff (Some oe) t (fst acc @ [to_op te], snd acc))
         | Equal \<Rightarrow>
             if de_before oe \<noteq> de_before te
             then Some (Inl (Corrupt ''three-way merge'' ''the two diffs disagree on the base value of a key''))
             else (case diff_pull S s ours_diff of
                 Inl e \<Rightarrow> Some (Inl e)
               | Inr (o', ours_diff) \<Rightarrow> (case diff_pull S s theirs_diff of
                     Inl e \<Rightarrow> Some (Inl e)
                   | Inr (t, theirs_diff) \<Rightarrow>
                       merge_loop S s ours_diff theirs_diff o' t (merge_both oe te acc)))))"

definition merge ::
  "'s store_ops \<Rightarrow> 's \<Rightarrow> root \<Rightarrow> root \<Rightarrow> root \<Rightarrow> (prolly_error + merge_outcome \<times> 's) option" where
  "merge S s base ours theirs =
     (if root_params base \<noteq> root_params ours \<or> root_params base \<noteq> root_params theirs
      then Some (Inl ParamsMismatch)
      else case rbind (diff S s base ours) (\<lambda>ours_diff.
                rbind (diff S s base theirs) (\<lambda>theirs_diff.
                rbind (diff_pull S s ours_diff) (\<lambda>(o', ours_diff).
                rbind (diff_pull S s theirs_diff) (\<lambda>(t, theirs_diff).
                  Inr (ours_diff, theirs_diff, o', t))))) of
          Inl e \<Rightarrow> Some (Inl e)
        | Inr (ours_diff, theirs_diff, o', t) \<Rightarrow>
            (case merge_loop S s ours_diff theirs_diff o' t ([], []) of
               None \<Rightarrow> None
             | Some (Inl e) \<Rightarrow> Some (Inl e)
             | Some (Inr (ops, conflicts)) \<Rightarrow>
                 Some (rbind (apply_batch S s base ops) (\<lambda>(root, s).
                   Inr (\<lparr>mo_root = root, mo_conflicts = conflicts\<rparr>, s)))))"

section \<open>The merge of two diffs\<close>

text \<open>The loop on the lists the two diffs stand for.\<close>

fun merge_lists :: "diff_entry list \<Rightarrow> diff_entry list \<Rightarrow> merge_acc \<Rightarrow> merge_acc" where
  "merge_lists [] [] acc = acc"
| "merge_lists (oe # os) [] acc = merge_lists os [] (fst acc @ [to_op oe], snd acc)"
| "merge_lists [] (te # ts) acc = merge_lists [] ts (fst acc @ [to_op te], snd acc)"
| "merge_lists (oe # os) (te # ts) acc = (case cmp (de_key oe) (de_key te) of
       Less \<Rightarrow> merge_lists os (te # ts) (fst acc @ [to_op oe], snd acc)
     | Greater \<Rightarrow> merge_lists (oe # os) ts (fst acc @ [to_op te], snd acc)
     | Equal \<Rightarrow> merge_lists os ts (merge_both oe te acc))"

text \<open>A pulled difference and the state behind it stand for a list of differences.\<close>

fun ahead :: "'s store_ops \<Rightarrow> 's \<Rightarrow> diff_entry option \<Rightarrow> diff_state \<Rightarrow> diff_entry list \<Rightarrow> bool" where
  "ahead S s None d es \<longleftrightarrow> es = []"
| "ahead S s (Some e) d es \<longleftrightarrow> (\<exists>es'. es = e # es' \<and> (\<forall>n. diff_take S s n d = map Inr (take n es')))"

lemma diff_pull_ok:
  assumes "\<forall>n. diff_take S s n d = map Inr (take n es)"
  shows "\<exists>o' d'. diff_pull S s d = Inr (o', d') \<and> ahead S s o' d' es"
proof (cases es)
  case Nil
  with spec [OF assms, of 1] show ?thesis by (auto simp: diff_pull_def split: prod.splits option.splits)
next
  case (Cons e es')
  obtain r d' where r: "diff_next S s d = (r, d')" by fastforce
  from spec [OF assms, of 1] r Cons have r': "r = Some (Inr e)" by (auto split: option.splits)
  have "diff_take S s n d' = map Inr (take n es')" for n
    using spec [OF assms, of "Suc n"] r r' Cons by simp
  with r r' Cons show ?thesis by (auto simp: diff_pull_def)
qed

lemma merge_loop_ok:
  "ahead S s o' d os \<Longrightarrow> ahead S s t d' ts \<Longrightarrow>
     (\<forall>oe \<in> set os. \<forall>te \<in> set ts. de_key oe = de_key te \<longrightarrow> de_before oe = de_before te) \<Longrightarrow>
     merge_loop S s d d' o' t acc = Some (Inr (merge_lists os ts acc))"
proof (induction os ts acc arbitrary: o' t d d' rule: merge_lists.induct)
  case (1 acc)
  then show ?case by (subst merge_loop.simps) (cases o'; cases t; auto)
next
  case (2 oe os acc)
  from "2.prems"(1,2) have o': "o' = Some oe" "\<forall>n. diff_take S s n d = map Inr (take n os)" and t: "t = None"
    by (cases o'; cases t; auto)+
  from diff_pull_ok [OF o'(2)] obtain o2 d2 where p: "diff_pull S s d = Inr (o2, d2)" "ahead S s o2 d2 os" by blast
  from "2.IH" [OF p(2), of None d'] show ?case using p o' t by (subst merge_loop.simps) simp
next
  case (3 te ts acc)
  from "3.prems"(1,2) have t: "t = Some te" "\<forall>n. diff_take S s n d' = map Inr (take n ts)" and o': "o' = None"
    by (cases o'; cases t; auto)+
  from diff_pull_ok [OF t(2)] obtain t2 d2 where p: "diff_pull S s d' = Inr (t2, d2)" "ahead S s t2 d2 ts" by blast
  from "3.IH" [OF _ p(2), of None d] show ?case using p o' t by (subst merge_loop.simps) simp
next
  case (4 oe os te ts acc)
  from "4.prems"(1,2) have o': "o' = Some oe" "\<forall>n. diff_take S s n d = map Inr (take n os)"
    and t: "t = Some te" "\<forall>n. diff_take S s n d' = map Inr (take n ts)"
    by (cases o'; cases t; auto)+
  from diff_pull_ok [OF o'(2)] obtain o2 d2 where p: "diff_pull S s d = Inr (o2, d2)" "ahead S s o2 d2 os" by blast
  from diff_pull_ok [OF t(2)] obtain t3 d3 where q: "diff_pull S s d' = Inr (t3, d3)" "ahead S s t3 d3 ts" by blast
  show ?case
  proof (cases "cmp (de_key oe) (de_key te)")
    case Less
    from "4.IH"(1) [OF Less p(2) "4.prems"(2)] show ?thesis
      using "4.prems"(3) p o' t Less by (subst merge_loop.simps) simp
  next
    case Greater
    from "4.IH"(3) [OF Greater "4.prems"(1) q(2)] show ?thesis
      using "4.prems"(3) q o' t Greater by (subst merge_loop.simps) simp
  next
    case Equal
    then have "de_key oe = de_key te" by simp
    then have "de_before oe = de_before te" using "4.prems"(3) by simp
    with "4.IH"(2) [OF Equal p(2) q(2)] show ?thesis
      using "4.prems"(3) p q o' t Equal by (subst merge_loop.simps) simp
  qed
qed

section \<open>What a merge is\<close>

text \<open>The merged value of a key: one side's change, or both sides' common one; none in a conflict.\<close>

definition clashes :: "'v option \<Rightarrow> 'v option \<Rightarrow> 'v option \<Rightarrow> bool" where
  "clashes base ours theirs \<longleftrightarrow> ours \<noteq> base \<and> theirs \<noteq> base \<and> ours \<noteq> theirs"

definition merged_value :: "'v option \<Rightarrow> 'v option \<Rightarrow> 'v option \<Rightarrow> 'v option" where
  "merged_value base ours theirs =
     (if clashes base ours theirs then None else if ours = base then theirs else ours)"

lemma op_key_to_op [simp]: "op_key (to_op e) = de_key e"
  by (cases e) (auto simp: to_op_def split: option.splits)

lemma op_value_to_op [simp]: "op_value (to_op e) = de_after e"
  by (cases e) (auto simp: to_op_def split: option.splits)

text \<open>The accumulated operations and conflicts, without the accumulator.\<close>

fun merge_ops_of :: "diff_entry list \<Rightarrow> diff_entry list \<Rightarrow> batch_op list" where
  "merge_ops_of os [] = map to_op os"
| "merge_ops_of [] ts = map to_op ts"
| "merge_ops_of (oe # os) (te # ts) = (case cmp (de_key oe) (de_key te) of
       Less \<Rightarrow> to_op oe # merge_ops_of os (te # ts)
     | Greater \<Rightarrow> to_op te # merge_ops_of (oe # os) ts
     | Equal \<Rightarrow> (if de_after oe = de_after te then to_op oe else Delete (de_key oe)) # merge_ops_of os ts)"

fun conflicts_of :: "diff_entry list \<Rightarrow> diff_entry list \<Rightarrow> conflict list" where
  "conflicts_of os [] = []"
| "conflicts_of [] ts = []"
| "conflicts_of (oe # os) (te # ts) = (case cmp (de_key oe) (de_key te) of
       Less \<Rightarrow> conflicts_of os (te # ts)
     | Greater \<Rightarrow> conflicts_of (oe # os) ts
     | Equal \<Rightarrow> (if de_after oe = de_after te then []
         else [\<lparr>cf_key = de_key oe, cf_base = de_before te, cf_ours = de_after oe, cf_theirs = de_after te\<rparr>])
         @ conflicts_of os ts)"

lemma merge_lists_of:
  "merge_lists os ts (ops, cs) = (ops @ merge_ops_of os ts, cs @ conflicts_of os ts)"
proof (induction os ts "(ops, cs)" arbitrary: ops cs rule: merge_lists.induct)
  case (4 oe os te ts)
  then show ?case by (cases "cmp (de_key oe) (de_key te)") (auto simp: merge_both_def)
next
  case (2 oe os)
  then show ?case by (cases os) auto
next
  case (3 te ts)
  then show ?case by (cases ts) auto
qed auto

definition lookup_diff :: "diff_entry list \<Rightarrow> bytes \<Rightarrow> diff_entry option" where
  "lookup_diff es k = find (\<lambda>e. de_key e = k) es"

lemma lookup_diff_simps [simp]:
  "lookup_diff [] k = None"
  "lookup_diff (e # es) k = (if de_key e = k then Some e else lookup_diff es k)"
  by (simp_all add: lookup_diff_def)

lemma lookup_diff_above: "\<forall>e \<in> set es. k < de_key e \<Longrightarrow> lookup_diff es k = None"
  by (induction es) auto

lemma merge_ops_of_keys:
  "p \<in> set (merge_ops_of os ts) \<Longrightarrow> op_key p \<in> de_key ` (set os \<union> set ts)"
  by (induction os ts rule: merge_ops_of.induct) (auto split: ordering.splits if_splits)

lemma conflicts_keys:
  "c \<in> set (conflicts_of os ts) \<Longrightarrow> cf_key c \<in> de_key ` set os \<inter> de_key ` set ts"
  by (induction os ts rule: conflicts_of.induct) (auto split: ordering.splits if_splits)

text \<open>The operation on a key, from what either diff says of it.\<close>

fun joint_value :: "diff_entry option \<Rightarrow> diff_entry option \<Rightarrow> 'a \<Rightarrow> (bytes option \<Rightarrow> 'a) \<Rightarrow> 'a" where
  "joint_value None None d f = d"
| "joint_value (Some oe) None d f = f (de_after oe)"
| "joint_value None (Some te) d f = f (de_after te)"
| "joint_value (Some oe) (Some te) d f = f (if de_after oe = de_after te then de_after oe else None)"

lemma merge_ops_lookup:
  "sorted_wrt (<) (map de_key os) \<Longrightarrow> sorted_wrt (<) (map de_key ts) \<Longrightarrow>
     sorted_wrt (<) (map op_key (merge_ops_of os ts)) \<and>
     op_lookup (merge_ops_of os ts) v k = joint_value (lookup_diff os k) (lookup_diff ts k) v (\<lambda>x. x)"
proof (induction os ts rule: merge_ops_of.induct)
  case (1 os)
  then show ?case by (induction os) (auto simp: comp_def)
next
  case (2 te ts)
  have "sorted_wrt (<) (map de_key xs) \<Longrightarrow> op_lookup (map to_op xs) v k = joint_value None (lookup_diff xs k) v (\<lambda>x. x)" for xs
    by (induction xs) auto
  from this [of "te # ts"] 2 show ?case by (auto simp: comp_def)
next
  case (3 oe os te ts)
  have a: "\<forall>e \<in> set os. de_key oe < de_key e" using "3.prems"(1) by simp
  have b: "\<forall>e \<in> set ts. de_key te < de_key e" using "3.prems"(2) by simp
  have la: "lookup_diff os x = None" if "x \<le> de_key oe" for x using a that by (intro lookup_diff_above) auto
  have lb: "lookup_diff ts x = None" if "x \<le> de_key te" for x using b that by (intro lookup_diff_above) auto
  show ?case
  proof (cases "cmp (de_key oe) (de_key te)")
    case Less
    then have lt: "de_key oe < de_key te" by simp
    then have "\<forall>e \<in> set ts. de_key oe < de_key e" using b by fastforce
    with lt Less "3.IH"(1) "3.prems" a b la lb show ?thesis by (auto dest!: merge_ops_of_keys)
  next
    case Equal
    then have "de_key oe = de_key te" by simp
    with Equal "3.IH"(2) "3.prems" a b la lb show ?thesis by (auto dest!: merge_ops_of_keys)
  next
    case Greater
    then have gt: "de_key te < de_key oe" by simp
    then have "\<forall>e \<in> set os. de_key te < de_key e" using a by fastforce
    with gt Greater "3.IH"(3) "3.prems" a b la lb show ?thesis by (auto dest!: merge_ops_of_keys)
  qed
qed

lemma conflicts_lookup:
  "sorted_wrt (<) (map de_key os) \<Longrightarrow> sorted_wrt (<) (map de_key ts) \<Longrightarrow>
     sorted_wrt (<) (map cf_key (conflicts_of os ts)) \<and>
     (c \<in> set (conflicts_of os ts) \<longleftrightarrow> (\<exists>oe te. lookup_diff os (cf_key c) = Some oe \<and>
        lookup_diff ts (cf_key c) = Some te \<and> de_after oe \<noteq> de_after te \<and>
        cf_base c = de_before te \<and> cf_ours c = de_after oe \<and> cf_theirs c = de_after te))"
proof (induction os ts rule: conflicts_of.induct)
  case (3 oe os te ts)
  have a: "\<forall>e \<in> set os. de_key oe < de_key e" using "3.prems"(1) by simp
  have b: "\<forall>e \<in> set ts. de_key te < de_key e" using "3.prems"(2) by simp
  have la: "lookup_diff os x = None" if "x \<le> de_key oe" for x using a that by (intro lookup_diff_above) auto
  have lb: "lookup_diff ts x = None" if "x \<le> de_key te" for x using b that by (intro lookup_diff_above) auto
  show ?case
  proof (cases "cmp (de_key oe) (de_key te)")
    case Less
    then have "de_key oe < de_key te" by simp
    with Less "3.IH"(1) "3.prems" la lb [of "de_key oe"] show ?thesis by (simp add: less_imp_le) auto
  next
    case Equal
    then have eq: "de_key te = de_key oe" by simp
    have k: "de_key oe < cf_key d" if "d \<in> set (conflicts_of os ts)" for d
      using conflicts_keys [OF that] a by auto
    note ih = "3.IH"(2) [OF Equal]
    show ?thesis
    proof (cases "cf_key c = de_key oe")
      case True
      then have "c \<notin> set (conflicts_of os ts)" using k by force
      then show ?thesis using Equal eq True ih "3.prems" k by (cases c) (simp, blast)
    next
      case False
      then show ?thesis using Equal eq ih "3.prems" k by (simp, metis conflict.select_convs(1))
    qed
  next
    case Greater
    then have "de_key te < de_key oe" by simp
    with Greater "3.IH"(3) "3.prems" la [of "de_key te"] lb show ?thesis by (simp add: less_imp_le) auto
  qed
qed simp_all

lemma lookup_diff_list:
  assumes "sorted_wrt (<) (map fst a)" "sorted_wrt (<) (map fst b)"
  shows "lookup_diff (diff_list a b) k = (if map_of a k = map_of b k then None
    else Some \<lparr>de_key = k, de_before = map_of a k, de_after = map_of b k\<rparr>)"
proof (cases "lookup_diff (diff_list a b) k")
  case None
  then have "de_key e \<noteq> k" if "e \<in> set (diff_list a b)" for e
    using that by (auto simp: lookup_diff_def find_None_iff)
  then have "\<lparr>de_key = k, de_before = map_of a k, de_after = map_of b k\<rparr> \<notin> set (diff_list a b)" by force
  then show ?thesis using None diff_list_iff [OF assms] by auto
next
  case (Some e)
  then have e: "e \<in> set (diff_list a b)" "de_key e = k"
    by (auto simp: lookup_diff_def find_Some_iff)
  then show ?thesis using Some diff_list_iff [OF assms, of e] by (cases e) auto
qed

lemma length_diff_list: "length (diff_list a b) \<le> length a + length b"
  by (induction a b rule: diff_list.induct) (auto split: ordering.splits)

lemma length_merge_ops_of: "length (merge_ops_of os ts) \<le> length os + length ts"
  by (induction os ts rule: merge_ops_of.induct) (auto split: ordering.splits)

text \<open>The three maps' diffs determine the batch and the conflicts.\<close>

lemma merge_effect:
  assumes "sorted_wrt (<) (map fst b)" "sorted_wrt (<) (map fst ko)" "sorted_wrt (<) (map fst kt)"
  shows "fold apply_to_map (merge_ops_of (diff_list b ko) (diff_list b kt)) (map_of b) =
    (\<lambda>k. merged_value (map_of b k) (map_of ko k) (map_of kt k))"
proof
  fix k
  note so = diff_list_sorted [OF assms(1,2)] diff_list_sorted [OF assms(1,3)]
  show "fold apply_to_map (merge_ops_of (diff_list b ko) (diff_list b kt)) (map_of b) k =
      merged_value (map_of b k) (map_of ko k) (map_of kt k)"
    using merge_ops_lookup [OF so, of "map_of b k" k]
    by (simp add: fold_apply_lookup lookup_diff_list [OF assms(1,2)] lookup_diff_list [OF assms(1,3)]
        merged_value_def clashes_def)
qed

lemma conflicts_effect:
  assumes "sorted_wrt (<) (map fst b)" "sorted_wrt (<) (map fst ko)" "sorted_wrt (<) (map fst kt)"
  shows "set (conflicts_of (diff_list b ko) (diff_list b kt)) =
    {\<lparr>cf_key = k, cf_base = map_of b k, cf_ours = map_of ko k, cf_theirs = map_of kt k\<rparr> | k.
       clashes (map_of b k) (map_of ko k) (map_of kt k)}"
proof -
  note so = diff_list_sorted [OF assms(1,2)] diff_list_sorted [OF assms(1,3)]
  have "c \<in> set (conflicts_of (diff_list b ko) (diff_list b kt)) \<longleftrightarrow>
    (\<exists>k. clashes (map_of b k) (map_of ko k) (map_of kt k) \<and>
       c = \<lparr>cf_key = k, cf_base = map_of b k, cf_ours = map_of ko k, cf_theirs = map_of kt k\<rparr>)" for c
    using conflicts_lookup [OF so, of c]
    by (cases c) (auto simp: lookup_diff_list [OF assms(1,2)] lookup_diff_list [OF assms(1,3)] clashes_def)
  then show ?thesis by blast
qed

lemma merge_run:
  assumes "canon_root S addr s kb base" "canon_root S addr s ko ours" "canon_root S addr s kt theirs"
    and "root_params ours = root_params base" "root_params theirs = root_params base"
  shows "merge S s base ours theirs =
    Some (rbind (apply_batch S s base (merge_ops_of (diff_list kb ko) (diff_list kb kt))) (\<lambda>(root, s).
      Inr (\<lparr>mo_root = root, mo_conflicts = conflicts_of (diff_list kb ko) (diff_list kb kt)\<rparr>, s)))"
proof -
  note so = canon_root_sorted [OF assms(1)] canon_root_sorted [OF assms(2)] canon_root_sorted [OF assms(3)]
  let ?os = "diff_list kb ko" and ?ts = "diff_list kb kt"
  obtain d where d: "diff S s base ours = Inr d" "\<forall>n. diff_take S s n d = map Inr (take n ?os)"
    using diff_ok [OF canon_intact canon_intact, OF assms(1,2)] by blast
  obtain d' where d': "diff S s base theirs = Inr d'" "\<forall>n. diff_take S s n d' = map Inr (take n ?ts)"
    using diff_ok [OF canon_intact canon_intact, OF assms(1,3)] by blast
  obtain o' d2 where p: "diff_pull S s d = Inr (o', d2)" "ahead S s o' d2 ?os" using diff_pull_ok [OF d(2)] by blast
  obtain t d3 where q: "diff_pull S s d' = Inr (t, d3)" "ahead S s t d3 ?ts" using diff_pull_ok [OF d'(2)] by blast
  have "merge_loop S s d2 d3 o' t ([], []) = Some (Inr (merge_lists ?os ?ts ([], [])))"
    using p(2) q(2) by (rule merge_loop_ok) (auto simp: diff_list_iff [OF so(1,2)] diff_list_iff [OF so(1,3)])
  then show ?thesis
    using assms(4,5) d(1) d'(1) p(1) q(1) by (simp add: merge_def merge_lists_of)
qed

lemma to_op_cong: "de_key a = de_key b \<Longrightarrow> de_after a = de_after b \<Longrightarrow> to_op a = to_op b"
  by (cases "de_after b") (simp_all add: to_op_def)

lemma merge_ops_of_sym: "merge_ops_of os ts = merge_ops_of ts os"
proof (induction os ts rule: merge_ops_of.induct)
  case (1 os)
  then show ?case by (cases os) auto
next
  case (3 oe os te ts)
  consider "de_key oe < de_key te" | "de_key oe = de_key te" | "de_key te < de_key oe" by force
  then show ?case using 3 by cases (auto intro: to_op_cong)
qed auto

definition mirrored :: "conflict \<Rightarrow> conflict" where
  "mirrored c = \<lparr>cf_key = cf_key c, cf_base = cf_base c, cf_ours = cf_theirs c, cf_theirs = cf_ours c\<rparr>"

lemma conflicts_of_sym:
  "(\<forall>oe \<in> set os. \<forall>te \<in> set ts. de_key oe = de_key te \<longrightarrow> de_before oe = de_before te) \<Longrightarrow>
     conflicts_of ts os = map mirrored (conflicts_of os ts)"
proof (induction os ts rule: conflicts_of.induct)
  case (1 os)
  then show ?case by (cases os) auto
next
  case (3 oe os te ts)
  note before = "3.prems"
  show ?case
  proof (cases "cmp (de_key oe) (de_key te)")
    case Less
    then have "cmp (de_key te) (de_key oe) = Greater" by (auto simp: cmp_def split: if_splits)
    with Less "3.IH"(1) before show ?thesis by simp
  next
    case Equal
    then have e: "cmp (de_key te) (de_key oe) = Equal" "de_key te = de_key oe"
      by (auto simp: cmp_def split: if_splits)
    have b: "de_before te = de_before oe" using before e(2) by simp
    have "conflicts_of ts os = map mirrored (conflicts_of os ts)"
      by (rule "3.IH"(2)) (use Equal before in auto)
    then show ?thesis by (simp add: Equal e b mirrored_def)
  next
    case Greater
    then have "cmp (de_key te) (de_key oe) = Less" by (auto simp: cmp_def split: if_splits)
    with Greater "3.IH"(3) before show ?thesis by simp
  qed
qed auto

lemma merge_spec:
  assumes "chunk_store S addr" "is_map S addr s base mb" "is_map S addr s ours mo" "is_map S addr s theirs mt"
    and "root_params ours = root_params base" "root_params theirs = root_params base"
    and "3 * card (dom mb) + card (dom mo) + card (dom mt) \<le> 2 ^ 64"
  shows "\<exists>res. merge S s base ours theirs = Some res \<and> ensures res (\<lambda>(out, s').
    grows S s s' \<and> root_params (mo_root out) = root_params base \<and>
    is_map S addr s' (mo_root out) (\<lambda>k. merged_value (mb k) (mo k) (mt k)) \<and>
    sorted_wrt (<) (map cf_key (mo_conflicts out)) \<and>
    set (mo_conflicts out) = {\<lparr>cf_key = k, cf_base = mb k, cf_ours = mo k, cf_theirs = mt k\<rparr> | k.
      clashes (mb k) (mo k) (mt k)})"
proof -
  obtain kb ko kt where k: "canon_root S addr s kb base" "mb = map_of kb" "canon_root S addr s ko ours"
    "mo = map_of ko" "canon_root S addr s kt theirs" "mt = map_of kt"
    using assms(2-4) by (auto simp: is_map_def)
  note so = canon_root_sorted [OF k(1)] canon_root_sorted [OF k(3)] canon_root_sorted [OF k(5)]
  let ?os = "diff_list kb ko" and ?ts = "diff_list kb kt"
  let ?ops = "merge_ops_of ?os ?ts" and ?cs = "conflicts_of ?os ?ts"
  note m = merge_run [OF k(1,3,5) assms(5,6)]
  have c: "card (dom mb) = length kb" "card (dom mo) = length ko" "card (dom mt) = length kt"
    using card_dom_sorted so k by auto
  have "length ?ops \<le> length ?os + length ?ts" by (rule length_merge_ops_of)
  then have "fits (length ?ops) mb"
    unfolding fits_def using assms(7) c length_diff_list [of kb ko] length_diff_list [of kb kt] by linarith
  from apply_batch_map [OF assms(1,2) this] have "ensures (apply_batch S s base ?ops) (\<lambda>(r', s').
      grows S s s' \<and> root_params r' = root_params base \<and> is_map S addr s' r' (\<lambda>k. merged_value (mb k) (mo k) (mt k)))"
    by (rule ensures_mono) (auto simp: k merge_effect [OF so])
  moreover have "sorted_wrt (<) (map cf_key ?cs)"
    using conflicts_lookup [OF diff_list_sorted [OF so(1,2)] diff_list_sorted [OF so(1,3)]] by blast
  ultimately show ?thesis unfolding m
    by (auto intro!: ensures_rbind simp: k conflicts_effect [OF so])
qed

section \<open>Properties\<close>

text \<open>C7. Merging two maps against their base ends, and fails only for its environment. The merged root
  stands for the map that takes each key's one-sided or common change and drops the keys both sides
  changed differently; these are the conflicts, in ascending key order, each with its three values.\<close>

theorem merge_three_way:
  assumes "chunk_store S addr" "is_map S addr s base mb" "is_map S addr s ours mo" "is_map S addr s theirs mt"
    and "root_params ours = root_params base" "root_params theirs = root_params base"
    and "3 * card (dom mb) + card (dom mo) + card (dom mt) \<le> 2 ^ 64"
  shows "\<exists>res. merge S s base ours theirs = Some res \<and> ensures res (\<lambda>(out, s').
    is_map S addr s' (mo_root out) (\<lambda>k. merged_value (mb k) (mo k) (mt k)) \<and>
    sorted_wrt (<) (map cf_key (mo_conflicts out)) \<and>
    set (mo_conflicts out) = {\<lparr>cf_key = k, cf_base = mb k, cf_ours = mo k, cf_theirs = mt k\<rparr> | k.
      clashes (mb k) (mo k) (mt k)})"
proof -
  obtain res where "merge S s base ours theirs = Some res" and "ensures res (\<lambda>(out, s').
      grows S s s' \<and> root_params (mo_root out) = root_params base \<and>
      is_map S addr s' (mo_root out) (\<lambda>k. merged_value (mb k) (mo k) (mt k)) \<and>
      sorted_wrt (<) (map cf_key (mo_conflicts out)) \<and>
      set (mo_conflicts out) = {\<lparr>cf_key = k, cf_base = mb k, cf_ours = mo k, cf_theirs = mt k\<rparr> | k.
        clashes (mb k) (mo k) (mt k)})"
    using merge_spec [OF assms] by blast
  then show ?thesis by (auto elim!: ensures_mono)
qed

theorem merge_three_way_witness:
  "\<exists>res. merge (mem_store 1000) five_mod_objs five_root five_last five_mod = Some res \<and>
     ensures res (\<lambda>(out, s').
       \<lparr>cf_key = [4], cf_base = Some [40], cf_ours = None, cf_theirs = Some [99]\<rparr> \<in> set (mo_conflicts out) \<and>
       prolly_get (mem_store 1000) s' (mo_root out) [5] = Inr (Some [50]))"
proof -
  let ?mod = "[([1], [10]), ([2], [20]), ([3], [30]), ([4], [99]), ([5], [50])] :: (bytes \<times> bytes) list"
  have m: "is_map (mem_store 1000) mem_digest five_mod_objs five_root (map_of five)"
    "is_map (mem_store 1000) mem_digest five_mod_objs five_last (map_of [([5], [50])])"
    "is_map (mem_store 1000) mem_digest five_mod_objs five_mod (map_of ?mod)"
    using canon_root_grows [OF five_canon five_mod_canon(2)] canon_root_grows [OF five_last_canon five_mod_canon(2)]
      five_mod_canon(1) unfolding is_map_def by blast+
  have c: "card (dom (map_of five)) = 5" "card (dom (map_of [([5 :: u8], [50 :: u8])])) = 1"
    "card (dom (map_of ?mod)) = 5"
    using card_dom_sorted [OF canon_root_sorted [OF five_canon]]
      card_dom_sorted [OF canon_root_sorted [OF five_last_canon]]
      card_dom_sorted [OF canon_root_sorted [OF five_mod_canon(1)]] by (simp_all add: five_def)
  have p: "root_params five_last = root_params five_root" "root_params five_mod = root_params five_root"
    by (simp_all add: five_last_def five_mod_def five_root_def)
  have n: "3 * card (dom (map_of five)) + card (dom (map_of [([5 :: u8], [50 :: u8])])) + card (dom (map_of ?mod)) \<le> 2 ^ 64"
    unfolding c by simp
  obtain res where r: "merge (mem_store 1000) five_mod_objs five_root five_last five_mod = Some res"
    "ensures res (\<lambda>(out, s').
      is_map (mem_store 1000) mem_digest s' (mo_root out)
        (\<lambda>k. merged_value (map_of five k) (map_of [([5], [50])] k) (map_of ?mod k)) \<and>
      sorted_wrt (<) (map cf_key (mo_conflicts out)) \<and>
      set (mo_conflicts out) = {\<lparr>cf_key = k, cf_base = map_of five k, cf_ours = map_of [([5], [50])] k,
          cf_theirs = map_of ?mod k\<rparr> | k. clashes (map_of five k) (map_of [([5], [50])] k) (map_of ?mod k)})"
    using merge_three_way [OF mem_chunk_store m p n] by blast
  have conf: "\<lparr>cf_key = [4], cf_base = Some [40], cf_ours = None, cf_theirs = Some [99]\<rparr> \<in>
      {\<lparr>cf_key = k, cf_base = map_of five k, cf_ours = map_of [([5], [50])] k, cf_theirs = map_of ?mod k\<rparr> | k.
        clashes (map_of five k) (map_of [([5], [50])] k) (map_of ?mod k)}"
    by (rule CollectI, rule exI [of _ "[4]"]) (simp add: clashes_def five_def)
  have read: "prolly_get (mem_store 1000) s' r [5] = Inr (Some [50])"
    if "is_map (mem_store 1000) mem_digest s' r
        (\<lambda>k. merged_value (map_of five k) (map_of [([5], [50])] k) (map_of ?mod k))" for s' r
    using prolly_get_map [OF that, of "[5]"] by (simp add: merged_value_def clashes_def five_def)
  have "ensures res (\<lambda>(out, s').
       \<lparr>cf_key = [4], cf_base = Some [40], cf_ours = None, cf_theirs = Some [99]\<rparr> \<in> set (mo_conflicts out) \<and>
       prolly_get (mem_store 1000) s' (mo_root out) [5] = Inr (Some [50]))"
    using r(2) by (rule ensures_mono) (auto simp only: prod.case conf dest: read)
  with r(1) show ?thesis by blast
qed

text \<open>C13. A merge prefers neither side: with ours and theirs exchanged it fails the same way, or
  writes the same chunks and returns the same root, and the same conflicts with the two sides
  exchanged.\<close>

theorem merge_symmetric:
  assumes "canon_root S addr s kb base" "canon_root S addr s ko ours" "canon_root S addr s kt theirs"
    and "root_params ours = root_params base" "root_params theirs = root_params base"
  shows "merge S s base theirs ours = (case merge S s base ours theirs of
      Some (Inr (out, s')) \<Rightarrow>
        Some (Inr (\<lparr>mo_root = mo_root out, mo_conflicts = map mirrored (mo_conflicts out)\<rparr>, s'))
    | res \<Rightarrow> res)"
proof -
  note so = canon_root_sorted [OF assms(1)] canon_root_sorted [OF assms(2)] canon_root_sorted [OF assms(3)]
  have "conflicts_of (diff_list kb kt) (diff_list kb ko) = map mirrored (conflicts_of (diff_list kb ko) (diff_list kb kt))"
    by (rule conflicts_of_sym) (auto simp: diff_list_iff [OF so(1,2)] diff_list_iff [OF so(1,3)])
  then show ?thesis
    unfolding merge_run [OF assms] merge_run [OF assms(1,3,2,5,4)]
      merge_ops_of_sym [of "diff_list kb kt" "diff_list kb ko"]
    by (cases "apply_batch S s base (merge_ops_of (diff_list kb ko) (diff_list kb kt))") auto
qed

theorem merge_symmetric_witness:
  "merge (mem_store 1000) five_mod_objs five_root five_mod five_last =
     (case merge (mem_store 1000) five_mod_objs five_root five_last five_mod of
      Some (Inr (out, s')) \<Rightarrow>
        Some (Inr (\<lparr>mo_root = mo_root out, mo_conflicts = map mirrored (mo_conflicts out)\<rparr>, s'))
    | res \<Rightarrow> res)"
  by (rule merge_symmetric [OF canon_root_grows [OF five_canon five_mod_canon(2)]
        canon_root_grows [OF five_last_canon five_mod_canon(2)] five_mod_canon(1)])
    (simp_all add: five_last_def five_mod_def five_root_def)

end
