(* ===== verification/Prolly_Scan.thy ===== *)
theory Prolly_Scan
  imports Prolly_Map
begin

text \<open>
  Ordered range scans in both directions, \<^verbatim>\<open>crates/acetone-prolly/src/scan.rs\<close>: seeking the boundary
  leaf, stepping leaf by leaf, the exit bound and the monotonicity check. A scan of a map's root
  yields the pairs in range, in order, one per call.
\<close>

section \<open>The iterator\<close>

datatype bound = Included bytes | Excluded bytes | Unbounded

datatype direction = Forward | Reverse

record frame =
  fr_refs :: "node_ref list"
  fr_idx :: nat
  fr_child_level :: nat

text \<open>The stack's top is the head of \<open>sc_stack\<close>.\<close>

record scan_state =
  sc_stack :: "frame list"
  sc_leaf :: "(bytes \<times> bytes) list"
  sc_pos :: nat
  sc_exit :: bound
  sc_dir :: direction
  sc_prev_key :: "bytes option"
  sc_done :: bool

fun seek_split :: "direction \<Rightarrow> bound \<Rightarrow> node_ref list \<Rightarrow> nat" where
  "seek_split dir (Included k) refs = partition_point (\<lambda>r. last_key r < k) refs"
| "seek_split Forward (Excluded k) refs = partition_point (\<lambda>r. last_key r \<le> k) refs"
| "seek_split Reverse (Excluded k) refs = partition_point (\<lambda>r. last_key r < k) refs"
| "seek_split Forward Unbounded refs = 0"
| "seek_split Reverse Unbounded refs = length refs - 1"

fun seek_pos :: "direction \<Rightarrow> bound \<Rightarrow> (bytes \<times> bytes) list \<Rightarrow> nat" where
  "seek_pos Forward (Included k) es = partition_point (\<lambda>e. fst e < k) es"
| "seek_pos Forward (Excluded k) es = partition_point (\<lambda>e. fst e \<le> k) es"
| "seek_pos Forward Unbounded es = 0"
| "seek_pos Reverse (Included k) es = partition_point (\<lambda>e. fst e \<le> k) es"
| "seek_pos Reverse (Excluded k) es = partition_point (\<lambda>e. fst e < k) es"
| "seek_pos Reverse Unbounded es = length es"

function seek_from ::
  "'s store_ops \<Rightarrow> 's \<Rightarrow> bound \<Rightarrow> hash \<Rightarrow> nat \<Rightarrow> bytes option \<Rightarrow> scan_state \<Rightarrow> prolly_error + scan_state" where
  "seek_from S s entry_bound h level expect_last_key out =
     rbind (read_node S s h level expect_last_key None) (\<lambda>node. case node of
         Inner refs \<Rightarrow>
           let split = seek_split (sc_dir out) entry_bound refs
           in if sc_dir out = Forward \<and> split = length refs then Inr (out\<lparr>sc_done := True\<rparr>)
              else let idx = (case sc_dir out of Forward \<Rightarrow> split | Reverse \<Rightarrow> min split (length refs - 1))
                   in seek_from S s entry_bound (ref_hash (refs ! idx)) (level - 1)
                        (Some (last_key (refs ! idx)))
                        (out\<lparr>sc_stack := \<lparr>fr_refs = refs, fr_idx = idx, fr_child_level = level - 1\<rparr> # sc_stack out\<rparr>)
       | Leaf entries \<Rightarrow>
           Inr (out\<lparr>sc_pos := seek_pos (sc_dir out) entry_bound entries, sc_leaf := entries\<rparr>))"
  by pat_completeness auto
termination
  by (relation "measure (\<lambda>(S, s, b, h, level, _). level)") (auto dest!: read_node_Inner)

declare seek_from.simps [simp del]

definition seek ::
  "'s store_ops \<Rightarrow> 's \<Rightarrow> root \<Rightarrow> bound \<Rightarrow> bound \<Rightarrow> direction \<Rightarrow> prolly_error + scan_state" where
  "seek S s root entry_bound exit dir =
     seek_from S s entry_bound (root_hash root) (top_level root) None
       \<lparr>sc_stack = [], sc_leaf = [], sc_pos = 0, sc_exit = exit, sc_dir = dir, sc_prev_key = None,
        sc_done = False\<rparr>"

definition scan :: "'s store_ops \<Rightarrow> 's \<Rightarrow> root \<Rightarrow> bound \<Rightarrow> bound \<Rightarrow> prolly_error + scan_state" where
  "scan S s root start stop = seek S s root start stop Forward"

definition scan_rev :: "'s store_ops \<Rightarrow> 's \<Rightarrow> root \<Rightarrow> bound \<Rightarrow> bound \<Rightarrow> prolly_error + scan_state" where
  "scan_rev S s root start stop = seek S s root stop start Reverse"

fun within_exit :: "bound \<Rightarrow> direction \<Rightarrow> bytes \<Rightarrow> bool" where
  "within_exit (Included e) Forward key \<longleftrightarrow> key \<le> e"
| "within_exit (Excluded e) Forward key \<longleftrightarrow> key < e"
| "within_exit (Included e) Reverse key \<longleftrightarrow> e \<le> key"
| "within_exit (Excluded e) Reverse key \<longleftrightarrow> e < key"
| "within_exit Unbounded dir key \<longleftrightarrow> True"

definition check_monotonic :: "scan_state \<Rightarrow> bytes \<Rightarrow> prolly_error + unit" where
  "check_monotonic sc key = (case sc_prev_key sc of
       None \<Rightarrow> Inr ()
     | Some prev \<Rightarrow>
         if (case sc_dir sc of Forward \<Rightarrow> prev < key | Reverse \<Rightarrow> key < prev) then Inr ()
         else Inl (Corrupt ''range scan'' ''keys not strictly ordered across leaves''))"

text \<open>Popping exhausted frames; the new top has its index moved to the next child.\<close>

fun pop_frames :: "direction \<Rightarrow> frame list \<Rightarrow> frame list" where
  "pop_frames dir [] = []"
| "pop_frames Forward (f # fs) =
     (if fr_idx f + 1 < length (fr_refs f) then f\<lparr>fr_idx := fr_idx f + 1\<rparr> # fs else pop_frames Forward fs)"
| "pop_frames Reverse (f # fs) =
     (if 0 < fr_idx f then f\<lparr>fr_idx := fr_idx f - 1\<rparr> # fs else pop_frames Reverse fs)"

function descend_edge ::
  "'s store_ops \<Rightarrow> 's \<Rightarrow> hash \<Rightarrow> bytes \<Rightarrow> nat \<Rightarrow> scan_state \<Rightarrow> prolly_error + scan_state" where
  "descend_edge S s h expect_last_key level sc =
     rbind (read_node S s h level (Some expect_last_key) None) (\<lambda>node. case node of
         Inner refs \<Rightarrow>
           let idx = (case sc_dir sc of Forward \<Rightarrow> 0 | Reverse \<Rightarrow> length refs - 1)
           in descend_edge S s (ref_hash (refs ! idx)) (last_key (refs ! idx)) (level - 1)
                (sc\<lparr>sc_stack := \<lparr>fr_refs = refs, fr_idx = idx, fr_child_level = level - 1\<rparr> # sc_stack sc\<rparr>)
       | Leaf entries \<Rightarrow>
           Inr (sc\<lparr>sc_pos := (case sc_dir sc of Forward \<Rightarrow> 0 | Reverse \<Rightarrow> length entries),
                   sc_leaf := entries\<rparr>))"
  by pat_completeness auto
termination
  by (relation "measure (\<lambda>(S, s, h, k, level, _). level)") (auto dest!: read_node_Inner)

declare descend_edge.simps [simp del]

definition advance_leaf ::
  "'s store_ops \<Rightarrow> 's \<Rightarrow> scan_state \<Rightarrow> prolly_error + bool \<times> scan_state" where
  "advance_leaf S s sc =
     (let sc = sc\<lparr>sc_stack := pop_frames (sc_dir sc) (sc_stack sc)\<rparr>
      in case sc_stack sc of
           [] \<Rightarrow> Inr (False, sc)
         | f # _ \<Rightarrow>
             let r = fr_refs f ! fr_idx f
             in rbind (descend_edge S s (ref_hash r) (last_key r) (fr_child_level f) sc)
                  (\<lambda>sc. Inr (True, sc)))"

definition take_from_leaf :: "scan_state \<Rightarrow> (bytes \<times> bytes) option \<times> scan_state" where
  "take_from_leaf sc = (case sc_dir sc of
       Forward \<Rightarrow>
         if sc_pos sc < length (sc_leaf sc)
         then (Some (sc_leaf sc ! sc_pos sc), sc\<lparr>sc_pos := sc_pos sc + 1\<rparr>) else (None, sc)
     | Reverse \<Rightarrow>
         if sc_pos sc = 0 then (None, sc)
         else (Some (sc_leaf sc ! (sc_pos sc - 1)), sc\<lparr>sc_pos := sc_pos sc - 1\<rparr>))"

text \<open>A leaf reached from its parent ends at the key the parent declares, so it is not empty and
  the loop of \<^verbatim>\<open>next\<close> goes round at most once more.\<close>

lemma descend_edge_take: "descend_edge S s h k l sc = Inr sc' \<Longrightarrow> fst (take_from_leaf sc') \<noteq> None"
proof (induction S s h k l sc rule: descend_edge.induct)
  case (1 S s h k l sc)
  from "1.prems" obtain node where n: "read_node S s h l (Some k) None = Inr node"
    by (subst (asm) descend_edge.simps) (cases "read_node S s h l (Some k) None"; auto)
  show ?case
  proof (cases node)
    case (Leaf entries)
    with n have "entries \<noteq> []" by (auto simp: read_node_Inr last_opt_def)
    with "1.prems" n Leaf show ?thesis
      by (subst (asm) descend_edge.simps) (auto simp: take_from_leaf_def split: direction.splits)
  next
    case (Inner refs)
    with 1 n show ?thesis by (subst (asm) (2) descend_edge.simps) (auto simp: Let_def)
  qed
qed

function scan_next ::
  "'s store_ops \<Rightarrow> 's \<Rightarrow> scan_state \<Rightarrow> (prolly_error + bytes \<times> bytes) option \<times> scan_state" where
  "scan_next S s sc =
     (if sc_done sc then (None, sc)
      else case take_from_leaf sc of
          (Some (k, v), sc) \<Rightarrow>
            if \<not> within_exit (sc_exit sc) (sc_dir sc) k then (None, sc\<lparr>sc_done := True\<rparr>)
            else (case check_monotonic sc k of
                Inl e \<Rightarrow> (Some (Inl e), sc\<lparr>sc_done := True\<rparr>)
              | Inr _ \<Rightarrow> (Some (Inr (k, v)), sc\<lparr>sc_prev_key := Some k\<rparr>))
        | (None, sc) \<Rightarrow>
            (case advance_leaf S s sc of
                Inl e \<Rightarrow> (Some (Inl e), sc\<lparr>sc_done := True\<rparr>)
              | Inr (False, sc) \<Rightarrow> (None, sc\<lparr>sc_done := True\<rparr>)
              | Inr (True, sc) \<Rightarrow> scan_next S s sc))"
  by pat_completeness auto
termination
proof (relation "measure (\<lambda>(S, s, sc). if fst (take_from_leaf sc) = None then 1 else 0)", goal_cases)
  case (2 S s sc x sc1 y b sc2)
  then have "fst (take_from_leaf sc2) \<noteq> None"
    by (auto simp: advance_leaf_def Let_def rbind_Inr_iff split: list.splits dest!: descend_edge_take)
  then show ?case using 2 by (auto dest: sym)
qed simp

declare scan_next.simps [simp del]

text \<open>The first \<open>n\<close> calls of \<^verbatim>\<open>next\<close>, up to the first \<^verbatim>\<open>None\<close>.\<close>

fun scan_take :: "'s store_ops \<Rightarrow> 's \<Rightarrow> nat \<Rightarrow> scan_state \<Rightarrow> (prolly_error + bytes \<times> bytes) list" where
  "scan_take S s 0 sc = []"
| "scan_take S s (Suc n) sc = (case scan_next S s sc of
       (None, _) \<Rightarrow> []
     | (Some x, sc) \<Rightarrow> x # scan_take S s n sc)"

section \<open>What a scan still has to yield\<close>

fun dflat :: "direction \<Rightarrow> gtree \<Rightarrow> (bytes \<times> bytes) list" where
  "dflat Forward t = gflat t"
| "dflat Reverse t = rev (gflat t)"

fun later :: "direction \<Rightarrow> nat \<Rightarrow> gtree list \<Rightarrow> gtree list" where
  "later Forward i ts = drop (Suc i) ts"
| "later Reverse i ts = rev (take i ts)"

definition frame_ok :: "'s store_ops \<Rightarrow> 's \<Rightarrow> frame \<Rightarrow> gtree list \<Rightarrow> bool" where
  "frame_ok S s f ts \<longleftrightarrow> fr_refs f = map gref ts \<and> fr_idx f < length ts \<and>
     (\<forall>t \<in> set ts. gok S s t \<and> glevel t = fr_child_level f \<and> gents t \<noteq> [])"

definition trees_rest :: "direction \<Rightarrow> nat \<Rightarrow> gtree list \<Rightarrow> (bytes \<times> bytes) list" where
  "trees_rest dir i ts = concat (map (dflat dir) (later dir i ts))"

fun frames_hold :: "'s store_ops \<Rightarrow> 's \<Rightarrow> direction \<Rightarrow> frame list \<Rightarrow> (bytes \<times> bytes) list \<Rightarrow> bool" where
  "frames_hold S s dir [] es \<longleftrightarrow> es = []"
| "frames_hold S s dir (f # fs) es \<longleftrightarrow>
     (\<exists>ts es'. frame_ok S s f ts \<and> es = trees_rest dir (fr_idx f) ts @ es' \<and> frames_hold S s dir fs es')"

fun leaf_rest :: "direction \<Rightarrow> nat \<Rightarrow> (bytes \<times> bytes) list \<Rightarrow> (bytes \<times> bytes) list" where
  "leaf_rest Forward i es = drop i es"
| "leaf_rest Reverse i es = rev (take i es)"

definition holds :: "'s store_ops \<Rightarrow> 's \<Rightarrow> scan_state \<Rightarrow> (bytes \<times> bytes) list \<Rightarrow> bool" where
  "holds S s sc es \<longleftrightarrow> sc_pos sc \<le> length (sc_leaf sc) \<and>
     (\<exists>es'. es = leaf_rest (sc_dir sc) (sc_pos sc) (sc_leaf sc) @ es' \<and>
        frames_hold S s (sc_dir sc) (sc_stack sc) es')"

lemma dflat_fun [simp]: "dflat Forward = gflat" "dflat Reverse = (\<lambda>t. rev (gflat t))"
  by (simp_all add: fun_eq_iff)

lemma dflat_node:
  assumes "ts \<noteq> []" "i = (case dir of Forward \<Rightarrow> 0 | Reverse \<Rightarrow> length ts - 1)"
  shows "dflat dir (GNode h ts) = dflat dir (ts ! i) @ trees_rest dir i ts"
proof (cases dir)
  case Forward
  with assms show ?thesis by (cases ts) (auto simp: trees_rest_def)
next
  case Reverse
  from assms(1) obtain us u where ts: "ts = us @ [u]" by (cases ts rule: rev_cases) auto
  show ?thesis using assms(2) Reverse
    by (simp add: trees_rest_def rev_concat ts rev_map comp_def)
qed

text \<open>Every field but the position survives a descent.\<close>

definition same_scan :: "scan_state \<Rightarrow> scan_state \<Rightarrow> bool" where
  "same_scan sc sc' \<longleftrightarrow> sc_exit sc' = sc_exit sc \<and> sc_dir sc' = sc_dir sc \<and>
     sc_prev_key sc' = sc_prev_key sc"

lemma descend_edge_ok:
  "gok S s t \<Longrightarrow> gents t \<noteq> [] \<Longrightarrow> frames_hold S s (sc_dir sc) (sc_stack sc) es \<Longrightarrow>
     \<exists>sc'. descend_edge S s (ghash t) (glast t) (glevel t) sc = Inr sc' \<and> same_scan sc sc' \<and>
       sc_done sc' = sc_done sc \<and> holds S s sc' (dflat (sc_dir sc) t @ es)"
proof (induction t arbitrary: sc es)
  case (GLeaf h kvs)
  have rd: "read_node S s h 0 (Some (glast (GLeaf h kvs))) None = Inr (Leaf kvs)"
    using read_gstored [OF gok_gstored [OF GLeaf.prems(1)], of "Some (glast (GLeaf h kvs))" None] GLeaf.prems(2)
    by simp
  show ?case using GLeaf.prems(3)
    by (subst ghash.simps, subst glevel.simps, subst descend_edge.simps)
      (cases "sc_dir sc", auto simp: rd same_scan_def holds_def simp del: glast.simps)
next
  case (GNode h ts)
  let ?t = "GNode h ts"
  let ?i = "case sc_dir sc of Forward \<Rightarrow> 0 | Reverse \<Rightarrow> length ts - 1"
  have ne: "ts \<noteq> []" using GNode.prems(2) by simp
  then have i: "?i < length ts" by (cases "sc_dir sc") auto
  have rd: "read_node S s h (glevel ?t) (Some (glast ?t)) None = Inr (Inner (map gref ts))"
    using read_gstored [OF gok_gstored [OF GNode.prems(1)], of "Some (glast ?t)" None] GNode.prems(2) by simp
  define f where "f = \<lparr>fr_refs = map gref ts, fr_idx = ?i, fr_child_level = glevel ?t - 1\<rparr>"
  have kids: "\<forall>u \<in> set ts. gok S s u \<and> glevel u = glevel ?t - 1 \<and> gents u \<noteq> []" using GNode.prems(1) by auto
  have u: "ts ! ?i \<in> set ts" using i by simp
  have fo: "frame_ok S s f ts" using kids i by (auto simp: frame_ok_def f_def)
  have hold: "frames_hold S s (sc_dir sc) (f # sc_stack sc) (trees_rest (sc_dir sc) ?i ts @ es)"
    using fo GNode.prems(3) unfolding frames_hold.simps by (intro exI [of _ ts] exI [of _ es]) (simp add: f_def)
  have "descend_edge S s h (glast ?t) (glevel ?t) sc =
      descend_edge S s (ghash (ts ! ?i)) (glast (ts ! ?i)) (glevel (ts ! ?i)) (sc\<lparr>sc_stack := f # sc_stack sc\<rparr>)"
    unfolding descend_edge.simps [of S s h] rd using i kids u ne
    by (cases "sc_dir sc") (simp_all add: f_def Let_def gref_def)
  moreover obtain sc' where
    "descend_edge S s (ghash (ts ! ?i)) (glast (ts ! ?i)) (glevel (ts ! ?i)) (sc\<lparr>sc_stack := f # sc_stack sc\<rparr>) = Inr sc'"
    "same_scan (sc\<lparr>sc_stack := f # sc_stack sc\<rparr>) sc'" "sc_done sc' = sc_done sc"
    "holds S s sc' (dflat (sc_dir sc) (ts ! ?i) @ trees_rest (sc_dir sc) ?i ts @ es)"
    using GNode.IH [OF u, of "sc\<lparr>sc_stack := f # sc_stack sc\<rparr>" "trees_rest (sc_dir sc) ?i ts @ es"] hold kids u
    by auto
  ultimately show ?case
    using dflat_node [OF ne refl, of "sc_dir sc" h] by (auto simp: same_scan_def)
qed

lemma pop_frames_ok:
  "frames_hold S s dir fs es \<Longrightarrow>
     (case pop_frames dir fs of
        [] \<Rightarrow> es = []
      | f # fs' \<Rightarrow> \<exists>ts es'. frame_ok S s f ts \<and> frames_hold S s dir (f # fs') es' \<and>
          es = dflat dir (ts ! fr_idx f) @ es')"
proof (induction dir fs arbitrary: es rule: pop_frames.induct)
  case (2 f fs)
  then obtain ts es' where f: "frame_ok S s f ts" "es = trees_rest Forward (fr_idx f) ts @ es'"
    "frames_hold S s Forward fs es'" by auto
  show ?case
  proof (cases "fr_idx f + 1 < length (fr_refs f)")
    case True
    then have l: "Suc (fr_idx f) < length ts" using f(1) by (simp add: frame_ok_def)
    have "trees_rest Forward (fr_idx f) ts = gflat (ts ! Suc (fr_idx f)) @ trees_rest Forward (Suc (fr_idx f)) ts"
      using Cons_nth_drop_Suc [OF l, symmetric] by (simp add: trees_rest_def)
    then show ?thesis using f True l by (auto simp: frame_ok_def)
  next
    case False
    then have "trees_rest Forward (fr_idx f) ts = []" using f(1) by (simp add: frame_ok_def trees_rest_def)
    then have es: "es = es'" using f(2) by simp
    show ?thesis using 2(1) [OF False f(3)] False unfolding es by simp
  qed
next
  case (3 f fs)
  then obtain ts es' where f: "frame_ok S s f ts" "es = trees_rest Reverse (fr_idx f) ts @ es'"
    "frames_hold S s Reverse fs es'" by auto
  show ?case
  proof (cases "0 < fr_idx f")
    case True
    then obtain i where i: "fr_idx f = Suc i" by (cases "fr_idx f") auto
    then have l: "i < length ts" using f(1) by (simp add: frame_ok_def)
    have "trees_rest Reverse (Suc i) ts = rev (gflat (ts ! i)) @ trees_rest Reverse i ts"
      using take_Suc_conv_app_nth [OF l] by (simp add: trees_rest_def)
    then have es: "es = rev (gflat (ts ! i)) @ trees_rest Reverse i ts @ es'" using f(2) i by simp
    have ok: "frame_ok S s (f\<lparr>fr_idx := i\<rparr>) ts" using f(1) l by (simp add: frame_ok_def)
    then have "frames_hold S s Reverse (f\<lparr>fr_idx := i\<rparr> # fs) (trees_rest Reverse i ts @ es')"
      using f(3) by auto
    then show ?thesis using ok i unfolding es
      by (simp del: frames_hold.simps) (intro exI [of _ ts] conjI exI [of _ "trees_rest Reverse i ts @ es'"]; simp)
  next
    case False
    then have "trees_rest Reverse (fr_idx f) ts = []" by (simp add: trees_rest_def)
    then have es: "es = es'" using f(2) by simp
    show ?thesis using 3(1) [OF False f(3)] False unfolding es by simp
  qed
qed simp

lemma advance_leaf_ok:
  assumes "frames_hold S s (sc_dir sc) (sc_stack sc) es"
  shows "\<exists>b sc'. advance_leaf S s sc = Inr (b, sc') \<and> same_scan sc sc' \<and> sc_done sc' = sc_done sc \<and>
    (if b then holds S s sc' es \<and> es \<noteq> [] else es = [])"
proof (cases "pop_frames (sc_dir sc) (sc_stack sc)")
  case Nil
  with pop_frames_ok [OF assms] show ?thesis
    by (auto simp: advance_leaf_def same_scan_def intro!: exI [of _ False])
next
  case (Cons f fs)
  with pop_frames_ok [OF assms] obtain ts es' where f: "frame_ok S s f ts"
    "frames_hold S s (sc_dir sc) (f # fs) es'" "es = dflat (sc_dir sc) (ts ! fr_idx f) @ es'" by auto
  let ?u = "ts ! fr_idx f" and ?sc = "sc\<lparr>sc_stack := f # fs\<rparr>"
  have u: "gok S s ?u" "gents ?u \<noteq> []" "fr_refs f ! fr_idx f = gref ?u" "fr_child_level f = glevel ?u"
    using f(1) by (auto simp: frame_ok_def)
  obtain sc' where "descend_edge S s (ghash ?u) (glast ?u) (glevel ?u) ?sc = Inr sc'"
    "same_scan ?sc sc'" "sc_done sc' = sc_done sc" "holds S s sc' es"
    using descend_edge_ok [OF u(1,2), of ?sc es'] f(2,3) by auto
  moreover have "es \<noteq> []" using glast_flat [OF u(1,2)] f(3) by (cases "sc_dir sc") auto
  ultimately show ?thesis using u
    by (intro exI [of _ True] exI [of _ sc']) (simp add: advance_leaf_def Cons Let_def gref_def same_scan_def)
qed

section \<open>Stepping\<close>

fun dless :: "direction \<Rightarrow> bytes \<Rightarrow> bytes \<Rightarrow> bool" where
  "dless Forward a b \<longleftrightarrow> a < b"
| "dless Reverse a b \<longleftrightarrow> b < a"

lemma dless_fun: "dless Forward = (<)" "dless Reverse = (>)"
  by (simp_all add: fun_eq_iff)

definition ordered :: "direction \<Rightarrow> bytes option \<Rightarrow> (bytes \<times> bytes) list \<Rightarrow> bool" where
  "ordered dir prev es \<longleftrightarrow> sorted_wrt (dless dir) (map fst es) \<and>
     (\<forall>p. prev = Some p \<longrightarrow> (\<forall>e \<in> set es. dless dir p (fst e)))"

lemma take_from_leaf_ok:
  assumes "sc_pos sc \<le> length (sc_leaf sc)"
  shows "(case leaf_rest (sc_dir sc) (sc_pos sc) (sc_leaf sc) of
      [] \<Rightarrow> take_from_leaf sc = (None, sc)
    | e # es \<Rightarrow> \<exists>p. take_from_leaf sc = (Some e, sc\<lparr>sc_pos := p\<rparr>) \<and> p \<le> length (sc_leaf sc) \<and>
        leaf_rest (sc_dir sc) p (sc_leaf sc) = es)"
proof (cases "sc_dir sc")
  case Forward
  show ?thesis
  proof (cases "sc_pos sc < length (sc_leaf sc)")
    case True
    then show ?thesis using Forward Cons_nth_drop_Suc [OF True, symmetric]
      by (auto simp: take_from_leaf_def intro!: exI [of _ "Suc (sc_pos sc)"])
  qed (use Forward in \<open>simp add: take_from_leaf_def\<close>)
next
  case Reverse
  show ?thesis
  proof (cases "sc_pos sc")
    case (Suc i)
    then have "take (Suc i) (sc_leaf sc) = take i (sc_leaf sc) @ [sc_leaf sc ! i]"
      using assms by (intro take_Suc_conv_app_nth) simp
    then show ?thesis using Reverse Suc assms
      by (auto simp: take_from_leaf_def intro!: exI [of _ i])
  qed (use Reverse in \<open>simp add: take_from_leaf_def\<close>)
qed

lemma check_monotonic_ok: "ordered (sc_dir sc) (sc_prev_key sc) (e # es) \<Longrightarrow> check_monotonic sc (fst e) = Inr ()"
  by (cases "sc_dir sc") (auto simp: check_monotonic_def ordered_def split: option.splits)

lemma ordered_tl: "ordered dir prev (e # es) \<Longrightarrow> ordered dir (Some (fst e)) es"
  by (auto simp: ordered_def)

lemma scan_next_here:
  assumes "holds S s sc (e # es)" "\<not> sc_done sc" "ordered (sc_dir sc) (sc_prev_key sc) (e # es)"
    "leaf_rest (sc_dir sc) (sc_pos sc) (sc_leaf sc) \<noteq> []"
  shows "\<exists>sc'. scan_next S s sc =
      (if within_exit (sc_exit sc) (sc_dir sc) (fst e) then (Some (Inr e), sc') else (None, sc')) \<and>
      (within_exit (sc_exit sc) (sc_dir sc) (fst e) \<longrightarrow> holds S s sc' es \<and> \<not> sc_done sc' \<and>
         sc_exit sc' = sc_exit sc \<and> sc_dir sc' = sc_dir sc \<and> sc_prev_key sc' = Some (fst e))"
proof -
  obtain e' r where r: "leaf_rest (sc_dir sc) (sc_pos sc) (sc_leaf sc) = e' # r"
    using assms(4) by (cases "leaf_rest (sc_dir sc) (sc_pos sc) (sc_leaf sc)") auto
  with assms(1) obtain es' where es: "e' = e" "es = r @ es'" "frames_hold S s (sc_dir sc) (sc_stack sc) es'"
    "sc_pos sc \<le> length (sc_leaf sc)"
    by (auto simp: holds_def)
  then obtain p where p: "take_from_leaf sc = (Some e, sc\<lparr>sc_pos := p\<rparr>)" "p \<le> length (sc_leaf sc)"
    "leaf_rest (sc_dir sc) p (sc_leaf sc) = r"
    using take_from_leaf_ok [of sc] r by auto
  have "check_monotonic (sc\<lparr>sc_pos := p\<rparr>) (fst e) = Inr ()"
    using check_monotonic_ok [of "sc\<lparr>sc_pos := p\<rparr>" e es] assms(3) by simp
  then show ?thesis
    using p es assms(2) by (cases e) (auto simp: scan_next.simps [of S s sc] holds_def)
qed

lemma scan_next_ok:
  assumes "holds S s sc es" "\<not> sc_done sc" "ordered (sc_dir sc) (sc_prev_key sc) es"
  shows "case es of
      [] \<Rightarrow> fst (scan_next S s sc) = None
    | e # es' \<Rightarrow> \<exists>sc'. scan_next S s sc =
        (if within_exit (sc_exit sc) (sc_dir sc) (fst e) then (Some (Inr e), sc') else (None, sc')) \<and>
        (within_exit (sc_exit sc) (sc_dir sc) (fst e) \<longrightarrow> holds S s sc' es' \<and> \<not> sc_done sc' \<and>
           sc_exit sc' = sc_exit sc \<and> sc_dir sc' = sc_dir sc \<and> sc_prev_key sc' = Some (fst e))"
proof (cases "leaf_rest (sc_dir sc) (sc_pos sc) (sc_leaf sc)")
  case (Cons e0 r)
  with assms(1) have "es \<noteq> []" by (auto simp: holds_def)
  then obtain e es' where "es = e # es'" by (cases es) auto
  then show ?thesis using scan_next_here [of S s sc e es'] assms Cons by simp
next
  case Nil
  then have t: "take_from_leaf sc = (None, sc)" and fr: "frames_hold S s (sc_dir sc) (sc_stack sc) es"
    using assms(1) take_from_leaf_ok [of sc] by (auto simp: holds_def)
  obtain b sc1 where a: "advance_leaf S s sc = Inr (b, sc1)" "same_scan sc sc1" "\<not> sc_done sc1"
    "if b then holds S s sc1 es \<and> es \<noteq> [] else es = []"
    using advance_leaf_ok [OF fr] assms(2) by auto
  show ?thesis
  proof (cases b)
    case False
    with a t assms(2) show ?thesis by (simp add: scan_next.simps [of S s sc])
  next
    case True
    then have eq: "scan_next S s sc = scan_next S s sc1"
      using a t assms(2) by (simp add: scan_next.simps [of S s sc])
    have "fst (take_from_leaf sc1) \<noteq> None"
      using a(1) True by (auto simp: advance_leaf_def Let_def rbind_Inr_iff split: list.splits dest!: descend_edge_take)
    then have "leaf_rest (sc_dir sc1) (sc_pos sc1) (sc_leaf sc1) \<noteq> []"
      using a(4) True take_from_leaf_ok [of sc1] by (auto simp: holds_def split: list.splits)
    moreover obtain e es' where "es = e # es'" using a(4) True by (cases es) auto
    ultimately show ?thesis
      using scan_next_here [of S s sc1 e es'] a assms(3) True unfolding eq by (simp add: same_scan_def)
  qed
qed

lemma scan_take_ok:
  "holds S s sc es \<Longrightarrow> \<not> sc_done sc \<Longrightarrow> ordered (sc_dir sc) (sc_prev_key sc) es \<Longrightarrow>
     scan_take S s n sc = map Inr (take n (takeWhile (\<lambda>e. within_exit (sc_exit sc) (sc_dir sc) (fst e)) es))"
proof (induction n arbitrary: sc es)
  case (Suc n)
  show ?case
  proof (cases es)
    case Nil
    then show ?thesis
      using scan_next_ok [OF Suc.prems] by (cases "scan_next S s sc") (auto split: prod.splits)
  next
    case (Cons e es')
    with scan_next_ok [OF Suc.prems] obtain sc' where sc': "scan_next S s sc =
        (if within_exit (sc_exit sc) (sc_dir sc) (fst e) then (Some (Inr e), sc') else (None, sc'))"
      "within_exit (sc_exit sc) (sc_dir sc) (fst e) \<Longrightarrow> holds S s sc' es' \<and> \<not> sc_done sc' \<and>
         sc_exit sc' = sc_exit sc \<and> sc_dir sc' = sc_dir sc \<and> sc_prev_key sc' = Some (fst e)" by auto
    show ?thesis
      using sc' Suc.IH [of sc' es'] ordered_tl [of "sc_dir sc" "sc_prev_key sc" e es'] Suc.prems(3) Cons
      by auto
  qed
qed simp

section \<open>Seeking\<close>

fun opposite :: "direction \<Rightarrow> direction" where
  "opposite Forward = Reverse"
| "opposite Reverse = Forward"

fun in_order :: "direction \<Rightarrow> 'a list \<Rightarrow> 'a list" where
  "in_order Forward xs = xs"
| "in_order Reverse xs = rev xs"

text \<open>The pairs on the right side of the entry bound, in the order of the scan.\<close>

definition entered :: "direction \<Rightarrow> bound \<Rightarrow> (bytes \<times> bytes) list \<Rightarrow> (bytes \<times> bytes) list" where
  "entered dir b kvs = in_order dir (filter (\<lambda>e. within_exit b (opposite dir) (fst e)) kvs)"

lemma takeWhile_eq_filter_sorted:
  assumes "sorted_wrt R (map f xs)" "\<And>x y. R x y \<Longrightarrow> p y \<Longrightarrow> p x"
  shows "takeWhile (\<lambda>x. p (f x)) xs = filter (\<lambda>x. p (f x)) xs"
  using assms(1)
proof (induction xs)
  case (Cons x xs)
  show ?case
  proof (cases "p (f x)")
    case False
    then have "\<forall>y \<in> set xs. \<not> p (f y)" using Cons.prems assms(2) by auto
    with False show ?thesis by simp
  qed (use Cons in auto)
qed simp

lemma dropWhile_eq_filter_sorted:
  assumes "sorted_wrt R (map f xs)" "\<And>x y. R x y \<Longrightarrow> p y \<Longrightarrow> p x"
  shows "dropWhile (\<lambda>x. p (f x)) xs = filter (\<lambda>x. \<not> p (f x)) xs"
  using assms(1)
proof (induction xs)
  case (Cons x xs)
  show ?case
  proof (cases "p (f x)")
    case False
    then have "\<forall>y \<in> set xs. \<not> p (f y)" using Cons.prems assms(2) by auto
    with False show ?thesis by simp
  qed (use Cons in auto)
qed simp

lemma seek_pos_ok:
  assumes "sorted_wrt (<) (map fst es)"
  shows "leaf_rest dir (seek_pos dir b es) es = entered dir b es" "seek_pos dir b es \<le> length es"
proof -
  note tw = takeWhile_eq_filter_sorted [OF assms] and dw = dropWhile_eq_filter_sorted [OF assms]
  show "leaf_rest dir (seek_pos dir b es) es = entered dir b es"
    using tw [of "\<lambda>x. x < _"] tw [of "\<lambda>x. x \<le> _"] dw [of "\<lambda>x. x < _"] dw [of "\<lambda>x. x \<le> _"]
    by (cases "(dir, b, es)" rule: seek_pos.cases)
      (auto simp: entered_def take_partition drop_partition not_less not_le)
  show "seek_pos dir b es \<le> length es"
    by (cases "(dir, b, es)" rule: seek_pos.cases) (auto simp: partition_point_le)
qed

definition seek_idx :: "direction \<Rightarrow> bound \<Rightarrow> node_ref list \<Rightarrow> nat" where
  "seek_idx dir b refs = (case dir of Forward \<Rightarrow> seek_split dir b refs
     | Reverse \<Rightarrow> min (seek_split dir b refs) (length refs - 1))"

lemma seek_split_le: "seek_split dir b refs \<le> length refs"
  by (cases "(dir, b, refs)" rule: seek_split.cases) (auto simp: partition_point_le)

lemma seek_idx_less:
  "refs \<noteq> [] \<Longrightarrow> \<not> (dir = Forward \<and> seek_split dir b refs = length refs) \<Longrightarrow> seek_idx dir b refs < length refs"
  using seek_split_le [of dir b refs] by (cases dir; cases refs) (auto simp: seek_idx_def)

text \<open>The children before the chosen one lie on the far side of the entry bound of a forward scan
  and on the near side of a reverse one; the children behind it the other way round.\<close>

lemma seek_idx_before:
  "i < seek_idx dir b refs \<Longrightarrow> k \<le> last_key (refs ! i) \<Longrightarrow> within_exit b (opposite dir) k \<longleftrightarrow> dir = Reverse"
  by (cases dir; cases b) (auto simp: seek_idx_def dest!: partition_point_before)

lemma seek_idx_at:
  assumes "seek_idx dir b refs < length refs" "last_key (refs ! seek_idx dir b refs) < k"
    "dir = Reverse \<Longrightarrow> Suc (seek_idx dir b refs) < length refs"
  shows "within_exit b (opposite dir) k \<longleftrightarrow> dir = Forward"
proof (cases dir)
  case Forward
  then show ?thesis
    using assms(1,2) by (cases b) (auto simp: seek_idx_def not_less not_le dest!: partition_point_at)
next
  case Reverse
  then have "seek_idx dir b refs = seek_split dir b refs"
    using assms(3) by (simp add: seek_idx_def min_def split: if_splits)
  then show ?thesis
    using assms Reverse by (cases b) (auto simp: not_less not_le dest!: Suc_lessD partition_point_at)
qed

lemma flat_le_glast_nth:
  assumes "\<forall>t \<in> set ts. gok S s t \<and> gents t \<noteq> []" "sorted_wrt (<) (map fst (concat (map gflat ts)))"
    "i \<le> length ts" "e \<in> set (concat (map gflat (take i ts)))"
  shows "\<exists>j < i. fst e \<le> glast (ts ! j)"
proof -
  from assms(4) obtain t where "t \<in> set (take i ts)" and e: "e \<in> set (gflat t)" by auto
  then obtain j where j: "j < i" "j < length ts" "t = ts ! j" using assms(3) by (auto simp: in_set_conv_nth)
  have "sorted_wrt (<) (map fst (concat (map gflat (take j ts @ ts ! j # drop (Suc j) ts))))"
    using assms(2) id_take_nth_drop [OF j(2)] by simp
  then have "fst e \<le> glast t"
    using sorted_concat_parts(1) [of "take j ts" "ts ! j" "drop (Suc j) ts"] j e assms(1)
    by (intro gflat_le_glast [of S s]) auto
  with j show ?thesis by auto
qed

lemma entered_node:
  assumes "\<forall>t \<in> set ts. gok S s t \<and> gents t \<noteq> []" "sorted_wrt (<) (map fst (concat (map gflat ts)))"
    "i = seek_idx dir b (map gref ts)" "i < length ts"
  shows "entered dir b (concat (map gflat ts)) = entered dir b (gflat (ts ! i)) @ trees_rest dir i ts"
proof -
  let ?in = "\<lambda>e. within_exit b (opposite dir) (fst e)"
  have sp: "ts = take i ts @ ts ! i # drop (Suc i) ts" by (rule id_take_nth_drop [OF assms(4)])
  have so: "sorted_wrt (<) (map fst (concat (map gflat (take i ts @ ts ! i # drop (Suc i) ts))))"
    using assms(2) sp by simp
  note parts = sorted_concat_parts [OF so]
  have pre: "?in e \<longleftrightarrow> dir = Reverse" if e: "e \<in> set (concat (map gflat (take i ts)))" for e
  proof -
    obtain j where j: "j < i" "fst e \<le> glast (ts ! j)"
      using flat_le_glast_nth [OF assms(1,2) _ e] assms(4) by auto
    then show ?thesis
      using seek_idx_before [of j dir b "map gref ts" "fst e"] j assms(3,4) by (simp add: gref_def)
  qed
  have post: "?in e \<longleftrightarrow> dir = Forward" if "e \<in> set (concat (map gflat (drop (Suc i) ts)))" for e
  proof -
    obtain w where w: "w \<in> set (gflat (ts ! i))" "glast (ts ! i) = fst w"
      using glast_mem [of S s "ts ! i"] assms(1,4) by auto
    have "Suc i < length ts" using that by (cases "Suc i < length ts") auto
    then show ?thesis
      using seek_idx_at [of dir b "map gref ts" "fst e"] assms(3,4) parts(3) w that by (auto simp: gref_def)
  qed
  have "filter ?in (concat (map gflat ts)) = filter ?in (concat (map gflat (take i ts))) @
      filter ?in (gflat (ts ! i)) @ filter ?in (concat (map gflat (drop (Suc i) ts)))"
    by (subst (1) sp) simp
  also have "filter ?in (concat (map gflat (take i ts))) = (if dir = Reverse then concat (map gflat (take i ts)) else [])"
    by (subst filter_cong [OF refl pre]) auto
  also have "filter ?in (concat (map gflat (drop (Suc i) ts))) = (if dir = Forward then concat (map gflat (drop (Suc i) ts)) else [])"
    by (subst filter_cong [OF refl post]) auto
  finally show ?thesis
    by (cases dir) (simp_all add: entered_def trees_rest_def rev_concat rev_map comp_def)
qed

lemma seek_from_ok:
  "gok S s t \<Longrightarrow> elk = None \<or> elk = Some (glast t) \<and> gents t \<noteq> [] \<Longrightarrow> sorted_wrt (<) (map fst (gflat t)) \<Longrightarrow>
     frames_hold S s (sc_dir sc) (sc_stack sc) es \<Longrightarrow>
     (sc_stack sc \<noteq> [] \<Longrightarrow> sc_dir sc = Forward \<Longrightarrow> within_exit b Reverse (glast t)) \<Longrightarrow>
     \<exists>sc'. seek_from S s b (ghash t) (glevel t) elk sc = Inr sc' \<and> same_scan sc sc' \<and>
       (sc_done sc' \<and> sc_stack sc = [] \<and> entered (sc_dir sc) b (gflat t) = [] \<or>
        sc_done sc' = sc_done sc \<and> holds S s sc' (entered (sc_dir sc) b (gflat t) @ es))"
proof (induction t arbitrary: elk sc es)
  case (GLeaf h kvs)
  have rd: "read_node S s h 0 elk None = Inr (Leaf kvs)"
    using read_gstored [OF gok_gstored [OF GLeaf.prems(1)] GLeaf.prems(2), of None] by simp
  show ?case using GLeaf.prems(3,4) seek_pos_ok [of kvs "sc_dir sc" b]
    by (subst ghash.simps, subst glevel.simps, subst seek_from.simps) (auto simp: rd same_scan_def holds_def)
next
  case (GNode h ts)
  let ?t = "GNode h ts" and ?dir = "sc_dir sc"
  let ?i = "seek_idx ?dir b (map gref ts)"
  have ne: "ts \<noteq> []" using gok_gstored [OF GNode.prems(1)] by (auto simp: gstored_def wf_entries_def)
  have rd: "read_node S s h (glevel ?t) elk None = Inr (Inner (map gref ts))"
    using read_gstored [OF gok_gstored [OF GNode.prems(1)] GNode.prems(2), of None] by simp
  have kids: "\<forall>u \<in> set ts. gok S s u \<and> glevel u = glevel ?t - 1 \<and> gents u \<noteq> []" using GNode.prems(1) by auto
  have so: "sorted_wrt (<) (map fst (concat (map gflat ts)))" using GNode.prems(3) by simp
  show ?case
  proof (cases "?dir = Forward \<and> seek_split ?dir b (map gref ts) = length ts")
    case True
    have out: "\<not> within_exit b Reverse (fst e)" if e: "e \<in> set (concat (map gflat ts))" for e
    proof -
      obtain j where j: "j < length ts" "fst e \<le> glast (ts ! j)"
        using flat_le_glast_nth [OF _ so, of S s "length ts" e] e kids by auto
      then show ?thesis
        using seek_idx_before [of j ?dir b "map gref ts" "fst e"] True j by (auto simp: gref_def seek_idx_def)
    qed
    then have none: "entered ?dir b (gflat ?t) = []" using True by (simp add: entered_def filter_empty_conv)
    have "sc_stack sc = []"
    proof (rule ccontr)
      assume "sc_stack sc \<noteq> []"
      then have "within_exit b Reverse (glast ?t)" using GNode.prems(5) True by blast
      moreover obtain e where "e \<in> set (gflat ?t)" "glast ?t = fst e" using glast_mem [OF GNode.prems(1)] ne by auto
      ultimately show False using out [of e] by simp
    qed
    with none show ?thesis using True unfolding ghash.simps seek_from.simps [of S s b h] rd
      by (auto simp: same_scan_def)
  next
    case False
    have i: "?i < length ts" using False ne seek_idx_less [of "map gref ts" ?dir b] by simp
    let ?u = "ts ! ?i"
    have u: "?u \<in> set ts" using i by simp
    define f where "f = \<lparr>fr_refs = map gref ts, fr_idx = ?i, fr_child_level = glevel ?t - 1\<rparr>"
    have "frame_ok S s f ts" using kids i by (auto simp: frame_ok_def f_def)
    then have hold: "frames_hold S s ?dir (f # sc_stack sc) (trees_rest ?dir ?i ts @ es)"
      using GNode.prems(4) unfolding frames_hold.simps by (intro exI [of _ ts] exI [of _ es]) (simp add: f_def)
    have step: "seek_from S s b h (glevel ?t) elk sc =
        seek_from S s b (ghash ?u) (glevel ?u) (Some (glast ?u)) (sc\<lparr>sc_stack := f # sc_stack sc\<rparr>)"
    proof -
      have "(case ?dir of Forward \<Rightarrow> seek_split ?dir b (map gref ts)
          | Reverse \<Rightarrow> min (seek_split ?dir b (map gref ts)) (length (map gref ts) - 1)) = ?i"
        by (simp add: seek_idx_def)
      then show ?thesis
        unfolding seek_from.simps [of S s b h] rd using False i kids u
        by (auto simp: f_def Let_def gref_def simp del: glevel.simps)
    qed
    have in_u: "within_exit b Reverse (glast ?u)" if F: "?dir = Forward"
      using F partition_point_at [of "\<lambda>r. last_key r < _" "map gref ts"]
        partition_point_at [of "\<lambda>r. last_key r \<le> _" "map gref ts"] i
      by (cases b) (auto simp: seek_idx_def gref_def not_less not_le)
    have "sorted_wrt (<) (map fst (gflat ?u))"
      using sorted_concat_parts(1) [of "take ?i ts" ?u "drop (Suc ?i) ts"] so id_take_nth_drop [OF i] by simp
    then obtain sc' where sc':
      "seek_from S s b (ghash ?u) (glevel ?u) (Some (glast ?u)) (sc\<lparr>sc_stack := f # sc_stack sc\<rparr>) = Inr sc'"
      "same_scan sc sc'" "sc_done sc' = sc_done sc"
      "holds S s sc' (entered ?dir b (gflat ?u) @ trees_rest ?dir ?i ts @ es)"
      using GNode.IH [OF u, of "Some (glast ?u)" "sc\<lparr>sc_stack := f # sc_stack sc\<rparr>" "trees_rest ?dir ?i ts @ es"]
        hold kids u in_u by (auto simp: same_scan_def)
    have "entered ?dir b (gflat ?t) = entered ?dir b (gflat ?u) @ trees_rest ?dir ?i ts"
      using entered_node [OF _ so refl i, of S s] kids by auto
    then show ?thesis using step sc' by auto
  qed
qed

definition in_range :: "bound \<Rightarrow> bound \<Rightarrow> bytes \<Rightarrow> bool" where
  "in_range start stop k \<longleftrightarrow> within_exit start Reverse k \<and> within_exit stop Forward k"

lemma within_exit_closed: "dless dir x y \<Longrightarrow> within_exit b dir y \<Longrightarrow> within_exit b dir x"
  by (cases dir; cases b) auto

lemma sorted_in_order: "sorted_wrt (<) (map fst es) \<Longrightarrow> sorted_wrt (dless dir) (map fst (in_order dir es))"
  by (cases dir) (auto simp: sorted_wrt_rev rev_map [symmetric] dless_fun)

lemma seek_ok:
  assumes "intact S s kvs r"
  shows "\<exists>sc. seek S s r entry exit dir = Inr sc \<and> (\<forall>n. scan_take S s n sc =
    map Inr (take n (in_order dir (filter (\<lambda>e. within_exit entry (opposite dir) (fst e) \<and> within_exit exit dir (fst e)) kvs))))"
proof -
  obtain t where t: "gok S s t" "glevel t = top_level r" "ghash t = root_hash r" "gflat t = kvs"
    by (rule intact_tree [OF assms])
  note so = intact_sorted [OF assms]
  let ?sc = "\<lparr>sc_stack = [], sc_leaf = [], sc_pos = 0, sc_exit = exit, sc_dir = dir, sc_prev_key = None,
        sc_done = False\<rparr>"
  let ?es = "entered dir entry kvs"
  obtain sc where sc: "seek S s r entry exit dir = Inr sc" "same_scan ?sc sc"
    "sc_done sc \<and> ?es = [] \<or> \<not> sc_done sc \<and> holds S s sc ?es"
    using seek_from_ok [OF t(1), of None ?sc "[]" entry] so t(2-4) by (auto simp: seek_def)
  have dir: "sc_dir sc = dir" "sc_exit sc = exit" "sc_prev_key sc = None" using sc(2) by (simp_all add: same_scan_def)
  have sorted: "sorted_wrt (dless dir) (map fst ?es)"
    unfolding entered_def by (rule sorted_in_order) (use so in \<open>auto simp: sorted_wrt_map sorted_wrt_filter\<close>)
  have "takeWhile (\<lambda>e. within_exit exit dir (fst e)) ?es = filter (\<lambda>e. within_exit exit dir (fst e)) ?es"
    using takeWhile_eq_filter_sorted [OF sorted, of "within_exit exit dir"] within_exit_closed by blast
  also have "\<dots> = in_order dir (filter (\<lambda>e. within_exit entry (opposite dir) (fst e) \<and> within_exit exit dir (fst e)) kvs)"
    by (cases dir) (auto simp: entered_def rev_filter conj_commute)
  finally have tw: "takeWhile (\<lambda>e. within_exit exit dir (fst e)) ?es =
    in_order dir (filter (\<lambda>e. within_exit entry (opposite dir) (fst e) \<and> within_exit exit dir (fst e)) kvs)" .
  have "scan_take S s n sc = map Inr (take n (takeWhile (\<lambda>e. within_exit exit dir (fst e)) ?es))" for n
  proof (cases "sc_done sc")
    case True
    then have "scan_take S s n sc = []" by (cases n) (simp_all add: scan_next.simps)
    with True sc(3) show ?thesis by simp
  next
    case False
    with sc(3) have "holds S s sc ?es" by blast
    from scan_take_ok [OF this False, of n] sorted dir show ?thesis by (simp add: ordered_def)
  qed
  with sc(1) tw show ?thesis by simp
qed

section \<open>Hostile trees\<close>

text \<open>Whatever the store holds, a call of \<^verbatim>\<open>next\<close> yields a key beyond the last one and within the exit
  bound, or an error after which the scan is over.\<close>

lemma descend_edge_same: "descend_edge S s h k l sc = Inr sc' \<Longrightarrow> same_scan sc sc'"
proof (induction S s h k l sc rule: descend_edge.induct)
  case (1 S s h k l sc)
  from "1.prems" obtain node where n: "read_node S s h l (Some k) None = Inr node"
    by (subst (asm) descend_edge.simps) (cases "read_node S s h l (Some k) None"; auto)
  show ?case
  proof (cases node)
    case (Leaf entries)
    with "1.prems" n show ?thesis by (subst (asm) descend_edge.simps) (auto simp: same_scan_def)
  next
    case (Inner refs)
    with 1 n show ?thesis by (subst (asm) (2) descend_edge.simps) (auto simp: Let_def same_scan_def)
  qed
qed

lemma advance_leaf_same: "advance_leaf S s sc = Inr (b, sc') \<Longrightarrow> same_scan sc sc'"
  by (auto simp: advance_leaf_def Let_def rbind_Inr_iff same_scan_def split: list.splits dest!: descend_edge_same)

lemma take_from_leaf_same: "take_from_leaf sc = (e, sc') \<Longrightarrow> same_scan sc sc'"
  by (auto simp: take_from_leaf_def same_scan_def split: direction.splits if_splits)

fun stepped :: "scan_state \<Rightarrow> (prolly_error + bytes \<times> bytes) option \<times> scan_state \<Rightarrow> bool" where
  "stepped sc (None, sc') \<longleftrightarrow> True"
| "stepped sc (Some (Inl e), sc') \<longleftrightarrow> sc_done sc'"
| "stepped sc (Some (Inr (k, v)), sc') \<longleftrightarrow> within_exit (sc_exit sc) (sc_dir sc) k \<and>
     (\<forall>p. sc_prev_key sc = Some p \<longrightarrow> dless (sc_dir sc) p k) \<and>
     sc_dir sc' = sc_dir sc \<and> sc_exit sc' = sc_exit sc \<and> sc_prev_key sc' = Some k"

lemma stepped_same: "same_scan sc sc1 \<Longrightarrow> stepped sc1 r \<Longrightarrow> stepped sc r"
  by (cases "(sc, r)" rule: stepped.cases) (auto simp: same_scan_def)

lemma check_monotonic_Inr:
  "check_monotonic sc k = Inr () \<Longrightarrow> sc_prev_key sc = Some p \<Longrightarrow> dless (sc_dir sc) p k"
  by (cases "sc_dir sc") (auto simp: check_monotonic_def split: if_splits)

lemma scan_next_stepped: "stepped sc (scan_next S s sc)"
proof (induction S s sc rule: scan_next.induct)
  case (1 S s sc)
  show ?case
  proof (cases "sc_done sc")
    case False
    obtain e sc1 where t: "take_from_leaf sc = (e, sc1)" by fastforce
    have same: "same_scan sc sc1" using take_from_leaf_same [OF t] .
    show ?thesis
    proof (cases e)
      case (Some kv)
      have "stepped sc1 (scan_next S s sc)" if "check_monotonic sc1 (fst kv) = Inr ()"
        using t False Some that check_monotonic_Inr [OF that] same
        by (cases kv) (auto simp: scan_next.simps [of S s sc] same_scan_def)
      moreover have "stepped sc1 (scan_next S s sc)" if "check_monotonic sc1 (fst kv) = Inl er" for er
        using t False Some that by (cases kv) (auto simp: scan_next.simps [of S s sc])
      ultimately have "stepped sc1 (scan_next S s sc)" by (cases "check_monotonic sc1 (fst kv)") auto
      then show ?thesis using stepped_same [OF same] by blast
    next
      case None
      show ?thesis
      proof (cases "advance_leaf S s sc1")
        case (Inl er)
        with t None False show ?thesis by (simp add: scan_next.simps [of S s sc])
      next
        case (Inr r)
        obtain b sc2 where r: "r = (b, sc2)" by (cases r)
        have same2: "same_scan sc sc2"
          using same advance_leaf_same [of S s sc1 b sc2] Inr r by (simp add: same_scan_def)
        show ?thesis
        proof (cases b)
          case True
          then have "scan_next S s sc = scan_next S s sc2"
            using t None False Inr r by (simp add: scan_next.simps [of S s sc])
          moreover have "stepped sc2 (scan_next S s sc2)"
            by (rule 1 [OF False t [symmetric] None Inr r [symmetric]]) (simp add: True)
          ultimately show ?thesis using stepped_same [OF same2] by simp
        qed (use t None False Inr r in \<open>simp add: scan_next.simps [of S s sc]\<close>)
      qed
    qed
  qed (simp add: scan_next.simps)
qed

fun oks :: "('e + 'a) list \<Rightarrow> 'a list" where
  "oks [] = []"
| "oks (Inl e # xs) = oks xs"
| "oks (Inr x # xs) = x # oks xs"

lemma scan_take_stepped:
  "sorted_wrt (dless (sc_dir sc)) (map fst (oks (scan_take S s n sc))) \<and>
   (\<forall>e \<in> set (oks (scan_take S s n sc)). within_exit (sc_exit sc) (sc_dir sc) (fst e) \<and>
      (\<forall>p. sc_prev_key sc = Some p \<longrightarrow> dless (sc_dir sc) p (fst e))) \<and>
   (\<forall>i e. i < length (scan_take S s n sc) \<longrightarrow> scan_take S s n sc ! i = Inl e \<longrightarrow>
      Suc i = length (scan_take S s n sc))"
proof (induction n arbitrary: sc)
  case (Suc n)
  obtain r sc' where r: "scan_next S s sc = (r, sc')" by fastforce
  have st: "stepped sc (r, sc')" using scan_next_stepped [of sc S s] r by simp
  have trans: "dless d a b \<Longrightarrow> dless d b c \<Longrightarrow> dless d a c" for d a b c by (cases d) auto
  show ?case
  proof (cases "(sc, r, sc')" rule: stepped.cases)
    case (2 sc1 e sc2)
    then have "scan_take S s n sc' = []" using st by (cases n) (auto simp: scan_next.simps)
    with 2 r show ?thesis by (auto simp: nth_Cons')
  next
    case (3 sc1 k v sc2)
    with st Suc.IH [of sc'] r show ?thesis
      by (auto simp: nth_Cons split: nat.splits intro: trans)
  qed (use r in simp)
qed simp

section \<open>Properties\<close>

text \<open>C15. A forward scan of an intact root opens without an error and its calls yield exactly the pairs
  whose key is in range, in ascending order, then nothing; a reverse scan yields the same pairs in
  descending order.\<close>

theorem scan_yields_range:
  assumes "intact S s kvs r"
  shows "(\<exists>sc. scan S s r start stop = Inr sc \<and>
      (\<forall>n. scan_take S s n sc = map Inr (take n (filter (\<lambda>e. in_range start stop (fst e)) kvs)))) \<and>
    (\<exists>sc. scan_rev S s r start stop = Inr sc \<and>
      (\<forall>n. scan_take S s n sc = map Inr (take n (rev (filter (\<lambda>e. in_range start stop (fst e)) kvs)))))"
  using seek_ok [OF assms, of start stop Forward] seek_ok [OF assms, of stop start Reverse]
  by (simp add: scan_def scan_rev_def in_range_def conj_commute)

theorem scan_yields_range_witness:
  "(\<exists>sc. scan_rev (mem_store 1000) five_objs five_root (Excluded [1]) (Included [4]) = Inr sc \<and>
     scan_take (mem_store 1000) five_objs 9 sc = [Inr ([4], [40]), Inr ([3], [30]), Inr ([2], [20])])"
  using scan_yields_range [OF canon_intact [OF five_canon], of "Excluded [1]" "Included [4]"]
  by (auto simp: five_def in_range_def)

text \<open>C16. On any store, however damaged or forged, a scan never yields keys out of order, twice or
  beyond its exit bound: the pairs it yields are strictly ordered in its direction and within the
  bound, and an error is the last thing it yields.\<close>

theorem scan_never_disordered:
  "sorted_wrt (dless (sc_dir sc)) (map fst (oks (scan_take S s n sc))) \<and>
   list_all (\<lambda>e. within_exit (sc_exit sc) (sc_dir sc) (fst e)) (oks (scan_take S s n sc)) \<and>
   (let xs = scan_take S s n sc in list_all (\<lambda>x. \<not> isl x) (butlast xs))"
proof -
  let ?xs = "scan_take S s n sc"
  have "\<not> isl x" if "x \<in> set (butlast ?xs)" for x
  proof -
    from that obtain i where i: "i < length (butlast ?xs)" "?xs ! i = x" by (auto simp: in_set_conv_nth nth_butlast)
    have "\<forall>i e. i < length ?xs \<longrightarrow> ?xs ! i = Inl e \<longrightarrow> Suc i = length ?xs"
      using scan_take_stepped [of sc S s n] by blast
    moreover have "i < length ?xs" "Suc i \<noteq> length ?xs" using i(1) by auto
    ultimately have "?xs ! i \<noteq> Inl e" for e by metis
    then show ?thesis using i(2) by (cases x) auto
  qed
  then show ?thesis using scan_take_stepped [of sc S s n] by (auto simp: Let_def list_all_iff)
qed

end
