(* ===== verification/Prolly_Walk.thy ===== *)
theory Prolly_Walk
  imports Prolly_Diff
begin

text \<open>
  Chunk enumeration (\<^verbatim>\<open>crates/acetone-prolly/src/walk.rs\<close>). A commit anchors the chunks of every map it
  references, and what is not anchored is pruned. The theorem says that the enumerated set is the least
  one whose chunks keep the map.
\<close>

section \<open>The walk\<close>

text \<open>The frontier is a stack, its top first; the accumulator is a \<^verbatim>\<open>BTreeSet\<close>.\<close>

type_synonym walk_frontier = "(hash \<times> nat \<times> bytes option) list"

fun enqueue :: "nat \<Rightarrow> node_ref list \<Rightarrow> walk_frontier \<Rightarrow> hash set \<Rightarrow> walk_frontier \<times> hash set" where
  "enqueue level [] frontier out = (frontier, out)"
| "enqueue level (r # refs) frontier out =
     enqueue level refs
       (if ref_hash r \<notin> out \<and> 1 < level then (ref_hash r, level - 1, Some (last_key r)) # frontier else frontier)
       (insert (ref_hash r) out)"

lemma enqueue_levels:
  "enqueue level refs frontier out = (frontier', out') \<Longrightarrow>
     \<exists>new. frontier' = new @ frontier \<and> (\<forall>x \<in> set new. Suc (fst (snd x)) = level)"
proof (induction refs arbitrary: frontier out)
  case (Cons r refs)
  from Cons.IH [OF Cons.prems [unfolded enqueue.simps]] show ?case
    by (auto split: if_splits)
qed simp

function collect_from ::
  "'s store_ops \<Rightarrow> 's \<Rightarrow> walk_frontier \<Rightarrow> hash set \<Rightarrow> prolly_error + hash set" where
  "collect_from S s frontier out = (case frontier of
       [] \<Rightarrow> Inr out
     | (h, level, claim) # rest \<Rightarrow>
         rbind (read_node S s h level claim None) (\<lambda>node. case node of
             Leaf _ \<Rightarrow> Inl Unreachable
           | Inner refs \<Rightarrow> (case enqueue level refs rest out of
               (frontier, out) \<Rightarrow> collect_from S s frontier out)))"
  by pat_completeness auto
termination
proof (relation "inv_image (mult {(x, y). x < (y :: nat)}) (\<lambda>(S, s, frontier, out). mset (map (fst \<circ> snd) frontier))",
    goal_cases)
  case 1
  have "wf {(x, y). x < (y :: nat)}" by (rule wf)
  then show ?case by (intro wf_inv_image wf_mult)
next
  case (2 S s frontier out x rest h y level claim node refs frontier' out')
  obtain new where new: "frontier' = new @ rest" "\<forall>x \<in> set new. Suc (fst (snd x)) = level"
    using 2(6) enqueue_levels [of level refs rest out frontier' out'] by auto
  then have "\<forall>x \<in># mset (map (fst \<circ> snd) new). x < level" by auto
  from rank_replaced [OF this, of "mset (map (fst \<circ> snd) rest)"] new(1) 2(1)
  show ?case by (simp add: union_commute flip: 2(2,3))
qed

declare collect_from.simps [simp del]

definition collect_reachable_chunks ::
  "'s store_ops \<Rightarrow> 's \<Rightarrow> root \<Rightarrow> hash set \<Rightarrow> prolly_error + hash set" where
  "collect_reachable_chunks S s root out =
     (if root_hash root \<in> out then Inr out
      else collect_from S s
        (if 0 < top_level root then [(root_hash root, top_level root, None)] else [])
        (insert (root_hash root) out))"

definition reachable_chunks :: "'s store_ops \<Rightarrow> 's \<Rightarrow> root \<Rightarrow> prolly_error + hash list" where
  "reachable_chunks S s root =
     rbind (collect_reachable_chunks S s root {}) (\<lambda>set. Inr (sorted_list_of_set set))"

section \<open>What it collects\<close>

fun gsubs :: "gtree \<Rightarrow> gtree list" where
  "gsubs (GLeaf h es) = [GLeaf h es]"
| "gsubs (GNode h ts) = GNode h ts # concat (map gsubs ts)"

fun gkids :: "gtree \<Rightarrow> gtree list" where
  "gkids (GLeaf h es) = []"
| "gkids (GNode h ts) = ts"

definition ghashes :: "gtree \<Rightarrow> hash set" where
  "ghashes t = ghash ` set (gsubs t)"

lemma gsubs_self [simp]: "t \<in> set (gsubs t)"
  by (cases t) auto

lemma ghashes_node: "ghashes t = insert (ghash t) (\<Union>c \<in> set (gkids t). ghashes c)"
  by (cases t) (auto simp: ghashes_def)

lemma ghash_in_ghashes [simp]: "ghash t \<in> ghashes t"
  by (subst ghashes_node) simp

lemma gsubs_ok: "gok S s t \<Longrightarrow> u \<in> set (gsubs t) \<Longrightarrow> gok S s u"
  by (induction t) auto

lemma gsubs_kid: "u \<in> set (gsubs t) \<Longrightarrow> c \<in> set (gkids u) \<Longrightarrow> c \<in> set (gsubs t)"
proof (induction t)
  case (GNode h ts)
  show ?case
  proof (cases "u = GNode h ts")
    case True
    with GNode.prems(2) have "c \<in> set ts" by simp
    then show ?thesis by (auto intro!: bexI [of _ c])
  qed (use GNode in auto)
qed auto

lemma nodes_at_gsubs: "set (nodes_at k t) \<subseteq> set (gsubs t)"
  by (induction t) (auto simp: subset_iff)

text \<open>A set of hashes is closed up to some pending trees when it holds the children of each of its
  stored trees that is not pending.\<close>

definition closed_but :: "'s store_ops \<Rightarrow> 's \<Rightarrow> gtree set \<Rightarrow> hash set \<Rightarrow> bool" where
  "closed_but S s pending out \<longleftrightarrow>
     (\<forall>u. gok S s u \<longrightarrow> ghash u \<in> out \<longrightarrow> u \<notin> pending \<longrightarrow> ghash ` set (gkids u) \<subseteq> out)"

lemma closed_all: "closed_but S s {} out \<Longrightarrow> gok S s t \<Longrightarrow> ghash t \<in> out \<Longrightarrow> ghashes t \<subseteq> out"
proof (induction t)
  case (GNode h ts)
  have "ghash ` set (gkids (GNode h ts)) \<subseteq> out"
    using GNode.prems unfolding closed_but_def by blast
  then have "ghashes c \<subseteq> out" if "c \<in> set ts" for c using GNode that by auto
  then show ?case using GNode.prems(3) by (subst ghashes_node) auto
qed (simp add: ghashes_def)

definition pending_ok :: "'s store_ops \<Rightarrow> 's \<Rightarrow> hash \<times> nat \<times> bytes option \<Rightarrow> gtree \<Rightarrow> bool" where
  "pending_ok S s x t \<longleftrightarrow> gok S s t \<and> (case x of (h, level, claim) \<Rightarrow>
     ghash t = h \<and> glevel t = level \<and> 0 < level \<and> (claim = None \<or> claim = Some (glast t) \<and> gents t \<noteq> []))"

lemma enqueue_ok:
  assumes "list_all2 (pending_ok S s) frontier us" "closed_but S s (insert t (set us)) out"
    and "\<forall>c \<in> set ts. gok S s c \<and> Suc (glevel c) = level \<and> gents c \<noteq> []"
    and "enqueue level (map gref ts) frontier out = (frontier', out')"
  shows "out' = out \<union> ghash ` set ts \<and> (\<exists>us'. list_all2 (pending_ok S s) frontier' us' \<and>
    closed_but S s (insert t (set us')) out' \<and> set us' \<subseteq> set us \<union> set ts)"
  using assms
proof (induction ts arbitrary: frontier us out)
  case (Cons c ts)
  let ?new = "ghash c \<notin> out \<and> 1 < level"
  let ?us = "if ?new then c # us else us"
  have c: "gok S s c" "Suc (glevel c) = level" "gents c \<noteq> []" using Cons.prems(3) by auto
  have "list_all2 (pending_ok S s)
      (if ?new then (ref_hash (gref c), level - 1, Some (last_key (gref c))) # frontier else frontier) ?us"
  proof (cases ?new)
    case True
    then have "pending_ok S s (ref_hash (gref c), level - 1, Some (last_key (gref c))) c"
      using c by (auto simp: pending_ok_def gref_def)
    with True Cons.prems(1) show ?thesis by simp
  next
    case False
    then show ?thesis using Cons.prems(1) by (simp only: if_False)
  qed
  moreover have "closed_but S s (insert t (set ?us)) (insert (ghash c) out)"
    unfolding closed_but_def
  proof (intro allI impI)
    fix u
    assume u: "gok S s u" "ghash u \<in> insert (ghash c) out" "u \<notin> insert t (set ?us)"
    show "ghash ` set (gkids u) \<subseteq> insert (ghash c) out"
    proof (cases "ghash u \<in> out")
      case True
      then show ?thesis using Cons.prems(2) u by (auto simp: closed_but_def split: if_splits)
    next
      case False
      with u have "u = c" using gtree_unique c(1) by auto
      with u(3) False c have "glevel u = 0" by (auto split: if_splits)
      then show ?thesis by (cases u) auto
    qed
  qed
  ultimately show ?case
    using Cons.IH [of "if ?new then (ref_hash (gref c), level - 1, Some (last_key (gref c))) # frontier else frontier"
        ?us "insert (ghash c) out"] Cons.prems(3,4)
    by (auto simp: gref_def split: if_splits)
qed auto

lemma collect_from_ok:
  "list_all2 (pending_ok S s) frontier us \<Longrightarrow> closed_but S s (set us) out \<Longrightarrow>
     \<exists>out'. collect_from S s frontier out = Inr out' \<and> closed_but S s {} out' \<and> out \<subseteq> out' \<and>
       out' \<subseteq> out \<union> (\<Union>u \<in> set us. ghashes u)"
proof (induction S s frontier out arbitrary: us rule: collect_from.induct)
  case (1 S s frontier out)
  show ?case
  proof (cases frontier)
    case Nil
    with "1.prems" show ?thesis by (auto simp: collect_from.simps)
  next
    case (Cons x rest)
    obtain h level claim where x: "x = (h, level, claim)" by (cases x)
    from "1.prems"(1) Cons obtain t us0 where us: "us = t # us0" "pending_ok S s x t"
      "list_all2 (pending_ok S s) rest us0" by (auto simp: list_all2_Cons1)
    then obtain ts where t: "t = GNode h ts" "gok S s t" "glevel t = level"
      "claim = None \<or> claim = Some (glast t) \<and> gents t \<noteq> []"
      by (cases t) (auto simp: pending_ok_def x)
    have rd: "read_node S s h level claim None = Inr (Inner (map gref ts))"
      using read_gstored [OF gok_gstored [OF t(2)], of claim None] t by simp
    obtain frontier' out1 where e: "enqueue level (map gref ts) rest out = (frontier', out1)" by fastforce
    have kids: "\<forall>c \<in> set ts. gok S s c \<and> Suc (glevel c) = level \<and> gents c \<noteq> []" using t(1-3) by auto
    have "closed_but S s (insert t (set us0)) out" using "1.prems"(2) us(1) by simp
    from enqueue_ok [OF us(3) this kids e] obtain us' where
      o: "out1 = out \<union> ghash ` set ts" and us': "list_all2 (pending_ok S s) frontier' us'"
      "closed_but S s (insert t (set us')) out1" "set us' \<subseteq> set us0 \<union> set ts" by blast
    have "closed_but S s (set us') out1"
      unfolding closed_but_def
    proof (intro allI impI)
      fix u
      assume "gok S s u" "ghash u \<in> out1" "u \<notin> set us'"
      then show "ghash ` set (gkids u) \<subseteq> out1"
        using us'(2) o t(1) unfolding closed_but_def by (cases "u = t") auto
    qed
    then obtain out' where out': "collect_from S s frontier' out1 = Inr out'" "closed_but S s {} out'"
      "out1 \<subseteq> out'" "out' \<subseteq> out1 \<union> (\<Union>u \<in> set us'. ghashes u)"
      using "1.IH" [OF Cons sym [OF x] refl rd refl sym [OF e] us'(1)] by blast
    have "ghash ` set ts \<subseteq> ghashes t" "(\<Union>u \<in> set us'. ghashes u) \<subseteq> ghashes t \<union> (\<Union>u \<in> set us0. ghashes u)"
      using us'(3) ghashes_node [of t] ghash_in_ghashes unfolding t(1) by fastforce+
    then have "out1 \<union> (\<Union>u \<in> set us'. ghashes u) \<subseteq> out \<union> (ghashes t \<union> (\<Union>u \<in> set us0. ghashes u))"
      unfolding o by (intro Un_least) (simp_all add: le_supI1 le_supI2)
    then have "out' \<subseteq> out \<union> (\<Union>u \<in> set us. ghashes u)" using order_trans [OF out'(4)] us(1) by simp
    moreover have "collect_from S s frontier out = Inr out'"
      using Cons x rd e out'(1) by (subst collect_from.simps) simp
    ultimately show ?thesis using out'(2,3) o by auto
  qed
qed

text \<open>An accumulator may be shared between roots: the walk adds exactly the root's own chunks.\<close>

lemma collect_reachable_ok:
  assumes "gok S s t" "glevel t = top_level r" "ghash t = root_hash r" "closed_but S s {} out"
  shows "collect_reachable_chunks S s r out = Inr (out \<union> ghashes t) \<and> closed_but S s {} (out \<union> ghashes t)"
proof (cases "root_hash r \<in> out")
  case True
  with closed_all [OF assms(4,1)] assms(3,4) show ?thesis
    by (simp add: collect_reachable_chunks_def Un_absorb2)
next
  case False
  let ?us = "if 0 < top_level r then [t] else []"
  let ?f = "if 0 < top_level r then [(root_hash r, top_level r, None)] else []"
  have "list_all2 (pending_ok S s) ?f ?us" using assms by (simp add: pending_ok_def)
  moreover have "closed_but S s (set ?us) (insert (root_hash r) out)"
    unfolding closed_but_def
  proof (intro allI impI)
    fix u
    assume u: "gok S s u" "ghash u \<in> insert (root_hash r) out" "u \<notin> set ?us"
    show "ghash ` set (gkids u) \<subseteq> insert (root_hash r) out"
    proof (cases "ghash u = root_hash r")
      case True
      then have "u = t" using gtree_unique [OF u(1) assms(1)] assms(3) by simp
      with u(3) assms(2) have "glevel u = 0" by (auto split: if_splits)
      then show ?thesis by (cases u) auto
    qed (use u assms(4) in \<open>auto simp: closed_but_def\<close>)
  qed
  ultimately obtain out' where out': "collect_from S s ?f (insert (root_hash r) out) = Inr out'"
    "closed_but S s {} out'" "insert (root_hash r) out \<subseteq> out'"
    "out' \<subseteq> insert (root_hash r) out \<union> (\<Union>u \<in> set ?us. ghashes u)"
    using collect_from_ok [of S s ?f ?us "insert (root_hash r) out"] by blast
  have "ghashes t \<subseteq> out'" using closed_all [OF out'(2) assms(1)] out'(3) assms(3) by auto
  moreover have "root_hash r \<in> ghashes t" using assms(3) by (subst ghashes_node) simp
  ultimately have "out' = out \<union> ghashes t" using out'(3,4) by (auto split: if_splits)
  then show ?thesis using out'(1,2) False by (simp add: collect_reachable_chunks_def)
qed

section \<open>Pruned stores\<close>

text \<open>The store after a collection that keeps only some chunks.\<close>

definition pruned :: "'s store_ops \<Rightarrow> hash set \<Rightarrow> 's store_ops" where
  "pruned S keep = S\<lparr>st_get := \<lambda>s h. if h \<in> keep then st_get S s h else Inr None\<rparr>"

lemma st_get_pruned [simp]: "st_get (pruned S keep) s h = (if h \<in> keep then st_get S s h else Inr None)"
  by (simp add: pruned_def)

lemma gstored_pruned: "gstored (pruned S keep) s t \<longleftrightarrow> gstored S s t \<and> ghash t \<in> keep"
  by (auto simp: gstored_def)

lemma gok_pruned: "gok (pruned S keep) s t \<longleftrightarrow> gok S s t \<and> ghashes t \<subseteq> keep"
proof (induction t)
  case (GNode h ts)
  have "ghashes (GNode h ts) \<subseteq> keep \<longleftrightarrow> h \<in> keep \<and> (\<forall>t \<in> set ts. ghashes t \<subseteq> keep)"
    by (subst ghashes_node) auto
  with GNode show ?case by (auto simp: gstored_pruned)
qed (simp add: gstored_pruned ghashes_def)

lemma canon_root_pruned:
  assumes "canon_root S addr s kvs r" "gok S s t" "ghash t = root_hash r"
  shows "canon_root (pruned S keep) addr s kvs' r \<longleftrightarrow> kvs' = kvs \<and> ghashes t \<subseteq> keep"
proof
  assume "canon_root (pruned S keep) addr s kvs' r"
  then obtain u where u: "gok (pruned S keep) s u" "ghash u = root_hash r" "gflat u = kvs'"
    by (auto elim: intact_tree dest: canon_intact)
  with gtree_unique [of S s u t] assms(2,3) have "u = t" by (simp add: gok_pruned)
  moreover obtain v where "gok S s v" "ghash v = root_hash r" "gflat v = kvs"
    by (rule intact_tree [OF canon_intact [OF assms(1)]])
  moreover from this have "v = t" using gtree_unique [OF _ assms(2), of v] assms(3) by simp
  ultimately show "kvs' = kvs \<and> ghashes t \<subseteq> keep" using u by (simp add: gok_pruned)
next
  assume k: "kvs' = kvs \<and> ghashes t \<subseteq> keep"
  have "addr (node_bytes l c) \<in> keep" if l: "l \<le> top_level r" "c \<in> set (lchunks addr (root_params r) kvs l)" for l c
  proof (cases "kvs = []")
    case True
    with assms(1) have "top_level r = 0" by (simp add: canon_root_def Let_def)
    with l assms(1) have "addr (node_bytes l c) = root_hash r"
      by (auto simp: canon_root_def Let_def length_Suc_conv)
    then show ?thesis using k assms(3) by (subst (asm) ghashes_node) auto
  next
    case False
    obtain u where u: "gok S s u" "gaddr addr u" "ghash u = root_hash r" "glevel u = top_level r"
      "map gents (nodes_at l u) = lchunks addr (root_params r) kvs l"
      using canon_root_tree [OF assms(1) False] l(1) by (auto simp: gt_def)
    have "c \<in> gents ` set (nodes_at l u)" using l(2) u(5) by (simp flip: set_map)
    then obtain n where n: "n \<in> set (nodes_at l u)" "c = gents n" by auto
    have "ghash n = addr (node_bytes l c)"
      using nodes_at_gok [OF u(1) _ n(1)] nodes_at_gaddr [OF u(2) n(1)] l(1) u(4) n(2) gaddr_ghash [of addr n]
      by (simp add: gbytes_def)
    moreover have "ghash n \<in> ghashes u" using nodes_at_gsubs n(1) by (auto simp: ghashes_def)
    moreover have "u = t" using gtree_unique [OF u(1) assms(2)] u(3) assms(3) by simp
    ultimately show ?thesis using k by auto
  qed
  then show "canon_root (pruned S keep) addr s kvs' r"
    using assms(1) k by (auto simp: canon_root_def stored_def Let_def)
qed

lemma sorted_list_of_hashes [simp]:
  "set (sorted_list_of_set (ghashes t)) = ghashes t" "sorted_wrt (<) (sorted_list_of_set (ghashes t))"
  by (simp_all add: ghashes_def)

lemma reachable_chunks_ok:
  assumes "gok S s t" "glevel t = top_level r" "ghash t = root_hash r"
  shows "reachable_chunks S s r = Inr (sorted_list_of_set (ghashes t))"
  using collect_reachable_ok [OF assms, of "{}"] by (simp add: reachable_chunks_def closed_but_def)

section \<open>Properties\<close>

text \<open>C26. The chunks of a root are enumerated without an error, sorted and without repetition, and they
  are exactly what must be kept: a collection that keeps a set of chunks leaves the map readable under
  its root if and only if it keeps all of them.\<close>

theorem reachable_chunks_exact:
  assumes "canon_root S addr s kvs r"
  shows "\<exists>hs. reachable_chunks S s r = Inr hs \<and> sorted_wrt (<) hs \<and>
    (\<forall>keep. canon_root (pruned S keep) addr s kvs r \<longleftrightarrow> set hs \<subseteq> keep)"
proof -
  obtain t where t: "gok S s t" "glevel t = top_level r" "ghash t = root_hash r"
    by (rule intact_tree [OF canon_intact [OF assms]])
  show ?thesis
    using reachable_chunks_ok [OF t] canon_root_pruned [OF assms t(1,3)] by auto
qed

theorem reachable_chunks_exact_witness:
  "\<exists>hs. reachable_chunks (mem_store 1000) five_objs five_root = Inr hs \<and> sorted_wrt (<) hs \<and>
     canon_root (pruned (mem_store 1000) (set hs)) mem_digest five_objs five five_root"
  using reachable_chunks_exact [OF five_canon] by blast

text \<open>Walks that share an accumulator collect the union: enumerating several roots one after the
  other, each walk skipping what the earlier ones collected, gives the chunks each root has alone.\<close>

lemma collect_shared_accumulator:
  assumes "list_all (\<lambda>r. \<exists>kvs. intact S s kvs r) rs"
  shows "\<exists>out. foldl (\<lambda>acc r. rbind acc (collect_reachable_chunks S s r)) (Inr {}) rs = Inr out \<and>
    out = (\<Union>r \<in> set rs. case reachable_chunks S s r of Inr hs \<Rightarrow> set hs | Inl _ \<Rightarrow> {})"
proof -
  have "closed_but S s {} out \<Longrightarrow> list_all (\<lambda>r. \<exists>kvs. intact S s kvs r) rs \<Longrightarrow>
    foldl (\<lambda>acc r. rbind acc (collect_reachable_chunks S s r)) (Inr out) rs =
      Inr (out \<union> (\<Union>r \<in> set rs. case reachable_chunks S s r of Inr hs \<Rightarrow> set hs | Inl _ \<Rightarrow> {}))" for out
  proof (induction rs arbitrary: out)
    case (Cons r rs)
    then obtain t where t: "gok S s t" "glevel t = top_level r" "ghash t = root_hash r"
      by (auto elim: intact_tree)
    show ?case
      using Cons.IH [of "out \<union> ghashes t"] Cons.prems collect_reachable_ok [OF t Cons.prems(1)]
        reachable_chunks_ok [OF t] by (simp add: Un_assoc)
  qed simp
  from this [of "{}"] assms show ?thesis by (simp add: closed_but_def)
qed

end
