(* ===== verification/Prolly_Verify.thy ===== *)
theory Prolly_Verify
  imports Prolly_Scan Prolly_Walk
begin

text \<open>
  The integrity walk (\<^verbatim>\<open>crates/acetone-prolly/src/verify.rs\<close>): every chunk below a root is read and
  checked against its position. The theorems say that an empty report is a proof of integrity, although
  a chunk already expanded is never expanded again, that a sound tree is never reported, and that
  missing chunks are named.
\<close>

section \<open>The walk\<close>

datatype chunk_fault_kind = Missing | Damaged

text \<open>What the human-readable reason of a fault is formatted from.\<close>

datatype fault_reason =
    Undecodable prolly_error
  | Absent
  | Unreturnable store_error
  | LevelTag nat nat
  | EndsElsewhere
  | BelowPosition

record chunk_fault =
  fault_hash :: hash
  fault_kind :: chunk_fault_kind
  fault_reason :: fault_reason

record reference =
  rf_hash :: hash
  rf_level :: nat
  rf_last_key :: "bytes option"
  rf_min_key :: "bytes option"

record inner_node =
  in_level :: nat
  in_children :: "(bytes \<times> hash) list"

definition position_fault ::
  "nat \<Rightarrow> bytes option \<Rightarrow> bytes option \<Rightarrow> reference \<Rightarrow> fault_reason option" where
  "position_fault level first_key got r =
     (if level \<noteq> rf_level r then Some (LevelTag level (rf_level r))
      else if (case rf_last_key r of Some want \<Rightarrow> got \<noteq> Some want | None \<Rightarrow> False) then Some EndsElsewhere
      else if (case (rf_min_key r, first_key) of (Some m, Some first) \<Rightarrow> first \<le> m | _ \<Rightarrow> False)
      then Some BelowPosition
      else None)"

text \<open>The children of a node as references, each bounded by its left neighbour's last key, the first
  by its parent's own bound.\<close>

fun child_references :: "nat \<Rightarrow> bytes option \<Rightarrow> (bytes \<times> hash) list \<Rightarrow> reference list" where
  "child_references level prev [] = []"
| "child_references level prev ((k, h) # children) =
     \<lparr>rf_hash = h, rf_level = level, rf_last_key = Some k, rf_min_key = prev\<rparr> #
       child_references level (Some k) children"

record verify_state =
  vs_faults :: "chunk_fault list"
  vs_cache :: "hash \<rightharpoonup> inner_node"
  vs_reported :: "hash set"

definition push_fault :: "verify_state \<Rightarrow> hash \<Rightarrow> chunk_fault_kind \<Rightarrow> fault_reason \<Rightarrow> verify_state" where
  "push_fault v h k why = v\<lparr>vs_faults := vs_faults v @ [\<lparr>fault_hash = h, fault_kind = k, fault_reason = why\<rparr>]\<rparr>"

definition report_once :: "verify_state \<Rightarrow> hash \<Rightarrow> chunk_fault_kind \<Rightarrow> fault_reason \<Rightarrow> verify_state" where
  "report_once v h k why =
     (if h \<in> vs_reported v then v else push_fault (v\<lparr>vs_reported := insert h (vs_reported v)\<rparr>) h k why)"

text \<open>One turn of the loop: the references it pushes, in stack order, and the new state.\<close>

definition verify_step ::
  "'s store_ops \<Rightarrow> 's \<Rightarrow> reference \<Rightarrow> verify_state \<Rightarrow> reference list \<times> verify_state" where
  "verify_step S s r v = (case vs_cache v (rf_hash r) of
       Some inner \<Rightarrow>
         ([], case position_fault (in_level inner) (map_option fst (first_opt (in_children inner)))
                (map_option fst (last_opt (in_children inner))) r of
            Some why \<Rightarrow> push_fault v (rf_hash r) Damaged why | None \<Rightarrow> v)
     | None \<Rightarrow> (case st_get S s (rf_hash r) of
           Inl e \<Rightarrow> ([], report_once v (rf_hash r) Damaged (Unreturnable e))
         | Inr None \<Rightarrow> ([], report_once v (rf_hash r) Missing Absent)
         | Inr (Some data) \<Rightarrow> (case decode_node_self data of
               Inl e \<Rightarrow> ([], report_once v (rf_hash r) Damaged (Undecodable e))
             | Inr (lv, node) \<Rightarrow> (let level = unat lv in
                 case position_fault level (node_first_key node) (node_last_key node) r of
                   Some why \<Rightarrow> ([], push_fault v (rf_hash r) Damaged why)
                 | None \<Rightarrow> (case node of
                       Leaf _ \<Rightarrow> ([], v)
                     | Inner refs \<Rightarrow> (let children = map (\<lambda>q. (last_key q, ref_hash q)) refs in
                         (rev (child_references (level - 1) (rf_min_key r) children),
                          v\<lparr>vs_cache := (vs_cache v)(rf_hash r \<mapsto>
                              \<lparr>in_level = level, in_children = children\<rparr>)\<rparr>)))))))"

lemma child_references_level: "q \<in> set (child_references level prev cs) \<Longrightarrow> rf_level q = level"
  by (induction level prev cs rule: child_references.induct) auto

text \<open>The decoder takes a chunk as an inner node only under a level tag above zero.\<close>

lemma decode_node_self_Inr:
  "decode_node_self data = Inr (lv, node) \<longleftrightarrow> decode_node data lv = Inr node"
proof -
  have "\<exists>r. data = lv # r" if "decode_node data lv = Inr node"
    using that by (cases data) (auto simp: decode_node_def rbind_Inr_iff take_u8_Inr split: if_splits)
  then show ?thesis
    by (auto simp: decode_node_self_def rbind_Inr_iff ok_or_Inr_iff first_opt_def split: if_splits)
qed

lemma decode_node_level: "decode_node data lv = Inr (Inner refs) \<Longrightarrow> 0 < unat lv"
  by (auto simp: decode_node_def rbind_Inr_iff unat_gt_0 split: if_splits)

lemma verify_step_levels:
  "verify_step S s r v = (new, v') \<Longrightarrow> q \<in> set new \<Longrightarrow> Suc (rf_level q) = rf_level r"
  by (auto simp: verify_step_def position_fault_def Let_def decode_node_self_Inr dest!: child_references_level decode_node_level
      split: option.splits sum.splits node.splits if_splits)

function verify_loop ::
  "'s store_ops \<Rightarrow> 's \<Rightarrow> reference list \<Rightarrow> verify_state \<Rightarrow> verify_state" where
  "verify_loop S s [] v = v"
| "verify_loop S s (r # frontier) v = (case verify_step S s r v of
     (new, v) \<Rightarrow> verify_loop S s (new @ frontier) v)"
  by pat_completeness auto
termination
proof (relation "inv_image (mult {(x, y). x < (y :: nat)}) (\<lambda>(S, s, frontier, v). mset (map rf_level frontier))",
    goal_cases)
  case 1
  have "wf {(x, y). x < (y :: nat)}" by (rule wf)
  then show ?case by (intro wf_inv_image wf_mult)
next
  case (2 S s r frontier v new v')
  have "\<forall>x \<in># mset (map rf_level new). x < rf_level r"
    using verify_step_levels [OF sym [OF 2]] by fastforce
  from rank_replaced [OF this, of "mset (map rf_level frontier)"] show ?case
    by (simp add: union_commute)
qed

definition verify_reachable :: "'s store_ops \<Rightarrow> 's \<Rightarrow> root \<Rightarrow> chunk_fault list" where
  "verify_reachable S s root = vs_faults (verify_loop S s
     [\<lparr>rf_hash = root_hash root, rf_level = top_level root, rf_last_key = None, rf_min_key = None\<rparr>]
     \<lparr>vs_faults = [], vs_cache = Map.empty, vs_reported = {}\<rparr>)"

section \<open>The stack of pending references\<close>

text \<open>Each pending reference starts where the next one down the stack ends.\<close>

fun chain :: "reference list \<Rightarrow> bool" where
  "chain [] = True"
| "chain [r] \<longleftrightarrow> rf_min_key r = None"
| "chain (r # q # rest) \<longleftrightarrow>
     (\<exists>k k'. rf_min_key r = Some k \<and> rf_last_key q = Some k \<and> rf_last_key r = Some k' \<and> k < k') \<and>
     chain (q # rest)"

definition linked :: "bytes option \<Rightarrow> reference list \<Rightarrow> bool" where
  "linked prev fs \<longleftrightarrow> chain fs \<and> (case fs of [] \<Rightarrow> prev = None | q # _ \<Rightarrow> prev \<noteq> None \<and> prev = rf_last_key q)"

lemma chain_linked: "chain (r # fs) \<Longrightarrow> linked (rf_min_key r) fs"
  by (cases fs) (auto simp: linked_def)

lemma chain_children:
  "sorted_wrt (<) (map fst cs) \<Longrightarrow> cs \<noteq> [] \<Longrightarrow> (\<forall>m. prev = Some m \<longrightarrow> m < fst (hd cs)) \<Longrightarrow> linked prev fs \<Longrightarrow>
     chain (rev (child_references l prev cs) @ fs)"
proof (induction l prev cs arbitrary: fs rule: child_references.induct)
  case (2 l prev k h cs)
  let ?c = "\<lparr>rf_hash = h, rf_level = l, rf_last_key = Some k, rf_min_key = prev\<rparr>"
  have c: "chain (?c # fs)" using "2.prems"(3,4) by (cases fs) (auto simp: linked_def)
  show ?case
  proof (cases "cs = []")
    case False
    then have "chain (rev (child_references l (Some k) cs) @ ?c # fs)"
      using "2.prems" c by (intro "2.IH") (auto simp: linked_def hd_in_set)
    then show ?thesis by simp
  qed (use c in simp)
qed simp

lemma chain_below:
  "chain (r # fs) \<Longrightarrow> q \<in> set fs \<Longrightarrow>
     \<exists>k k'. rf_last_key q = Some k \<and> rf_last_key r = Some k' \<and> k < k'"
proof (induction fs arbitrary: r)
  case (Cons p fs)
  then show ?case by (cases "q = p") (auto, fastforce dest: order.strict_trans)
qed simp

section \<open>Sound references\<close>

definition sound_tree :: "'s store_ops \<Rightarrow> 's \<Rightarrow> reference \<Rightarrow> gtree \<Rightarrow> bool" where
  "sound_tree S s r t \<longleftrightarrow> gok S s t \<and> ghash t = rf_hash r \<and> glevel t = rf_level r \<and>
     (\<forall>k. rf_last_key r = Some k \<longrightarrow> k = glast t \<and> gents t \<noteq> []) \<and> sorted_wrt (<) (map fst (gflat t)) \<and>
     (\<forall>m. rf_min_key r = Some m \<longrightarrow> (\<forall>e \<in> set (gflat t). m < fst e))"

abbreviation (input) sound :: "'s store_ops \<Rightarrow> 's \<Rightarrow> reference \<Rightarrow> bool" where
  "sound S s r \<equiv> Ex (sound_tree S s r)"

definition kid_pairs :: "gtree list \<Rightarrow> (bytes \<times> hash) list" where
  "kid_pairs ts = map (\<lambda>t. (glast t, ghash t)) ts"

lemma child_references_pairs:
  "child_references l prev (kid_pairs []) = []"
  "child_references l prev (kid_pairs (t # ts)) =
     \<lparr>rf_hash = ghash t, rf_level = l, rf_last_key = Some (glast t), rf_min_key = prev\<rparr> #
       child_references l (Some (glast t)) (kid_pairs ts)"
  by (simp_all add: kid_pairs_def)

lemma sound_kids:
  assumes "\<forall>t \<in> set ts. gok S s t \<and> glevel t = l \<and> gents t \<noteq> []"
    "sorted_wrt (<) (map fst (concat (map gflat ts)))"
    "\<forall>m. prev = Some m \<longrightarrow> (\<forall>e \<in> set (concat (map gflat ts)). m < fst e)"
    "q \<in> set (child_references l prev (kid_pairs ts))"
  shows "\<exists>t \<in> set ts. sound_tree S s q t"
  using assms
proof (induction ts arbitrary: prev)
  case (Cons t ts)
  obtain e where e: "e \<in> set (gflat t)" "glast t = fst e" using glast_mem Cons.prems(1) by (metis list.set_intros(1))
  show ?case
  proof (cases "q \<in> set (child_references l (Some (glast t)) (kid_pairs ts))")
    case True
    then have "\<exists>u \<in> set ts. sound_tree S s q u"
      using Cons.prems e by (intro Cons.IH [of "Some (glast t)"]) (auto simp: sorted_wrt_append)
    then show ?thesis by simp
  next
    case False
    then have "q = \<lparr>rf_hash = ghash t, rf_level = l, rf_last_key = Some (glast t), rf_min_key = prev\<rparr>"
      using Cons.prems(4) by (simp add: child_references_pairs)
    then have "sound_tree S s q t" using Cons.prems by (auto simp: sound_tree_def sorted_wrt_append)
    then show ?thesis by simp
  qed
qed (simp add: child_references_pairs)

lemma kids_sound:
  assumes "\<forall>q \<in> set (child_references l prev cs). sound S s q"
  shows "\<exists>ts. cs = kid_pairs ts \<and> (\<forall>t \<in> set ts. gok S s t \<and> glevel t = l \<and> gents t \<noteq> []) \<and>
    sorted_wrt (<) (map fst (concat (map gflat ts))) \<and>
    (\<forall>m. prev = Some m \<longrightarrow> (\<forall>e \<in> set (concat (map gflat ts)). m < fst e))"
  using assms
proof (induction l prev cs rule: child_references.induct)
  case (2 l prev k h cs)
  from "2.IH" "2.prems" obtain ts where ts: "cs = kid_pairs ts" "\<forall>t \<in> set ts. gok S s t \<and> glevel t = l \<and> gents t \<noteq> []"
    "sorted_wrt (<) (map fst (concat (map gflat ts)))" "\<forall>e \<in> set (concat (map gflat ts)). k < fst e" by auto
  from "2.prems" obtain t where t: "sound_tree S s \<lparr>rf_hash = h, rf_level = l, rf_last_key = Some k, rf_min_key = prev\<rparr> t"
    by auto
  then have le: "\<forall>e \<in> set (gflat t). fst e \<le> k" using gflat_le_glast [of S s t] by (auto simp: sound_tree_def)
  obtain e where e: "e \<in> set (gflat t)" "k = fst e" using glast_mem [of S s t] t by (auto simp: sound_tree_def)
  have "\<forall>m. prev = Some m \<longrightarrow> (\<forall>e \<in> set (gflat t) \<union> set (concat (map gflat ts)). m < fst e)"
    using t e ts(4) by (fastforce simp: sound_tree_def)
  moreover have "sorted_wrt (<) (map fst (gflat t @ concat (map gflat ts)))"
    using t ts(3,4) le by (fastforce simp: sound_tree_def sorted_wrt_append)
  ultimately show ?case
    using ts t by (intro exI [of _ "t # ts"]) (auto simp: kid_pairs_def sound_tree_def)
qed (simp add: kid_pairs_def)

section \<open>One reference\<close>

definition node_seen :: "'s store_ops \<Rightarrow> 's \<Rightarrow> reference \<Rightarrow> u8 \<Rightarrow> node \<Rightarrow> bool" where
  "node_seen S s r lv node \<longleftrightarrow> (\<exists>data. st_get S s (rf_hash r) = Inr (Some data) \<and> decode_node data lv = Inr node) \<and>
     position_fault (unat lv) (node_first_key node) (node_last_key node) r = None"

definition ref_pairs :: "node_ref list \<Rightarrow> (bytes \<times> hash) list" where
  "ref_pairs refs = map (\<lambda>q. (last_key q, ref_hash q)) refs"

lemma position_ok:
  "position_fault l f k r = None \<longleftrightarrow> l = rf_level r \<and> (\<forall>want. rf_last_key r = Some want \<longrightarrow> k = Some want) \<and>
     (\<forall>m first. rf_min_key r = Some m \<longrightarrow> f = Some first \<longrightarrow> m < first)"
  by (auto simp: position_fault_def not_le split: option.splits)

text \<open>A tree at the hash is the node the decoder sees.\<close>

lemma gstored_decode:
  assumes "gstored S s t" "st_get S s (ghash t) = Inr (Some data)"
  shows "decode_node data lv = Inr node \<longleftrightarrow> unat lv = glevel t \<and> node = gnode t"
proof -
  have d: "decode_node data (of_nat (glevel t)) = Inr (gnode t)"
    using decode_node_bytes [of "glevel t" "gents t"] assms
    by (simp add: gstored_def gbytes_def node_of_gents MAX_HEIGHT_def)
  have l: "glevel t < 256" using assms(1) by (simp add: gstored_def MAX_HEIGHT_def)
  have h: "\<exists>r. data = lv # r" if "decode_node data lv = Inr n" for lv n
    using that by (auto simp: decode_node_def rbind_Inr_iff take_u8_Inr split: if_splits)
  show ?thesis
  proof
    assume n: "decode_node data lv = Inr node"
    then have "lv = of_nat (glevel t)" using h [OF n] h [OF d] by auto
    with n d l show "unat lv = glevel t \<and> node = gnode t" by (simp add: unat_of_nat)
  next
    assume n: "unat lv = glevel t \<and> node = gnode t"
    then have "lv = of_nat (glevel t)" by (simp flip: n [THEN conjunct1])
    with d n show "decode_node data lv = Inr node" by simp
  qed
qed

lemma sound_seen:
  assumes "sound_tree S s r t"
  shows "node_seen S s r (of_nat (rf_level r)) (gnode t)"
proof -
  have t: "gstored S s t" "ghash t = rf_hash r" "glevel t = rf_level r"
    using assms gok_gstored by (auto simp: sound_tree_def)
  then have l: "unat (of_nat (rf_level r) :: u8) = rf_level r"
    by (simp add: gstored_def MAX_HEIGHT_def unat_of_nat)
  obtain data where data: "st_get S s (rf_hash r) = Inr (Some data)" using t by (auto simp: gstored_def)
  then have "decode_node data (of_nat (rf_level r)) = Inr (gnode t)"
    using gstored_decode [OF t(1), of data "of_nat (rf_level r)"] t l by simp
  moreover have "m < first" if "rf_min_key r = Some m" "node_first_key (gnode t) = Some first" for m first
  proof (cases t)
    case (GLeaf h es)
    with that(2) obtain e where "e \<in> set es" "first = fst e" by (cases es) (auto simp: first_opt_def)
    with GLeaf that(1) assms show ?thesis by (auto simp: sound_tree_def)
  next
    case (GNode h ts)
    then have k: "ts \<noteq> []" "first = glast (hd ts)"
      using that(2) by (auto simp: first_opt_def hd_map gref_def split: if_splits)
    then have g: "gok S s (hd ts)" "gents (hd ts) \<noteq> []"
      using assms by (auto simp: sound_tree_def GNode)
    obtain e where "e \<in> set (gflat (hd ts))" "glast (hd ts) = fst e" using glast_mem [OF g] by blast
    then have "e \<in> set (gflat t)" "first = fst e" using k by (auto simp: GNode)
    with assms that(1) show ?thesis by (auto simp: sound_tree_def)
  qed
  moreover have "node_last_key (gnode t) = Some (glast t)" if "gents t \<noteq> []"
    using that node_last_key_gnode [of t] by simp
  ultimately show ?thesis
    using data assms l by (auto simp: node_seen_def position_ok sound_tree_def)
qed

lemma seen_sound_leaf:
  assumes "node_seen S s r lv (Leaf es)"
  shows "sound S s r"
proof -
  obtain data where d: "st_get S s (rf_hash r) = Inr (Some data)" "decode_node data lv = Inr (Leaf es)"
    and p: "position_fault (unat lv) (node_first_key (Leaf es)) (node_last_key (Leaf es)) r = None"
    using assms by (auto simp: node_seen_def)
  obtain fs where fs: "data = node_bytes (unat lv) fs" "wf_entries (unat lv) fs" "Leaf es = node_of (unat lv) fs"
    using decode_node_Inr [OF d(2)] by blast
  then have l: "unat lv = 0" and es: "es = map entry_pair fs" by (auto simp: node_of_def split: if_splits)
  have "fs = leaf_entries es"
    using fs(2) node_entries_of [of 0 fs] l es by (simp add: node_of_def leaf_entries_def wf_entries_def)
  moreover have "sorted_wrt (<) (map fst es)" using fs(2) calculation by (simp add: wf_entries_def)
  moreover have "\<forall>e \<in> set es. m < fst e" if "rf_min_key r = Some m" for m
    using that p calculation(2) by (cases es) (auto simp: position_ok first_opt_def dest: order.strict_trans)
  moreover have "k = glast (GLeaf (rf_hash r) es) \<and> es \<noteq> []" if "rf_last_key r = Some k" for k
    using that p by (auto simp: position_ok last_opt_def last_map split: if_splits)
  ultimately have "sound_tree S s r (GLeaf (rf_hash r) es)"
    using d(1) fs(1,2) p l by (auto simp: sound_tree_def gstored_def gbytes_def MAX_HEIGHT_def position_ok)
  then show ?thesis by blast
qed

lemma sound_tree_kids:
  assumes "sound_tree S s r t" "node_seen S s r lv (Inner refs)"
    "q \<in> set (child_references (unat lv - 1) (rf_min_key r) (ref_pairs refs))"
  shows "\<exists>u \<in> set (gkids t). sound_tree S s q u"
proof -
  obtain data where d: "st_get S s (rf_hash r) = Inr (Some data)" "decode_node data lv = Inr (Inner refs)"
    using assms(2) by (auto simp: node_seen_def)
  have g: "unat lv = glevel t \<and> Inner refs = gnode t"
    using gstored_decode [OF gok_gstored, of S s t data lv "Inner refs"] assms(1) d by (simp add: sound_tree_def)
  then obtain h ts where ts: "t = GNode h ts" "refs = map gref ts" by (cases t) auto
  then have "ref_pairs refs = kid_pairs ts" by (simp add: ref_pairs_def kid_pairs_def gref_def)
  moreover have "\<forall>u \<in> set ts. gok S s u \<and> glevel u = unat lv - 1 \<and> gents u \<noteq> []"
    using assms(1) g ts by (auto simp: sound_tree_def simp del: glevel.simps)
  ultimately show ?thesis
    using sound_kids [of ts S s "unat lv - 1" "rf_min_key r" q] assms(1,3) by (auto simp: sound_tree_def ts(1))
qed

lemma seen_sound_inner:
  assumes "node_seen S s r lv (Inner refs)" "rf_level r < MAX_HEIGHT"
  shows "sound S s r \<longleftrightarrow> (\<forall>q \<in> set (child_references (unat lv - 1) (rf_min_key r) (ref_pairs refs)). sound S s q)"
proof -
  obtain data where d: "st_get S s (rf_hash r) = Inr (Some data)" "decode_node data lv = Inr (Inner refs)"
    and p: "position_fault (unat lv) (node_first_key (Inner refs)) (node_last_key (Inner refs)) r = None"
    using assms(1) by (auto simp: node_seen_def)
  have l: "unat lv = rf_level r" "0 < rf_level r" using p decode_node_level [OF d(2)] by (auto simp: position_ok)
  show ?thesis
  proof
    assume "sound S s r"
    then obtain t where t: "sound_tree S s r t" by blast
    with sound_tree_kids [OF t assms(1)]
    show "\<forall>q \<in> set (child_references (unat lv - 1) (rf_min_key r) (ref_pairs refs)). sound S s q" by blast
  next
    assume "\<forall>q \<in> set (child_references (unat lv - 1) (rf_min_key r) (ref_pairs refs)). sound S s q"
    from kids_sound [OF this] obtain ts where ts: "ref_pairs refs = kid_pairs ts"
      "\<forall>u \<in> set ts. gok S s u \<and> glevel u = unat lv - 1 \<and> gents u \<noteq> []"
      "sorted_wrt (<) (map fst (concat (map gflat ts)))"
      "\<forall>m. rf_min_key r = Some m \<longrightarrow> (\<forall>e \<in> set (concat (map gflat ts)). m < fst e)" by blast
    have refs: "refs = map gref ts"
      using ts(1) unfolding ref_pairs_def kid_pairs_def
      by (auto simp: list_eq_iff_nth_eq gref_def)
    obtain fs where fs: "data = node_bytes (unat lv) fs" "wf_entries (unat lv) fs" "Inner refs = node_of (unat lv) fs"
      using decode_node_Inr [OF d(2)] by blast
    let ?t = "GNode (rf_hash r) ts"
    have "fs = gents ?t"
      using node_entries_of [of "unat lv" fs] fs(2) unfolding fs(3) [symmetric] refs
      by (simp add: wf_entries_def gref_def comp_def)
    moreover have ne: "ts \<noteq> []" using fs(2,3) l refs calculation by (auto simp: wf_entries_def)
    moreover have lv: "glevel ?t = unat lv" using ne ts(2) l by (cases ts) auto
    moreover have "k = glast ?t" if "rf_last_key r = Some k" for k
      using that p ne by (auto simp: position_ok refs last_opt_def last_map gref_def)
    ultimately have "sound_tree S s r ?t"
      using d(1) fs(1,2) ts l assms(2) by (auto simp: sound_tree_def gstored_def gbytes_def simp del: glevel.simps)
    then show "sound S s r" by blast
  qed
qed

section \<open>The loop\<close>

text \<open>What is cached was read from the store and lies to the right of every pending reference of its
  level or above.\<close>

definition cache_ok :: "'s store_ops \<Rightarrow> 's \<Rightarrow> verify_state \<Rightarrow> reference list \<Rightarrow> bool" where
  "cache_ok S s v frontier \<longleftrightarrow> (\<forall>h n. vs_cache v h = Some n \<longrightarrow>
     (\<exists>data lv refs. st_get S s h = Inr (Some data) \<and> decode_node data lv = Inr (Inner refs) \<and>
        in_level n = unat lv \<and> in_children n = ref_pairs refs) \<and>
     (\<forall>q \<in> set frontier. in_level n \<le> rf_level q \<longrightarrow>
        (\<exists>k. rf_last_key q = Some k \<and> k < fst (last (in_children n)))))"

lemma cache_ok_read:
  "cache_ok S s v fs \<Longrightarrow> vs_cache v h = Some n \<Longrightarrow>
     \<exists>data lv refs. st_get S s h = Inr (Some data) \<and> decode_node data lv = Inr (Inner refs) \<and>
        in_level n = unat lv \<and> in_children n = ref_pairs refs"
  unfolding cache_ok_def by blast

lemma cache_ok_right:
  "cache_ok S s v fs \<Longrightarrow> vs_cache v h = Some n \<Longrightarrow> q \<in> set fs \<Longrightarrow> in_level n \<le> rf_level q \<Longrightarrow>
     \<exists>k. rf_last_key q = Some k \<and> k < fst (last (in_children n))"
  unfolding cache_ok_def by blast

definition new_refs :: "reference \<Rightarrow> u8 \<Rightarrow> node \<Rightarrow> reference list" where
  "new_refs r lv node = (case node of Leaf _ \<Rightarrow> []
     | Inner refs \<Rightarrow> rev (child_references (unat lv - 1) (rf_min_key r) (ref_pairs refs)))"

definition expanded :: "verify_state \<Rightarrow> reference \<Rightarrow> u8 \<Rightarrow> node \<Rightarrow> verify_state" where
  "expanded v r lv node = (case node of Leaf _ \<Rightarrow> v
     | Inner refs \<Rightarrow> v\<lparr>vs_cache := (vs_cache v)(rf_hash r \<mapsto> \<lparr>in_level = unat lv, in_children = ref_pairs refs\<rparr>)\<rparr>)"

lemma expanded_simps [simp]:
  "vs_faults (expanded v r lv node) = vs_faults v" "vs_reported (expanded v r lv node) = vs_reported v"
  by (simp_all add: expanded_def split: node.splits)

lemma verify_step_seen:
  "vs_cache v (rf_hash r) = None \<Longrightarrow> node_seen S s r lv node \<Longrightarrow>
     verify_step S s r v = (new_refs r lv node, expanded v r lv node)"
  by (auto simp: verify_step_def node_seen_def decode_node_self_Inr new_refs_def expanded_def ref_pairs_def Let_def
    simp flip: decode_node_self_Inr split: option.splits node.splits)

lemma decode_inner:
  assumes "decode_node data lv = Inr (Inner refs)"
  shows "refs \<noteq> [] \<and> sorted_wrt (<) (map last_key refs)"
proof -
  obtain es where es: "wf_entries (unat lv) es" "Inner refs = node_of (unat lv) es"
    using decode_node_Inr [OF assms] by blast
  then have "node_entries (Inner refs) = es" using node_entries_of by (simp add: wf_entries_def)
  with es(1) decode_node_level [OF assms] show ?thesis
    by (auto simp: wf_entries_def comp_def simp flip: \<open>_ = es\<close>)
qed

text \<open>A cached chunk cannot be where a second reference to it would have to be.\<close>

lemma cached_misplaced:
  assumes "cache_ok S s v (r # fs)" "vs_cache v (rf_hash r) = Some n"
  shows "position_fault (in_level n) f (map_option fst (last_opt (in_children n))) r \<noteq> None"
proof
  assume p: "position_fault (in_level n) f (map_option fst (last_opt (in_children n))) r = None"
  then obtain k where k: "rf_last_key r = Some k" "k < fst (last (in_children n))"
    using cache_ok_right [OF assms, of r] by (auto simp: position_ok)
  with p show False by (auto simp: position_ok last_opt_def split: if_splits)
qed

lemma verify_step_fault:
  assumes "cache_ok S s v (r # fs)" "vs_reported v = {}" "\<nexists>lv node. vs_cache v (rf_hash r) = None \<and> node_seen S s r lv node"
  shows "\<exists>v' f. verify_step S s r v = ([], v') \<and> vs_faults v' = vs_faults v @ [f]"
proof (cases "vs_cache v (rf_hash r)")
  case (Some n)
  from cached_misplaced [OF assms(1) Some] obtain why where
    "position_fault (in_level n) (map_option fst (first_opt (in_children n)))
       (map_option fst (last_opt (in_children n))) r = Some why" by blast
  with Some show ?thesis by (simp add: verify_step_def push_fault_def)
next
  case None
  have bad: "position_fault (unat lv) (node_first_key node) (node_last_key node) r \<noteq> None"
    if "st_get S s (rf_hash r) = Inr (Some data)" "decode_node data lv = Inr node" for data lv node
  proof
    assume "position_fault (unat lv) (node_first_key node) (node_last_key node) r = None"
    with that None have "vs_cache v (rf_hash r) = None \<and> node_seen S s r lv node" by (simp add: node_seen_def)
    with assms(3) show False by blast
  qed
  consider (store) e where "st_get S s (rf_hash r) = Inl e" | (absent) "st_get S s (rf_hash r) = Inr None"
    | (decode) data e where "st_get S s (rf_hash r) = Inr (Some data)" "decode_node_self data = Inl e"
    | (place) data lv node where "st_get S s (rf_hash r) = Inr (Some data)" "decode_node_self data = Inr (lv, node)"
    by (metis option.exhaust prod.exhaust sum.exhaust)
  then show ?thesis
  proof cases
    case place
    then obtain why where "position_fault (unat lv) (node_first_key node) (node_last_key node) r = Some why"
      using bad [of data lv node] by (auto simp: decode_node_self_Inr)
    with place None show ?thesis by (simp add: verify_step_def push_fault_def Let_def)
  qed (use None assms(2) in \<open>simp_all add: verify_step_def report_once_def push_fault_def\<close>)
qed

lemma verify_loop_grows: "\<exists>new. vs_faults (verify_loop S s frontier v) = vs_faults v @ new"
proof (induction S s frontier v rule: verify_loop.induct)
  case (2 S s r frontier v)
  obtain new v' where st: "verify_step S s r v = (new, v')" by fastforce
  then have "\<exists>fs. vs_faults v' = vs_faults v @ fs"
    by (auto simp: verify_step_def report_once_def push_fault_def Let_def
      split: option.splits sum.splits node.splits if_splits)
  with "2.IH" [OF sym [OF st]] st show ?case by auto
qed simp

lemma sound_uncached:
  assumes "cache_ok S s v (r # fs)" "sound S s r"
  shows "vs_cache v (rf_hash r) = None"
proof (rule ccontr)
  assume "vs_cache v (rf_hash r) \<noteq> None"
  then obtain n where n: "vs_cache v (rf_hash r) = Some n" by auto
  then obtain data lv refs where d: "st_get S s (rf_hash r) = Inr (Some data)" "decode_node data lv = Inr (Inner refs)"
    "in_level n = unat lv" "in_children n = ref_pairs refs"
    using cache_ok_read [OF assms(1)] by blast
  obtain t where t: "sound_tree S s r t" using assms(2) by blast
  from sound_seen [OF this] have "node_seen S s r (of_nat (rf_level r)) (gnode t)" .
  moreover have "unat lv = glevel t \<and> Inner refs = gnode t"
    using gstored_decode [OF gok_gstored, of S s t data lv "Inner refs"] t d by (simp add: sound_tree_def)
  moreover have "map_option fst (last_opt (ref_pairs refs)) = node_last_key (Inner refs)"
    by (auto simp: ref_pairs_def last_opt_map option.map_comp comp_def)
  ultimately have "position_fault (in_level n) (node_first_key (Inner refs))
      (map_option fst (last_opt (in_children n))) r = None"
    using d(3,4) t by (auto simp: node_seen_def position_ok sound_tree_def)
  with cached_misplaced [OF assms(1) n] show False by blast
qed

lemma seen_keeps:
  assumes "chain (r # fs)" "cache_ok S s v (r # fs)" "node_seen S s r lv node"
  shows "chain (new_refs r lv node @ fs) \<and> cache_ok S s (expanded v r lv node) (new_refs r lv node @ fs)"
proof (cases node)
  case (Leaf es)
  then have "chain fs" using assms(1) by (cases fs) auto
  with Leaf assms(2) show ?thesis by (auto simp: new_refs_def expanded_def cache_ok_def)
next
  case (Inner refs)
  obtain data where d: "st_get S s (rf_hash r) = Inr (Some data)" "decode_node data lv = Inr (Inner refs)"
    and p: "position_fault (unat lv) (node_first_key (Inner refs)) (node_last_key (Inner refs)) r = None"
    using assms(3) Inner by (auto simp: node_seen_def)
  note in_refs = decode_inner [OF d(2)]
  let ?new = "child_references (unat lv - 1) (rf_min_key r) (ref_pairs refs)"
  have l: "0 < unat lv" "unat lv = rf_level r" using decode_node_level [OF d(2)] p by (auto simp: position_ok)
  have ch: "chain (rev ?new @ fs)"
    using in_refs p chain_linked [OF assms(1)]
    by (intro chain_children) (auto simp: ref_pairs_def comp_def position_ok first_opt_def hd_map)
  have le: "\<exists>k. rf_last_key q = Some k \<and> k \<le> last_key (last refs)" if "q \<in> set ?new" for q
  proof -
    have "q \<in> set (child_references l' m (ref_pairs rs)) \<Longrightarrow> \<exists>x \<in> set rs. rf_last_key q = Some (last_key x)" for l' m rs
      by (induction rs arbitrary: m) (auto simp: ref_pairs_def)
    from this [OF that] obtain x where x: "x \<in> set refs" "rf_last_key q = Some (last_key x)" by blast
    have "last_key x \<le> last_key (last refs)"
      using sorted_last_le [of "map last_key refs" "last_key x"] in_refs x(1) by (simp add: last_map)
    with x(2) show ?thesis by blast
  qed
  have "cache_ok S s (expanded v r lv node) (rev ?new @ fs)"
    unfolding cache_ok_def
  proof (intro allI impI)
    fix h n
    assume n: "vs_cache (expanded v r lv node) h = Some n"
    show "(\<exists>data lv refs. st_get S s h = Inr (Some data) \<and> decode_node data lv = Inr (Inner refs) \<and>
        in_level n = unat lv \<and> in_children n = ref_pairs refs) \<and>
     (\<forall>q \<in> set (rev ?new @ fs). in_level n \<le> rf_level q \<longrightarrow>
        (\<exists>k. rf_last_key q = Some k \<and> k < fst (last (in_children n))))"
    proof (cases "h = rf_hash r")
      case True
      then have n': "n = \<lparr>in_level = unat lv, in_children = ref_pairs refs\<rparr>"
        using n by (simp add: expanded_def Inner)
      have "\<exists>k. rf_last_key q = Some k \<and> k < fst (last (in_children n))" if "q \<in> set fs" for q
        using chain_below [OF assms(1) that] p in_refs n'
        by (auto simp: position_ok ref_pairs_def last_map last_opt_def)
      moreover have "\<exists>data lv refs. st_get S s h = Inr (Some data) \<and> decode_node data lv = Inr (Inner refs) \<and>
        in_level n = unat lv \<and> in_children n = ref_pairs refs" using True d n' by fastforce
      ultimately show ?thesis using n' l by (auto dest!: child_references_level)
    next
      case False
      then have n': "vs_cache v h = Some n" using n by (simp add: expanded_def Inner)
      have "\<exists>k. rf_last_key q = Some k \<and> k < fst (last (in_children n))"
        if q: "q \<in> set ?new" "in_level n \<le> rf_level q" for q
      proof -
        have "in_level n \<le> rf_level r" using q child_references_level [OF q(1)] l by simp
        then obtain k where "rf_last_key r = Some k" "k < fst (last (in_children n))"
          using cache_ok_right [OF assms(2) n', of r] by auto
        moreover from this have "k = last_key (last refs)" using p in_refs by (auto simp: position_ok last_opt_def)
        ultimately show ?thesis using le [OF q(1)] by auto
      qed
      then show ?thesis using cache_ok_read [OF assms(2) n'] cache_ok_right [OF assms(2) n'] by auto
    qed
  qed
  with ch show ?thesis by (simp add: new_refs_def Inner)
qed

lemma verify_loop_clean:
  "chain frontier \<Longrightarrow> cache_ok S s v frontier \<Longrightarrow> \<forall>q \<in> set frontier. rf_level q < MAX_HEIGHT \<Longrightarrow> vs_reported v = {} \<Longrightarrow>
     vs_faults (verify_loop S s frontier v) = vs_faults v \<longleftrightarrow> (\<forall>q \<in> set frontier. sound S s q)"
proof (induction S s frontier v rule: verify_loop.induct)
  case (2 S s r fs v)
  show ?case
  proof (cases "\<exists>lv node. vs_cache v (rf_hash r) = None \<and> node_seen S s r lv node")
    case True
    then obtain lv node where n: "vs_cache v (rf_hash r) = None" "node_seen S s r lv node" by blast
    note st = verify_step_seen [OF n]
    have "sound S s r \<longleftrightarrow> (\<forall>q \<in> set (new_refs r lv node). sound S s q)"
    proof (cases node)
      case (Leaf es)
      then show ?thesis using n(2) seen_sound_leaf [of S s r lv es] by (simp add: new_refs_def)
    next
      case (Inner refs)
      then show ?thesis using n(2) seen_sound_inner [of S s r lv refs] "2.prems"(3) by (simp add: new_refs_def)
    qed
    moreover have "rf_level q < MAX_HEIGHT" if "q \<in> set (new_refs r lv node)" for q
      using verify_step_levels [OF st that] "2.prems"(3) by simp
    moreover have "vs_faults (verify_loop S s (new_refs r lv node @ fs) (expanded v r lv node)) =
        vs_faults (expanded v r lv node) \<longleftrightarrow> (\<forall>q \<in> set (new_refs r lv node @ fs). sound S s q)"
      using seen_keeps [OF "2.prems"(1,2) n(2)] "2.prems"(3,4) calculation
      by (intro "2.IH" [OF sym [OF st]]) auto
    ultimately show ?thesis using st by auto
  next
    case False
    obtain v' f where st: "verify_step S s r v = ([], v')" "vs_faults v' = vs_faults v @ [f]"
      using verify_step_fault [OF "2.prems"(2,4) False] by blast
    obtain new where "vs_faults (verify_loop S s fs v') = vs_faults v' @ new" using verify_loop_grows [of S s fs v'] by blast
    moreover have "\<not> sound S s r"
      using False sound_uncached [OF "2.prems"(2)] sound_seen [of S s r] by blast
    ultimately show ?thesis using st by auto
  qed
qed simp

lemma verify_sound:
  assumes "top_level r < MAX_HEIGHT"
  shows "verify_reachable S s r = [] \<longleftrightarrow> (\<exists>kvs. intact S s kvs r)"
proof -
  let ?r = "\<lparr>rf_hash = root_hash r, rf_level = top_level r, rf_last_key = None, rf_min_key = None\<rparr>"
  let ?v = "\<lparr>vs_faults = [], vs_cache = Map.empty, vs_reported = {}\<rparr>"
  have "verify_reachable S s r = [] \<longleftrightarrow> sound S s ?r"
    using verify_loop_clean [of "[?r]" S s ?v] assms by (simp add: verify_reachable_def cache_ok_def)
  also have "\<dots> \<longleftrightarrow> (\<exists>kvs. intact S s kvs r)"
  proof
    assume "sound S s ?r"
    then obtain t where "sound_tree S s ?r t" by blast
    then have "intact S s (gflat t) r" by (auto simp: intact_def sound_tree_def intro!: exI [of _ t])
    then show "\<exists>kvs. intact S s kvs r" by blast
  next
    assume "\<exists>kvs. intact S s kvs r"
    then obtain kvs where kvs: "intact S s kvs r" by blast
    then obtain t where t: "gok S s t" "glevel t = top_level r" "ghash t = root_hash r" "gflat t = kvs"
      by (rule intact_tree)
    then have "sound_tree S s ?r t" using intact_sorted [OF kvs] by (simp add: sound_tree_def)
    then show "sound S s ?r" by blast
  qed
  finally show ?thesis .
qed

section \<open>Lost chunks\<close>

text \<open>The walk over a store that lost chunks, while every pending reference is sound in the full one.\<close>

definition named_missing :: "hash set \<Rightarrow> hash set \<Rightarrow> verify_state \<Rightarrow> bool" where
  "named_missing hs keep v \<longleftrightarrow> (\<forall>f \<in> set (vs_faults v). fault_kind f = Missing \<and> fault_hash f \<in> hs - keep) \<and>
     distinct (map fault_hash (vs_faults v)) \<and> vs_reported v = fault_hash ` set (vs_faults v)"

lemma intact_pruned:
  assumes "gok S s t" "ghash t = root_hash r"
  shows "intact (pruned S keep) s kvs r \<longleftrightarrow> intact S s kvs r \<and> ghashes t \<subseteq> keep"
proof -
  have "u = t" if "gok S s u" "ghash u = root_hash r" for u using gtree_unique [OF that(1) assms(1)] that(2) assms(2) by simp
  then show ?thesis by (auto simp: intact_def gok_pruned)
qed

lemma cache_ok_pruned: "cache_ok (pruned S keep) s v fs \<Longrightarrow> cache_ok S s v fs"
  by (fastforce simp: cache_ok_def split: if_splits)

lemma sound_hashes:
  assumes "sound_tree S s r t" "node_seen S s r lv node" "q \<in> set (new_refs r lv node)"
  shows "\<exists>u. sound_tree S s q u \<and> ghashes u \<subseteq> ghashes t"
proof (cases node)
  case (Inner refs)
  then obtain u where "u \<in> set (gkids t)" "sound_tree S s q u"
    using sound_tree_kids [OF assms(1), of lv refs q] assms(2,3) by (auto simp: new_refs_def)
  then show ?thesis using ghashes_node [of t] by auto
qed (use assms(3) in \<open>simp add: new_refs_def\<close>)

lemma verify_loop_pruned:
  "chain frontier \<Longrightarrow> cache_ok (pruned S keep) s v frontier \<Longrightarrow> named_missing hs keep v \<Longrightarrow>
     \<forall>q \<in> set frontier. rf_level q < MAX_HEIGHT \<and> (\<exists>t. sound_tree S s q t \<and> ghashes t \<subseteq> hs) \<Longrightarrow>
     named_missing hs keep (verify_loop (pruned S keep) s frontier v)"
proof (induction "pruned S keep" s frontier v rule: verify_loop.induct)
  case (2 s r fs v)
  let ?P = "pruned S keep"
  from "2.prems"(4) obtain t where t: "sound_tree S s r t" "ghashes t \<subseteq> hs" by auto
  have u: "vs_cache v (rf_hash r) = None"
    using sound_uncached [OF cache_ok_pruned [OF "2.prems"(2)]] t(1) by blast
  have h: "rf_hash r \<in> hs" using t ghash_in_ghashes [of t] by (auto simp: sound_tree_def)
  show ?case
  proof (cases "rf_hash r \<in> keep")
    case False
    then have "verify_step ?P s r v = ([], report_once v (rf_hash r) Missing Absent)"
      by (simp add: verify_step_def u)
    moreover have "named_missing hs keep (report_once v (rf_hash r) Missing Absent)"
      using "2.prems"(3) h False by (auto simp: named_missing_def report_once_def push_fault_def)
    moreover have "chain fs" "cache_ok ?P s v' fs" if "v' = report_once v (rf_hash r) Missing Absent" for v'
      using "2.prems"(1,2) that chain_linked [of r fs]
      by (auto simp: cache_ok_def linked_def report_once_def push_fault_def)
    ultimately show ?thesis using "2.hyps" "2.prems"(4) by auto
  next
    case True
    note seen = sound_seen [OF t(1)]
    let ?lv = "of_nat (rf_level r) :: u8"
    have seen': "node_seen ?P s r ?lv (gnode t)" using seen True by (simp add: node_seen_def)
    note st = verify_step_seen [OF u seen']
    have "rf_level q < MAX_HEIGHT \<and> (\<exists>t. sound_tree S s q t \<and> ghashes t \<subseteq> hs)"
      if "q \<in> set (new_refs r ?lv (gnode t))" for q
      using verify_step_levels [OF st that] "2.prems"(4) sound_hashes [OF t(1) seen that] t(2) by fastforce
    then have "named_missing hs keep (verify_loop ?P s (new_refs r ?lv (gnode t) @ fs) (expanded v r ?lv (gnode t)))"
      using seen_keeps [OF "2.prems"(1,2) seen'] "2.prems"(3,4)
      by (intro "2.hyps" [OF sym [OF st]]) (auto simp: named_missing_def)
    then show ?thesis by (simp add: st)
  qed
qed simp

section \<open>Properties\<close>

text \<open>C23. The integrity walk reports nothing exactly when the tree is intact: every chunk is there and
  well-formed at its level, ends where its parent says, and the keys ascend strictly through the whole
  tree. Not expanding a chunk twice hides no damage.\<close>

theorem verify_reachable_exact:
  assumes "root_height r \<le> MAX_HEIGHT"
  shows "verify_reachable S s r = [] \<longleftrightarrow> (\<exists>kvs. intact S s kvs r)"
  by (rule verify_sound) (use assms in \<open>simp add: top_level_def MAX_HEIGHT_def\<close>)

theorem verify_reachable_exact_witness:
  "verify_reachable (mem_store 1000) five_objs five_root = []"
proof -
  have h: "root_height five_root \<le> MAX_HEIGHT" by (simp add: five_root_def MAX_HEIGHT_def)
  show ?thesis unfolding verify_reachable_exact [OF h] by (rule exI, rule canon_intact [OF five_canon])
qed

text \<open>C24. After a clean report no read fails: some strictly ascending list of entries is what every
  lookup reads and what a scan of any range yields.\<close>

theorem verified_reads:
  assumes "root_height r \<le> MAX_HEIGHT" "verify_reachable S s r = []"
  shows "\<exists>kvs. sorted_wrt (<) (map fst kvs) \<and> (\<forall>k. prolly_get S s r k = Inr (map_of kvs k)) \<and>
    (\<forall>start stop. \<exists>sc. scan S s r start stop = Inr sc \<and>
       (\<forall>n. scan_take S s n sc = map Inr (take n (filter (\<lambda>e. in_range start stop (fst e)) kvs))))"
proof -
  have "top_level r < MAX_HEIGHT" using assms(1) by (simp add: top_level_def MAX_HEIGHT_def)
  then obtain kvs where kvs: "intact S s kvs r" using verify_sound [of r S s] assms(2) by auto
  have "\<exists>sc. scan S s r start stop = Inr sc \<and>
      (\<forall>n. scan_take S s n sc = map Inr (take n (filter (\<lambda>e. in_range start stop (fst e)) kvs)))" for start stop
    using seek_ok [OF kvs, of start stop Forward] by (simp add: scan_def in_range_def conj_commute)
  then show ?thesis
    by (intro exI [of _ kvs] conjI allI intact_sorted [OF kvs] prolly_get_intact [OF kvs])
qed

theorem verified_reads_witness:
  "\<exists>kvs :: (bytes \<times> bytes) list. sorted_wrt (<) (map fst kvs) \<and>
     prolly_get (mem_store 1000) five_objs five_root [3] = Inr (map_of kvs [3])"
proof -
  have h: "root_height five_root \<le> MAX_HEIGHT" by (simp add: five_root_def MAX_HEIGHT_def)
  have "top_level five_root < MAX_HEIGHT" by (simp add: five_root_def top_level_def MAX_HEIGHT_def)
  then have "verify_reachable (mem_store 1000) five_objs five_root = []"
    using verify_sound [of five_root "mem_store 1000" five_objs] canon_intact [OF five_canon] by auto
  from verified_reads [OF h this] show ?thesis by auto
qed

text \<open>C25. When chunks of an intact tree were lost, every fault names a lost chunk of the tree, as missing
  and once, and there is a fault as soon as one is lost.\<close>

theorem verify_names_missing:
  assumes "root_height r \<le> MAX_HEIGHT" "intact S s kvs r"
  shows "\<exists>hs. reachable_chunks S s r = Inr hs \<and>
    (\<forall>f \<in> set (verify_reachable (pruned S keep) s r).
       fault_kind f = Missing \<and> fault_hash f \<in> set hs \<and> fault_hash f \<notin> keep) \<and>
    distinct (map fault_hash (verify_reachable (pruned S keep) s r)) \<and>
    (verify_reachable (pruned S keep) s r = [] \<longleftrightarrow> set hs \<subseteq> keep)"
proof -
  have l: "top_level r < MAX_HEIGHT" using assms(1) by (simp add: top_level_def MAX_HEIGHT_def)
  obtain t where t: "gok S s t" "glevel t = top_level r" "ghash t = root_hash r" "gflat t = kvs"
    by (rule intact_tree [OF assms(2)])
  let ?r = "\<lparr>rf_hash = root_hash r, rf_level = top_level r, rf_last_key = None, rf_min_key = None\<rparr>"
  let ?v = "\<lparr>vs_faults = [], vs_cache = Map.empty, vs_reported = {}\<rparr>"
  have "sound_tree S s ?r t" using t intact_sorted [OF assms(2)] by (simp add: sound_tree_def)
  then have n: "named_missing (ghashes t) keep (verify_loop (pruned S keep) s [?r] ?v)"
    using l by (intro verify_loop_pruned) (auto simp: cache_ok_def named_missing_def)
  have "verify_reachable (pruned S keep) s r = [] \<longleftrightarrow> ghashes t \<subseteq> keep"
    unfolding verify_sound [OF l] using t assms(2) intact_pruned [OF t(1,3), of keep] by (auto simp: intact_def)
  with n reachable_chunks_ok [OF t(1-3)] show ?thesis by (auto simp: named_missing_def verify_reachable_def)
qed

theorem verify_names_missing_witness:
  "verify_reachable (pruned (mem_store 1000) {}) five_objs five_root \<noteq> []"
proof -
  have h: "root_height five_root \<le> MAX_HEIGHT" by (simp add: five_root_def MAX_HEIGHT_def)
  obtain t where t: "gok (mem_store 1000) five_objs t" "glevel t = top_level five_root" "ghash t = root_hash five_root"
    by (rule intact_tree [OF canon_intact [OF five_canon]])
  have "sorted_list_of_set (ghashes t) \<noteq> []"
    using ghash_in_ghashes [of t] sorted_list_of_hashes(1) [of t] by (metis empty_iff empty_set)
  then show ?thesis
    using verify_names_missing [OF h canon_intact [OF five_canon], of "{}"] reachable_chunks_ok [OF t] by auto
qed

end
