(* ===== verification/Values.thy ===== *)
theory Values
  imports Prelude
begin

text \<open>
  The property values of \<^verbatim>\<open>crates/acetone-model/src/lib.rs\<close>: the \<^verbatim>\<open>Value\<close> enum and its
  temporal structs, with the pieces of the Rust standard library its encoders use
  (UTF-8 validation of \<^verbatim>\<open>str::from_utf8\<close>, the IEEE-754 classification of \<^verbatim>\<open>f64\<close>).
\<close>

section \<open>The value type\<close>

definition NANOS_PER_DAY :: u64 where "NANOS_PER_DAY = 86400000000000"
definition MAX_OFFSET_MINUTES :: i16 where "MAX_OFFSET_MINUTES = 18 * 60"

record date =
  date_days :: i64

record time =
  time_nanos :: u64

record date_time =
  epoch_nanos :: i64
  offset_minutes :: i16

record duration =
  dur_months :: i64
  dur_days :: i64
  dur_nanos :: i64

text \<open>A Rust \<^verbatim>\<open>String\<close> is its UTF-8 bytes; \<open>wf_value\<close> below is the type's invariant that
  they are valid UTF-8.\<close>

datatype mvalue =
    VNull
  | VBool bool
  | VInt i64
  | VFloat f64
  | VString bytes
  | VBytes bytes
  | VDate date
  | VTime time
  | VDateTime date_time
  | VDuration duration
  | VList "mvalue list"

section \<open>Strings\<close>

definition utf8_cont :: "u8 \<Rightarrow> bool" where
  "utf8_cont b \<longleftrightarrow> 0x80 \<le> b \<and> b \<le> 0xBF"

text \<open>Well-formed UTF-8 as \<^verbatim>\<open>str::from_utf8\<close> accepts it: no overlong form, no surrogate,
  nothing above U+10FFFF.\<close>

fun utf8_valid :: "bytes \<Rightarrow> bool" where
  "utf8_valid [] = True"
| "utf8_valid (a # r) =
     (if a < 0x80 then utf8_valid r
      else if 0xC2 \<le> a \<and> a \<le> 0xDF then
        (case r of b # r' \<Rightarrow> utf8_cont b \<and> utf8_valid r' | _ \<Rightarrow> False)
      else if 0xE0 \<le> a \<and> a \<le> 0xEF then
        (case r of b # c # r' \<Rightarrow>
             (if a = 0xE0 then 0xA0 \<le> b \<and> b \<le> 0xBF
              else if a = 0xED then 0x80 \<le> b \<and> b \<le> 0x9F
              else utf8_cont b) \<and> utf8_cont c \<and> utf8_valid r'
         | _ \<Rightarrow> False)
      else if 0xF0 \<le> a \<and> a \<le> 0xF4 then
        (case r of b # c # d # r' \<Rightarrow>
             (if a = 0xF0 then 0x90 \<le> b \<and> b \<le> 0xBF
              else if a = 0xF4 then 0x80 \<le> b \<and> b \<le> 0x8F
              else utf8_cont b) \<and> utf8_cont c \<and> utf8_cont d \<and> utf8_valid r'
         | _ \<Rightarrow> False)
      else False)"

definition from_utf8 :: "bytes \<Rightarrow> bytes option" where
  "from_utf8 bs = (if utf8_valid bs then Some bs else None)"

lemma from_utf8_Some [simp]: "from_utf8 bs = Some s \<longleftrightarrow> utf8_valid bs \<and> s = bs"
  by (auto simp: from_utf8_def)

fun wf_value :: "mvalue \<Rightarrow> bool" where
  "wf_value (VString s) = utf8_valid s"
| "wf_value (VList vs) = list_all wf_value vs"
| "wf_value _ = True"

text \<open>Rust's collections hold fewer than \<open>2 ^ 63\<close> elements (\<^verbatim>\<open>isize::MAX\<close>), so every length
  is a \<^verbatim>\<open>u64\<close> without loss.\<close>

fun sized_value :: "mvalue \<Rightarrow> bool" where
  "sized_value (VString s) = (length s < 2 ^ 63)"
| "sized_value (VBytes s) = (length s < 2 ^ 63)"
| "sized_value (VList vs) = (length vs < 2 ^ 63 \<and> list_all sized_value vs)"
| "sized_value _ = True"

section \<open>Floats as bit patterns\<close>

text \<open>\<^verbatim>\<open>i16::unsigned_abs\<close> compared with the limit, total on \<^verbatim>\<open>i16::MIN\<close>: the range check
  both codecs apply to a UTC offset.\<close>

definition offset_out_of_range :: "i16 \<Rightarrow> bool" where
  "offset_out_of_range off \<longleftrightarrow> \<bar>sint MAX_OFFSET_MINUTES\<bar> < \<bar>sint off\<bar>"

definition SIGN_BIT :: u64 where "SIGN_BIT = push_bit 63 1"

lemma SIGN_BIT_eq: "SIGN_BIT = 0x8000000000000000" "SIGN_BIT = 2 ^ 63"
  by (simp_all add: SIGN_BIT_def)

lemma bit_SIGN_BIT: "bit SIGN_BIT n \<longleftrightarrow> n = 63"
  unfolding SIGN_BIT_eq(2) bit_exp_iff by auto

definition f64_is_nan :: "f64 \<Rightarrow> bool" where
  "f64_is_nan x \<longleftrightarrow> 0x7FF0000000000000 < x AND 0x7FFFFFFFFFFFFFFF"

definition f64_is_infinite :: "f64 \<Rightarrow> bool" where
  "f64_is_infinite x \<longleftrightarrow> x AND 0x7FFFFFFFFFFFFFFF = 0x7FF0000000000000"

definition f64_is_zero :: "f64 \<Rightarrow> bool" where
  "f64_is_zero x \<longleftrightarrow> x AND 0x7FFFFFFFFFFFFFFF = 0"

text \<open>\<^verbatim>\<open>f64::total_cmp\<close>: the bits of a negative number are inverted below the sign bit and
  the results compared as signed integers.\<close>

definition f64_total_key :: "f64 \<Rightarrow> i64" where
  "f64_total_key x = (if bit x 63 then x XOR 0x7FFFFFFFFFFFFFFF else x)"

definition f64_total_cmp :: "f64 \<Rightarrow> f64 \<Rightarrow> ordering" where
  "f64_total_cmp a b = cmp (sint (f64_total_key a)) (sint (f64_total_key b))"

lemma f64_is_zero_iff: "f64_is_zero x \<longleftrightarrow> x = 0 \<or> x = SIGN_BIT"
proof
  assume z: "f64_is_zero x"
  have m: "(0x7FFFFFFFFFFFFFFF :: u64) = mask 63" by (simp add: mask_eq_exp_minus_1)
  have lo: "\<not> bit x n" if "n < 63" for n
  proof -
    have "bit (x AND mask 63) n = bit (0::u64) n" using z by (simp add: f64_is_zero_def m)
    with that show ?thesis by (simp add: bit_simps)
  qed
  show "x = 0 \<or> x = SIGN_BIT"
  proof (cases "bit x 63")
    case True
    have "x = SIGN_BIT"
    proof (rule bit_eqI)
      fix n assume "possible_bit TYPE(64 word) n"
      then have "n < 64" by simp
      then consider "n < 63" | "n = 63" by linarith
      then show "bit x n = bit SIGN_BIT n"
        using lo True by cases (auto simp: bit_SIGN_BIT)
    qed
    then show ?thesis ..
  next
    case False
    have "x = 0"
    proof (rule bit_eqI)
      fix n assume "possible_bit TYPE(64 word) n"
      then have "n < 64" by simp
      then consider "n < 63" | "n = 63" by linarith
      then show "bit x n = bit 0 n" using lo False by cases auto
    qed
    then show ?thesis ..
  qed
qed (auto simp: f64_is_zero_def SIGN_BIT_eq)

end
