(* ===== verification/Cbor.thy ===== *)
theory Cbor
  imports Values
begin

text \<open>
  The low-level canonical CBOR machinery of \<^verbatim>\<open>crates/acetone-model/src/cbor.rs\<close>: shortest-form
  heads, integers, text strings, and the reader that enforces them. A reader is its unread
  suffix. Lemmas: heads, integers and text round-trip in both directions, and the order
  \<open>canonical_str_cmp\<close> is the byte order of encoded text keys.
\<close>

section \<open>Errors and constants\<close>

datatype value_decode_error =
    UnexpectedEnd
  | TrailingBytes
  | Unsupported string
  | NonCanonical string
  | MalformedHead
  | IntOutOfRange
  | LengthOverrun u64 nat
  | InvalidUtf8
  | UnknownTag u64
  | InvalidTagContent u64 string
  | DecTimeOutOfRange
  | DecOffsetOutOfRange
  | DecDepthExceeded

abbreviation (input) MAJOR_UNSIGNED :: u8 where "MAJOR_UNSIGNED \<equiv> 0"
abbreviation (input) MAJOR_NEGATIVE :: u8 where "MAJOR_NEGATIVE \<equiv> 1"
abbreviation (input) MAJOR_BYTES :: u8 where "MAJOR_BYTES \<equiv> 2"
abbreviation (input) MAJOR_TEXT :: u8 where "MAJOR_TEXT \<equiv> 3"
abbreviation (input) MAJOR_ARRAY :: u8 where "MAJOR_ARRAY \<equiv> 4"
abbreviation (input) MAJOR_MAP :: u8 where "MAJOR_MAP \<equiv> 5"
abbreviation (input) MAJOR_TAG :: u8 where "MAJOR_TAG \<equiv> 6"
abbreviation (input) MAJOR_SIMPLE :: u8 where "MAJOR_SIMPLE \<equiv> 7"
abbreviation (input) SIMPLE_FALSE :: u8 where "SIMPLE_FALSE \<equiv> 0xf4"
abbreviation (input) SIMPLE_TRUE :: u8 where "SIMPLE_TRUE \<equiv> 0xf5"
abbreviation (input) SIMPLE_NULL :: u8 where "SIMPLE_NULL \<equiv> 0xf6"
abbreviation (input) HEAD_F16 :: u8 where "HEAD_F16 \<equiv> 0xf9"
abbreviation (input) HEAD_F32 :: u8 where "HEAD_F32 \<equiv> 0xfa"
abbreviation (input) HEAD_F64 :: u8 where "HEAD_F64 \<equiv> 0xfb"

section \<open>Writing\<close>

definition write_head :: "bytes \<Rightarrow> u8 \<Rightarrow> u64 \<Rightarrow> bytes" where
  "write_head out major v =
     (let m = push_bit 5 major
      in if v < 24 then out @ [m OR ucast v]
         else if v \<le> 0xff then out @ [m OR 24] @ [ucast v]
         else if v \<le> 0xffff then out @ [m OR 25] @ be_u16 (ucast v)
         else if v \<le> 0xffffffff then out @ [m OR 26] @ be_u32 (ucast v)
         else out @ [m OR 27] @ be_u64 v)"

definition write_int :: "bytes \<Rightarrow> i64 \<Rightarrow> bytes" where
  "write_int out n =
     (if 0 \<le> sint n then write_head out MAJOR_UNSIGNED n
      else write_head out MAJOR_NEGATIVE (NOT n))"

definition write_text :: "bytes \<Rightarrow> bytes \<Rightarrow> bytes" where
  "write_text out s = write_head out MAJOR_TEXT (of_nat (length s)) @ s"

definition canonical_str_cmp :: "bytes \<Rightarrow> bytes \<Rightarrow> ordering" where
  "canonical_str_cmp a b = then_with (cmp (length a) (length b)) (cmp a b)"

section \<open>Reading\<close>

fun cread_u8 :: "bytes \<Rightarrow> value_decode_error + u8 \<times> bytes" where
  "cread_u8 [] = Inl UnexpectedEnd"
| "cread_u8 (b # r) = Inr (b, r)"

definition read_exact :: "nat \<Rightarrow> bytes \<Rightarrow> value_decode_error + bytes \<times> bytes" where
  "read_exact n r = (if length r < n then Inl UnexpectedEnd else Inr (take n r, drop n r))"

definition read_be_u64 :: "nat \<Rightarrow> bytes \<Rightarrow> value_decode_error + u64 \<times> bytes" where
  "read_be_u64 width r =
     rbind (read_exact width r) (\<lambda>(bs, r).
       Inr (foldl (\<lambda>v b. push_bit 8 v OR ucast b) 0 bs, r))"

definition read_head_value :: "u8 \<Rightarrow> bytes \<Rightarrow> value_decode_error + u64 \<times> bytes" where
  "read_head_value ai r =
     (if ai \<le> 23 then Inr (ucast ai, r)
      else if ai = 24 then
        rbind (read_be_u64 1 r) (\<lambda>(v, r).
          if v < 24 then Inl (NonCanonical ''overlong head'') else Inr (v, r))
      else if ai = 25 then
        rbind (read_be_u64 2 r) (\<lambda>(v, r).
          if v \<le> 0xff then Inl (NonCanonical ''overlong head'') else Inr (v, r))
      else if ai = 26 then
        rbind (read_be_u64 4 r) (\<lambda>(v, r).
          if v \<le> 0xffff then Inl (NonCanonical ''overlong head'') else Inr (v, r))
      else if ai = 27 then
        rbind (read_be_u64 8 r) (\<lambda>(v, r).
          if v \<le> 0xffffffff then Inl (NonCanonical ''overlong head'') else Inr (v, r))
      else if ai \<le> 30 then Inl MalformedHead
      else Inl (Unsupported ''indefinite length''))"

definition read_head :: "u8 \<Rightarrow> bytes \<Rightarrow> value_decode_error + u64 \<times> bytes" where
  "read_head expected_major r =
     rbind (cread_u8 r) (\<lambda>(ib, r).
       if drop_bit 5 ib \<noteq> expected_major then Inl (Unsupported ''unexpected major type'')
       else read_head_value (ib AND 0x1f) r)"

definition check_len :: "u64 \<Rightarrow> bytes \<Rightarrow> value_decode_error + nat" where
  "check_len declared r =
     (if length r < unat declared then Inl (LengthOverrun declared (length r))
      else Inr (unat declared))"

definition read_text :: "bytes \<Rightarrow> value_decode_error + bytes \<times> bytes" where
  "read_text r =
     rbind (read_head MAJOR_TEXT r) (\<lambda>(len, r).
     rbind (check_len len r) (\<lambda>n.
     rbind (read_exact n r) (\<lambda>(bs, r).
     rbind (ok_or InvalidUtf8 (from_utf8 bs)) (\<lambda>s. Inr (s, r)))))"

definition unsigned_to_i64 :: "u64 \<Rightarrow> value_decode_error + i64" where
  "unsigned_to_i64 v = (if 0x7fffffffffffffff < v then Inl IntOutOfRange else Inr v)"

definition negative_to_i64 :: "u64 \<Rightarrow> value_decode_error + i64" where
  "negative_to_i64 v = (if 0x7fffffffffffffff < v then Inl IntOutOfRange else Inr (- 1 - v))"

definition read_i64 :: "bytes \<Rightarrow> value_decode_error + i64 \<times> bytes" where
  "read_i64 r =
     rbind (cread_u8 r) (\<lambda>(ib, r).
     rbind (read_head_value (ib AND 0x1f) r) (\<lambda>(v, r).
       if drop_bit 5 ib = MAJOR_UNSIGNED then rbind (unsigned_to_i64 v) (\<lambda>n. Inr (n, r))
       else if drop_bit 5 ib = MAJOR_NEGATIVE then rbind (negative_to_i64 v) (\<lambda>n. Inr (n, r))
       else Inl (Unsupported ''expected integer'')))"

section \<open>Head bytes\<close>

lemma write_head_append: "write_head (p @ out) m v = p @ write_head out m v"
  by (simp add: write_head_def Let_def)

lemma write_int_append: "write_int (p @ out) n = p @ write_int out n"
  by (simp add: write_int_def write_head_append)

lemma unat_drop_and:
  fixes b :: u8
  shows "unat (drop_bit 5 b) = unat b div 32" "unat (b AND 31) = unat b mod 32"
proof -
  show "unat (drop_bit 5 b) = unat b div 32"
    unfolding unat_drop_bit_eq by (simp add: drop_bit_eq_div)
  have "b AND 31 = take_bit 5 b" by (simp add: take_bit_eq_mask mask_eq_exp_minus_1)
  then have "unat (b AND 31) = take_bit 5 (unat b)" by (simp only: unsigned_take_bit_eq)
  then show "unat (b AND 31) = unat b mod 32" by (simp add: take_bit_eq_mod)
qed

lemma unat_head_byte:
  fixes m a :: u8
  assumes "m < 8" "a < 32"
  shows "unat (push_bit 5 m OR a) = 32 * unat m + unat a"
proof -
  have m: "unat m < 8" and a: "unat a < 32" using assms by (simp_all add: word_less_nat_alt)
  have lo: "\<not> bit a n" if "5 \<le> n" for n
  proof -
    have "a = take_bit 5 a"
      unfolding word_unat_eq_iff unsigned_take_bit_eq using a by (simp add: take_bit_eq_mod)
    then have "bit a n = (n < 5 \<and> bit a n)" by (metis bit_take_bit_iff)
    with that show ?thesis by simp
  qed
  have "push_bit 5 m AND a = 0"
    by (rule bit_eqI) (use lo in \<open>auto simp: bit_and_iff bit_push_bit_iff\<close>)
  then have "push_bit 5 m OR a = push_bit 5 m + a" by (simp add: disjunctive_add_eq_or)
  also have "\<dots> = 32 * m + a" by (simp add: push_bit_eq_mult)
  also have "unat (32 * m + a) = 32 * unat m + unat a"
    using m a by (simp add: unat_word_ariths)
  finally show ?thesis .
qed

lemma head_byte_split:
  fixes m a :: u8
  assumes "m < 8" "a < 32"
  shows "drop_bit 5 (push_bit 5 m OR a) = m" "(push_bit 5 m OR a) AND 31 = a"
  unfolding word_unat_eq_iff unat_drop_and unat_head_byte [OF assms]
  using assms by (simp_all add: word_less_nat_alt)

lemma head_byte_join:
  fixes ib :: u8
  shows "push_bit 5 (drop_bit 5 ib) OR (ib AND 31) = ib" "drop_bit 5 ib < 8" "ib AND 31 < 32"
proof -
  show lt: "drop_bit 5 ib < 8" "ib AND 31 < 32"
    using unat_bounds(1) [of ib] by (simp_all add: word_less_nat_alt unat_drop_and)
  show "push_bit 5 (drop_bit 5 ib) OR (ib AND 31) = ib"
    unfolding word_unat_eq_iff unat_head_byte [OF lt] unat_drop_and by simp
qed

lemma read_exact_append [simp]: "length a = n \<Longrightarrow> read_exact n (a @ r) = Inr (a, r)"
  by (simp add: read_exact_def)

lemma read_exact_Inr: "read_exact n r = Inr (a, r') \<longleftrightarrow> r = a @ r' \<and> length a = n"
  by (auto simp: read_exact_def split: if_splits)

lemma cread_u8_Inr: "cread_u8 r = Inr (b, r') \<longleftrightarrow> r = b # r'"
  by (cases r) auto

lemma foldl_be: "foldl (\<lambda>v b. push_bit 8 v OR ucast b) (of_nat k) bs =
    (of_nat (k * 256 ^ length bs + nat_of_be bs) :: u64)"
proof (induction bs arbitrary: k)
  case (Cons b bs)
  have "push_bit 8 (of_nat k) AND ucast b = (0 :: u64)"
    by (rule bit_eqI) (auto simp: bit_and_iff bit_push_bit_iff bit_ucast_iff dest: bit_imp_le_length)
  then have "push_bit 8 (of_nat k) OR ucast b = (push_bit 8 (of_nat k) + ucast b :: u64)"
    by (simp add: disjunctive_add_eq_or)
  also have "\<dots> = of_nat (k * 256 + unat b)"
    by (simp add: push_bit_eq_mult)
  finally show ?case
    using Cons [of "k * 256 + unat b"] by (simp add: algebra_simps)
qed simp

lemma read_be_u64_eq:
  "read_be_u64 n r = rbind (read_exact n r) (\<lambda>(bs, r). Inr (of_nat (nat_of_be bs), r))"
  unfolding read_be_u64_def using foldl_be [of 0] by simp

lemma read_be_u64_Inr:
  "read_be_u64 n r = Inr (v, r') \<longleftrightarrow>
     (\<exists>bs. r = bs @ r' \<and> length bs = n \<and> v = of_nat (nat_of_be bs))"
  by (auto simp: read_be_u64_eq rbind_Inr_iff read_exact_Inr)

lemma unat_ucast_mod:
  "unat (ucast (v :: 'a::len word) :: 'b::len word) = unat v mod 2 ^ LENGTH('b)"
  by (simp add: unsigned_ucast_eq take_bit_eq_mod)

lemma nat_of_be_words [simp]:
  "nat_of_be (be_u64 a) = unat a" "nat_of_be (be_u32 b) = unat b" "nat_of_be (be_u16 c) = unat c"
  using unat_bounds(4) [of a] unat_bounds(3) [of b] unat_bounds(2) [of c]
  by (simp_all add: be_u64_def be_u32_def be_u16_def)

text \<open>Every head the writer emits is one the reader takes, with the value and the rest.\<close>

lemma read_written_head:
  assumes "m < 8"
  shows "\<exists>ib rest. write_head [] m v @ r = ib # rest \<and> drop_bit 5 ib = m \<and>
    read_head_value (ib AND 31) rest = Inr (v, r)"
proof -
  note split = head_byte_split [OF assms]
  note defs = write_head_def Let_def read_head_value_def read_be_u64_eq word_less_nat_alt
    word_le_nat_alt unat_ucast_mod
  consider "unat v < 24" | "24 \<le> unat v" "unat v \<le> 0xff" | "0xff < unat v" "unat v \<le> 0xffff"
    | "0xffff < unat v" "unat v \<le> 0xffffffff" | "0xffffffff < unat v" by linarith
  then show ?thesis
  proof cases
    case 1
    have a: "(ucast v :: u8) < 32" using 1 by (simp add: defs)
    have "ucast (ucast v :: u8) = v" using 1 by (simp add: word_unat_eq_iff unat_ucast_mod)
    then show ?thesis using 1 split [OF a] by (simp add: defs)
  next
    case 2
    have "read_exact 1 (ucast v # r) = Inr ([ucast v], r)" by (simp add: read_exact_def)
    then show ?thesis using 2 split [of 24] by (simp add: defs)
  next
    case 3
    then show ?thesis using split [of 25] by (simp add: defs)
  next
    case 4
    then show ?thesis using split [of 26] by (simp add: defs)
  next
    case 5
    then show ?thesis using split [of 27] by (simp add: defs)
  qed
qed

text \<open>And every head the reader takes is the one the writer emits.\<close>

lemma written_read_head:
  assumes "read_head_value ai r = Inr (v, r')" "m < 8" "ai < 32"
  shows "(push_bit 5 m OR ai) # r = write_head [] m v @ r'"
proof -
  note defs = write_head_def Let_def word_less_nat_alt word_le_nat_alt unat_ucast_mod
  have ai: "unat ai < 32" using assms(3) by (simp add: word_less_nat_alt)
  from assms(1) consider (small) "ai \<le> 23" "v = ucast ai" "r' = r"
    | (one) "ai = 24" "read_be_u64 1 r = Inr (v, r')" "\<not> v < 24"
    | (two) "ai = 25" "read_be_u64 2 r = Inr (v, r')" "\<not> v \<le> 0xff"
    | (four) "ai = 26" "read_be_u64 4 r = Inr (v, r')" "\<not> v \<le> 0xffff"
    | (eight) "ai = 27" "read_be_u64 8 r = Inr (v, r')" "\<not> v \<le> 0xffffffff"
    by (auto simp: read_head_value_def rbind_Inr_iff split: if_splits)
  then show ?thesis
  proof cases
    case small
    then have "v < 24" by (simp add: defs)
    moreover have "ucast v = ai" using small by (simp add: word_unat_eq_iff unat_ucast_mod defs)
    ultimately show ?thesis using small by (simp add: write_head_def)
  next
    case one
    then obtain b where b: "r = b # r'" "v = of_nat (unat b)"
      by (auto simp: read_be_u64_Inr length_Suc_conv)
    then have u: "unat v = unat b" using unat_bounds(1) [of b] by (simp add: unat_ucast_mod)
    have "ucast v = b" using u unat_bounds(1) [of b] by (simp add: word_unat_eq_iff unat_ucast_mod)
    then show ?thesis using one b u unat_bounds(1) [of b] by (simp add: defs)
  next
    case two
    then obtain bs where b: "r = bs @ r'" "length bs = 2" "v = of_nat (nat_of_be bs)"
      by (auto simp: read_be_u64_Inr)
    then have u: "unat v = nat_of_be bs" "nat_of_be bs < 65536"
      using nat_of_be_bound [of bs] by (simp_all add: unat_of_nat)
    have "ucast v = u16_of_be bs"
      using u by (simp add: word_unat_eq_iff unat_ucast_mod u16_of_be_def unat_of_nat)
    then show ?thesis using two b u by (simp add: defs)
  next
    case four
    then obtain bs where b: "r = bs @ r'" "length bs = 4" "v = of_nat (nat_of_be bs)"
      by (auto simp: read_be_u64_Inr)
    then have u: "unat v = nat_of_be bs" "nat_of_be bs < 4294967296"
      using nat_of_be_bound [of bs] by (simp_all add: unat_of_nat)
    have "ucast v = u32_of_be bs"
      using u by (simp add: word_unat_eq_iff unat_ucast_mod u32_of_be_def unat_of_nat)
    then show ?thesis using four b u by (simp add: defs)
  next
    case eight
    then obtain bs where b: "r = bs @ r'" "length bs = 8" "v = u64_of_be bs"
      by (auto simp: read_be_u64_Inr u64_of_be_def)
    then show ?thesis using eight by (simp add: defs)
  qed
qed

lemma read_head_write [simp]:
  "m < 8 \<Longrightarrow> read_head m (write_head [] m v @ r) = Inr (v, r)"
  using read_written_head [of m v r] by (auto simp: read_head_def)

lemma read_head_strict:
  assumes "read_head m r = Inr (v, r')"
  shows "r = write_head [] m v @ r'"
proof -
  from assms obtain ib rest where r: "r = ib # rest" and m: "drop_bit 5 ib = m"
    and h: "read_head_value (ib AND 31) rest = Inr (v, r')"
    by (auto simp: read_head_def rbind_Inr_iff cread_u8_Inr split: if_splits)
  show ?thesis
    using written_read_head [OF h head_byte_join(2) [of ib] head_byte_join(3)] head_byte_join(1) [of ib] r m by simp
qed

section \<open>Integers and text\<close>

lemma neg_not: "- 1 - v = NOT (v :: u64)"
  by (simp add: not_eq_complement)

lemma sint_nonneg_iff: "0 \<le> sint (n :: i64) \<longleftrightarrow> n \<le> 0x7fffffffffffffff"
proof -
  let ?u = "uint n"
  have b: "0 \<le> ?u" "?u < 2 ^ 64" using uint_bounded [of n] by auto
  have s: "sint n = (?u + 2 ^ 63) mod 2 ^ 64 - 2 ^ 63"
    using uint_xor_top_bit [of n] xor_top_bit [of n] by (simp add: uint_word_ariths)
  show ?thesis
  proof (cases "?u < 2 ^ 63")
    case True
    then show ?thesis using b s by (simp add: word_le_def)
  next
    case False
    then have "(?u + 2 ^ 63) mod 2 ^ 64 = ?u - 2 ^ 63"
      using b mod_add_self2 [of "?u - 2 ^ 63" "2 ^ 64 :: int"] by (simp add: add.commute)
    then show ?thesis using False b s by (simp add: word_le_def)
  qed
qed

lemma unat_not: "unat (NOT v :: u64) = 2 ^ 64 - 1 - unat v"
proof -
  have "v \<le> - 1" by simp
  then have "unat (- 1 - v) = unat (- 1 :: u64) - unat v" by (rule unat_sub)
  then show ?thesis by (simp add: neg_not unsigned_minus_1_eq_mask mask_eq_exp_minus_1)
qed

lemma not_le_top: "(NOT v :: u64) \<le> 0x7fffffffffffffff \<longleftrightarrow> 0x7fffffffffffffff < v"
  using unat_bounds(4) [of v] unfolding word_le_nat_alt word_less_nat_alt unat_not by simp linarith

lemma read_i64_write [simp]: "read_i64 (write_int [] n @ r) = Inr (n, r)"
proof (cases "0 \<le> sint n")
  case True
  then show ?thesis
    using read_written_head [of 0 n r] 
    by (auto simp: write_int_def read_i64_def unsigned_to_i64_def sint_nonneg_iff not_less)
next
  case False
  then show ?thesis
    using read_written_head [of 1 "NOT n" r] not_le_top [of n]
    by (auto simp: write_int_def read_i64_def negative_to_i64_def sint_nonneg_iff neg_not not_less)
qed

lemma read_i64_strict:
  assumes "read_i64 r = Inr (n, r')"
  shows "r = write_int [] n @ r'"
proof -
  from assms obtain ib rest v where r: "r = ib # rest"
    and h: "read_head_value (ib AND 31) rest = Inr (v, r')"
    and n: "(drop_bit 5 ib = 0 \<and> v \<le> 0x7fffffffffffffff \<and> n = v) \<or>
      (drop_bit 5 ib = 1 \<and> v \<le> 0x7fffffffffffffff \<and> n = NOT v)"
    by (auto simp: read_i64_def rbind_Inr_iff cread_u8_Inr unsigned_to_i64_def negative_to_i64_def
        neg_not not_less split: if_splits)
  have w: "r = write_head [] (drop_bit 5 ib) v @ r'"
    using written_read_head [OF h head_byte_join(2) [of ib] head_byte_join(3)] head_byte_join(1) [of ib] r by simp
  from n show ?thesis
  proof
    assume "drop_bit 5 ib = 1 \<and> v \<le> 0x7fffffffffffffff \<and> n = NOT v"
    then show ?thesis using w not_le_top [of v] by (auto simp: write_int_def sint_nonneg_iff)
  qed (use w in \<open>simp add: write_int_def sint_nonneg_iff\<close>)
qed

lemma read_text_write [simp]:
  assumes "utf8_valid s" "length s < 2 ^ 64"
  shows "read_text (write_text [] s @ r) = Inr (s, r)"
proof -
  have n: "unat (of_nat (length s) :: u64) = length s" using assms(2) by (simp add: unat_of_nat)
  have "write_text [] s @ r = write_head [] 3 (of_nat (length s)) @ s @ r"
    by (simp add: write_text_def)
  then show ?thesis
    using assms(1) by (simp add: read_text_def n check_len_def from_utf8_def)
qed

lemma read_text_strict:
  assumes "read_text r = Inr (s, r')"
  shows "r = write_text [] s @ r' \<and> utf8_valid s \<and> length s < 2 ^ 64"
proof -
  from assms obtain len r1 where h: "read_head 3 r = Inr (len, r1)" and r1: "r1 = s @ r'"
    and l: "length s = unat len" and u: "utf8_valid s"
    by (auto simp: read_text_def rbind_Inr_iff check_len_def read_exact_Inr split: if_splits)
  have "of_nat (length s) = len" using l by simp
  with read_head_strict [OF h] r1 u l unat_bounds(4) [of len] show ?thesis
    by (simp add: write_text_def)
qed

section \<open>Order of encoded text\<close>

text \<open>A head is its initial byte, whose low bits are the additional information, and the
  argument bytes; both grow with the value.\<close>

definition head_ai :: "u64 \<Rightarrow> u8" where
  "head_ai v = (if v < 24 then ucast v else if v \<le> 0xff then 24 else if v \<le> 0xffff then 25
     else if v \<le> 0xffffffff then 26 else 27)"

definition head_arg :: "u64 \<Rightarrow> bytes" where
  "head_arg v = (if v < 24 then [] else if v \<le> 0xff then [ucast v]
     else if v \<le> 0xffff then be_u16 (ucast v)
     else if v \<le> 0xffffffff then be_u32 (ucast v) else be_u64 v)"

lemma write_head_split: "write_head [] m v = (push_bit 5 m OR head_ai v) # head_arg v"
  by (simp add: write_head_def head_ai_def head_arg_def Let_def)

lemma head_ai_less: "unat (head_ai v) = (if unat v < 24 then unat v else if unat v \<le> 0xff then 24
    else if unat v \<le> 0xffff then 25 else if unat v \<le> 0xffffffff then 26 else 27)"
  by (simp add: head_ai_def word_less_nat_alt word_le_nat_alt unat_ucast_mod)

lemma head_arg_eq: "head_arg v = (if unat v < 24 then []
    else be_of_nat (if unat v \<le> 0xff then 1 else if unat v \<le> 0xffff then 2
      else if unat v \<le> 0xffffffff then 4 else 8) (unat v))"
  by (auto simp: head_arg_def word_less_nat_alt word_le_nat_alt be_u16_def be_u32_def be_u64_def
      unat_ucast_mod word_unat_eq_iff unat_of_nat)

lemma head_code:
  assumes "m < 8"
  shows "cmp (write_head [] m v @ s) (write_head [] m w @ t) = then_with (cmp v w) (cmp s t)"
proof -
  have ai: "head_ai v < 32" for v by (simp add: word_less_nat_alt head_ai_less)
  have first: "cmp (push_bit 5 m OR head_ai v) (push_bit 5 m OR head_ai w) =
      cmp (unat (head_ai v)) (unat (head_ai w))"
    by (rule cmp_mono_iff)
      (simp_all add: word_less_nat_alt word_unat_eq_iff unat_head_byte [OF assms ai])
  have vw: "cmp v w = cmp (unat v) (unat w)"
    by (rule cmp_mono_iff) (simp_all add: word_less_nat_alt word_unat_eq_iff)
  have args: "length (head_arg v) = length (head_arg w) \<and>
      cmp (head_arg v) (head_arg w) = cmp (unat v) (unat w)"
    if "unat (head_ai v) = unat (head_ai w)"
    using that unat_bounds(4) [of v] unat_bounds(4) [of w]
    unfolding head_ai_less head_arg_eq
    by (auto simp: cmp_be_of_nat simp del: be_of_nat.simps split: if_splits)
  show ?thesis
  proof (cases "unat (head_ai v) = unat (head_ai w)")
    case True
    then show ?thesis
      using args first vw by (simp add: write_head_split cmp_Cons cmp_append_eq_length)
  next
    case False
    then have "cmp (unat (head_ai v)) (unat (head_ai w)) = cmp (unat v) (unat w)"
      unfolding head_ai_less by (auto simp: cmp_def split: if_splits)
    moreover have "cmp (unat (head_ai v)) (unat (head_ai w)) \<noteq> Equal" using False by simp
    ultimately show ?thesis
      by (cases "cmp (unat v) (unat w)") (simp_all add: write_head_split cmp_Cons first vw)
  qed
qed

interpretation head: order_code "write_head [] 3" cmp "\<lambda>_. True"
  by unfold_locales (simp add: head_code)

lemma canonical_str_cmp_encoded:
  assumes "length a < 2 ^ 64" "length b < 2 ^ 64"
  shows "cmp (write_text [] a) (write_text [] b) = canonical_str_cmp a b"
proof -
  have "cmp (of_nat (length a) :: u64) (of_nat (length b)) = cmp (length a) (length b)"
    using assms by (intro cmp_mono_iff) (simp_all add: word_less_nat_alt word_unat_eq_iff unat_of_nat)
  then show ?thesis by (simp add: write_text_def head.code canonical_str_cmp_def)
qed

end
