(* ===== verification/Floats.thy ===== *)
theory Floats
  imports Cbor
begin

text \<open>
  The half- and single-precision helpers of \<^verbatim>\<open>crates/acetone-model/src/cbor.rs\<close>, on bit
  patterns. The Rust primitives they use are spelled out: an exact product \<open>m * 2 ^ e\<close> in the
  normal range (\<open>f64_scale\<close>), the widening \<^verbatim>\<open>f64::from(f32)\<close> and the narrowing \<^verbatim>\<open>as f32\<close>,
  which rounds to nearest, ties to even. Lemmas: the exact narrowing conversions invert the
  widening ones, in both directions.
\<close>

section \<open>Fields of a float\<close>

definition CANONICAL_NAN_BITS :: u64 where "CANONICAL_NAN_BITS = 0x7ff8000000000000"
definition F64_INFINITY :: f64 where "F64_INFINITY = 0x7ff0000000000000"

definition f64_sign :: "f64 \<Rightarrow> nat" where "f64_sign x = unat (drop_bit 63 x)"
definition f64_exp :: "f64 \<Rightarrow> nat" where "f64_exp x = unat (drop_bit 52 x AND 0x7ff)"
definition f64_frac :: "f64 \<Rightarrow> nat" where "f64_frac x = unat (x AND 0x000fffffffffffff)"

definition f64_pack :: "nat \<Rightarrow> nat \<Rightarrow> nat \<Rightarrow> f64" where
  "f64_pack s e f = of_nat (s * 2 ^ 63 + e * 2 ^ 52 + f)"

definition f32_sign :: "f32 \<Rightarrow> nat" where "f32_sign x = unat (drop_bit 31 x)"
definition f32_exp :: "f32 \<Rightarrow> nat" where "f32_exp x = unat (drop_bit 23 x AND 0xff)"
definition f32_frac :: "f32 \<Rightarrow> nat" where "f32_frac x = unat (x AND 0x007fffff)"

definition f32_is_nan :: "f32 \<Rightarrow> bool" where
  "f32_is_nan x \<longleftrightarrow> f32_exp x = 0xff \<and> f32_frac x \<noteq> 0"

fun ilog2 :: "nat \<Rightarrow> nat" where
  "ilog2 n = (if n < 2 then 0 else Suc (ilog2 (n div 2)))"

declare ilog2.simps [simp del]

text \<open>The \<^verbatim>\<open>f64\<close> whose value is \<open>m * 2 ^ e\<close>, for \<open>m < 2 ^ 53\<close> and a result in the normal
  range; zero for \<open>m = 0\<close>.\<close>

definition f64_scale :: "nat \<Rightarrow> nat \<Rightarrow> int \<Rightarrow> f64" where
  "f64_scale s m e =
     (if m = 0 then f64_pack s 0 0
      else let k = ilog2 m
           in f64_pack s (nat (e + int k + 1023)) ((m - 2 ^ k) * 2 ^ (52 - k)))"

section \<open>Half precision\<close>

definition f16_bits_to_f64 :: "u16 \<Rightarrow> f64" where
  "f16_bits_to_f64 bits =
     (let negative = (if bits AND 0x8000 \<noteq> 0 then 1 else 0);
          e = unat (drop_bit 10 bits AND 0x1f);
          frac = unat (bits AND 0x03ff)
      in if e = 0 then f64_scale negative frac (- 24)
         else if e = 31 then
           (if frac = 0 then f64_pack negative 2047 0 else CANONICAL_NAN_BITS)
         else f64_scale negative (1024 + frac) (int e - 25))"

definition f16_from_f64_exact :: "f64 \<Rightarrow> u16 option" where
  "f16_from_f64_exact x =
     (let sign = of_nat (f64_sign x mod 2) * 0x8000 :: u16
      in if f64_is_zero x then Some sign
         else if f64_is_infinite x then Some (sign OR 0x7c00)
         else let exp = int (f64_exp x) - 1023; frac = f64_frac x
           in if - 14 \<le> exp \<and> exp \<le> 15 then
                (if frac mod 2 ^ 42 = 0
                 then Some (sign OR push_bit 10 (of_int (exp + 15)) OR of_nat (frac div 2 ^ 42))
                 else None)
              else if - 24 \<le> exp \<and> exp \<le> - 15 then
                (let significand = 2 ^ 52 + frac; shift = nat (28 - exp)
                 in if significand mod 2 ^ shift = 0
                    then Some (sign OR of_nat (significand div 2 ^ shift))
                    else None)
              else None)"

section \<open>Single precision\<close>

text \<open>\<^verbatim>\<open>f64::from(y: f32)\<close>: exact.\<close>

definition f32_to_f64 :: "f32 \<Rightarrow> f64" where
  "f32_to_f64 y =
     (let s = f32_sign y; e = f32_exp y; f = f32_frac y
      in if e = 255 then (if f = 0 then f64_pack s 2047 0 else CANONICAL_NAN_BITS)
         else if e = 0 then f64_scale s f (- 149)
         else f64_scale s (2 ^ 23 + f) (int e - 150))"

text \<open>\<^verbatim>\<open>x as f32\<close> for a number \<open>x\<close>: the significand \<open>m * 2 ^ E\<close> is rounded to a multiple of
  \<open>2 ^ Q\<close>, half to even; overflow gives an infinity.\<close>

definition round_half_even :: "nat \<Rightarrow> nat \<Rightarrow> nat" where
  "round_half_even m shift =
     (let q = m div 2 ^ shift; r = m mod 2 ^ shift; half = 2 ^ (shift - 1)
      in if r < half \<or> r = half \<and> even q then q else q + 1)"

definition f64_to_f32 :: "f64 \<Rightarrow> f32" where
  "f64_to_f32 x =
     (let s = f64_sign x; e = f64_exp x; f = f64_frac x;
          m = (if e = 0 then f else 2 ^ 52 + f);
          E = (if e = 0 then - 1074 else int e - 1075);
          Q = max (E + int (ilog2 m) - 23) (- 149);
          q = round_half_even m (nat (Q - E))
      in if e = 2047 then of_nat (s * 2 ^ 31 + 0x7f800000)
         else of_nat (s * 2 ^ 31 + min 0x7f800000 (nat (Q + 149) * 2 ^ 23 + q)))"

definition f32_from_f64_exact :: "f64 \<Rightarrow> f32 option" where
  "f32_from_f64_exact x =
     (let y = f64_to_f32 x in if f32_to_f64 y = x then Some y else None)"

section \<open>Field arithmetic\<close>

lemma unat_and_mask: "unat (x AND mask n) = unat (x :: 'a::len word) mod 2 ^ n"
proof -
  have "unat (x AND mask n) = take_bit n (unat x)"
    by (simp only: take_bit_eq_mask [symmetric] unsigned_take_bit_eq)
  then show ?thesis by (simp only: take_bit_eq_mod)
qed

lemma unat_drop: "unat (drop_bit n x) = unat (x :: 'a::len word) div 2 ^ n"
proof -
  have "unat (drop_bit n x) = drop_bit n (unat x)" by (simp only: unat_drop_bit_eq)
  then show ?thesis by (simp only: drop_bit_eq_div)
qed

lemma unat_of_nat_small:
  "n < 2 ^ 64 \<Longrightarrow> unat (of_nat n :: u64) = n"
  "n < 2 ^ 32 \<Longrightarrow> unat (of_nat n :: u32) = n"
  "n < 2 ^ 16 \<Longrightarrow> unat (of_nat n :: u16) = n"
  by (simp_all add: unat_of_nat)

lemma split_low: "n mod (a * b) = n div a mod b * a + n mod (a :: nat)"
  using mod_mult2_eq [of n a b] by (simp add: mult.commute)

lemma split3: "(n :: nat) = n div (a * b) * (a * b) + (n div a mod b * a + n mod a)"
  using div_mult_mod_eq [of n "a * b"] unfolding split_low [of n a b] by simp

lemma masks:
  "(0x7ff :: u64) = mask 11" "(0x000fffffffffffff :: u64) = mask 52"
  "(0x7fffffffffffffff :: u64) = mask 63"
  "(0xff :: u32) = mask 8" "(0x007fffff :: u32) = mask 23"
  "(0x1f :: u16) = mask 5" "(0x03ff :: u16) = mask 10"
  by (simp_all add: mask_eq_exp_minus_1)

lemma fields3:
  fixes a b s e f :: nat
  assumes "f < a" "e < b"
  shows "(s * (a * b) + e * a + f) div (a * b) = s"
    and "(s * (a * b) + e * a + f) div a mod b = e"
    and "(s * (a * b) + e * a + f) mod a = f"
proof -
  have n: "s * (a * b) + e * a + f = f + (e + s * b) * a" by (simp add: algebra_simps)
  have "(e + 1) * a \<le> b * a" using assms(2) by (intro mult_le_mono1) simp
  then have lt: "e * a + f < a * b" using assms(1) by (simp add: algebra_simps)
  then have "a * b \<noteq> 0" by linarith
  then have "(e * a + f + s * (a * b)) div (a * b) = s + (e * a + f) div (a * b)"
    by (rule div_mult_self1)
  then show "(s * (a * b) + e * a + f) div (a * b) = s"
    using lt by (simp add: algebra_simps)
  show "(s * (a * b) + e * a + f) div a mod b = e" "(s * (a * b) + e * a + f) mod a = f"
    using assms unfolding n by (simp_all add: div_mult_self1 mod_mult_self1)
qed

lemma f64_fields:
  "f64_sign x = unat x div 2 ^ 63" "f64_exp x = unat x div 2 ^ 52 mod 2048"
  "f64_frac x = unat x mod 2 ^ 52"
  unfolding f64_sign_def f64_exp_def f64_frac_def masks unat_and_mask unat_drop by simp_all

lemma f32_fields:
  "f32_sign y = unat y div 2 ^ 31" "f32_exp y = unat y div 2 ^ 23 mod 256"
  "f32_frac y = unat y mod 2 ^ 23"
  unfolding f32_sign_def f32_exp_def f32_frac_def masks unat_and_mask unat_drop by simp_all

lemma f64_field_bounds: "f64_sign x < 2" "f64_exp x < 2048" "f64_frac x < 2 ^ 52"
  using unat_bounds(4) [of x] by (simp_all add: f64_fields)

lemma f32_field_bounds: "f32_sign y < 2" "f32_exp y < 256" "f32_frac y < 2 ^ 23"
  using unat_bounds(3) [of y] by (simp_all add: f32_fields)

lemma f64_unat: "unat x = f64_sign x * 2 ^ 63 + f64_exp x * 2 ^ 52 + f64_frac x"
  using split3 [of "unat x" "2 ^ 52" 2048] by (simp add: f64_fields)

lemma f32_unat: "unat y = f32_sign y * 2 ^ 31 + f32_exp y * 2 ^ 23 + f32_frac y"
  using split3 [of "unat y" "2 ^ 23" 256] by (simp add: f32_fields)

lemma f64_pack_fields [simp]: "f64_pack (f64_sign x) (f64_exp x) (f64_frac x) = x"
  unfolding f64_pack_def f64_unat [symmetric] by simp

lemma fields_f64_pack:
  assumes "s < 2" "e < 2048" "f < 2 ^ 52"
  shows "f64_sign (f64_pack s e f) = s" "f64_exp (f64_pack s e f) = e" "f64_frac (f64_pack s e f) = f"
proof -
  have "s * 2 ^ 63 + e * 2 ^ 52 + f < 2 ^ 64" using assms by simp
  then have "unat (f64_pack s e f) = s * 2 ^ 63 + e * 2 ^ 52 + f"
    unfolding f64_pack_def by (rule unat_of_nat_small)
  with assms show "f64_sign (f64_pack s e f) = s" "f64_exp (f64_pack s e f) = e"
    "f64_frac (f64_pack s e f) = f"
    using fields3 [of f "2 ^ 52" e 2048 s] by (simp_all add: f64_fields)
qed

lemma unat_low63: "unat (x AND 0x7fffffffffffffff :: u64) = f64_exp x * 2 ^ 52 + f64_frac x"
  using split_low [of "unat x" "2 ^ 52" 2048]
  unfolding masks unat_and_mask f64_fields by simp

lemma f64_classify:
  "f64_is_zero x \<longleftrightarrow> f64_exp x = 0 \<and> f64_frac x = 0"
  "f64_is_infinite x \<longleftrightarrow> f64_exp x = 2047 \<and> f64_frac x = 0"
  "f64_is_nan x \<longleftrightarrow> f64_exp x = 2047 \<and> f64_frac x \<noteq> 0"
  using f64_field_bounds [of x] unat_low63 [of x]
    linorder_less_linear [of "f64_exp x" 2047]
  by (auto simp: f64_is_zero_def f64_is_infinite_def f64_is_nan_def word_unat_eq_iff
      word_less_nat_alt)

lemma ilog2_bounds: "0 < n \<Longrightarrow> 2 ^ ilog2 n \<le> n \<and> n < 2 ^ Suc (ilog2 n)"
proof (induction n rule: ilog2.induct)
  case (1 n)
  show ?case
  proof (cases "n < 2")
    case True
    then show ?thesis using 1 by (simp add: ilog2.simps)
  next
    case False
    with 1 have "2 ^ ilog2 (n div 2) \<le> n div 2 \<and> n div 2 < 2 ^ Suc (ilog2 (n div 2))" by simp
    with False show ?thesis by (subst (1 2) ilog2.simps) auto
  qed
qed

lemma ilog2_eqI: "2 ^ k \<le> n \<Longrightarrow> n < 2 ^ Suc k \<Longrightarrow> ilog2 n = k"
proof -
  assume n: "2 ^ k \<le> n" "n < 2 ^ Suc k"
  then have "0 < n" by (metis gr0I not_one_le_zero one_le_numeral one_le_power order_trans)
  from ilog2_bounds [OF this] have "2 ^ ilog2 n \<le> n" "n < 2 ^ Suc (ilog2 n)" by auto
  with n have "(2::nat) ^ ilog2 n < 2 ^ Suc k" "(2::nat) ^ k < 2 ^ Suc (ilog2 n)" by linarith+
  then show ?thesis by (simp only: power_strict_increasing_iff)
qed

text \<open>Scaling a number with at most 53 significant bits keeps the significand exactly.\<close>

lemma scale_pack:
  assumes "2 ^ k \<le> m" "m < 2 ^ Suc k" "k \<le> 52"
  shows "f64_scale s m e = f64_pack s (nat (e + int k + 1023)) (m * 2 ^ (52 - k) - 2 ^ 52)"
    and "m * 2 ^ (52 - k) - 2 ^ 52 < 2 ^ 52" and "2 ^ 52 \<le> m * 2 ^ (52 - k)"
proof -
  have k: "ilog2 m = k" using assms by (intro ilog2_eqI)
  have p: "(2::nat) ^ k * 2 ^ (52 - k) = 2 ^ 52" using assms(3) by (simp flip: power_add)
  have m: "m \<noteq> 0" using assms(1) by (metis le_zero_eq power_not_zero zero_neq_numeral)
  have "(m - 2 ^ k) * 2 ^ (52 - k) = m * 2 ^ (52 - k) - 2 ^ 52"
    using p by (simp add: diff_mult_distrib)
  then show "f64_scale s m e = f64_pack s (nat (e + int k + 1023)) (m * 2 ^ (52 - k) - 2 ^ 52)"
    by (simp add: f64_scale_def m k Let_def)
  have "m * 2 ^ (52 - k) < 2 ^ Suc k * 2 ^ (52 - k)" using assms(2) by simp
  also have "\<dots> = 2 ^ 52 + 2 ^ 52" using p by simp
  finally show "m * 2 ^ (52 - k) - 2 ^ 52 < 2 ^ 52" by linarith
  have "2 ^ k * 2 ^ (52 - k) \<le> m * 2 ^ (52 - k)" using assms(1) by simp
  then show "2 ^ 52 \<le> m * 2 ^ (52 - k)" using p by simp
qed

section \<open>Half precision is exact both ways\<close>

definition f16_pack :: "nat \<Rightarrow> nat \<Rightarrow> nat \<Rightarrow> u16" where
  "f16_pack s e f = of_nat (s * 2 ^ 15 + e * 2 ^ 10 + f)"

definition f16_sign :: "u16 \<Rightarrow> nat" where "f16_sign h = unat h div 2 ^ 15"
definition f16_exp :: "u16 \<Rightarrow> nat" where "f16_exp h = unat h div 2 ^ 10 mod 32"
definition f16_frac :: "u16 \<Rightarrow> nat" where "f16_frac h = unat h mod 2 ^ 10"

lemma f16_bounds: "f16_sign h < 2" "f16_exp h < 32" "f16_frac h < 1024"
  using unat_bounds(2) [of h] by (simp_all add: f16_sign_def f16_exp_def f16_frac_def)

lemma f16_pack_fields: "f16_pack (f16_sign h) (f16_exp h) (f16_frac h) = h"
proof -
  have "f16_sign h * 2 ^ 15 + f16_exp h * 2 ^ 10 + f16_frac h = unat h"
    using split3 [of "unat h" "2 ^ 10" 32] by (simp add: f16_sign_def f16_exp_def f16_frac_def)
  then show ?thesis unfolding f16_pack_def by simp
qed

lemma fields_f16_pack:
  assumes "s < 2" "e < 32" "f < 1024"
  shows "f16_sign (f16_pack s e f) = s" "f16_exp (f16_pack s e f) = e" "f16_frac (f16_pack s e f) = f"
proof -
  have "s * 2 ^ 15 + e * 2 ^ 10 + f < 2 ^ 16" using assms by simp
  then have "unat (f16_pack s e f) = s * 2 ^ 15 + e * 2 ^ 10 + f"
    unfolding f16_pack_def by (rule unat_of_nat_small)
  with assms show "f16_sign (f16_pack s e f) = s" "f16_exp (f16_pack s e f) = e"
    "f16_frac (f16_pack s e f) = f"
    using fields3 [of f "2 ^ 10" e 32 s] by (simp_all add: f16_sign_def f16_exp_def f16_frac_def)
qed

lemma f16_sign_bit: "(if bits AND 0x8000 \<noteq> 0 then 1 else 0) = f16_sign bits"
proof -
  have "bits AND 0x8000 \<noteq> 0 \<longleftrightarrow> bit bits 15"
  proof -
    have "bits AND 0x8000 = bits AND push_bit 15 1" by simp
    also have "\<dots> \<noteq> 0 \<longleftrightarrow> bit bits 15"
      by (metis and_exp_eq_0_iff_not_bit push_bit_of_1)
    finally show ?thesis .
  qed
  also have "bit bits 15 \<longleftrightarrow> odd (f16_sign bits)"
    using bit_unsigned_iff [of bits 15, where ?'a = nat] bit_iff_odd [of "unat bits" 15]
    by (simp add: f16_sign_def)
  finally show ?thesis using f16_bounds(1) [of bits] by (auto elim!: oddE simp: less_2_cases_iff)
qed

lemma f16_to_f64_fields:
  "f16_bits_to_f64 h =
     (if f16_exp h = 0 then f64_scale (f16_sign h) (f16_frac h) (- 24)
      else if f16_exp h = 31 then
        (if f16_frac h = 0 then f64_pack (f16_sign h) 2047 0 else CANONICAL_NAN_BITS)
      else f64_scale (f16_sign h) (1024 + f16_frac h) (int (f16_exp h) - 25))"
proof -
  have "unat (drop_bit 10 h AND 0x1f) = f16_exp h" "unat (h AND 0x03ff) = f16_frac h"
    unfolding masks unat_and_mask unat_drop by (simp_all add: f16_exp_def f16_frac_def)
  then show ?thesis unfolding f16_bits_to_f64_def f16_sign_bit Let_def by simp
qed

lemma or_low_add:
  fixes a b :: "'a::len word"
  assumes "unat b < 2 ^ k"
  shows "push_bit k a OR b = push_bit k a + b"
proof -
  have "b = take_bit k b"
    unfolding word_unat_eq_iff unsigned_take_bit_eq using assms by (simp only: take_bit_nat_eq_self)
  then have "\<not> bit b n" if "k \<le> n" for n using that by (metis bit_take_bit_iff not_less)
  then have "push_bit k a AND b = 0"
    by (intro bit_eqI) (auto simp: bit_and_iff bit_push_bit_iff)
  then show ?thesis by (simp add: disjunctive_add_eq_or)
qed

lemma f16_or_pack:
  assumes "s < 2" "e < 32" "f < 1024"
  shows "of_nat s * 0x8000 OR push_bit 10 (of_int (int e)) OR of_nat f = f16_pack s e f"
    and "of_nat s * 0x8000 OR of_nat f = f16_pack s 0 f"
    and "of_nat s * 0x8000 OR 0x7c00 = f16_pack s 31 0"
    and "of_nat s * 0x8000 = f16_pack s 0 0"
proof -
  have s: "of_nat s * 0x8000 = (push_bit 15 (of_nat s) :: u16)" by (simp add: push_bit_eq_mult)
  have f: "unat (of_nat f :: u16) = f" using assms by (intro unat_of_nat_small) simp
  have ef: "push_bit 10 (of_int (int e)) OR of_nat f = (of_nat (e * 2 ^ 10 + f) :: u16)"
    using or_low_add [of "of_nat f :: u16" 10 "of_nat e"] assms f by (simp add: push_bit_eq_mult)
  have efu: "unat (of_nat (e * 2 ^ 10 + f) :: u16) = e * 2 ^ 10 + f"
    using assms by (intro unat_of_nat_small) simp
  show "of_nat s * 0x8000 OR push_bit 10 (of_int (int e)) OR of_nat f = f16_pack s e f"
    using or_low_add [of "of_nat (e * 2 ^ 10 + f) :: u16" 15 "of_nat s"] assms
    unfolding ef s efu f16_pack_def by (simp add: push_bit_eq_mult)
  show "of_nat s * 0x8000 OR of_nat f = f16_pack s 0 f"
    using or_low_add [of "of_nat f :: u16" 15 "of_nat s"] assms f
    unfolding s f16_pack_def by (simp add: push_bit_eq_mult)
  show "of_nat s * 0x8000 OR 0x7c00 = f16_pack s 31 0"
    using or_low_add [of "0x7c00 :: u16" 15 "of_nat s"]
    unfolding s f16_pack_def by (simp add: push_bit_eq_mult)
  show "of_nat s * 0x8000 = f16_pack s 0 0"
    unfolding s f16_pack_def by (simp add: push_bit_eq_mult)
qed

text \<open>The exact conversion on fields: which numbers have a half-precision form, and which.\<close>

lemma f16_from_fields:
  assumes "s < 2" "e < 2048" "f < 2 ^ 52"
  shows "f16_from_f64_exact (f64_pack s e f) =
    (if e = 0 \<and> f = 0 then Some (f16_pack s 0 0)
     else if e = 2047 \<and> f = 0 then Some (f16_pack s 31 0)
     else if 1009 \<le> e \<and> e \<le> 1038 then
       (if f mod 2 ^ 42 = 0 then Some (f16_pack s (e - 1008) (f div 2 ^ 42)) else None)
     else if 999 \<le> e \<and> e \<le> 1008 then
       (if (2 ^ 52 + f) mod 2 ^ (1051 - e) = 0
        then Some (f16_pack s 0 ((2 ^ 52 + f) div 2 ^ (1051 - e))) else None)
     else None)"
proof -
  note fl = fields_f64_pack [OF assms]
  have q: "f div 2 ^ 42 < 1024" using assms(3) by (simp add: less_mult_imp_div_less)
  have sub: "(2 ^ 52 + f) div 2 ^ (1051 - e) < 1024" if "999 \<le> e" "e \<le> 1008"
  proof -
    have "(2::nat) ^ 53 \<le> 1024 * 2 ^ (1051 - e)"
    proof -
      have "(2::nat) ^ 43 \<le> 2 ^ (1051 - e)" using that by (intro power_increasing) auto
      then show ?thesis by simp
    qed
    then show ?thesis using assms(3) by (intro less_mult_imp_div_less) simp
  qed
  consider "e = 0 \<and> f = 0" | "e = 2047 \<and> f = 0" | "1009 \<le> e \<and> e \<le> 1038"
    | "999 \<le> e \<and> e \<le> 1008" | "\<not> (e = 0 \<and> f = 0)" "\<not> (e = 2047 \<and> f = 0)" "\<not> (999 \<le> e \<and> e \<le> 1038)"
    by linarith
  then show ?thesis
  proof cases
    case 3
    have e: "e - 1008 < 32" using 3 by linarith
    have "of_nat s * 0x8000 OR push_bit 10 (of_int (int e - 1023 + 15)) OR of_nat (f div 2 ^ 42) =
        f16_pack s (e - 1008) (f div 2 ^ 42)"
      using f16_or_pack(1) [OF assms(1), of "e - 1008" "f div 2 ^ 42"] 3 q e by (simp add: of_nat_diff)
    then show ?thesis
      using 3 assms(1) by (simp add: f16_from_f64_exact_def fl f64_classify Let_def)
  next
    case 4
    have n: "nat (1051 - int e) = 1051 - e" using 4 by auto
    show ?thesis
      using 4 assms(1) sub f16_or_pack(2) [OF assms(1), of 0 "(2 ^ 52 + f) div 2 ^ (1051 - e)"]
      by (simp add: f16_from_f64_exact_def fl f64_classify Let_def n del: of_nat_div power_Suc)
  next
    case 1
    then show ?thesis
      unfolding f16_from_f64_exact_def f64_classify fl Let_def
      using assms(1) f16_or_pack(4) [OF assms(1), of 0 0] by simp
  next
    case 2
    then show ?thesis
      unfolding f16_from_f64_exact_def f64_classify fl Let_def
      using assms(1) f16_or_pack(3) [OF assms(1), of 0 0] by simp
  next
    case 5
    then have "\<not> (- 14 \<le> int e - 1023 \<and> int e - 1023 \<le> 15)"
      "\<not> (- 24 \<le> int e - 1023 \<and> int e - 1023 \<le> - 15)"
      "\<not> (1009 \<le> e \<and> e \<le> 1038)" "\<not> (999 \<le> e \<and> e \<le> 1008)" by linarith+
    with 5(1,2) show ?thesis
      by (simp only: f16_from_f64_exact_def fl f64_classify Let_def if_False)
  qed
qed

lemma f16_roundtrip:
  assumes "\<not> (f16_exp h = 31 \<and> f16_frac h \<noteq> 0)"
  shows "f16_from_f64_exact (f16_bits_to_f64 h) = Some h" and "\<not> f64_is_nan (f16_bits_to_f64 h)"
proof -
  let ?s = "f16_sign h" and ?e = "f16_exp h" and ?f = "f16_frac h"
  note b = f16_bounds [of h]
  have "f16_from_f64_exact (f16_bits_to_f64 h) = Some (f16_pack ?s ?e ?f) \<and>
      \<not> f64_is_nan (f16_bits_to_f64 h)"
  proof -
    consider (zero) "?e = 0" "?f = 0" | (sub) "?e = 0" "0 < ?f" | (inf) "?e = 31" "?f = 0"
      | (norm) "1 \<le> ?e" "?e \<le> 30" using assms b by linarith
    then show ?thesis
    proof cases
      case zero
      then show ?thesis using b
        by (simp add: f16_to_f64_fields f64_scale_def f16_from_fields f64_classify fields_f64_pack)
    next
      case inf
      then show ?thesis using b
        by (simp add: f16_to_f64_fields f16_from_fields f64_classify fields_f64_pack)
    next
      case norm
      have k: "2 ^ 10 \<le> 1024 + ?f" "1024 + ?f < 2 ^ Suc 10" using b by simp_all
      have sc: "f16_bits_to_f64 h = f64_pack ?s (?e + 1008) (?f * 2 ^ 42)"
        using scale_pack(1) [OF k, of ?s "int ?e - 25"] norm
        by (simp add: f16_to_f64_fields nat_add_distrib algebra_simps)
      have "?f * 2 ^ 42 < 2 ^ 52" using b by simp
      then show ?thesis using b norm unfolding sc
        by (simp add: f16_from_fields f64_classify fields_f64_pack)
    next
      case sub
      define k where "k = ilog2 ?f"
      have k: "2 ^ k \<le> ?f" "?f < 2 ^ Suc k" using ilog2_bounds [OF sub(2)] by (simp_all add: k_def)
      have "(2::nat) ^ k < 2 ^ 10" using k(1) b(3) by simp
      then have k9: "k \<le> 9" by (simp only: power_strict_increasing_iff)
      let ?F = "?f * 2 ^ (52 - k) - 2 ^ 52"
      have F: "?F < 2 ^ 52" "2 ^ 52 + ?F = ?f * 2 ^ (52 - k)" using scale_pack(2,3) [OF k] k9 by simp_all
      have sc: "f16_bits_to_f64 h = f64_pack ?s (999 + k) ?F"
        using scale_pack(1) [OF k, of ?s "- 24"] sub k9
        by (simp add: f16_to_f64_fields nat_add_distrib)
      have sh: "1051 - (999 + k) = 52 - k" by simp
      show ?thesis using b k9 F sub unfolding sc
        by (simp add: f16_from_fields f64_classify fields_f64_pack sh)
    qed
  qed
  then show "f16_from_f64_exact (f16_bits_to_f64 h) = Some h" "\<not> f64_is_nan (f16_bits_to_f64 h)"
    by (simp_all add: f16_pack_fields)
qed

lemma f16_exact:
  assumes "f16_from_f64_exact x = Some h"
  shows "f16_bits_to_f64 h = x" and "\<not> (f16_exp h = 31 \<and> f16_frac h \<noteq> 0)"
proof -
  let ?s = "f64_sign x" and ?e = "f64_exp x" and ?f = "f64_frac x"
  note b = f64_field_bounds [of x]
  note from_ = f16_from_fields [OF b, unfolded f64_pack_fields]
  have "f16_bits_to_f64 h = f64_pack ?s ?e ?f \<and> \<not> (f16_exp h = 31 \<and> f16_frac h \<noteq> 0)"
  proof -
    from assms from_ consider (zero) "?e = 0" "?f = 0" "h = f16_pack ?s 0 0"
      | (inf) "?e = 2047" "?f = 0" "h = f16_pack ?s 31 0"
      | (norm) "1009 \<le> ?e" "?e \<le> 1038" "?f mod 2 ^ 42 = 0" "h = f16_pack ?s (?e - 1008) (?f div 2 ^ 42)"
      | (sub) "999 \<le> ?e" "?e \<le> 1008" "(2 ^ 52 + ?f) mod 2 ^ (1051 - ?e) = 0"
          "h = f16_pack ?s 0 ((2 ^ 52 + ?f) div 2 ^ (1051 - ?e))"
      by (auto split: if_splits)
    then show ?thesis
    proof cases
      case zero
      then show ?thesis using b by (simp add: f16_to_f64_fields fields_f16_pack f64_scale_def)
    next
      case inf
      then show ?thesis using b by (simp add: f16_to_f64_fields fields_f16_pack)
    next
      case norm
      let ?q = "?f div 2 ^ 42"
      have q: "?q < 1024" using b(3) by (simp add: less_mult_imp_div_less)
      have qf: "?q * 2 ^ 42 = ?f" using norm(3) by (simp add: mod_eq_0_iff_dvd)
      have fl: "f16_sign h = ?s" "f16_exp h = ?e - 1008" "f16_frac h = ?q"
        using fields_f16_pack [of ?s "?e - 1008" ?q] norm b q by simp_all
      have k: "2 ^ 10 \<le> 1024 + ?q" "1024 + ?q < 2 ^ Suc 10" using q by simp_all
      have "f64_scale ?s (1024 + ?q) (int (?e - 1008) - 25) = f64_pack ?s ?e ?f"
        using scale_pack(1) [OF k, of ?s "int (?e - 1008) - 25"] norm qf
        by (simp add: algebra_simps of_nat_diff)
      moreover have "?e - 1008 \<noteq> 0" "?e - 1008 \<noteq> 31" using norm by linarith+
      ultimately show ?thesis by (simp add: f16_to_f64_fields fl)
    next
      case sub
      let ?sh = "1051 - ?e" and ?q = "(2 ^ 52 + ?f) div 2 ^ (1051 - ?e)"
      define k where "k = 52 - ?sh"
      have k: "999 + k = ?e" "?sh = 52 - k" "k \<le> 9" using sub by (simp_all add: k_def)
      have qf: "?q * 2 ^ (52 - k) = 2 ^ 52 + ?f"
        using sub(3) unfolding k(2) by (simp add: mod_eq_0_iff_dvd)
      have p: "(2::nat) ^ k * 2 ^ (52 - k) = 2 ^ 52" using k(3) by (simp flip: power_add)
      have "2 ^ k * 2 ^ (52 - k) \<le> ?q * 2 ^ (52 - k)" using p qf by simp
      then have lo: "2 ^ k \<le> ?q" by simp
      have "?q * 2 ^ (52 - k) < 2 ^ Suc k * 2 ^ (52 - k)" using p qf b(3) by simp
      then have hi: "?q < 2 ^ Suc k" by simp
      have "(2::nat) ^ Suc k \<le> 2 ^ 10" using k(3) by (intro power_increasing) auto
      with hi have q: "?q < 1024" by simp
      have q0: "?q \<noteq> 0" using lo by (metis le_zero_eq power_not_zero zero_neq_numeral)
      have fl: "f16_sign h = ?s" "f16_exp h = 0" "f16_frac h = ?q"
        using fields_f16_pack [of ?s 0 ?q] sub b q by simp_all
      have "f64_scale ?s ?q (- 24) = f64_pack ?s ?e ?f"
        using scale_pack(1) [OF lo hi, of ?s "- 24"] k qf by (simp add: nat_add_distrib)
      then show ?thesis using fl by (simp add: f16_to_f64_fields)
    qed
  qed
  then show "f16_bits_to_f64 h = x" "\<not> (f16_exp h = 31 \<and> f16_frac h \<noteq> 0)" by simp_all
qed

section \<open>Single precision is exact\<close>

lemma round_exact: "round_half_even (q * 2 ^ sh) sh = q"
  by (simp add: round_half_even_def Let_def)

lemma f64_to_f32_exact:
  assumes "s < 2" "0 < e" "e < 2047" "f < 2 ^ 52"
    and m: "2 ^ 52 + f = q * 2 ^ sh" and sh: "int sh = max (int e - 1046) (- 149) - (int e - 1075)"
  shows "f64_to_f32 (f64_pack s e f) =
    of_nat (s * 2 ^ 31 + min 0x7f800000 (nat (max (int e - 1046) (- 149) + 149) * 2 ^ 23 + q))"
proof -
  have e: "e < 2048" using assms(3) by simp
  have ne: "(e = 0) = False" "(e = 2047) = False" using assms(2,3) by simp_all
  have il: "ilog2 (2 ^ 52 + f) = 52" using assms(4) by (intro ilog2_eqI) simp_all
  have Q: "max (int e - 1075 + int 52 - 23) (- 149) = max (int e - 1046) (- 149)" by simp
  have n: "nat (max (int e - 1046) (- 149) - (int e - 1075)) = sh" using sh by linarith
  show ?thesis
    unfolding f64_to_f32_def fields_f64_pack [OF assms(1) e assms(4)] Let_def
    by (simp only: ne if_False il [unfolded m] Q n m round_exact)
qed

lemma f32_pack_fields:
  "of_nat (f32_sign y * 2 ^ 31 + (f32_exp y * 2 ^ 23 + f32_frac y)) = y"
proof -
  have "f32_sign y * 2 ^ 31 + (f32_exp y * 2 ^ 23 + f32_frac y) = unat y"
    using f32_unat [of y] by simp
  then show ?thesis by (simp only:) simp
qed

lemma f32_roundtrip:
  assumes "\<not> f32_is_nan y"
  shows "f64_to_f32 (f32_to_f64 y) = y" and "\<not> f64_is_nan (f32_to_f64 y)"
proof -
  let ?s = "f32_sign y" and ?e = "f32_exp y" and ?f = "f32_frac y"
  note b = f32_field_bounds [of y]
  have "f64_to_f32 (f32_to_f64 y) = of_nat (?s * 2 ^ 31 + (?e * 2 ^ 23 + ?f)) \<and>
      \<not> f64_is_nan (f32_to_f64 y)"
  proof -
    consider (zero) "?e = 0" "?f = 0" | (sub) "?e = 0" "0 < ?f" | (inf) "?e = 255" "?f = 0"
      | (norm) "1 \<le> ?e" "?e \<le> 254" using assms b unfolding f32_is_nan_def by linarith
    then show ?thesis
    proof cases
      case zero
      have "f32_to_f64 y = f64_pack ?s 0 0" using zero by (simp add: f32_to_f64_def f64_scale_def)
      moreover have "ilog2 0 = 0" by (simp add: ilog2.simps)
      ultimately show ?thesis using b zero
        by (simp add: f64_to_f32_def fields_f64_pack f64_classify round_half_even_def)
    next
      case inf
      have "f32_to_f64 y = f64_pack ?s 2047 0" using inf by (simp add: f32_to_f64_def)
      then show ?thesis using b inf by (simp add: f64_to_f32_def fields_f64_pack f64_classify)
    next
      case norm
      have k: "2 ^ 23 \<le> 2 ^ 23 + ?f" "2 ^ 23 + ?f < 2 ^ Suc 23" using b by simp_all
      let ?F = "(2 ^ 23 + ?f) * 2 ^ 29 - 2 ^ 52"
      have F: "?F < 2 ^ 52" "2 ^ 52 + ?F = (2 ^ 23 + ?f) * 2 ^ 29" using b by simp_all
      have x: "f32_to_f64 y = f64_pack ?s (?e + 896) ?F"
        using scale_pack(1) [OF k, of ?s "int ?e - 150"] norm
        by (simp add: f32_to_f64_def Let_def nat_add_distrib algebra_simps)
      have sh: "int 29 = max (int (?e + 896) - 1046) (- 149) - (int (?e + 896) - 1075)"
        using norm by simp
      have "nat (max (int (?e + 896) - 1046) (- 149) + 149) = ?e - 1" using norm by auto
      then have v: "nat (max (int (?e + 896) - 1046) (- 149) + 149) * 2 ^ 23 + (2 ^ 23 + ?f) =
          ?e * 2 ^ 23 + ?f" using norm by (cases "?e") simp_all
      have le: "?e * 2 ^ 23 + ?f \<le> 0x7f800000" using norm b by simp
      show ?thesis
        using f64_to_f32_exact [of ?s "?e + 896" ?F "2 ^ 23 + ?f" 29] b norm F sh le
        unfolding x v by (simp add: fields_f64_pack f64_classify)
    next
      case sub
      define k where "k = ilog2 ?f"
      have k: "2 ^ k \<le> ?f" "?f < 2 ^ Suc k" using ilog2_bounds [OF sub(2)] by (simp_all add: k_def)
      have "(2::nat) ^ k < 2 ^ 23" using k(1) b(3) by simp
      then have k22: "k < 23" by (simp only: power_strict_increasing_iff)
      let ?F = "?f * 2 ^ (52 - k) - 2 ^ 52"
      have F: "?F < 2 ^ 52" "2 ^ 52 + ?F = ?f * 2 ^ (52 - k)" using scale_pack(2,3) [OF k] k22 by simp_all
      have x: "f32_to_f64 y = f64_pack ?s (874 + k) ?F"
        using scale_pack(1) [OF k, of ?s "- 149"] sub k22
        by (simp add: f32_to_f64_def Let_def nat_add_distrib)
      have sh: "int (52 - k) = max (int (874 + k) - 1046) (- 149) - (int (874 + k) - 1075)"
        using k22 by simp
      have v: "nat (max (int (874 + k) - 1046) (- 149) + 149) * 2 ^ 23 + ?f = ?e * 2 ^ 23 + ?f"
        using k22 sub by simp
      have le: "?e * 2 ^ 23 + ?f \<le> 0x7f800000" using sub b by simp
      show ?thesis
        using f64_to_f32_exact [of ?s "874 + k" ?F ?f "52 - k"] b k22 F sh le
        unfolding x v by (simp add: fields_f64_pack f64_classify)
    qed
  qed
  then show "f64_to_f32 (f32_to_f64 y) = y" "\<not> f64_is_nan (f32_to_f64 y)"
    unfolding f32_pack_fields by blast+
qed

lemma f32_exact_roundtrip:
  "\<not> f32_is_nan y \<Longrightarrow> f32_from_f64_exact (f32_to_f64 y) = Some y"
  "f32_from_f64_exact x = Some y \<Longrightarrow> f32_to_f64 y = x"
  by (auto simp: f32_from_f64_exact_def f32_roundtrip Let_def split: if_splits)

end
