(* ===== verification/Value_Codec.thy ===== *)
theory Value_Codec
  imports Floats
begin

text \<open>
  Canonical CBOR of property values, \<^verbatim>\<open>crates/acetone-model/src/values.rs\<close>: \<open>encode_value\<close>,
  the strict \<open>decode_value\<close>, and the theorems that decoding inverts encoding (NaN payloads
  canonicalised) and that the decoder accepts canonical encodings only.
\<close>

section \<open>Encoding\<close>

abbreviation (input) CBOR_TAG_DATE :: u64 where "CBOR_TAG_DATE \<equiv> 100"
abbreviation (input) CBOR_TAG_TIME :: u64 where "CBOR_TAG_TIME \<equiv> 74100"
abbreviation (input) CBOR_TAG_DATETIME :: u64 where "CBOR_TAG_DATETIME \<equiv> 74101"
abbreviation (input) CBOR_TAG_DURATION :: u64 where "CBOR_TAG_DURATION \<equiv> 74102"

definition VALUE_MAX_DEPTH :: nat where "VALUE_MAX_DEPTH = 128"

datatype value_encode_error =
    EncTimeOutOfRange u64
  | EncOffsetOutOfRange i16
  | EncDepthExceeded

definition write_float :: "bytes \<Rightarrow> f64 \<Rightarrow> bytes" where
  "write_float out x =
     (if f64_is_nan x then out @ [HEAD_F16] @ be_u16 0x7e00
      else case f16_from_f64_exact x of
          Some h \<Rightarrow> out @ [HEAD_F16] @ be_u16 h
        | None \<Rightarrow> (case f32_from_f64_exact x of
              Some s \<Rightarrow> out @ [HEAD_F32] @ be_u32 s
            | None \<Rightarrow> out @ [HEAD_F64] @ be_u64 x))"

fun write_value :: "bytes \<Rightarrow> mvalue \<Rightarrow> nat \<Rightarrow> value_encode_error + bytes"
  and write_values :: "bytes \<Rightarrow> mvalue list \<Rightarrow> nat \<Rightarrow> value_encode_error + bytes" where
  "write_value out v depth =
     (if VALUE_MAX_DEPTH < depth then Inl EncDepthExceeded
      else (case v of
          VNull \<Rightarrow> Inr (out @ [SIMPLE_NULL])
        | VBool False \<Rightarrow> Inr (out @ [SIMPLE_FALSE])
        | VBool True \<Rightarrow> Inr (out @ [SIMPLE_TRUE])
        | VInt n \<Rightarrow> Inr (write_int out n)
        | VFloat x \<Rightarrow> Inr (write_float out x)
        | VString s \<Rightarrow> Inr (write_head out MAJOR_TEXT (of_nat (length s)) @ s)
        | VBytes b \<Rightarrow> Inr (write_head out MAJOR_BYTES (of_nat (length b)) @ b)
        | VDate d \<Rightarrow> Inr (write_int (write_head out MAJOR_TAG CBOR_TAG_DATE) (date_days d))
        | VTime t \<Rightarrow>
            if NANOS_PER_DAY \<le> time_nanos t then Inl (EncTimeOutOfRange (time_nanos t))
            else Inr (write_head (write_head out MAJOR_TAG CBOR_TAG_TIME)
                        MAJOR_UNSIGNED (time_nanos t))
        | VDateTime dt \<Rightarrow>
            if offset_out_of_range (offset_minutes dt)
            then Inl (EncOffsetOutOfRange (offset_minutes dt))
            else Inr (write_int (write_int
                   (write_head (write_head out MAJOR_TAG CBOR_TAG_DATETIME) MAJOR_ARRAY 2)
                   (epoch_nanos dt)) (scast (offset_minutes dt)))
        | VDuration d \<Rightarrow>
            Inr (write_int (write_int (write_int
                   (write_head (write_head out MAJOR_TAG CBOR_TAG_DURATION) MAJOR_ARRAY 3)
                   (dur_months d)) (dur_days d)) (dur_nanos d))
        | VList items \<Rightarrow>
            write_values (write_head out MAJOR_ARRAY (of_nat (length items))) items (depth + 1)))"
| "write_values out [] depth = Inr out"
| "write_values out (v # vs) depth =
     rbind (write_value out v depth) (\<lambda>out'. write_values out' vs depth)"

definition encode_value_into :: "bytes \<Rightarrow> mvalue \<Rightarrow> value_encode_error + bytes" where
  "encode_value_into out v = write_value out v 0"

definition encode_value :: "mvalue \<Rightarrow> value_encode_error + bytes" where
  "encode_value v = encode_value_into [] v"

section \<open>Decoding\<close>

definition expect_array :: "u64 \<Rightarrow> u64 \<Rightarrow> bytes \<Rightarrow> value_decode_error + bytes" where
  "expect_array count tag r =
     rbind (map_err (\<lambda>e. if e = Unsupported ''unexpected major type''
                         then InvalidTagContent tag ''expected array'' else e)
                    (read_head MAJOR_ARRAY r)) (\<lambda>(n, r).
       if n \<noteq> count then Inl (InvalidTagContent tag ''wrong array length'') else Inr r)"

definition read_tagged :: "u64 \<Rightarrow> bytes \<Rightarrow> value_decode_error + mvalue \<times> bytes" where
  "read_tagged tag r =
     (if tag = CBOR_TAG_DATE then
        rbind (map_err (\<lambda>e. if e = Unsupported ''expected integer''
                            then InvalidTagContent CBOR_TAG_DATE ''expected integer days'' else e)
                       (read_i64 r)) (\<lambda>(days, r).
          Inr (VDate \<lparr>date_days = days\<rparr>, r))
      else if tag = CBOR_TAG_TIME then
        rbind (cread_u8 r) (\<lambda>(ib, r).
          if drop_bit 5 ib \<noteq> MAJOR_UNSIGNED
          then Inl (InvalidTagContent CBOR_TAG_TIME ''expected unsigned integer nanoseconds'')
          else rbind (read_head_value (ib AND 0x1f) r) (\<lambda>(nanos, r).
            if NANOS_PER_DAY \<le> nanos then Inl DecTimeOutOfRange
            else Inr (VTime \<lparr>time_nanos = nanos\<rparr>, r)))
      else if tag = CBOR_TAG_DATETIME then
        rbind (expect_array 2 CBOR_TAG_DATETIME r) (\<lambda>r.
        rbind (read_i64 r) (\<lambda>(epoch, r).
        rbind (read_i64 r) (\<lambda>(offset, r).
          if \<not> (- 32768 \<le> sint offset \<and> sint offset \<le> 32767) then Inl DecOffsetOutOfRange
          else let off = (ucast offset :: i16)
               in if offset_out_of_range off then Inl DecOffsetOutOfRange
                  else Inr (VDateTime \<lparr>epoch_nanos = epoch, offset_minutes = off\<rparr>, r))))
      else if tag = CBOR_TAG_DURATION then
        rbind (expect_array 3 CBOR_TAG_DURATION r) (\<lambda>r.
        rbind (read_i64 r) (\<lambda>(months, r).
        rbind (read_i64 r) (\<lambda>(days, r).
        rbind (read_i64 r) (\<lambda>(nanos, r).
          Inr (VDuration \<lparr>dur_months = months, dur_days = days, dur_nanos = nanos\<rparr>, r)))))
      else Inl (UnknownTag tag))"

definition read_simple_or_float :: "u8 \<Rightarrow> bytes \<Rightarrow> value_decode_error + mvalue \<times> bytes" where
  "read_simple_or_float ai r =
     (if ai = 20 then Inr (VBool False, r)
      else if ai = 21 then Inr (VBool True, r)
      else if ai = 22 then Inr (VNull, r)
      else if ai = 23 then Inl (Unsupported ''undefined'')
      else if ai \<le> 19 then Inl (Unsupported ''simple value'')
      else if ai = 24 then Inl (Unsupported ''simple value'')
      else if ai = 25 then
        rbind (read_be_u64 2 r) (\<lambda>(v, r).
          let bits = (ucast v :: u16);
              exp = drop_bit 10 bits AND 0x1f;
              frac = bits AND 0x03ff
          in if exp = 0x1f \<and> frac \<noteq> 0 then
               (if bits \<noteq> 0x7e00 then Inl (NonCanonical ''non-canonical NaN'')
                else Inr (VFloat CANONICAL_NAN_BITS, r))
             else Inr (VFloat (f16_bits_to_f64 bits), r))
      else if ai = 26 then
        rbind (read_be_u64 4 r) (\<lambda>(v, r).
          let x = (ucast v :: u32)
          in if f32_is_nan x then Inl (NonCanonical ''non-canonical NaN'')
             else if f16_from_f64_exact (f32_to_f64 x) \<noteq> None
             then Inl (NonCanonical ''float not in shortest form'')
             else Inr (VFloat (f32_to_f64 x), r))
      else if ai = 27 then
        rbind (read_be_u64 8 r) (\<lambda>(x, r).
          if f64_is_nan x then Inl (NonCanonical ''non-canonical NaN'')
          else if f16_from_f64_exact x \<noteq> None \<or> f32_from_f64_exact x \<noteq> None
          then Inl (NonCanonical ''float not in shortest form'')
          else Inr (VFloat x, r))
      else if ai \<le> 30 then Inl MalformedHead
      else Inl (Unsupported ''break''))"

function (sequential) read_value :: "bytes \<Rightarrow> nat \<Rightarrow> value_decode_error + mvalue \<times> bytes"
  and read_values :: "nat \<Rightarrow> bytes \<Rightarrow> nat \<Rightarrow> value_decode_error + mvalue list \<times> bytes" where
  "read_value r depth =
     (if VALUE_MAX_DEPTH < depth then Inl DecDepthExceeded
      else rbind (cread_u8 r) (\<lambda>(ib, r).
        let major = drop_bit 5 ib; ai = ib AND 0x1f
        in if major = MAJOR_UNSIGNED then
             rbind (read_head_value ai r) (\<lambda>(v, r).
             rbind (unsigned_to_i64 v) (\<lambda>n. Inr (VInt n, r)))
           else if major = MAJOR_NEGATIVE then
             rbind (read_head_value ai r) (\<lambda>(v, r).
             rbind (negative_to_i64 v) (\<lambda>n. Inr (VInt n, r)))
           else if major = MAJOR_BYTES then
             rbind (read_head_value ai r) (\<lambda>(len, r).
             rbind (check_len len r) (\<lambda>n.
             rbind (read_exact n r) (\<lambda>(bs, r). Inr (VBytes bs, r))))
           else if major = MAJOR_TEXT then
             rbind (read_head_value ai r) (\<lambda>(len, r).
             rbind (check_len len r) (\<lambda>n.
             rbind (read_exact n r) (\<lambda>(bs, r).
             rbind (ok_or InvalidUtf8 (from_utf8 bs)) (\<lambda>s. Inr (VString s, r)))))
           else if major = MAJOR_ARRAY then
             rbind (read_head_value ai r) (\<lambda>(count, r).
               if length r < unat count then Inl (LengthOverrun count (length r))
               else rbind (read_values (unat count) r (depth + 1)) (\<lambda>(items, r).
                 Inr (VList items, r)))
           else if major = MAJOR_MAP then Inl (Unsupported ''map'')
           else if major = MAJOR_TAG then
             rbind (read_head_value ai r) (\<lambda>(tag, r). read_tagged tag r)
           else read_simple_or_float ai r))"
| "read_values 0 r depth = Inr ([], r)"
| "read_values (Suc n) r depth =
     rbind (read_value r depth) (\<lambda>(v, r).
     rbind (read_values n r depth) (\<lambda>(vs, r). Inr (v # vs, r)))"
  by pat_completeness auto
termination
  by (relation "measures [case_sum (\<lambda>(r, d). Suc VALUE_MAX_DEPTH - d)
      (\<lambda>(n, r, d). Suc VALUE_MAX_DEPTH - d), case_sum (\<lambda>(r, d). 0) (\<lambda>(n, r, d). Suc n)]") auto

declare read_value.simps [simp del] write_value.simps [simp del]

definition decode_value :: "bytes \<Rightarrow> value_decode_error + mvalue" where
  "decode_value bs =
     rbind (read_value bs 0) (\<lambda>(v, r). if length r \<noteq> 0 then Inl TrailingBytes else Inr v)"


section \<open>Reading back what was written\<close>

text \<open>The only values the encoding changes are NaNs: every payload becomes the canonical one.\<close>

definition canon_float :: "f64 \<Rightarrow> f64" where
  "canon_float x = (if f64_is_nan x then CANONICAL_NAN_BITS else x)"

fun canon_value :: "mvalue \<Rightarrow> mvalue" where
  "canon_value (VFloat x) = VFloat (canon_float x)"
| "canon_value (VList vs) = VList (map canon_value vs)"
| "canon_value v = v"

lemma write_float_append: "write_float (p @ out) x = p @ write_float out x"
  by (auto simp: write_float_def split: option.splits)

lemma write_value_append:
  "write_value (p @ out) v d = rbind (write_value out v d) (\<lambda>x. Inr (p @ x))"
  "write_values (p @ out) vs d = rbind (write_values out vs d) (\<lambda>x. Inr (p @ x))"
proof (induction out v d and out vs d rule: write_value_write_values.induct)
  case (1 out v d)
  then show ?case
    by (cases v) (auto simp: write_value.simps write_head_append write_int_append
        write_float_append split: bool.splits)
next
  case (3 out v vs d)
  then show ?case
    by (cases "write_value out v d") auto
qed simp

lemma write_value_from_Nil:
  "write_value out v d = Inr x \<longleftrightarrow> (\<exists>y. write_value [] v d = Inr y \<and> x = out @ y)"
  "write_values out vs d = Inr z \<longleftrightarrow> (\<exists>y. write_values [] vs d = Inr y \<and> z = out @ y)"
  using write_value_append(1) [of out "[]" v d] write_value_append(2) [of out "[]" vs d]
  by (auto simp: rbind_Inr_iff)

lemma write_values_Cons:
  "write_values [] (v # vs) d = Inr x \<longleftrightarrow>
     (\<exists>u w. write_value [] v d = Inr u \<and> write_values [] vs d = Inr w \<and> x = u @ w)"
  unfolding write_values.simps rbind_Inr_iff by (metis write_value_from_Nil(2))

lemma write_head_from_Nil: "write_head out m v = out @ write_head [] m v"
  using write_head_append [of out "[]"] by simp

lemma write_int_from_Nil: "write_int out n = out @ write_int [] n"
  using write_int_append [of out "[]"] by simp

lemma major_cases:
  assumes "(m :: u8) < 7"
  shows "m = 0 \<or> m = 1 \<or> m = 2 \<or> m = 3 \<or> m = 4 \<or> m = 5 \<or> m = 6"
proof -
  have "unat m < 7" using assms by (simp add: word_less_nat_alt)
  then have "unat m \<in> {0, 1, 2, 3, 4, 5, 6}" by auto
  then have "(of_nat (unat m) :: u8) \<in> {0, 1, 2, 3, 4, 5, 6}" by (elim insertE) simp_all
  then show ?thesis by simp
qed

lemma read_value_head:
  assumes "d \<le> VALUE_MAX_DEPTH" "m < 7"
  shows "read_value (write_head [] m v @ r) d =
    (if m = MAJOR_UNSIGNED then rbind (unsigned_to_i64 v) (\<lambda>n. Inr (VInt n, r))
     else if m = MAJOR_NEGATIVE then rbind (negative_to_i64 v) (\<lambda>n. Inr (VInt n, r))
     else if m = MAJOR_BYTES then
       rbind (check_len v r) (\<lambda>n. rbind (read_exact n r) (\<lambda>(bs, r). Inr (VBytes bs, r)))
     else if m = MAJOR_TEXT then
       rbind (check_len v r) (\<lambda>n. rbind (read_exact n r) (\<lambda>(bs, r).
       rbind (ok_or InvalidUtf8 (from_utf8 bs)) (\<lambda>s. Inr (VString s, r))))
     else if m = MAJOR_ARRAY then
       (if length r < unat v then Inl (LengthOverrun v (length r))
        else rbind (read_values (unat v) r (d + 1)) (\<lambda>(items, r). Inr (VList items, r)))
     else if m = MAJOR_MAP then Inl (Unsupported ''map'')
     else read_tagged v r)"
proof -
  have m8: "m < 8" using \<open>m < 7\<close> by (rule less_trans) simp
  obtain ib rest where h: "write_head [] m v @ r = ib # rest" "drop_bit 5 ib = m"
    "read_head_value (ib AND 31) rest = Inr (v, r)"
    using read_written_head [OF m8] by blast
  show ?thesis unfolding h(1) read_value.simps [of "ib # rest"]
    using assms(1) major_cases [OF \<open>m < 7\<close>] by (auto simp: h(2,3) Let_def)
qed

lemma read_be_words [simp]:
  "read_be_u64 2 (be_u16 h @ r) = Inr (ucast h, r)"
  "read_be_u64 4 (be_u32 s @ r) = Inr (ucast s, r)"
  "read_be_u64 8 (be_u64 x @ r) = Inr (x, r)"
  by (simp_all add: read_be_u64_eq)

lemma ucast_up_down [simp]:
  "(ucast (ucast h :: u64) :: u16) = h" "(ucast (ucast s :: u64) :: u32) = s"
  by (auto intro!: bit_word_eqI simp: bit_simps)

lemma f16_field_masks:
  "drop_bit 10 h AND 0x1f = 0x1f \<longleftrightarrow> f16_exp h = 31"
  "h AND 0x03ff = 0 \<longleftrightarrow> f16_frac h = 0"
proof -
  have "unat (drop_bit 10 h AND 0x1f) = f16_exp h"
    by (simp add: unat_and_mask masks(6) unat_drop f16_exp_def del: unat_drop_bit_eq)
  then show "drop_bit 10 h AND 0x1f = 0x1f \<longleftrightarrow> f16_exp h = 31"
    by (simp add: word_unat_eq_iff)
  have "unat (h AND 0x03ff) = f16_frac h"
    by (simp add: unat_and_mask masks(7) f16_frac_def)
  then show "h AND 0x03ff = 0 \<longleftrightarrow> f16_frac h = 0"
    by (simp add: word_unat_eq_iff)
qed

lemma f32_nan_to_f64: "f32_is_nan s \<Longrightarrow> f32_to_f64 s = CANONICAL_NAN_BITS"
  by (simp add: f32_is_nan_def f32_to_f64_def)

lemma canonical_nan: "f64_is_nan CANONICAL_NAN_BITS"
  by (simp add: f64_is_nan_def CANONICAL_NAN_BITS_def)

lemma f32_exact_not_nan:
  "f32_from_f64_exact x = Some s \<Longrightarrow> \<not> f64_is_nan x \<Longrightarrow> \<not> f32_is_nan s"
  using f32_exact_roundtrip(2) [of x s] f32_nan_to_f64 [of s] canonical_nan by auto

lemma f16_CANONICAL: "f16_exp 0x7e00 = 31" "f16_frac 0x7e00 \<noteq> 0"
  by (simp_all add: f16_exp_def f16_frac_def)

lemma read_float_write:
  assumes "d \<le> VALUE_MAX_DEPTH"
  shows "read_value (write_float [] x @ r) d = Inr (VFloat (canon_float x), r)"
proof (cases "f64_is_nan x")
  case True
  then show ?thesis using assms
    by (simp add: write_float_def canon_float_def read_value.simps read_simple_or_float_def
        f16_field_masks f16_CANONICAL Let_def)
next
  case nan: False
  consider (half) h where "f16_from_f64_exact x = Some h"
    | (single) s where "f16_from_f64_exact x = None" "f32_from_f64_exact x = Some s"
    | (double) "f16_from_f64_exact x = None" "f32_from_f64_exact x = None"
    by fastforce
  then show ?thesis
  proof cases
    case half
    then show ?thesis using assms nan f16_exact [OF half]
      by (auto simp: write_float_def canon_float_def read_value.simps read_simple_or_float_def
          f16_field_masks Let_def)
  next
    case single
    then show ?thesis using assms nan f32_exact_roundtrip(2) [OF single(2)] f32_exact_not_nan [OF single(2)]
      by (simp add: write_float_def canon_float_def read_value.simps read_simple_or_float_def Let_def)
  next
    case double
    then show ?thesis using assms nan
      by (simp add: write_float_def canon_float_def read_value.simps read_simple_or_float_def Let_def)
  qed
qed

lemma scast_offset:
  fixes off :: i16
  shows "- 32768 \<le> sint off" "sint off \<le> 32767"
    "sint (scast off :: i64) = sint off" "(ucast (scast off :: i64) :: i16) = off"
proof -
  have b: "- (2 ^ 15) \<le> sint off" "sint off < 2 ^ 15"
    using sint_greater_eq [of off] sint_less [of off] by simp_all
  then show "- 32768 \<le> sint off" "sint off \<le> 32767" by simp_all
  show "sint (scast off :: i64) = sint off"
    using b by (simp add: signed_scast_eq signed_take_bit_int_eq_self)
  show "(ucast (scast off :: i64) :: i16) = off"
    by (auto intro!: bit_word_eqI simp: bit_simps)
qed

definition value_reads_back :: "mvalue \<Rightarrow> bool" where
  "value_reads_back v \<longleftrightarrow> (\<forall>d x r. write_value [] v d = Inr x \<longrightarrow>
     read_value (x @ r) d = Inr (canon_value v, r) \<and> x \<noteq> [])"

lemma read_values_write:
  "list_all value_reads_back vs \<Longrightarrow> write_values [] vs d = Inr x \<Longrightarrow>
     read_values (length vs) (x @ r) d = Inr (map canon_value vs, r) \<and> length vs \<le> length x"
proof (induction vs arbitrary: x)
  case (Cons v vs)
  then obtain a b where ab: "write_value [] v d = Inr a" "write_values [] vs d = Inr b" "x = a @ b"
    unfolding write_values_Cons by blast
  then have "length a \<noteq> 0" "read_value (a @ b @ r) d = Inr (canon_value v, b @ r)"
    using Cons.prems(1) by (auto simp: value_reads_back_def)
  then show ?case using Cons.IH [OF _ ab(2)] Cons.prems(1) ab(3)
    by (cases "length a") auto
qed simp

lemma write_head_nonempty [simp]: "write_head out m v \<noteq> []"
  by (simp add: write_head_def Let_def)

lemma write_int_nonempty [simp]: "write_int out n \<noteq> []"
  by (simp add: write_int_def)

lemma write_float_nonempty [simp]: "write_float out x \<noteq> []"
  by (auto simp: write_float_def split: option.splits)

lemma read_value_int:
  "d \<le> VALUE_MAX_DEPTH \<Longrightarrow> read_value (write_int [] n @ r) d = Inr (VInt n, r)"
  using not_le_top [of "NOT n"] sint_nonneg_iff [of n]
  by (auto simp: write_int_def read_value_head unsigned_to_i64_def negative_to_i64_def neg_not
      not_less)

lemma read_tagged_time:
  "nanos < NANOS_PER_DAY \<Longrightarrow>
     read_tagged CBOR_TAG_TIME (write_head [] 0 nanos @ r) = Inr (VTime \<lparr>time_nanos = nanos\<rparr>, r)"
  using read_written_head [of 0 nanos r] by (auto simp: read_tagged_def)

lemma wf_value_reads_back: "wf_value v \<Longrightarrow> sized_value v \<Longrightarrow> value_reads_back v"
proof (induction v)
  case (VList vs)
  show ?case unfolding value_reads_back_def
  proof (intro allI impI)
    fix d x r assume w: "write_value [] (VList vs) d = Inr x"
    then obtain y where y: "write_values [] vs (d + 1) = Inr y"
      "x = write_head [] 4 (of_nat (length vs)) @ y" and d: "d \<le> VALUE_MAX_DEPTH"
      by (auto simp: write_value.simps write_value_from_Nil(2) [of "write_head _ _ _"] split: if_splits)
    have "list_all value_reads_back vs" using VList by (auto simp: list_all_iff)
    from read_values_write [OF this y(1), of r] y(2) d VList.prems
    show "read_value (x @ r) d = Inr (canon_value (VList vs), r) \<and> x \<noteq> []"
      by (simp add: read_value_head unat_of_nat_small)
  qed
next
  case (VTime t)
  then show ?case
    by (auto simp: value_reads_back_def write_value.simps read_value_head read_tagged_time not_le
        write_head_from_Nil [of "write_head _ _ _"] split: if_splits)
qed (auto simp: value_reads_back_def write_value.simps read_float_write read_value_int
    read_value_head read_value.simps [of "_ # _"] read_simple_or_float_def check_len_def
    unat_of_nat_small from_utf8_def read_tagged_def expect_array_def scast_offset
    write_head_from_Nil [of "write_head _ _ _"] write_int_from_Nil [of "_ @ _"]
    write_int_from_Nil [of "write_head _ _ _"] split: if_splits bool.splits)

section \<open>The decoder accepts canonical encodings only\<close>

lemma read_be_words_strict:
  "read_be_u64 2 r = Inr (v, r') \<Longrightarrow> r = be_u16 (ucast v) @ r'"
  "read_be_u64 4 r = Inr (v, r') \<Longrightarrow> r = be_u32 (ucast v) @ r'"
  "read_be_u64 8 r = Inr (v, r') \<Longrightarrow> r = be_u64 v @ r'"
proof -
  have "be_u16 (ucast (of_nat (nat_of_be bs) :: u64)) = bs" if "length bs = 2" for bs
    using nat_of_be_bound [of bs] that
    by (simp add: be_u16_def unat_ucast_mod unat_of_nat_small)
  then show "read_be_u64 2 r = Inr (v, r') \<Longrightarrow> r = be_u16 (ucast v) @ r'"
    by (auto simp: read_be_u64_Inr)
  have "be_u32 (ucast (of_nat (nat_of_be bs) :: u64)) = bs" if "length bs = 4" for bs
    using nat_of_be_bound [of bs] that
    by (simp add: be_u32_def unat_ucast_mod unat_of_nat_small)
  then show "read_be_u64 4 r = Inr (v, r') \<Longrightarrow> r = be_u32 (ucast v) @ r'"
    by (auto simp: read_be_u64_Inr)
  have "be_u64 (of_nat (nat_of_be bs)) = bs" if "length bs = 8" for bs
    using nat_of_be_bound [of bs] that by (simp add: be_u64_def unat_of_nat_small)
  then show "read_be_u64 8 r = Inr (v, r') \<Longrightarrow> r = be_u64 v @ r'"
    by (auto simp: read_be_u64_Inr)
qed

lemma head_7_cases:
  fixes ib :: u8
  assumes "drop_bit 5 ib = 7"
  shows "ib AND 31 = 20 \<Longrightarrow> ib = 0xf4" "ib AND 31 = 21 \<Longrightarrow> ib = 0xf5"
    "ib AND 31 = 22 \<Longrightarrow> ib = 0xf6" "ib AND 31 = 25 \<Longrightarrow> ib = 0xf9"
    "ib AND 31 = 26 \<Longrightarrow> ib = 0xfa" "ib AND 31 = 27 \<Longrightarrow> ib = 0xfb"
  using head_byte_join(1) [of ib] assms by simp_all

lemma read_simple_strict:
  assumes r: "read_simple_or_float (ib AND 31) r = Inr (v, r')" and ib: "drop_bit 5 ib = 7"
    and d: "d \<le> VALUE_MAX_DEPTH"
  shows "\<exists>x. write_value [] v d = Inr x \<and> ib # r = x @ r' \<and> wf_value v"
proof -
  consider "ib AND 31 = 20" | "ib AND 31 = 21" | "ib AND 31 = 22" | (f16) "ib AND 31 = 25"
    | (f32) "ib AND 31 = 26" | (f64) "ib AND 31 = 27"
    using r by (auto simp: read_simple_or_float_def split: if_splits)
  then show ?thesis
  proof cases
    case f16
    with r obtain w where w: "read_be_u64 2 r = Inr (w, r')"
      "v = VFloat CANONICAL_NAN_BITS \<and> ucast w = (0x7e00 :: u16) \<or>
       v = VFloat (f16_bits_to_f64 (ucast w)) \<and> \<not> (f16_exp (ucast w) = 31 \<and> f16_frac (ucast w) \<noteq> 0)"
      by (auto simp: read_simple_or_float_def rbind_Inr_iff f16_field_masks Let_def split: if_splits)
    then show ?thesis
      using d head_7_cases(4) [OF ib f16] read_be_words_strict(1) [OF w(1)] canonical_nan
        f16_roundtrip [of "ucast w"]
      by (auto simp: write_value.simps write_float_def)
  next
    case f32
    with r obtain w where w: "read_be_u64 4 r = Inr (w, r')" "v = VFloat (f32_to_f64 (ucast w))"
      "\<not> f32_is_nan (ucast w)" "f16_from_f64_exact (f32_to_f64 (ucast w)) = None"
      by (auto simp: read_simple_or_float_def rbind_Inr_iff Let_def split: if_splits)
    then show ?thesis
      using d head_7_cases(5) [OF ib f32] read_be_words_strict(2) [OF w(1)]
        f32_roundtrip(2) [OF w(3)] f32_exact_roundtrip(1) [OF w(3)]
      by (simp add: write_value.simps write_float_def)
  next
    case f64
    with r obtain w where w: "read_be_u64 8 r = Inr (w, r')" "v = VFloat w"
      "\<not> f64_is_nan w" "f16_from_f64_exact w = None" "f32_from_f64_exact w = None"
      by (auto simp: read_simple_or_float_def rbind_Inr_iff split: if_splits)
    then show ?thesis
      using d head_7_cases(6) [OF ib f64] read_be_words_strict(3) [OF w(1)]
      by (simp add: write_value.simps write_float_def)
  qed (use r d head_7_cases [OF ib] in \<open>auto simp: read_simple_or_float_def write_value.simps\<close>)
qed

lemma expect_array_strict:
  "expect_array n tag r = Inr r' \<Longrightarrow> r = write_head [] 4 n @ r'"
  by (auto simp: expect_array_def rbind_Inr_iff split: if_splits dest: read_head_strict)

lemma scast_ucast_offset:
  assumes "- 32768 \<le> sint (off :: i64)" "sint off \<le> 32767"
  shows "scast (ucast off :: i16) = off"
proof -
  have "sint (ucast off :: i16) = signed_take_bit 15 (sint off)"
    by (simp add: signed_ucast_eq sint_uint [of off] signed_take_bit_signed_take_bit)
  also have "\<dots> = sint off" using assms by (simp add: signed_take_bit_int_eq_self)
  finally have "sint (scast (ucast off :: i16) :: i64) = sint off" by (simp only: scast_offset)
  then show ?thesis by (rule signed_word_eqI)
qed

lemma read_tagged_strict:
  assumes r: "read_tagged tag r = Inr (v, r')" and d: "d \<le> VALUE_MAX_DEPTH"
  shows "\<exists>x. write_value [] v d = Inr x \<and> write_head [] 6 tag @ r = x @ r' \<and> wf_value v"
proof -
  consider (date) "tag = 100" | (time) "tag = 74100" | (datetime) "tag = 74101"
    | (duration) "tag = 74102"
    using r by (auto simp: read_tagged_def split: if_splits)
  then show ?thesis
  proof cases
    case time
    with r obtain ib r1 nanos where h: "r = ib # r1" "drop_bit 5 ib = 0"
      "read_head_value (ib AND 31) r1 = Inr (nanos, r')" "nanos < NANOS_PER_DAY"
      "v = VTime \<lparr>time_nanos = nanos\<rparr>"
      by (auto simp: read_tagged_def rbind_Inr_iff cread_u8_Inr not_le split: if_splits)
    have "ib # r1 = write_head [] 0 nanos @ r'"
      using written_read_head [OF h(3), of 0] head_byte_join [of ib] h(2) by simp
    with h d time show ?thesis
      by (simp add: write_value.simps write_head_from_Nil [of "write_head _ _ _"])
  qed (use r d in \<open>auto simp: read_tagged_def rbind_Inr_iff write_value.simps scast_ucast_offset
      Let_def write_head_from_Nil [of "write_head _ _ _"] write_int_from_Nil [of "_ @ _"]
      write_int_from_Nil [of "write_head _ _ _"]
      split: if_splits dest!: expect_array_strict read_i64_strict\<close>)
qed

lemma read_head_ib:
  assumes "read_head_value (ib AND 31) r = Inr (v, r')"
  shows "ib # r = write_head [] (drop_bit 5 ib) v @ r'"
  using written_read_head [OF assms] head_byte_join [of ib] by metis

lemma read_value_strict:
  "read_value r d = Inr (v, r') \<Longrightarrow> \<exists>x. write_value [] v d = Inr x \<and> r = x @ r' \<and> wf_value v"
  "read_values n r d = Inr (vs, r') \<Longrightarrow>
     \<exists>x. write_values [] vs d = Inr x \<and> r = x @ r' \<and> list_all wf_value vs \<and> length vs = n"
proof (induction r d and n r d arbitrary: v r' and vs r' rule: read_value_read_values.induct)
  case (1 r d)
  from "1.prems" obtain ib r1 where r: "r = ib # r1" and d: "\<not> VALUE_MAX_DEPTH < d"
    by (auto simp: read_value.simps [of r] rbind_Inr_iff cread_u8_Inr split: if_splits)
  define m where "m = drop_bit 5 ib"
  show ?case
  proof (cases "m < 7")
    case False
    moreover have "m < 8" using head_byte_join(2) [of ib] by (simp add: m_def)
    ultimately have "m = 7" by (simp add: word_less_nat_alt word_unat_eq_iff)
    with "1.prems" d r show ?thesis
      by (auto simp: read_value.simps [of "ib # r1"] m_def intro!: read_simple_strict)
  next
    case True
    with "1.prems" r d obtain w r2 where w: "read_head_value (ib AND 31) r1 = Inr (w, r2)"
      using major_cases [OF True] by (cases "read_head_value (ib AND 31) r1")
        (auto simp: read_value.simps [of "ib # r1"] m_def [symmetric] Let_def split: if_splits)
    have h: "r = write_head [] m w @ r2" using read_head_ib [OF w] by (simp add: r m_def)
    from "1.prems" have v: "read_value (write_head [] m w @ r2) d = Inr (v, r')" by (simp add: h)
    show ?thesis
    proof (cases "m = 4")
      case arr: True
      with v d obtain items where it: "read_values (unat w) r2 (d + 1) = Inr (items, r')"
        "v = VList items"
        by (auto simp: read_value_head rbind_Inr_iff split: if_splits)
      then obtain x where "write_values [] items (d + 1) = Inr x" "r2 = x @ r'"
        "list_all wf_value items" "length items = unat w"
        using "1.IH" [OF d, of "(ib, r1)" ib r1 "drop_bit 5 ib" "ib AND 31" "(w, r2)" w r2]
          arr w v d by (auto simp: r m_def read_value_head split: if_splits)
      with h arr it d show ?thesis
        by (auto simp: write_value.simps write_value_from_Nil(2) [of "write_head _ _ _"])
    next
      case False
      with major_cases [OF True] consider "m = 0" | "m = 1" | "m = 2" | "m = 3" | "m = 5" | "m = 6"
        by blast
      then show ?thesis
      proof cases
        case 6
        with v d have "read_tagged w r2 = Inr (v, r')" by (simp add: read_value_head)
        then show ?thesis using h 6 d by (auto dest: read_tagged_strict [of _ _ _ _ d])
      qed (use v d h in \<open>auto simp: read_value_head rbind_Inr_iff write_value.simps write_int_def
          check_len_def unsigned_to_i64_def negative_to_i64_def read_exact_Inr neg_not sint_nonneg_iff
          not_le_top split: if_splits\<close>)
    qed
  qed
next
  case (2 r d)
  then show ?case by simp
next
  case (3 n r d)
  then obtain u r1 us where u: "read_value r d = Inr (u, r1)"
    and us: "read_values n r1 d = Inr (us, r')" and vs: "vs = u # us"
    by (auto simp: rbind_Inr_iff)
  from "3.IH"(1) [OF u] obtain x where "write_value [] u d = Inr x" "r = x @ r1" "wf_value u"
    by blast
  moreover from "3.IH"(2) [OF u refl us] obtain y where
    "write_values [] us d = Inr y" "r1 = y @ r'" "list_all wf_value us" "length us = n"
    by blast
  ultimately show ?case by (auto simp: vs write_values_Cons simp del: write_values.simps)
qed

section \<open>Properties\<close>

lemmas value_codec_eval [eval_simps] = encode_value_def encode_value_into_def write_value.simps
  VALUE_MAX_DEPTH_def write_head_def write_int_def write_float_def write_text_def f64_is_nan_def
  f16_from_f64_exact_def f64_is_zero_def f64_is_infinite_def f64_fields CANONICAL_NAN_BITS_def
  canon_float_def

lemma decode_encode_value:
  assumes "encode_value v = Inr x" "wf_value v" "sized_value v"
  shows "decode_value x = Inr (canon_value v)"
proof -
  have "read_value (x @ []) 0 = Inr (canon_value v, [])"
    using wf_value_reads_back [OF assms(2,3)] assms(1)
    unfolding value_reads_back_def encode_value_def encode_value_into_def by blast
  then show ?thesis by (simp add: decode_value_def)
qed

lemma decode_value_strict:
  assumes "decode_value x = Inr v"
  shows "encode_value v = Inr x \<and> wf_value v"
  using assms read_value_strict(1) [of x 0 v "[]"]
  by (auto simp: decode_value_def encode_value_def encode_value_into_def rbind_Inr_iff split: if_splits)

text \<open>C3. A value decodes from its canonical encoding, every NaN as the canonical NaN; and the decoder is
  strict: the bytes it accepts are the canonical encoding of the value it returns, so no two byte strings
  decode to the same value.\<close>

theorem value_codec_roundtrip:
  "(encode_value v = Inr x \<and> wf_value v \<and> sized_value v \<longrightarrow> decode_value x = Inr (canon_value v)) \<and>
   (decode_value y = Inr w \<longrightarrow> encode_value w = Inr y \<and> wf_value w)"
  using decode_encode_value decode_value_strict by blast

theorem value_codec_roundtrip_witness:
  "decode_value [0x84, 0x20, 0xf9, 0x7e, 0, 0xf9, 0x3e, 0, 0x61, 0x61] =
     Inr (VList [VInt (- 1), VFloat 0x7ff8000000000000, VFloat 0x3ff8000000000000, VString [0x61]]) \<and>
   encode_value (VList [VInt (- 1), VFloat 0x7ff8000000000000, VFloat 0x3ff8000000000000, VString [0x61]]) =
     Inr [0x84, 0x20, 0xf9, 0x7e, 0, 0xf9, 0x3e, 0, 0x61, 0x61]"
proof -
  let ?v = "VList [VInt (- 1), VFloat 0xfff0000000000001, VFloat 0x3ff8000000000000, VString [0x61]]"
  let ?w = "VList [VInt (- 1), VFloat 0x7ff8000000000000, VFloat 0x3ff8000000000000, VString [0x61]]"
  let ?x = "[0x84, 0x20, 0xf9, 0x7e, 0, 0xf9, 0x3e, 0, 0x61, 0x61]"
  have "encode_value ?v = Inr ?x" "wf_value ?v" "sized_value ?v" "canon_value ?v = ?w" by (simp_all add: eval_simps)
  then show ?thesis using value_codec_roundtrip [of ?v ?x ?x ?w] by simp
qed

text \<open>Canonical map keys: \<open>canonical_str_cmp\<close> orders strings exactly as their CBOR text
  encodings compare as bytes (RFC 8949 section 4.2.1).\<close>

lemma canonical_str_cmp_bytes:
  assumes "length a < 2 ^ 63" "length b < 2 ^ 63"
  shows "canonical_str_cmp a b = cmp (write_text [] a) (write_text [] b)"
  using assms by (intro canonical_str_cmp_encoded [symmetric]) simp_all

text \<open>C4. Shortest-form floats are exact: a float is written in two bytes exactly when it is the
  value of some half-precision pattern other than a NaN, and that pattern is the one written.\<close>

theorem f16_from_f64_exact_iff:
  assumes "\<not> f64_is_nan x"
  shows "f16_from_f64_exact x = Some h \<longleftrightarrow> f16_bits_to_f64 h = x"
proof
  assume "f16_bits_to_f64 h = x"
  moreover from this assms have "\<not> (f16_exp h = 31 \<and> f16_frac h \<noteq> 0)"
    using canonical_nan by (auto simp: f16_to_f64_fields split: if_splits)
  ultimately show "f16_from_f64_exact x = Some h" using f16_roundtrip(1) [of h] by simp
qed (rule f16_exact(1))

theorem f16_from_f64_exact_iff_witness:
  "f16_bits_to_f64 0x3e00 = 0x3ff8000000000000"
proof -
  have "\<not> f64_is_nan 0x3ff8000000000000"
    and h: "f16_from_f64_exact 0x3ff8000000000000 = Some 0x3e00" by (simp_all add: eval_simps)
  with f16_from_f64_exact_iff [OF this(1), of "0x3e00"] show ?thesis by simp
qed

end
