(* ===== verification/Text_Maps.thy ===== *)
theory Text_Maps
  imports Value_Codec "HOL-Library.Product_Lexorder"
begin

text \<open>
  What the record, schema and manifest encodings of the model crate share: Rust's \<^verbatim>\<open>BTreeMap\<close> as its
  ascending entries, \<^verbatim>\<open>sort_by\<close> and \<^verbatim>\<open>dedup\<close>, and canonical CBOR maps with text keys, whose reader insists
  on strictly ascending keys. The locale \<open>entry_codec\<close> is the interface to the values of such a map.
\<close>

section \<open>Ordered maps\<close>

text \<open>A \<^verbatim>\<open>BTreeMap\<close> is the list of its entries in ascending key order.\<close>

type_synonym ('k, 'v) btree_map = "('k \<times> 'v) list"

fun bt_insert :: "'k :: linorder \<Rightarrow> 'v \<Rightarrow> ('k, 'v) btree_map \<Rightarrow> ('k, 'v) btree_map" where
  "bt_insert k v [] = [(k, v)]"
| "bt_insert k v ((k', v') # m) = (case cmp k k' of
       Less \<Rightarrow> (k, v) # (k', v') # m
     | Equal \<Rightarrow> (k, v) # m
     | Greater \<Rightarrow> (k', v') # bt_insert k v m)"

definition bt_ok :: "('k :: linorder, 'v) btree_map \<Rightarrow> bool" where
  "bt_ok m \<longleftrightarrow> sorted_wrt (<) (map fst m)"

lemma bt_ok_Nil [simp]: "bt_ok []"
  by (simp add: bt_ok_def)

lemma bt_insert_keys: "fst ` set (bt_insert k v m) = insert k (fst ` set m)"
  by (induction k v m rule: bt_insert.induct) (auto simp: cmp_def)

lemma bt_insert_ok [simp]: "bt_ok m \<Longrightarrow> bt_ok (bt_insert k v m)"
proof (induction k v m rule: bt_insert.induct)
  case (2 k v k' v' m)
  have "\<forall>x \<in> fst ` set (bt_insert k v m). k' < x" if "k' < k"
    using "2.prems" that by (auto simp: bt_insert_keys bt_ok_def)
  with 2 show ?case by (auto simp: bt_ok_def cmp_def intro: order.strict_trans)
qed (simp add: bt_ok_def)

lemma map_of_bt_insert [simp]: "bt_ok m \<Longrightarrow> map_of (bt_insert k v m) = (map_of m)(k \<mapsto> v)"
proof (induction k v m rule: bt_insert.induct)
  case (2 k v k' v' m)
  then show ?case by (auto simp: cmp_def bt_ok_def fun_eq_iff)
qed auto

lemma bt_eqI:
  assumes "bt_ok m" "bt_ok m'" "map_of m = map_of m'"
  shows "m = m'"
  using sorted_map_of_inject [of m m'] assms by (simp add: bt_ok_def)

lemma bt_inserts:
  assumes "distinct (map fst es)"
  shows "bt_ok m \<Longrightarrow> bt_ok (foldl (\<lambda>m (k, v). bt_insert k v m) m es) \<and>
    map_of (foldl (\<lambda>m (k, v). bt_insert k v m) m es) = map_of m ++ map_of es"
  using assms
proof (induction es arbitrary: m)
  case (Cons e es)
  obtain k v where e: "e = (k, v)" by (cases e)
  have "map_of es k = None" using Cons.prems(2) by (auto simp: e map_of_eq_None_iff)
  with Cons.IH [of "bt_insert k v m"] Cons.prems show ?case
    by (auto simp: e fun_eq_iff map_add_def split: option.splits)
qed simp

section \<open>Sorting\<close>

text \<open>\<^verbatim>\<open>sort_by\<close> is a stable sort; \<^verbatim>\<open>dedup\<close> drops repetitions next to each other.\<close>

fun insert_by :: "('a \<Rightarrow> 'a \<Rightarrow> ordering) \<Rightarrow> 'a \<Rightarrow> 'a list \<Rightarrow> 'a list" where
  "insert_by c x [] = [x]"
| "insert_by c x (y # ys) = (if c x y = Greater then y # insert_by c x ys else x # y # ys)"

definition sort_by :: "('a \<Rightarrow> 'a \<Rightarrow> ordering) \<Rightarrow> 'a list \<Rightarrow> 'a list" where
  "sort_by c xs = foldr (insert_by c) xs []"

abbreviation (input) dedup :: "'a list \<Rightarrow> 'a list" where
  "dedup \<equiv> remdups_adj"

lemma sort_by_key:
  assumes "\<And>x y. c x y = cmp (f x) (f y)"
  shows "sort_by c xs = sort_key f xs"
proof -
  have "insert_by c x ys = insort_key f x ys" for x ys by (induction ys) (auto simp: assms not_le)
  then have "insert_by c = insort_key f" by (intro ext)
  then show ?thesis by (simp add: sort_by_def sort_key_def)
qed

text \<open>The canonical order compares lengths first.\<close>

definition canon_key :: "bytes \<Rightarrow> nat \<times> bytes" where
  "canon_key s = (length s, s)"

lemma canonical_str_cmp_key: "canonical_str_cmp a b = cmp (canon_key a) (canon_key b)"
  by (auto simp: canonical_str_cmp_def canon_key_def cmp_def)

lemma inj_canon_key: "inj canon_key"
  by (rule injI) (simp add: canon_key_def)

lemma sort_canonical:
  "sort_by canonical_str_cmp xs = sort_key canon_key xs"
  "sort_by (\<lambda>a b. canonical_str_cmp (fst a) (fst b)) es = sort_key (canon_key \<circ> fst) es"
  by (simp_all add: sort_by_key [where f = canon_key] sort_by_key [where f = "canon_key \<circ> fst"] canonical_str_cmp_key)

definition canon_ascending :: "bytes list \<Rightarrow> bool" where
  "canon_ascending xs \<longleftrightarrow> sorted_wrt (<) (map canon_key xs)"

lemma canon_ascending_distinct: "canon_ascending xs \<Longrightarrow> distinct xs"
  by (auto simp: canon_ascending_def strict_sorted_iff distinct_map)

lemma canon_ascending_unique:
  assumes "canon_ascending (map f xs)" "canon_ascending (map f ys)" "set xs = set ys"
  shows "xs = ys"
proof -
  have "inj_on (canon_key \<circ> f) (set xs \<union> set ys)"
    using assms by (auto simp: canon_ascending_def strict_sorted_iff distinct_map comp_inj_on)
  with assms show ?thesis
    by (intro map_sorted_distinct_set_unique [of "canon_key \<circ> f"]) (auto simp: canon_ascending_def strict_sorted_iff)
qed

lemma canon_sorted:
  "distinct (map fst es) \<Longrightarrow> canon_ascending (map fst (sort_key (canon_key \<circ> fst) es))"
  "canon_ascending (remdups_adj (sort_key canon_key xs))"
proof -
  have "sorted (map canon_key (map fst (sort_key (canon_key \<circ> fst) es)))"
    using sorted_sort_key [of "canon_key \<circ> fst" es] by simp
  moreover have "distinct (map canon_key (map fst (sort_key (canon_key \<circ> fst) es)))" if "distinct (map fst es)"
    using that inj_canon_key by (auto simp: distinct_map inj_on_def)
  ultimately show "canon_ascending (map fst (sort_key (canon_key \<circ> fst) es))" if "distinct (map fst es)"
    using that by (simp add: canon_ascending_def strict_sorted_iff)
  have s: "sorted (map canon_key (sort_key canon_key xs))" by simp
  have "sorted_wrt (<) (map canon_key (remdups_adj ys))" if "sorted (map canon_key ys)" for ys
    using that
  proof (induction ys rule: remdups_adj.induct)
    case (3 x y ys)
    have "canon_key x < canon_key z" if "x \<noteq> y" "z \<in> set (y # ys)" for z
    proof -
      have "canon_key x < canon_key y" using that(1) "3.prems" inj_canon_key by (auto simp: less_le dest: injD)
      also have "canon_key y \<le> canon_key z" using that(2) "3.prems" by auto
      finally show ?thesis .
    qed
    with 3 show ?case by auto
  qed simp_all
  from this [OF s] show "canon_ascending (remdups_adj (sort_key canon_key xs))" by (simp add: canon_ascending_def)
qed

section \<open>Text-keyed CBOR maps\<close>

text \<open>The entries of a map in canonical order under its head, and the loop that reads them back; the three
  readers of the crate differ in their errors, in a check of the name and in the values.\<close>

fun write_entries :: "(bytes \<Rightarrow> 'v \<Rightarrow> 'e + bytes) \<Rightarrow> bytes \<Rightarrow> (bytes \<times> 'v) list \<Rightarrow> 'e + bytes" where
  "write_entries wr out [] = Inr out"
| "write_entries wr out ((name, v) # es) =
     rbind (wr (write_text out name) v) (\<lambda>out. write_entries wr out es)"

definition write_text_map :: "(bytes \<Rightarrow> 'v \<Rightarrow> 'e + bytes) \<Rightarrow> bytes \<Rightarrow> (bytes, 'v) btree_map \<Rightarrow> 'e + bytes" where
  "write_text_map wr out m =
     (let entries = sort_by (\<lambda>a b. canonical_str_cmp (fst a) (fst b)) m
      in write_entries wr (write_head out MAJOR_MAP (of_nat (length entries))) entries)"

fun read_entries ::
  "(value_decode_error \<Rightarrow> 'e) \<Rightarrow> (bytes \<Rightarrow> 'e + unit) \<Rightarrow> 'e \<Rightarrow> (bytes \<Rightarrow> 'e + 'v \<times> bytes) \<Rightarrow> nat \<Rightarrow>
     bytes option \<Rightarrow> (bytes, 'v) btree_map \<Rightarrow> bytes \<Rightarrow> 'e + (bytes, 'v) btree_map \<times> bytes" where
  "read_entries ce chk bad rd 0 previous m r = Inr (m, r)"
| "read_entries ce chk bad rd (Suc n) previous m r =
     rbind (map_err ce (read_text r)) (\<lambda>(name, r).
     rbind (chk name) (\<lambda>_.
       if (case previous of Some prev \<Rightarrow> canonical_str_cmp prev name \<noteq> Less | None \<Rightarrow> False) then Inl bad
       else rbind (rd r) (\<lambda>(v, r). read_entries ce chk bad rd n (Some name) (bt_insert name v m) r)))"

definition read_text_map ::
  "(value_decode_error \<Rightarrow> 'e) \<Rightarrow> (bytes \<Rightarrow> 'e + unit) \<Rightarrow> 'e \<Rightarrow> (bytes \<Rightarrow> 'e + 'v \<times> bytes) \<Rightarrow> bytes \<Rightarrow>
     'e + (bytes, 'v) btree_map \<times> bytes" where
  "read_text_map ce chk bad rd r =
     rbind (map_err ce (read_head MAJOR_MAP r)) (\<lambda>(count, r).
       if length r < unat count then Inl (ce (LengthOverrun count (length r)))
       else read_entries ce chk bad rd (unat count) None [] r)"

text \<open>Arrays of names, sorted or in declaration order.\<close>

fun write_names :: "bytes \<Rightarrow> bytes list \<Rightarrow> bytes" where
  "write_names out [] = out"
| "write_names out (name # names) = write_names (write_text out name) names"

definition write_name_array :: "bytes \<Rightarrow> bytes list \<Rightarrow> bytes" where
  "write_name_array out names = write_names (write_head out MAJOR_ARRAY (of_nat (length names))) names"

fun read_names ::
  "(value_decode_error \<Rightarrow> 'e) \<Rightarrow> 'e \<Rightarrow> bool \<Rightarrow> nat \<Rightarrow> bytes list \<Rightarrow> bytes \<Rightarrow> 'e + bytes list \<times> bytes" where
  "read_names ce bad srt 0 names r = Inr (names, r)"
| "read_names ce bad srt (Suc n) names r =
     rbind (map_err ce (read_text r)) (\<lambda>(name, r).
       if srt \<and> names \<noteq> [] \<and> canonical_str_cmp (last names) name \<noteq> Less then Inl bad
       else read_names ce bad srt n (names @ [name]) r)"

definition read_name_array ::
  "(value_decode_error \<Rightarrow> 'e) \<Rightarrow> 'e \<Rightarrow> bool \<Rightarrow> bytes \<Rightarrow> 'e + bytes list \<times> bytes" where
  "read_name_array ce bad srt r =
     rbind (map_err ce (read_head MAJOR_ARRAY r)) (\<lambda>(count, r).
       if length r < unat count then Inl (ce (LengthOverrun count (length r)))
       else read_names ce bad srt (unat count) [] r)"

text \<open>A Rust string: valid UTF-8 within the address space.\<close>

definition is_str :: "bytes \<Rightarrow> bool" where
  "is_str s \<longleftrightarrow> utf8_valid s \<and> length s < 2 ^ 63"

lemma read_text_str [simp]: "is_str s \<Longrightarrow> read_text (write_text [] s @ r) = Inr (s, r)"
  by (simp add: is_str_def)

lemma write_text_append: "write_text (p @ out) s = p @ write_text out s"
  by (simp add: write_text_def write_head_append)

lemma write_text_from_Nil: "write_text out s = out @ write_text [] s"
  using write_text_append [of out "[]" s] by simp

lemma write_text_not_Nil [simp]: "write_text out s \<noteq> []"
  using write_head_nonempty by (auto simp: write_text_def)

lemma write_text_Cons: obtains b bs where "write_text out s = b # bs"
  using write_text_not_Nil by (metis neq_Nil_conv)

lemma write_names_append: "write_names (p @ out) ns = p @ write_names out ns"
  by (induction ns arbitrary: out) (simp_all add: write_text_append)

lemma write_names_from_Nil: "write_names out ns = out @ write_names [] ns"
  using write_names_append [of out "[]" ns] by simp

lemma length_write_names: "length ns \<le> length (write_names [] ns)"
proof (induction ns)
  case (Cons n ns)
  obtain b bs where "write_text [] n = b # bs" by (rule write_text_Cons)
  with Cons show ?case by (simp add: write_names_from_Nil [of "_ # _"])
qed simp

lemma canon_ascending_snoc:
  "canon_ascending (ns @ [n]) \<longleftrightarrow> canon_ascending ns \<and> (ns = [] \<or> canonical_str_cmp (last ns) n = Less)"
proof (cases ns rule: rev_cases)
  case (snoc ms m)
  show ?thesis unfolding snoc canonical_str_cmp_key
    by (auto simp: canon_ascending_def sorted_wrt_append intro: order.strict_trans)
qed (simp add: canon_ascending_def)

lemma read_names_write:
  "list_all is_str ns \<Longrightarrow> (srt \<longrightarrow> canon_ascending (acc @ ns)) \<Longrightarrow>
     read_names ce bad srt (length ns) acc (write_names [] ns @ r) = Inr (acc @ ns, r)"
proof (induction ns arbitrary: acc)
  case (Cons n ns)
  have "srt \<Longrightarrow> canon_ascending ((acc @ [n]) @ ns)" using Cons.prems(2) by simp
  then have "srt \<Longrightarrow> canon_ascending (acc @ [n])"
    by (simp only: canon_ascending_def map_append sorted_wrt_append) simp
  with Cons show ?case
    by (auto simp: write_names_from_Nil [of "write_text [] n"] canon_ascending_snoc)
qed simp

lemma read_names_strict:
  "read_names ce bad srt n acc r = Inr (ns, r') \<Longrightarrow> (srt \<longrightarrow> canon_ascending acc) \<Longrightarrow>
     \<exists>new. ns = acc @ new \<and> length new = n \<and> r = write_names [] new @ r' \<and> list_all utf8_valid new \<and>
       (srt \<longrightarrow> canon_ascending ns)"
proof (induction n arbitrary: acc r)
  case (Suc n)
  from Suc.prems(1) obtain name r1 where t: "read_text r = Inr (name, r1)"
    and ok: "\<not> (srt \<and> acc \<noteq> [] \<and> canonical_str_cmp (last acc) name \<noteq> Less)"
    and n: "read_names ce bad srt n (acc @ [name]) r1 = Inr (ns, r')"
    by (auto simp: rbind_Inr_iff map_err_Inr_iff split: if_splits)
  have "srt \<longrightarrow> canon_ascending (acc @ [name])" using ok Suc.prems(2) by (auto simp: canon_ascending_snoc)
  from Suc.IH [OF n this] obtain new where new: "ns = (acc @ [name]) @ new" "length new = n"
    "r1 = write_names [] new @ r'" "list_all utf8_valid new" "srt \<longrightarrow> canon_ascending ns" by blast
  with read_text_strict [OF t] show ?case
    by (intro exI [of _ "name # new"]) (simp add: write_names_from_Nil [of "write_text [] name"])
qed simp

lemma read_name_array_write:
  assumes "list_all is_str ns" "srt \<longrightarrow> canon_ascending ns" "length ns < 2 ^ 63"
  shows "read_name_array ce bad srt (write_name_array [] ns @ r) = Inr (ns, r)"
proof -
  have "unat (of_nat (length ns) :: u64) = length ns" using assms(3) by (simp add: unat_of_nat)
  then show ?thesis
    using read_names_write [OF assms(1), of srt "[]"] assms(2) length_write_names [of ns]
    by (simp add: write_name_array_def read_name_array_def write_names_from_Nil [of "write_head _ _ _"])
qed

lemma read_name_array_strict:
  assumes "read_name_array ce bad srt r = Inr (ns, r')"
  shows "r = write_name_array [] ns @ r' \<and> list_all utf8_valid ns \<and> (srt \<longrightarrow> canon_ascending ns)"
proof -
  from assms obtain count r1 where h: "read_head 4 r = Inr (count, r1)"
    and n: "read_names ce bad srt (unat count) [] r1 = Inr (ns, r')"
    by (auto simp: read_name_array_def rbind_Inr_iff map_err_Inr_iff split: if_splits)
  from read_names_strict [OF n] have "length ns = unat count" "r1 = write_names [] ns @ r'"
    "list_all utf8_valid ns" "srt \<longrightarrow> canon_ascending ns" by (auto simp: canon_ascending_def)
  moreover from this have "of_nat (length ns) = count" by simp
  ultimately show ?thesis using read_head_strict [OF h]
    by (simp add: write_name_array_def write_names_from_Nil [of "write_head _ _ _"])
qed

text \<open>What holds of every value the reader of a map's values returns holds of the map's values.\<close>

lemma read_entries_values:
  "read_entries ce chk bad rd n prev m r = Inr (m', r') \<Longrightarrow> \<forall>r v r'. rd r = Inr (v, r') \<longrightarrow> P v \<Longrightarrow>
     \<forall>v \<in> snd ` set m. P v \<Longrightarrow> \<forall>v \<in> snd ` set m'. P v"
proof (induction n arbitrary: prev m r)
  case (Suc n)
  have ins: "snd ` set (bt_insert k v m) \<subseteq> insert v (snd ` set m)" for k v and m :: "(bytes \<times> 'b) list"
    by (induction k v m rule: bt_insert.induct) (auto split: ordering.splits)
  from Suc.prems(1) obtain name v r1 r2 where "rd r1 = Inr (v, r2)"
    and n: "read_entries ce chk bad rd n (Some name) (bt_insert name v m) r2 = Inr (m', r')"
    by (auto simp: rbind_Inr_iff split: if_splits)
  then have "P v" using Suc.prems(2) by blast
  then have "\<forall>v \<in> snd ` set (bt_insert name v m). P v"
    using Suc.prems(3) by (fastforce dest!: subsetD [OF ins, rotated])
  then show ?case using Suc.IH [OF n Suc.prems(2)] by blast
qed simp

section \<open>The values of a map\<close>

text \<open>What a map's value type provides: a writer that appends, a reader that takes back what was written
  and nothing else.\<close>

locale entry_codec =
  fixes wr :: "bytes \<Rightarrow> 'v \<Rightarrow> 'f + bytes"
    and rd :: "bytes \<Rightarrow> 'e + 'v \<times> bytes"
    and okv :: "'v \<Rightarrow> bool"
    and canon :: "'v \<Rightarrow> 'v"
  assumes wr_append: "wr (p @ out) v = rbind (wr out v) (\<lambda>x. Inr (p @ x))"
    and rd_wr: "okv v \<Longrightarrow> wr [] v = Inr x \<Longrightarrow> rd (x @ r) = Inr (canon v, r)"
    and rd_strict: "rd r = Inr (v, r') \<Longrightarrow> \<exists>x. wr [] v = Inr x \<and> r = x @ r'"
begin

lemma wr_from_Nil: "wr out v = Inr z \<longleftrightarrow> (\<exists>x. wr [] v = Inr x \<and> z = out @ x)"
  using wr_append [of out "[]" v] by (auto simp: rbind_Inr_iff)

lemma write_entries_Cons:
  "write_entries wr out ((n, v) # es) = Inr z \<longleftrightarrow>
     (\<exists>x y. wr [] v = Inr x \<and> write_entries wr [] es = Inr y \<and> z = out @ write_text [] n @ x @ y)"
proof -
  have app: "write_entries wr (p @ out) es = rbind (write_entries wr out es) (\<lambda>x. Inr (p @ x))" for p out es
  proof (induction es arbitrary: out)
    case (Cons e es)
    then show ?case by (cases e) (simp add: write_text_append wr_append rbind_assoc)
  qed simp
  have nil: "write_entries wr out es = Inr z \<longleftrightarrow> (\<exists>y. write_entries wr [] es = Inr y \<and> z = out @ y)" for out z
    unfolding app [of out "[]", simplified] rbind_Inr_iff by auto
  show ?thesis
    unfolding write_entries.simps rbind_Inr_iff wr_from_Nil [of "write_text out n"] nil [of _ z]
    by (auto simp: write_text_from_Nil [of out])
qed

lemma write_entries_from_Nil:
  "write_entries wr out es = Inr z \<longleftrightarrow> (\<exists>y. write_entries wr [] es = Inr y \<and> z = out @ y)"
proof (cases es)
  case (Cons e es')
  obtain n v where "e = (n, v)" by (cases e)
  then show ?thesis unfolding Cons by (auto simp: write_entries_Cons simp del: write_entries.simps)
qed auto

lemma length_write_entries: "write_entries wr [] es = Inr y \<Longrightarrow> length es \<le> length y"
proof (induction es arbitrary: y)
  case (Cons e es)
  obtain n v where e: "e = (n, v)" by (cases e)
  from Cons.prems obtain x z where "wr [] v = Inr x" "write_entries wr [] es = Inr z" "y = write_text [] n @ x @ z"
    by (auto simp: e write_entries_Cons simp del: write_entries.simps)
  moreover obtain b bs where "write_text [] n = b # bs" by (rule write_text_Cons)
  ultimately show ?case using Cons.IH [of z] by simp
qed simp

lemma read_entries_write:
  "write_entries wr [] es = Inr y \<Longrightarrow> \<forall>(n, v) \<in> set es. is_str n \<and> chk n = Inr () \<and> okv v \<Longrightarrow>
     canon_ascending (case prev of Some p \<Rightarrow> p # map fst es | None \<Rightarrow> map fst es) \<Longrightarrow>
     read_entries ce chk bad rd (length es) prev m (y @ r) =
       Inr (foldl (\<lambda>m (k, v). bt_insert k v m) m (map (apsnd canon) es), r)"
proof (induction es arbitrary: y prev m)
  case (Cons e es)
  obtain n v where e: "e = (n, v)" by (cases e)
  from Cons.prems(1) obtain x z where y: "wr [] v = Inr x" "write_entries wr [] es = Inr z" "y = write_text [] n @ x @ z"
    by (auto simp: e write_entries_Cons simp del: write_entries.simps)
  have asc: "canon_ascending (n # map fst es)"
    using Cons.prems(3) by (auto simp: e canon_ascending_def split: option.splits)
  have "\<not> (case prev of Some p \<Rightarrow> canonical_str_cmp p n \<noteq> Less | None \<Rightarrow> False)"
    using Cons.prems(3) by (auto simp: e canon_ascending_def canonical_str_cmp_key split: option.splits)
  with Cons.prems(2) y(1,3) rd_wr [of v x "z @ r"] Cons.IH [OF y(2), of "Some n" "bt_insert n (canon v) m"] asc
  show ?case by (auto simp: e)
qed simp

lemma read_entries_strict:
  "read_entries ce chk bad rd n prev m r = Inr (m', r') \<Longrightarrow>
     \<exists>es y. length es = n \<and> write_entries wr [] es = Inr y \<and> r = y @ r' \<and>
       canon_ascending (case prev of Some p \<Rightarrow> p # map fst es | None \<Rightarrow> map fst es) \<and>
       (\<forall>k \<in> fst ` set es. utf8_valid k \<and> chk k = Inr ()) \<and>
       m' = foldl (\<lambda>m (k, v). bt_insert k v m) m es"
proof (induction n arbitrary: prev m r)
  case 0
  then show ?case by (auto simp: canon_ascending_def split: option.splits)
next
  case (Suc n)
  from Suc.prems obtain name r1 v r2 where t: "read_text r = Inr (name, r1)" and c: "chk name = Inr ()"
    and asc: "\<not> (case prev of Some p \<Rightarrow> canonical_str_cmp p name \<noteq> Less | None \<Rightarrow> False)"
    and v: "rd r1 = Inr (v, r2)"
    and n: "read_entries ce chk bad rd n (Some name) (bt_insert name v m) r2 = Inr (m', r')"
    by (auto simp: rbind_Inr_iff map_err_Inr_iff split: if_splits)
  from Suc.IH [OF n] obtain es y where es: "length es = n" "write_entries wr [] es = Inr y" "r2 = y @ r'"
    "canon_ascending (name # map fst es)" "\<forall>k \<in> fst ` set es. utf8_valid k \<and> chk k = Inr ()"
    "m' = foldl (\<lambda>m (k, v). bt_insert k v m) (bt_insert name v m) es" by auto
  obtain x where x: "wr [] v = Inr x" "r1 = x @ r2" using rd_strict [OF v] by blast
  have "canon_ascending (case prev of Some p \<Rightarrow> p # map fst ((name, v) # es) | None \<Rightarrow> map fst ((name, v) # es))"
    using asc es(4) by (auto simp: canon_ascending_def canonical_str_cmp_key split: option.splits intro: order.strict_trans)
  then show ?case
    using es x c read_text_strict [OF t]
    by (intro exI [of _ "(name, v) # es"] exI [of _ "write_text [] name @ x @ y"])
      (auto simp: write_entries_Cons simp del: write_entries.simps)
qed

lemma write_text_map_from_Nil:
  "write_text_map wr out m = Inr z \<longleftrightarrow> (\<exists>y. write_text_map wr [] m = Inr y \<and> z = out @ y)"
  unfolding write_text_map_def Let_def
  by (subst (1 2) write_entries_from_Nil) (auto simp: write_head_from_Nil [of out])

lemma read_map_write:
  assumes "write_text_map wr [] m = Inr x" "bt_ok m" "length m < 2 ^ 63"
    "\<forall>(n, v) \<in> set m. is_str n \<and> chk n = Inr () \<and> okv v"
  shows "read_text_map ce chk bad rd (x @ r) = Inr (map (apsnd canon) m, r)"
proof -
  let ?es = "sort_key (canon_key \<circ> fst) m"
  have d: "distinct (map fst m)" using assms(2) by (simp add: bt_ok_def strict_sorted_iff)
  then have asc: "canon_ascending (map fst ?es)" by (rule canon_sorted(1))
  obtain y where y: "write_entries wr [] ?es = Inr y" "x = write_head [] 5 (of_nat (length m)) @ y"
    using assms(1) unfolding write_text_map_def Let_def sort_canonical
    by (subst (asm) write_entries_from_Nil) auto
  have n: "unat (of_nat (length m) :: u64) = length m" using assms(3) by (simp add: unat_of_nat)
  let ?m' = "foldl (\<lambda>m (k, v). bt_insert k v m) [] (map (apsnd canon) ?es)"
  have "read_entries ce chk bad rd (length ?es) None [] (y @ r) = Inr (?m', r)"
    using read_entries_write [OF y(1), of chk None ce bad "[]" r] assms(4) asc by simp
  moreover have "?m' = map (apsnd canon) m"
  proof (rule bt_eqI)
    have f: "map fst (map (apsnd canon) es) = map fst es" for es :: "(bytes \<times> 'v) list" by simp
    have d': "distinct (map fst (map (apsnd canon) ?es))" unfolding f using canon_ascending_distinct [OF asc] .
    from bt_inserts [OF this, of "[]"] show "bt_ok ?m'" by simp
    show "bt_ok (map (apsnd canon) m)" using assms(2) by (simp add: bt_ok_def)
    have "map_of (map (apsnd canon) ?es) = map_of (map (apsnd canon) m)"
      using d' d f by (intro map_of_inject_set [THEN iffD2]) simp_all
    then show "map_of ?m' = map_of (map (apsnd canon) m)" using bt_inserts [OF d', of "[]"] by simp
  qed
  moreover have "length m \<le> length y" using length_write_entries [OF y(1)] by simp
  ultimately show ?thesis using y(2) n by (simp add: read_text_map_def)
qed

lemma read_map_strict:
  assumes "read_text_map ce chk bad rd r = Inr (m, r')"
  shows "bt_ok m \<and> (\<forall>k \<in> fst ` set m. utf8_valid k \<and> chk k = Inr ()) \<and>
    (\<exists>x. write_text_map wr [] m = Inr x \<and> r = x @ r')"
proof -
  from assms obtain count r1 where h: "read_head 5 r = Inr (count, r1)"
    and e: "read_entries ce chk bad rd (unat count) None [] r1 = Inr (m, r')"
    by (auto simp: read_text_map_def rbind_Inr_iff map_err_Inr_iff split: if_splits)
  from read_entries_strict [OF e] obtain es y where es: "length es = unat count" "write_entries wr [] es = Inr y"
    "r1 = y @ r'" "canon_ascending (map fst es)" "\<forall>k \<in> fst ` set es. utf8_valid k \<and> chk k = Inr ()"
    "m = foldl (\<lambda>m (k, v). bt_insert k v m) [] es" by auto
  note d = canon_ascending_distinct [OF es(4)]
  have m: "bt_ok m" "map_of m = map_of es" using bt_inserts [OF d, of "[]"] es(6) by simp_all
  have dm: "distinct (map fst m)" using m(1) by (simp add: bt_ok_def strict_sorted_iff)
  have set: "set m = set es" using map_of_inject_set [OF dm d] m(2) by simp
  have "sort_key (canon_key \<circ> fst) m = es"
    by (rule canon_ascending_unique [of fst]) (use canon_sorted(1) [OF dm] es(4) set in simp_all)
  moreover have "(of_nat (length es) :: u64) = count" unfolding es(1) by simp
  ultimately have "write_text_map wr [] m = Inr (write_head [] 5 count @ y)"
    unfolding write_text_map_def Let_def sort_canonical
    by (subst write_entries_from_Nil) (use es(2) in simp)
  then show ?thesis using m(1) es(3,5) set read_head_strict [OF h] by auto
qed

end

end
