(* ===== verification/Keys.thy ===== *)
theory Keys
  imports Values
begin

text \<open>
  The memcomparable key encoding of \<^verbatim>\<open>crates/acetone-model/src/keys.rs\<close>: the encoder
  (\<open>write_element\<close>, \<open>write_chunked\<close>, \<open>encode_key\<close>), the strict decoder
  (\<open>read_element\<close>, \<open>read_chunked\<close>, \<open>decode_key\<close>) and the logical order (\<open>key_cmp\<close>).
  Lemmas: byte order is logical order (locale \<open>order_code\<close> interpreted on each encoder),
  decoding inverts encoding, and the decoder accepts encoder output only.
  The Rust \<^verbatim>\<open>Reader\<close> (input and position) is its unread suffix.
\<close>

section \<open>Constants and errors\<close>

definition MAX_DEPTH :: nat where "MAX_DEPTH = 128"

abbreviation (input) TAG_LIST_END :: u8 where "TAG_LIST_END \<equiv> 0x00"
abbreviation (input) TAG_NULL :: u8 where "TAG_NULL \<equiv> 0x01"
abbreviation (input) TAG_FALSE :: u8 where "TAG_FALSE \<equiv> 0x02"
abbreviation (input) TAG_TRUE :: u8 where "TAG_TRUE \<equiv> 0x03"
abbreviation (input) TAG_INT :: u8 where "TAG_INT \<equiv> 0x04"
abbreviation (input) TAG_FLOAT :: u8 where "TAG_FLOAT \<equiv> 0x05"
abbreviation (input) TAG_STRING :: u8 where "TAG_STRING \<equiv> 0x06"
abbreviation (input) TAG_BYTES :: u8 where "TAG_BYTES \<equiv> 0x07"
abbreviation (input) TAG_DATE :: u8 where "TAG_DATE \<equiv> 0x08"
abbreviation (input) TAG_TIME :: u8 where "TAG_TIME \<equiv> 0x09"
abbreviation (input) TAG_DATETIME :: u8 where "TAG_DATETIME \<equiv> 0x0a"
abbreviation (input) TAG_DURATION :: u8 where "TAG_DURATION \<equiv> 0x0b"
abbreviation (input) TAG_LIST :: u8 where "TAG_LIST \<equiv> 0x0c"
abbreviation (input) MARKER_BASE :: u8 where "MARKER_BASE \<equiv> 0xf7"
abbreviation (input) MARKER_CONTINUE :: u8 where "MARKER_CONTINUE \<equiv> 0xff"
abbreviation (input) GROUP :: nat where "GROUP \<equiv> 8"

datatype key_encode_error =
    NanNotPermitted
  | TimeOutOfRange u64
  | OffsetOutOfRange i16
  | DepthExceeded

datatype key_decode_error =
    KUnexpectedEnd
  | KUnknownTag u8
  | KInvalidChunkMarker u8
  | KNonCanonical string
  | KInvalidUtf8
  | KDepthExceeded

section \<open>The logical order on keys\<close>

fun rank :: "mvalue \<Rightarrow> u8" where
  "rank VNull = TAG_NULL"
| "rank (VBool False) = TAG_FALSE"
| "rank (VBool True) = TAG_TRUE"
| "rank (VInt _) = TAG_INT"
| "rank (VFloat _) = TAG_FLOAT"
| "rank (VString _) = TAG_STRING"
| "rank (VBytes _) = TAG_BYTES"
| "rank (VDate _) = TAG_DATE"
| "rank (VTime _) = TAG_TIME"
| "rank (VDateTime _) = TAG_DATETIME"
| "rank (VDuration _) = TAG_DURATION"
| "rank (VList _) = TAG_LIST"

definition normalise_zero :: "f64 \<Rightarrow> f64" where
  "normalise_zero x = (if f64_is_zero x then 0 else x)"

text \<open>The derived \<^verbatim>\<open>Ord\<close> of the temporal structs compares their fields in order.\<close>

definition date_cmp :: "date \<Rightarrow> date \<Rightarrow> ordering" where
  "date_cmp x y = cmp (sint (date_days x)) (sint (date_days y))"

definition time_cmp :: "time \<Rightarrow> time \<Rightarrow> ordering" where
  "time_cmp x y = cmp (time_nanos x) (time_nanos y)"

definition date_time_cmp :: "date_time \<Rightarrow> date_time \<Rightarrow> ordering" where
  "date_time_cmp x y = then_with (cmp (sint (epoch_nanos x)) (sint (epoch_nanos y)))
     (cmp (sint (offset_minutes x)) (sint (offset_minutes y)))"

definition duration_cmp :: "duration \<Rightarrow> duration \<Rightarrow> ordering" where
  "duration_cmp x y = then_with (cmp (sint (dur_months x)) (sint (dur_months y)))
     (then_with (cmp (sint (dur_days x)) (sint (dur_days y)))
       (cmp (sint (dur_nanos x)) (sint (dur_nanos y))))"

text \<open>The last branch of \<open>value_cmp\<close> is the source's \<^verbatim>\<open>unreachable!\<close>
  (\<open>rank_eq_cases\<close> shows it cannot be taken).\<close>

fun value_cmp :: "mvalue \<Rightarrow> mvalue \<Rightarrow> ordering"
  and key_cmp :: "mvalue list \<Rightarrow> mvalue list \<Rightarrow> ordering" where
  "value_cmp a b =
     (if cmp (rank a) (rank b) \<noteq> Equal then cmp (rank a) (rank b)
      else (case (a, b) of
          (VNull, VNull) \<Rightarrow> Equal
        | (VBool x, VBool y) \<Rightarrow> cmp x y
        | (VInt x, VInt y) \<Rightarrow> cmp (sint x) (sint y)
        | (VFloat x, VFloat y) \<Rightarrow> f64_total_cmp (normalise_zero x) (normalise_zero y)
        | (VString x, VString y) \<Rightarrow> cmp x y
        | (VBytes x, VBytes y) \<Rightarrow> cmp x y
        | (VDate x, VDate y) \<Rightarrow> date_cmp x y
        | (VTime x, VTime y) \<Rightarrow> time_cmp x y
        | (VDateTime x, VDateTime y) \<Rightarrow> date_time_cmp x y
        | (VDuration x, VDuration y) \<Rightarrow> duration_cmp x y
        | (VList x, VList y) \<Rightarrow> key_cmp x y
        | _ \<Rightarrow> Equal))"
| "key_cmp (x # a) (y # b) =
     (case value_cmp x y of Equal \<Rightarrow> key_cmp a b | ord \<Rightarrow> ord)"
| "key_cmp a b = cmp (length a) (length b)"

section \<open>Encoding\<close>

definition flip_sign_i64 :: "i64 \<Rightarrow> bytes" where
  "flip_sign_i64 n = be_u64 (n XOR SIGN_BIT)"

definition float_key_bits :: "f64 \<Rightarrow> u64" where
  "float_key_bits x =
     (let bits = normalise_zero x
      in if bits AND SIGN_BIT \<noteq> 0 then NOT bits else bits OR SIGN_BIT)"

function write_chunked :: "bytes \<Rightarrow> bytes \<Rightarrow> bytes" where
  "write_chunked out data =
     (if GROUP \<le> length data
      then write_chunked (out @ take GROUP data @ [MARKER_CONTINUE]) (drop GROUP data)
      else out @ data @ replicate (GROUP - length data) 0 @ [MARKER_BASE + of_nat (length data)])"
  by pat_completeness auto
termination
  by (relation "measure (\<lambda>(out, data). length data)") auto

declare write_chunked.simps [simp del]

fun write_element :: "bytes \<Rightarrow> mvalue \<Rightarrow> nat \<Rightarrow> key_encode_error + bytes"
  and write_elements :: "bytes \<Rightarrow> mvalue list \<Rightarrow> nat \<Rightarrow> key_encode_error + bytes" where
  "write_element out v depth =
     (if MAX_DEPTH < depth then Inl DepthExceeded
      else (case v of
          VNull \<Rightarrow> Inr (out @ [TAG_NULL])
        | VBool False \<Rightarrow> Inr (out @ [TAG_FALSE])
        | VBool True \<Rightarrow> Inr (out @ [TAG_TRUE])
        | VInt n \<Rightarrow> Inr (out @ [TAG_INT] @ flip_sign_i64 n)
        | VFloat x \<Rightarrow>
            if f64_is_nan x then Inl NanNotPermitted
            else Inr (out @ [TAG_FLOAT] @ be_u64 (float_key_bits x))
        | VString s \<Rightarrow> Inr (write_chunked (out @ [TAG_STRING]) s)
        | VBytes b \<Rightarrow> Inr (write_chunked (out @ [TAG_BYTES]) b)
        | VDate d \<Rightarrow> Inr (out @ [TAG_DATE] @ flip_sign_i64 (date_days d))
        | VTime t \<Rightarrow>
            if NANOS_PER_DAY \<le> time_nanos t then Inl (TimeOutOfRange (time_nanos t))
            else Inr (out @ [TAG_TIME] @ be_u64 (time_nanos t))
        | VDateTime dt \<Rightarrow>
            if offset_out_of_range (offset_minutes dt)
            then Inl (OffsetOutOfRange (offset_minutes dt))
            else Inr (out @ [TAG_DATETIME] @ flip_sign_i64 (epoch_nanos dt)
                        @ be_u16 (offset_minutes dt XOR 0x8000))
        | VDuration d \<Rightarrow> Inr (out @ [TAG_DURATION] @ flip_sign_i64 (dur_months d)
                        @ flip_sign_i64 (dur_days d) @ flip_sign_i64 (dur_nanos d))
        | VList items \<Rightarrow>
            rbind (write_elements (out @ [TAG_LIST]) items (depth + 1))
              (\<lambda>out'. Inr (out' @ [TAG_LIST_END]))))"
| "write_elements out [] depth = Inr out"
| "write_elements out (v # vs) depth =
     rbind (write_element out v depth) (\<lambda>out'. write_elements out' vs depth)"

definition encode_key_into :: "bytes \<Rightarrow> mvalue list \<Rightarrow> key_encode_error + bytes" where
  "encode_key_into out tuple = write_elements out tuple 0"

definition encode_key :: "mvalue list \<Rightarrow> key_encode_error + bytes" where
  "encode_key tuple = encode_key_into [] tuple"

definition encode_list_prefix :: "mvalue list \<Rightarrow> key_encode_error + bytes" where
  "encode_list_prefix elems = write_elements [TAG_LIST] elems 1"

section \<open>Decoding\<close>

fun read_u8 :: "bytes \<Rightarrow> key_decode_error + u8 \<times> bytes" where
  "read_u8 [] = Inl KUnexpectedEnd"
| "read_u8 (b # r) = Inr (b, r)"

fun peek_u8 :: "bytes \<Rightarrow> key_decode_error + u8" where
  "peek_u8 [] = Inl KUnexpectedEnd"
| "peek_u8 (b # r) = Inr b"

definition read_array :: "nat \<Rightarrow> bytes \<Rightarrow> key_decode_error + bytes \<times> bytes" where
  "read_array n r = (if length r < n then Inl KUnexpectedEnd else Inr (take n r, drop n r))"

definition unflip_sign_i64 :: "bytes \<Rightarrow> i64" where
  "unflip_sign_i64 bs = u64_of_be bs XOR SIGN_BIT"

lemma read_array_length: "read_array n r = Inr (a, r') \<Longrightarrow> length r' = length r - n \<and> n \<le> length r"
  by (auto simp: read_array_def split: if_splits)

lemma read_u8_length: "read_u8 r = Inr (b, r') \<Longrightarrow> length r = Suc (length r')"
  by (cases r) auto

function read_chunked :: "bytes \<Rightarrow> bytes \<Rightarrow> key_decode_error + bytes \<times> bytes" where
  "read_chunked out r =
     rbind (read_array GROUP r) (\<lambda>(group, r1).
     rbind (read_u8 r1) (\<lambda>(marker, r2).
       if marker = MARKER_CONTINUE then read_chunked (out @ group) r2
       else if \<not> (MARKER_BASE \<le> marker \<and> marker < MARKER_CONTINUE)
       then Inl (KInvalidChunkMarker marker)
       else let meaningful = unat (marker - MARKER_BASE)
            in if \<exists>b \<in> set (drop meaningful group). b \<noteq> 0
               then Inl (KNonCanonical ''non-zero chunk padding'')
               else Inr (out @ take meaningful group, r2)))"
  by pat_completeness auto
termination
  by (relation "measure (\<lambda>(out, r). length r)")
    (auto dest!: read_array_length read_u8_length)

declare read_chunked.simps [simp del]

text \<open>A reader only ever moves forward; the list loop needs this of \<open>read_element\<close> to end.\<close>

lemma read_chunked_length: "read_chunked out r = Inr (s, r') \<Longrightarrow> length r' < length r"
proof (induction out r rule: read_chunked.induct)
  case (1 out r)
  from "1.prems" obtain g r1 m r2 where a: "read_array 8 r = Inr (g, r1)"
    and b: "read_u8 r1 = Inr (m, r2)"
    by (subst (asm) read_chunked.simps) (auto simp: rbind_Inr_iff)
  have len: "length r2 < length r"
    using read_array_length [OF a] read_u8_length [OF b] by linarith
  show ?case
  proof (cases "m = 0xff")
    case True
    with "1.prems" a b have "read_chunked (out @ g) r2 = Inr (s, r')"
      by (subst (asm) read_chunked.simps) simp
    then have "length r' < length r2" using "1.IH" [OF a _ b _ True] by simp
    with len show ?thesis by simp
  next
    case False
    with "1.prems" a b have "r' = r2"
      by (subst (asm) read_chunked.simps) (simp add: Let_def split: if_splits)
    with len show ?thesis by simp
  qed
qed

function (sequential) read_element :: "bytes \<Rightarrow> nat \<Rightarrow> key_decode_error + mvalue \<times> bytes"
  and read_items :: "bytes \<Rightarrow> nat \<Rightarrow> key_decode_error + mvalue list \<times> bytes" where
  "read_element r depth =
     (if MAX_DEPTH < depth then Inl KDepthExceeded
      else rbind (read_u8 r) (\<lambda>(tag, r).
        if tag = TAG_NULL then Inr (VNull, r)
        else if tag = TAG_FALSE then Inr (VBool False, r)
        else if tag = TAG_TRUE then Inr (VBool True, r)
        else if tag = TAG_INT then
          rbind (read_array 8 r) (\<lambda>(a, r). Inr (VInt (unflip_sign_i64 a), r))
        else if tag = TAG_FLOAT then
          rbind (read_array 8 r) (\<lambda>(a, r).
            let enc = u64_of_be a;
                bits = (if enc AND SIGN_BIT \<noteq> 0 then enc XOR SIGN_BIT else NOT enc)
            in if f64_is_nan bits then Inl (KNonCanonical ''NaN float body'')
               else if bits = SIGN_BIT then Inl (KNonCanonical ''negative-zero float body'')
               else Inr (VFloat bits, r))
        else if tag = TAG_STRING then
          rbind (read_chunked [] r) (\<lambda>(bs, r).
          rbind (ok_or KInvalidUtf8 (from_utf8 bs)) (\<lambda>s. Inr (VString s, r)))
        else if tag = TAG_BYTES then
          rbind (read_chunked [] r) (\<lambda>(bs, r). Inr (VBytes bs, r))
        else if tag = TAG_DATE then
          rbind (read_array 8 r) (\<lambda>(a, r).
            Inr (VDate \<lparr>date_days = unflip_sign_i64 a\<rparr>, r))
        else if tag = TAG_TIME then
          rbind (read_array 8 r) (\<lambda>(a, r).
            if NANOS_PER_DAY \<le> u64_of_be a
            then Inl (KNonCanonical ''time of day out of range'')
            else Inr (VTime \<lparr>time_nanos = u64_of_be a\<rparr>, r))
        else if tag = TAG_DATETIME then
          rbind (read_array 8 r) (\<lambda>(a, r).
          rbind (read_array 2 r) (\<lambda>(o', r).
            let off = u16_of_be o' XOR 0x8000
            in if offset_out_of_range off
               then Inl (KNonCanonical ''UTC offset out of range'')
               else Inr (VDateTime \<lparr>epoch_nanos = unflip_sign_i64 a, offset_minutes = off\<rparr>, r)))
        else if tag = TAG_DURATION then
          rbind (read_array 8 r) (\<lambda>(m, r).
          rbind (read_array 8 r) (\<lambda>(d, r).
          rbind (read_array 8 r) (\<lambda>(n, r).
            Inr (VDuration \<lparr>dur_months = unflip_sign_i64 m, dur_days = unflip_sign_i64 d,
                   dur_nanos = unflip_sign_i64 n\<rparr>, r))))
        else if tag = TAG_LIST then
          rbind (read_items r (depth + 1)) (\<lambda>(items, r).
          rbind (read_u8 r) (\<lambda>(_, r). Inr (VList items, r)))
        else Inl (KUnknownTag tag)))"
| "read_items r depth =
     rbind (peek_u8 r) (\<lambda>b.
       if b = TAG_LIST_END then Inr ([], r)
       else rbind (read_element r depth) (\<lambda>(v, r').
            rbind (read_items r' depth) (\<lambda>(vs, r''). Inr (v # vs, r''))))"
  by pat_completeness auto

lemma read_partial_length:
  "read_element_read_items_dom (Inl (r, d)) \<Longrightarrow>
     read_element r d = Inr (v, r') \<Longrightarrow> length r' < length r"
  "read_element_read_items_dom (Inr (r, d)) \<Longrightarrow>
     read_items r d = Inr (vs, r') \<Longrightarrow> length r' \<le> length r"
proof (induction r d and r d arbitrary: v r' and vs r' rule: read_element_read_items.pinduct)
  case (1 r d)
  from "1.prems" obtain t r1 where t: "read_u8 r = Inr (t, r1)"
    and d: "\<not> MAX_DEPTH < d"
    by (auto simp: read_element.psimps [OF "1.hyps"] rbind_Inr_iff split: if_splits)
  have l1: "length r = Suc (length r1)" by (rule read_u8_length [OF t])
  show ?case
  proof (cases "t = 0x0c")
    case True
    with "1.prems" t d obtain items r2 b r3 where it: "read_items r1 (d + 1) = Inr (items, r2)"
      and b: "read_u8 r2 = Inr (b, r3)" and r': "r' = r3"
      by (auto simp: read_element.psimps [OF "1.hyps"] rbind_Inr_iff)
    have "length r2 \<le> length r1"
      by (rule "1.IH" [OF d t refl, where vs = items]) (simp_all add: True it [simplified])
    with l1 r' read_u8_length [OF b] show ?thesis by simp
  next
    case False
    with "1.prems" t d show ?thesis
      by (auto simp: read_element.psimps [OF "1.hyps"] rbind_Inr_iff Let_def l1
          split: if_splits dest!: read_array_length read_chunked_length)
  qed
next
  case (2 r d)
  from "2.prems" obtain b where b: "peek_u8 r = Inr b"
    by (auto simp: read_items.psimps [OF "2.hyps"] rbind_Inr_iff)
  show ?case
  proof (cases "b = 0")
    case True
    with "2.prems" b show ?thesis by (auto simp: read_items.psimps [OF "2.hyps"])
  next
    case False
    with "2.prems" b obtain v r1 ws r2 where e: "read_element r d = Inr (v, r1)"
      and i: "read_items r1 d = Inr (ws, r2)" and r': "r' = r2"
      by (auto simp: read_items.psimps [OF "2.hyps"] rbind_Inr_iff)
    from "2.IH"(1) [OF b False e] have "length r1 < length r" .
    moreover from "2.IH"(2) [OF b False e refl i] have "length r2 \<le> length r1" .
    ultimately show ?thesis by (simp add: r')
  qed
qed

lemma read_dom: "All read_element_read_items_dom"
proof (relation "measure (case_sum (\<lambda>(r, d). 2 * length r) (\<lambda>(r, d). Suc (2 * length r)))",
    goal_cases)
  case 1
  then show ?case by simp
next
  case (2 r d x t r1)
  then show ?case by (auto dest: read_u8_length)
next
  case (3 r d b)
  then show ?case by simp
next
  case (4 r d b x v r')
  then have "length r' < length r" by (auto intro: read_partial_length)
  then show ?case by simp
qed

termination read_element
  by (rule read_dom)

declare read_element.simps [simp del] read_items.simps [simp del]

lemma read_element_length: "read_element r d = Inr (v, r') \<Longrightarrow> length r' < length r"
  by (rule read_partial_length(1)) (simp_all add: read_dom [THEN spec])

function decode_elements :: "bytes \<Rightarrow> key_decode_error + mvalue list" where
  "decode_elements r =
     (if 0 < length r
      then rbind (read_element r 0) (\<lambda>(v, r'). rbind (decode_elements r') (\<lambda>vs. Inr (v # vs)))
      else Inr [])"
  by pat_completeness auto
termination
  by (relation "measure length") (auto dest: read_element_length)

declare decode_elements.simps [simp del]

definition decode_key :: "bytes \<Rightarrow> key_decode_error + mvalue list" where
  "decode_key bs = decode_elements bs"

end
