(* ===== verification/Keys_Order.thy ===== *)
theory Keys_Order
  imports Keys
begin

text \<open>
  Byte order of encoded keys is logical key order (spec section 3.4 of the repository,
  Load-Bearing Invariant 2). Each field encoder is an interpretation of \<open>order_code\<close>; elements
  and tuples are composed from them.
\<close>

section \<open>Field encoders\<close>

lemma cmp_flip_sign_i64: "cmp (flip_sign_i64 a) (flip_sign_i64 b) = cmp (sint a) (sint b)"
  using cmp_xor_top_bit [of a b] by (simp add: flip_sign_i64_def cmp_be_u64 SIGN_BIT_eq)

interpretation i64_code: order_code flip_sign_i64 "\<lambda>a b. cmp (sint a) (sint b)" "\<lambda>_. True"
  by unfold_locales (simp add: cmp_append_eq_length flip_sign_i64_def cmp_flip_sign_i64 [symmetric])

interpretation u64_code: order_code be_u64 cmp "\<lambda>_. True"
  by unfold_locales (simp add: cmp_append_eq_length cmp_be_u64)

interpretation offset_code: order_code "\<lambda>x. be_u16 (x XOR 0x8000)"
  "\<lambda>a b. cmp (sint a) (sint b)" "\<lambda>_. True"
proof
  fix a b :: i16 and s t :: bytes
  have "cmp (a XOR 0x8000) (b XOR 0x8000) = cmp (sint a) (sint b)"
    using cmp_xor_top_bit [of a b] by simp
  then show "cmp (be_u16 (a XOR 0x8000) @ s) (be_u16 (b XOR 0x8000) @ t) =
      then_with (cmp (sint a) (sint b)) (cmp s t)"
    by (simp add: cmp_append_eq_length cmp_be_u16)
qed

text \<open>The IEEE total-order transform of the key encoder is the sign-flipped total key.\<close>

lemma and_SIGN_BIT: "x AND SIGN_BIT \<noteq> 0 \<longleftrightarrow> bit x 63"
proof -
  have "bit (x AND SIGN_BIT) n \<longleftrightarrow> bit x 63 \<and> n = 63" for n
    by (auto simp: bit_and_iff bit_SIGN_BIT)
  then show ?thesis by (metis bit_0_eq bot_apply bot_bool_def bit_eqI)
qed

lemma bit_7FFF: "bit (0x7FFFFFFFFFFFFFFF :: u64) n \<longleftrightarrow> n < 63"
proof -
  have "(0x7FFFFFFFFFFFFFFF :: u64) = mask 63" by (simp add: mask_eq_exp_minus_1)
  then show ?thesis by (simp only: bit_mask_iff) auto
qed

lemma float_key_bits_eq: "float_key_bits x = f64_total_key (normalise_zero x) XOR SIGN_BIT"
proof -
  have "(if bit y 63 then NOT y else y OR SIGN_BIT) = f64_total_key y XOR SIGN_BIT" for y :: u64
  proof (rule bit_eqI)
    fix n assume "possible_bit TYPE(64 word) n"
    then have "n < 64" by simp
    then show "bit (if bit y 63 then NOT y else y OR SIGN_BIT) n =
        bit (f64_total_key y XOR SIGN_BIT) n"
      using bit_7FFF [of n]
      by (auto simp: f64_total_key_def bit_xor_iff bit_or_iff bit_not_iff bit_SIGN_BIT)
  qed
  then show ?thesis by (simp add: float_key_bits_def Let_def and_SIGN_BIT)
qed

lemma cmp_float_key_bits:
  "cmp (float_key_bits a) (float_key_bits b) = f64_total_cmp (normalise_zero a) (normalise_zero b)"
  using cmp_xor_top_bit [of "f64_total_key (normalise_zero a)" "f64_total_key (normalise_zero b)"]
  by (simp add: float_key_bits_eq f64_total_cmp_def SIGN_BIT_eq)

interpretation float_code: order_code "\<lambda>x. be_u64 (float_key_bits x)"
  "\<lambda>a b. f64_total_cmp (normalise_zero a) (normalise_zero b)" "\<lambda>_. True"
proof
  fix a b :: f64 and s t :: bytes
  show "cmp (be_u64 (float_key_bits a) @ s) (be_u64 (float_key_bits b) @ t) =
      then_with (f64_total_cmp (normalise_zero a) (normalise_zero b)) (cmp s t)"
    by (simp add: cmp_append_eq_length cmp_be_u64 cmp_float_key_bits)
qed

section \<open>Chunked framing\<close>

lemma write_chunked_append: "write_chunked (p @ out) data = p @ write_chunked out data"
proof (induction out data rule: write_chunked.induct)
  case (1 out data)
  show ?case
    by (subst (1 2) write_chunked.simps) (use "1.IH" in simp)
qed

lemma write_chunked_short:
  "length data < 8 \<Longrightarrow> write_chunked [] data =
     data @ replicate (8 - length data) 0 @ [0xf7 + of_nat (length data)]"
  by (subst write_chunked.simps) simp

lemma write_chunked_long:
  "8 \<le> length data \<Longrightarrow> write_chunked [] data =
     take 8 data @ 0xff # write_chunked [] (drop 8 data)"
  using write_chunked_append [of "take 8 data @ [0xff]" "[]" "drop 8 data"]
  by (subst write_chunked.simps) simp

text \<open>Zero padding to a common width followed by the lengths is lexicographic order.\<close>

lemma replicate_zero_le: "cmp (replicate (length z) (0::u8)) z \<noteq> Greater"
proof (induction z)
  case (Cons b z)
  then have "replicate (length z) 0 \<le> z" by (simp add: not_less)
  then show ?case by (auto simp: not_less less_le_not_le [of z])
qed simp

lemma then_with_Less: "o' \<noteq> Greater \<Longrightarrow> then_with o' Less = Less"
  by (cases o') auto

lemma then_with_Greater: "o' \<noteq> Less \<Longrightarrow> then_with o' Greater = Greater"
  by (cases o') auto

lemma less_8_cases: "n < 8 \<Longrightarrow> n \<in> {0, 1, 2, 3, 4, 5, 6, 7 :: nat}"
  by (simp add: numeral_eq_Suc less_Suc_eq)

lemma pad_cmp:
  fixes a b :: bytes
  shows "length a \<le> k \<Longrightarrow> length b \<le> k \<Longrightarrow>
    then_with (cmp (a @ replicate (k - length a) 0) (b @ replicate (k - length b) 0))
      (cmp (length a) (length b)) = cmp a b"
proof (induction a arbitrary: b k)
  case Nil
  show ?case
  proof (cases b)
    case (Cons y ys)
    let ?z = "b @ replicate (k - length b) 0"
    have "length ?z = k" using Nil by simp
    then have "cmp (replicate k 0) ?z \<noteq> Greater" using replicate_zero_le [of ?z] by metis
    from then_with_Less [OF this] show ?thesis using Cons by (simp add: cmp_def)
  qed simp
next
  case (Cons x xs)
  show ?case
  proof (cases b)
    case Nil
    let ?z = "(x # xs) @ replicate (k - length (x # xs)) 0"
    have "length ?z = k" using Cons by simp
    then have "cmp (replicate k 0) ?z \<noteq> Greater" using replicate_zero_le [of ?z] by metis
    then have "cmp ?z (replicate k 0) \<noteq> Less" by (auto simp: cmp_def split: if_splits)
    from then_with_Greater [OF this] show ?thesis using Nil by (simp add: cmp_def)
  next
    case (Cons y ys)
    obtain k' where k: "k = Suc k'" using Cons.prems(1) by (cases k) auto
    have "cmp (length (x # xs)) (length (y # ys)) = cmp (length xs) (length ys)"
      by (simp add: cmp_def)
    with Cons.IH [of k' ys] Cons.prems Cons k show ?thesis
      by (simp add: cmp_Cons then_with_assoc)
  qed
qed

lemma cmp_longer: "length a < length c \<Longrightarrow> cmp a (c @ r) = cmp a c"
  for a c r :: bytes
proof (induction a arbitrary: c)
  case Nil
  then show ?case by (cases c) auto
next
  case (Cons x a)
  then show ?case by (cases c) (auto simp: cmp_Cons)
qed

lemma cmp_flip: "cmp b a = (case cmp a b of Less \<Rightarrow> Greater | Equal \<Rightarrow> Equal | Greater \<Rightarrow> Less)"
  by (auto simp: cmp_def)

lemma chunked_short_long:
  fixes a b s t :: bytes
  assumes "length a < 8" "8 \<le> length b"
  shows "cmp (write_chunked [] a @ s) (write_chunked [] b @ t) = cmp a b" and "a \<noteq> b"
proof -
  let ?pa = "a @ replicate (8 - length a) 0" and ?n = "of_nat (length a) :: u8"
  have l: "length (take 8 b) = 8" using assms by simp
  have marker: "(0xf7 :: u8) + ?n < 0xff"
  proof -
    from assms(1) have "length a \<in> {0,1,2,3,4,5,6,7}" by (rule less_8_cases)
    then show ?thesis by auto
  qed
  have "cmp (write_chunked [] a @ s) (write_chunked [] b @ t) =
      then_with (cmp ?pa (take 8 b)) Less"
    using cmp_append_eq_length [of ?pa "take 8 b"
        "(0xf7 + ?n) # s" "0xff # write_chunked [] (drop 8 b) @ t"] assms l marker
    by (simp add: write_chunked_short write_chunked_long cmp_Cons cmp_def [of "0xf7 + ?n"])
  also have "\<dots> = cmp a (take 8 b)"
  proof -
    have "cmp (length a) (length (take 8 b)) = Less" using assms l by simp
    with pad_cmp [of a 8 "take 8 b"] assms l show ?thesis by simp
  qed
  also have "\<dots> = cmp a b"
    using cmp_longer [of a "take 8 b" "drop 8 b"] assms l by simp
  finally show "cmp (write_chunked [] a @ s) (write_chunked [] b @ t) = cmp a b" .
  show "a \<noteq> b" using assms by auto
qed

lemma chunked_code:
  "cmp (write_chunked [] a @ s) (write_chunked [] b @ t) = then_with (cmp a b) (cmp s t)"
proof (induction a arbitrary: b rule: length_induct)
  case (1 a)
  consider "length a < 8" "length b < 8" | "length a < 8" "8 \<le> length b"
    | "8 \<le> length a" "length b < 8" | "8 \<le> length a" "8 \<le> length b" by linarith
  then show ?case
  proof cases
    case 1
    have m: "cmp ((0xf7 :: u8) + of_nat (length a)) (0xf7 + of_nat (length b)) =
        cmp (length a) (length b)"
    proof -
      have "length a \<in> {0,1,2,3,4,5,6,7}" "length b \<in> {0,1,2,3,4,5,6,7}"
        using 1 less_8_cases by blast+
      then show ?thesis by (auto simp: cmp_def)
    qed
    have "cmp (write_chunked [] a @ s) (write_chunked [] b @ t) =
        then_with (cmp (a @ replicate (8 - length a) 0) (b @ replicate (8 - length b) 0))
          (then_with (cmp (length a) (length b)) (cmp s t))"
      using 1 cmp_append_eq_length [of "a @ replicate (8 - length a) 0"
          "b @ replicate (8 - length b) 0"]
      by (simp add: write_chunked_short cmp_Cons m)
    with pad_cmp [of a 8 b] 1 show ?thesis by (simp add: then_with_assoc [symmetric])
  next
    case 2
    then have "cmp a b \<noteq> Equal" using chunked_short_long(2) [of a b] by simp
    with chunked_short_long(1) [OF 2, of s t] show ?thesis by (cases "cmp a b") auto
  next
    case 3
    then have ne: "cmp b a \<noteq> Equal" using chunked_short_long(2) [of b a] by simp
    with chunked_short_long(1) [OF 3(2,1), of t s] show ?thesis
      using cmp_flip [of "write_chunked [] b @ t" "write_chunked [] a @ s"] cmp_flip [of b a]
      by (cases "cmp b a") auto
  next
    case 4
    have "cmp (write_chunked [] a @ s) (write_chunked [] b @ t) =
        then_with (cmp (take 8 a) (take 8 b))
          (cmp (write_chunked [] (drop 8 a) @ s) (write_chunked [] (drop 8 b) @ t))"
      using 4 cmp_append_eq_length [of "take 8 a" "take 8 b"]
      by (simp add: write_chunked_long cmp_Cons)
    also have "\<dots> = then_with (cmp (take 8 a) (take 8 b))
        (then_with (cmp (drop 8 a) (drop 8 b)) (cmp s t))"
      using 1 4 by simp
    also have "\<dots> = then_with (cmp a b) (cmp s t)"
      using 4 cmp_append_eq_length [of "take 8 a" "take 8 b" "drop 8 a" "drop 8 b"]
      by (simp add: then_with_assoc)
    finally show ?thesis .
  qed
qed

interpretation chunked_code: order_code "write_chunked []" cmp "\<lambda>_. True"
  by unfold_locales (simp add: chunked_code)

section \<open>Elements\<close>

lemma write_append:
  "write_element (p @ out) v d = rbind (write_element out v d) (\<lambda>x. Inr (p @ x))"
  "write_elements (p @ out) vs d = rbind (write_elements out vs d) (\<lambda>x. Inr (p @ x))"
proof (induction out v d and out vs d rule: write_element_write_elements.induct)
  case (1 out v d)
  then show ?case
    by (cases v) (auto simp: write_chunked_append rbind_assoc split: bool.splits)
next
  case (3 out v vs d)
  then show ?case
    by (cases "write_element out v d") auto
qed simp

declare write_element.simps [simp del]

lemma write_from_Nil:
  "write_element out v d = Inr x \<longleftrightarrow> (\<exists>y. write_element [] v d = Inr y \<and> x = out @ y)"
  "write_elements out vs d = Inr z \<longleftrightarrow> (\<exists>y. write_elements [] vs d = Inr y \<and> z = out @ y)"
  using write_append(1) [of out "[]" v d] write_append(2) [of out "[]" vs d]
  by (auto simp: rbind_Inr_iff)

lemma write_elements_Cons:
  "write_elements [] (v # vs) d = Inr x \<longleftrightarrow>
     (\<exists>u w. write_element [] v d = Inr u \<and> write_elements [] vs d = Inr w \<and> x = u @ w)"
  unfolding write_elements.simps rbind_Inr_iff by (metis write_from_Nil(2))

lemma write_element_rank: "write_element [] v d = Inr x \<Longrightarrow> \<exists>y. x = rank v # y"
  using write_chunked_append [of "[rank v]" "[]"] write_append(2) [of "[0x0c]" "[]"]
  by (cases v) (auto simp: write_element.simps rbind_Inr_iff split: if_splits bool.splits)

text \<open>Equal ranks mean equal variants, so \<open>value_cmp\<close>'s last branch is never taken.\<close>

lemma rank_eq_cases:
  assumes "rank a = rank b"
  obtains (null) "a = VNull" "b = VNull"
  | (bool) x where "a = VBool x" "b = VBool x"
  | (int) x y where "a = VInt x" "b = VInt y"
  | (float) x y where "a = VFloat x" "b = VFloat y"
  | (string) x y where "a = VString x" "b = VString y"
  | (bytes) x y where "a = VBytes x" "b = VBytes y"
  | (date) x y where "a = VDate x" "b = VDate y"
  | (time) x y where "a = VTime x" "b = VTime y"
  | (date_time) x y where "a = VDateTime x" "b = VDateTime y"
  | (duration) x y where "a = VDuration x" "b = VDuration y"
  | (list) x y where "a = VList x" "b = VList y"
  using assms by (cases a rule: rank.cases; cases b rule: rank.cases) (simp_all, blast+)

lemma rank_pos: "0 < rank v"
  by (cases v rule: rank.cases) simp_all

lemmas value_cmp_induct = value_cmp_key_cmp.induct [case_names elem both left right]

lemma elem_code:
  "write_element [] a d = Inr x \<Longrightarrow> write_element [] b e = Inr y \<Longrightarrow>
     cmp (x @ s) (y @ t) = then_with (value_cmp a b) (cmp s t)"
  "write_elements [] as d = Inr x \<Longrightarrow> write_elements [] bs e = Inr y \<Longrightarrow>
     cmp (x @ 0 # s) (y @ 0 # t) = then_with (key_cmp as bs) (cmp s t)"
proof (induction a b and as bs arbitrary: d e x y s t and d e x y s t
    rule: value_cmp_induct)
  case (elem a b)
  show ?case
  proof (cases "rank a = rank b")
    case False
    with write_element_rank [OF elem.prems(1)] write_element_rank [OF elem.prems(2)]
    show ?thesis by (cases "rank a < rank b") (auto simp: cmp_Cons cmp_def)
  next
    case True
    then show ?thesis
    proof (cases rule: rank_eq_cases)
      case (list p q)
      with elem.prems obtain x' y' where
        "write_elements [] p (d + 1) = Inr x'" "x = 0x0c # x' @ [0]"
        "write_elements [] q (e + 1) = Inr y'" "y = 0x0c # y' @ [0]"
        by (auto simp: write_element.simps rbind_Inr_iff write_from_Nil(2) [of "[_]"]
            split: if_splits)
      with elem.IH [OF _ refl list] list show ?thesis by (simp add: cmp_Cons)
    qed (use elem.prems in \<open>auto simp: write_element.simps write_chunked_append [of "[_]" "[]", simplified]
          cmp_Cons i64_code.code u64_code.code offset_code.code cmp_float_key_bits chunked_code
          date_cmp_def time_cmp_def date_time_cmp_def duration_cmp_def then_with_assoc
          split: if_splits bool.splits\<close>)
  qed
next
  case (both p a q b)
  from both.prems obtain u v x' y' where
    uv: "write_element [] p d = Inr u" "write_element [] q e = Inr v"
    "write_elements [] a d = Inr x'" "write_elements [] b e = Inr y'" "x = u @ x'" "y = v @ y'"
    by (auto simp: write_elements_Cons simp del: write_elements.simps)
  then show ?case
    using both.IH(1) [OF uv(1,2)] both.IH(2) [OF _ uv(3,4)] by (cases "value_cmp p q") auto
next
  case (left bs)
  show ?case
  proof (cases bs)
    case Nil
    with left show ?thesis by (simp add: cmp_Cons)
  next
    case (Cons w ws)
    with left obtain u v where "write_element [] w e = Inr u" "y = u @ v" "x = []"
      by (auto simp: write_elements_Cons simp del: write_elements.simps(2))
    with write_element_rank [of w e u] rank_pos [of w] Cons show ?thesis
      by (auto simp: cmp_Cons)
  qed
next
  case (right as)
  show ?case
  proof (cases as)
    case Nil
    with right show ?thesis by (simp add: cmp_Cons)
  next
    case (Cons w ws)
    with right obtain u v where "write_element [] w d = Inr u" "x = u @ v" "y = []"
      by (auto simp: write_elements_Cons simp del: write_elements.simps(2))
    with write_element_rank [of w d u] rank_pos [of w] Cons show ?thesis
      by (auto simp: cmp_Cons)
  qed
qed

declare value_cmp.simps [simp del]

section \<open>Tuples\<close>

lemmas key_encode_eval [eval_simps] = encode_key_def encode_key_into_def encode_list_prefix_def
  write_element.simps MAX_DEPTH_def flip_sign_i64_def SIGN_BIT_eq(1) write_chunked.simps
  float_key_bits_def normalise_zero_def f64_is_zero_def f64_is_nan_def offset_out_of_range_def
  NANOS_PER_DAY_def MAX_OFFSET_MINUTES_def

lemma tuple_code:
  "write_elements [] as d = Inr x \<Longrightarrow> write_elements [] bs e = Inr y \<Longrightarrow>
     cmp x y = key_cmp as bs"
proof (induction as arbitrary: bs x y)
  case Nil
  then show ?case
    by (cases bs) (auto simp: write_elements_Cons cmp_def simp del: write_elements.simps(2)
        dest!: write_element_rank)
next
  case (Cons a as)
  from Cons.prems(1) obtain u x' where u: "write_element [] a d = Inr u"
    "write_elements [] as d = Inr x'" "x = u @ x'"
    by (auto simp: write_elements_Cons simp del: write_elements.simps)
  show ?case
  proof (cases bs)
    case Nil
    with Cons.prems(2) u write_element_rank [OF u(1)] show ?thesis by (auto simp: cmp_def)
  next
    case (Cons b bs')
    with Cons.prems(2) obtain v y' where v: "write_element [] b e = Inr v"
      "write_elements [] bs' e = Inr y'" "y = v @ y'"
      by (auto simp: write_elements_Cons simp del: write_elements.simps)
    show ?thesis
      using elem_code(1) [OF u(1) v(1), of x' y'] Cons.IH [OF u(2) v(2)] u v Cons
      by (cases "value_cmp a b") auto
  qed
qed

text \<open>An element that encodes, as a code of the shared interface.\<close>

definition encodable :: "mvalue \<Rightarrow> bool" where
  "encodable v \<longleftrightarrow> \<not> isl (write_element [] v 0)"

definition elem_bytes :: "mvalue \<Rightarrow> bytes" where
  "elem_bytes v = projr (write_element [] v 0)"

interpretation elem: order_code elem_bytes value_cmp encodable
proof
  fix a b s t
  assume "encodable a" "encodable b"
  then obtain x y where "write_element [] a 0 = Inr x" "write_element [] b 0 = Inr y"
    by (cases "write_element [] a 0"; cases "write_element [] b 0") (auto simp: encodable_def)
  then show "cmp (elem_bytes a @ s) (elem_bytes b @ t) = then_with (value_cmp a b) (cmp s t)"
    using elem_code(1) [of a 0 x b 0 y s t] by (simp add: elem_bytes_def)
qed

lemma encode_key_concat:
  "encode_key vs = Inr x \<Longrightarrow> list_all encodable vs \<and> x = concat (map elem_bytes vs)"
proof (induction vs arbitrary: x)
  case (Cons v vs)
  then obtain u w where "write_element [] v 0 = Inr u" "encode_key vs = Inr w" "x = u @ w"
    by (auto simp: encode_key_def encode_key_into_def write_elements_Cons
        simp del: write_elements.simps(2))
  with Cons.IH show ?case by (auto simp: encodable_def elem_bytes_def)
qed (simp add: encode_key_def encode_key_into_def)

end
