(* ===== verification/Keys_Roundtrip.thy ===== *)
theory Keys_Roundtrip
  imports Keys_Order
begin

text \<open>
  The two directions of the key codec: decoding what the encoder wrote gives the tuple back
  (negative zeros normalised), and every byte string the strict decoder accepts is exactly
  the encoding of the tuple it returns.
\<close>

section \<open>Decoding an encoding\<close>

fun norm_value :: "mvalue \<Rightarrow> mvalue" where
  "norm_value (VFloat x) = VFloat (normalise_zero x)"
| "norm_value (VList vs) = VList (map norm_value vs)"
| "norm_value v = v"

lemma read_array_append [simp]: "length a = n \<Longrightarrow> read_array n (a @ r) = Inr (a, r)"
  by (simp add: read_array_def)

lemma read_array_Inr: "read_array n r = Inr (a, r') \<longleftrightarrow> r = a @ r' \<and> length a = n"
  by (auto simp: read_array_def split: if_splits)

lemma read_u8_Inr: "read_u8 r = Inr (b, r') \<longleftrightarrow> r = b # r'"
  by (cases r) auto

lemma peek_u8_Inr: "peek_u8 r = Inr b \<longleftrightarrow> (\<exists>r'. r = b # r')"
  by (cases r) auto

lemma unflip_flip [simp]: "unflip_sign_i64 (flip_sign_i64 n) = n"
  by (simp add: unflip_sign_i64_def flip_sign_i64_def xor.assoc)

lemma flip_unflip [simp]: "length a = 8 \<Longrightarrow> flip_sign_i64 (unflip_sign_i64 a) = a"
  by (simp add: unflip_sign_i64_def flip_sign_i64_def xor.assoc)

lemma length_flip [simp]: "length (flip_sign_i64 n) = 8"
  by (simp add: flip_sign_i64_def)

lemma read_chunked_write: "read_chunked out (write_chunked [] data @ r) = Inr (out @ data, r)"
proof (induction data arbitrary: out rule: length_induct)
  case (1 data)
  show ?case
  proof (cases "8 \<le> length data")
    case True
    have len: "length (drop 8 data) < length data" "length (take 8 data) = 8" using True by auto
    have "write_chunked [] data @ r = take 8 data @ 0xff # write_chunked [] (drop 8 data) @ r"
      using True by (simp add: write_chunked_long)
    then have "read_chunked out (write_chunked [] data @ r) =
        read_chunked (out @ take 8 data) (write_chunked [] (drop 8 data) @ r)"
      using len by (subst read_chunked.simps) simp
    then show ?thesis using 1 len by simp
  next
    case False
    let ?n = "length data" and ?m = "(0xf7 :: u8) + of_nat (length data)"
    have m: "?m \<noteq> 0xff" "0xf7 \<le> ?m" "?m < 0xff" "unat (?m - 0xf7) = ?n"
      using less_8_cases [of ?n] False by auto
    let ?g = "data @ replicate (8 - ?n) 0"
    have g: "length ?g = 8" "take ?n ?g = data" "drop ?n ?g = replicate (8 - ?n) 0"
      using False by simp_all
    have "write_chunked [] data @ r = ?g @ ?m # r"
      using False by (simp add: write_chunked_short)
    moreover have "read_chunked out (?g @ ?m # r) = Inr (out @ data, r)"
      by (subst read_chunked.simps)
        (simp only: read_array_append [OF g(1)] rbind_simps prod.case read_u8.simps m Let_def g, simp)
    ultimately show ?thesis by simp
  qed
qed

lemma float_key_bits_sign: "bit (float_key_bits x) 63 \<longleftrightarrow> \<not> bit (normalise_zero x) 63"
  by (simp add: float_key_bits_def Let_def and_SIGN_BIT bit_or_iff bit_not_iff bit_SIGN_BIT)

lemma float_bits_decode:
  "(let enc = float_key_bits x in if enc AND SIGN_BIT \<noteq> 0 then enc XOR SIGN_BIT else NOT enc) =
     normalise_zero x"
proof -
  have "bit (if bit (float_key_bits x) 63 then float_key_bits x XOR SIGN_BIT
      else NOT (float_key_bits x)) n = bit (normalise_zero x) n" if "n < 64" for n
    using that float_key_bits_sign [of x]
    by (auto simp: float_key_bits_def Let_def and_SIGN_BIT bit_or_iff bit_not_iff bit_xor_iff
        bit_SIGN_BIT)
  then show ?thesis unfolding Let_def and_SIGN_BIT by (intro bit_eqI) auto
qed

lemma float_bits_encode:
  assumes "bits = (if enc AND SIGN_BIT \<noteq> 0 then enc XOR SIGN_BIT else NOT enc)" "bits \<noteq> SIGN_BIT"
  shows "float_key_bits bits = enc"
proof -
  have n: "normalise_zero bits = bits"
    using assms(2) by (auto simp: normalise_zero_def f64_is_zero_iff)
  have "bit (if bit bits 63 then NOT bits else bits OR SIGN_BIT) n = bit enc n" if "n < 64" for n
    using that assms(1) unfolding and_SIGN_BIT
    by (auto simp: bit_or_iff bit_not_iff bit_xor_iff bit_SIGN_BIT)
  then show ?thesis unfolding float_key_bits_def n Let_def and_SIGN_BIT by (intro bit_eqI) auto
qed

lemma normalise_zero_props:
  "normalise_zero x \<noteq> SIGN_BIT" "f64_is_nan (normalise_zero x) = f64_is_nan x"
  by (auto simp: normalise_zero_def f64_is_zero_iff f64_is_nan_def SIGN_BIT_eq)

text \<open>One element at a time: if every element of a list reads back, so does the list.\<close>

definition reads_back :: "mvalue \<Rightarrow> bool" where
  "reads_back v \<longleftrightarrow> (\<forall>d x r. write_element [] v d = Inr x \<longrightarrow>
     read_element (x @ r) d = Inr (norm_value v, r))"

lemma read_items_write:
  "list_all reads_back vs \<Longrightarrow> write_elements [] vs d = Inr y \<Longrightarrow>
     read_items (y @ 0 # r) d = Inr (map norm_value vs, 0 # r)"
proof (induction vs arbitrary: y)
  case Nil
  then show ?case by (subst read_items.simps) simp
next
  case (Cons v vs)
  then obtain u w where uw: "write_element [] v d = Inr u" "write_elements [] vs d = Inr w" "y = u @ w"
    by (auto simp: write_elements_Cons simp del: write_elements.simps(2))
  obtain u' where u': "u = rank v # u'" using write_element_rank [OF uw(1)] by blast
  have "read_element (u @ w @ 0 # r) d = Inr (norm_value v, w @ 0 # r)"
    using Cons.prems(1) uw(1) by (simp add: reads_back_def)
  then show ?case
    using Cons.IH [OF _ uw(2)] Cons.prems(1) uw(3) u' rank_pos [of v]
    by (subst read_items.simps) auto
qed

lemma wf_reads_back: "wf_value v \<Longrightarrow> reads_back v"
proof (induction v)
  case (VList vs)
  then have items: "list_all reads_back vs" by (auto simp: list_all_iff)
  show ?case unfolding reads_back_def
  proof (intro allI impI)
    fix d x r assume "write_element [] (VList vs) d = Inr x"
    then obtain y where y: "write_elements [] vs (d + 1) = Inr y" "x = 0x0c # y @ [0]"
      and d: "\<not> MAX_DEPTH < d"
      by (auto simp: write_element.simps rbind_Inr_iff write_from_Nil(2) [of "[_]"] split: if_splits)
    then show "read_element (x @ r) d = Inr (norm_value (VList vs), r)"
      using read_items_write [OF items y(1), of r] by (subst read_element.simps) simp
  qed
next
  case (VFloat x)
  show ?case unfolding reads_back_def
    using float_bits_decode [of x] normalise_zero_props [of x]
    by (auto simp: write_element.simps read_element.simps Let_def split: if_splits)
next
  case (VString s)
  then show ?case
    using write_chunked_append [of "[_]" "[]" s] read_chunked_write [of "[]" s]
    by (auto simp: reads_back_def write_element.simps read_element.simps from_utf8_def
        split: if_splits)
next
  case (VBytes s)
  then show ?case
    using write_chunked_append [of "[_]" "[]" s] read_chunked_write [of "[]" s]
    by (auto simp: reads_back_def write_element.simps read_element.simps split: if_splits)
next
  case (VDateTime dt)
  have "dt\<lparr>epoch_nanos := epoch_nanos dt, offset_minutes := offset_minutes dt\<rparr> = dt" by simp
  then show ?case
    by (auto simp: reads_back_def write_element.simps read_element.simps Let_def xor.assoc
        split: if_splits)
qed (auto simp: reads_back_def write_element.simps read_element.simps split: if_splits bool.splits)

lemma decode_elements_write:
  "list_all wf_value vs \<Longrightarrow> write_elements [] vs 0 = Inr x \<Longrightarrow>
     decode_elements x = Inr (map norm_value vs)"
proof (induction vs arbitrary: x)
  case Nil
  then show ?case by (simp add: decode_elements.simps)
next
  case (Cons v vs)
  then obtain u w where uw: "write_element [] v 0 = Inr u" "write_elements [] vs 0 = Inr w" "x = u @ w"
    by (auto simp: write_elements_Cons simp del: write_elements.simps(2))
  have "read_element (u @ w) 0 = Inr (norm_value v, w)"
    using wf_reads_back [of v] Cons.prems(1) uw(1) by (simp add: reads_back_def)
  then show ?case
    using Cons.IH [OF _ uw(2)] Cons.prems(1) uw(3) write_element_rank [OF uw(1)]
    by (subst decode_elements.simps) auto
qed

section \<open>Strictness\<close>

lemma read_chunked_strict:
  "read_chunked out r = Inr (s, r') \<Longrightarrow> \<exists>data. s = out @ data \<and> r = write_chunked [] data @ r'"
proof (induction out r rule: read_chunked.induct)
  case (1 out r)
  from "1.prems" obtain g r1 m r2 where a: "read_array 8 r = Inr (g, r1)"
    and b: "read_u8 r1 = Inr (m, r2)"
    by (subst (asm) read_chunked.simps) (auto simp: rbind_Inr_iff)
  then have r: "r = g @ m # r2" and g: "length g = 8"
    by (auto simp: read_array_Inr read_u8_Inr)
  show ?case
  proof (cases "m = 0xff")
    case True
    with "1.prems" a b have "read_chunked (out @ g) r2 = Inr (s, r')"
      by (subst (asm) read_chunked.simps) simp
    then obtain data where "s = (out @ g) @ data" "r2 = write_chunked [] data @ r'"
      using "1.IH" [OF a _ b _ True] by auto
    moreover have "write_chunked [] (g @ data) = g @ 0xff # write_chunked [] data"
      using g by (simp add: write_chunked_long)
    ultimately show ?thesis using r True by (intro exI [of _ "g @ data"]) simp
  next
    case False
    let ?n = "unat (m - 0xf7)"
    from "1.prems" a b False have m: "0xf7 \<le> m" "m < 0xff" and z: "\<forall>x \<in> set (drop ?n g). x = 0"
      and s: "s = out @ take ?n g" "r' = r2"
      by (subst (asm) read_chunked.simps, force simp: Let_def split: if_splits)+
    have n: "?n < 8" using m by (simp add: unat_sub word_less_nat_alt word_le_nat_alt)
    have "drop ?n g = replicate (8 - ?n) 0"
      using z g by (intro replicate_eqI) auto
    then have "write_chunked [] (take ?n g) = g @ [m]"
      using n g append_take_drop_id [of ?n g] by (simp add: write_chunked_short)
    with r s show ?thesis by (intro exI [of _ "take ?n g"]) simp
  qed
qed

lemma write_element_list:
  "\<not> MAX_DEPTH < d \<Longrightarrow> write_elements [] vs (d + 1) = Inr y \<Longrightarrow>
     write_element [] (VList vs) d = Inr (0x0c # y @ [0])"
  using write_append(2) [of "[0x0c]" "[]" vs "d + 1"] by (simp add: write_element.simps)

lemma read_items_ends: "read_items r d = Inr (vs, r') \<Longrightarrow> \<exists>r''. r' = 0 # r''"
proof (induction r arbitrary: vs rule: length_induct)
  case (1 r)
  from "1.prems" obtain b where b: "peek_u8 r = Inr b"
    by (subst (asm) read_items.simps) (auto simp: rbind_Inr_iff)
  show ?case
  proof (cases "b = 0")
    case True
    with "1.prems" b show ?thesis by (subst (asm) read_items.simps) (auto simp: peek_u8_Inr)
  next
    case False
    with "1.prems" b obtain v r1 ws where "read_element r d = Inr (v, r1)"
      "read_items r1 d = Inr (ws, r')"
      by (subst (asm) read_items.simps) (auto simp: rbind_Inr_iff)
    with "1.IH" read_element_length [of r d v r1] show ?thesis by blast
  qed
qed

lemma read_element_float:
  assumes "read_element (5 # r1) d = Inr (v, r')"
  shows "wf_value v \<and> (\<exists>x. write_element [] v d = Inr x \<and> 5 # r1 = x @ r')"
proof -
  from assms have d: "\<not> MAX_DEPTH < d" by (subst (asm) read_element.simps) (auto split: if_splits)
  with assms obtain a where a: "read_array 8 r1 = Inr (a, r')"
    by (subst (asm) read_element.simps) (auto simp: rbind_Inr_iff Let_def split: if_splits)
  define bits where "bits = (if u64_of_be a AND SIGN_BIT \<noteq> 0 then u64_of_be a XOR SIGN_BIT
    else NOT (u64_of_be a))"
  from assms d a have v: "v = VFloat bits" "\<not> f64_is_nan bits" "bits \<noteq> SIGN_BIT"
    by (subst (asm) read_element.simps,
        simp only: read_u8.simps rbind_simps prod.case Let_def bits_def [symmetric],
        simp split: if_splits)+
  with a d float_bits_encode [OF bits_def] show ?thesis
    by (simp add: write_element.simps read_array_Inr)
qed

lemma read_strict:
  "read_element r d = Inr (v, r') \<Longrightarrow>
     wf_value v \<and> (\<exists>x. write_element [] v d = Inr x \<and> r = x @ r')"
  "read_items r d = Inr (vs, r') \<Longrightarrow>
     list_all wf_value vs \<and> (\<exists>x. write_elements [] vs d = Inr x \<and> r = x @ r')"
proof (induction r d and r d arbitrary: v r' and vs r' rule: read_element_read_items.induct)
  case (1 r d)
  from "1.prems" obtain t r1 where t: "read_u8 r = Inr (t, r1)" and d: "\<not> MAX_DEPTH < d"
    by (subst (asm) read_element.simps) (auto simp: rbind_Inr_iff split: if_splits)
  have r: "r = t # r1" using t by (simp add: read_u8_Inr)
  show ?case
  proof (cases "t = 0x0c")
    case True
    with "1.prems" t d obtain items r2 b r3 where it: "read_items r1 (d + 1) = Inr (items, r2)"
      and b: "read_u8 r2 = Inr (b, r3)" and v: "v = VList items" "r' = r3"
      by (subst (asm) read_element.simps) (auto simp: rbind_Inr_iff)
    from "1.IH" [OF d t refl, of items r2] True it obtain x where
      "list_all wf_value items" "write_elements [] items (d + 1) = Inr x" "r1 = x @ r2" by auto
    with write_element_list [OF d] read_items_ends [OF it] b v True r show ?thesis
      by (auto simp: read_u8_Inr)
  next
    case list: False
    show ?thesis
    proof (cases "t = 5")
      case True
      with "1.prems" r show ?thesis using read_element_float [of r1 d v r'] by simp
    next
      case False
      note st = "1.prems" [unfolded read_element.simps [of r d] t, simplified d if_False
          rbind_simps prod.case]
      show ?thesis
        using st False list d r
        by (auto simp: rbind_Inr_iff Let_def write_element.simps read_array_Inr xor.assoc
            write_chunked_append [of "[_]" "[]", simplified]
            split: if_splits dest!: read_chunked_strict)
    qed
  qed
next
  case (2 r d)
  from "2.prems" obtain b where b: "peek_u8 r = Inr b"
    by (subst (asm) read_items.simps) (auto simp: rbind_Inr_iff)
  show ?case
  proof (cases "b = 0")
    case True
    with "2.prems" b show ?thesis by (subst (asm) read_items.simps) auto
  next
    case False
    with "2.prems" b obtain v r1 ws where e: "read_element r d = Inr (v, r1)"
      and i: "read_items r1 d = Inr (ws, r')" and vs: "vs = v # ws"
      by (subst (asm) read_items.simps) (auto simp: rbind_Inr_iff)
    from "2.IH"(1) [OF b False e] "2.IH"(2) [OF b False e refl i] vs show ?thesis
      by (auto simp: write_elements_Cons simp del: write_elements.simps(2))
  qed
qed

lemma decode_elements_strict:
  "decode_elements r = Inr vs \<Longrightarrow> list_all wf_value vs \<and> write_elements [] vs 0 = Inr r"
proof (induction r arbitrary: vs rule: decode_elements.induct)
  case (1 r)
  show ?case
  proof (cases "r = []")
    case True
    with "1.prems" show ?thesis by (simp add: decode_elements.simps)
  next
    case False
    with "1.prems" obtain v r1 ws where e: "read_element r 0 = Inr (v, r1)"
      and i: "decode_elements r1 = Inr ws" and vs: "vs = v # ws"
      by (subst (asm) decode_elements.simps) (auto simp: rbind_Inr_iff)
    from "1.IH" [OF _ e refl i] False read_strict(1) [OF e] vs show ?thesis
      by (auto simp: write_elements_Cons simp del: write_elements.simps(2))
  qed
qed

lemma norm_value_idem_decode:
  "read_element r d = Inr (v, r') \<Longrightarrow> norm_value v = v"
proof -
  assume r: "read_element r d = Inr (v, r')"
  from read_strict(1) [OF r] obtain x where x: "wf_value v" "write_element [] v d = Inr x" "r = x @ r'"
    by blast
  with wf_reads_back [OF x(1)] r show ?thesis by (simp add: reads_back_def)
qed

section \<open>Properties of the key encoding\<close>

lemma prefix_scan_exact:
  "write_elements [] p 0 = Inr x \<Longrightarrow> write_elements [] t 0 = Inr y \<Longrightarrow>
     (\<exists>z. y = x @ z) \<longleftrightarrow> (\<exists>q r. t = q @ r \<and> key_cmp p q = Equal)"
proof (induction p arbitrary: x t y)
  case Nil
  then show ?case by (auto intro: exI [of _ "[]"])
next
  case (Cons a p)
  from Cons.prems(1) obtain u x' where u: "write_element [] a 0 = Inr u"
    "write_elements [] p 0 = Inr x'" "x = u @ x'"
    by (auto simp: write_elements_Cons simp del: write_elements.simps)
  show ?case
  proof (cases t)
    case Nil
    with Cons.prems(2) u write_element_rank [OF u(1)] show ?thesis by auto
  next
    case (Cons b t')
    with Cons.prems(2) obtain v y' where v: "write_element [] b 0 = Inr v"
      "write_elements [] t' 0 = Inr y'" "y = v @ y'"
      by (auto simp: write_elements_Cons simp del: write_elements.simps)
    have step: "y = x @ z \<longleftrightarrow> value_cmp a b = Equal \<and> y' = x' @ z" for z
    proof -
      have "y = x @ z \<longleftrightarrow> cmp (u @ x' @ z) (v @ y') = Equal" using u(3) v(3) by auto
      then show ?thesis unfolding elem_code(1) [OF u(1) v(1)] by auto
    qed
    have "(\<exists>q r. t = q @ r \<and> key_cmp (a # p) q = Equal) \<longleftrightarrow>
        value_cmp a b = Equal \<and> (\<exists>q r. t' = q @ r \<and> key_cmp p q = Equal)"
    proof
      assume "\<exists>q r. t = q @ r \<and> key_cmp (a # p) q = Equal"
      then obtain q r where q: "t = q @ r" "key_cmp (a # p) q = Equal" by blast
      then obtain q' where "q = b # q'" using Cons by (cases q) auto
      with q Cons show "value_cmp a b = Equal \<and> (\<exists>q r. t' = q @ r \<and> key_cmp p q = Equal)"
        by (auto split: ordering.splits)
    next
      assume "value_cmp a b = Equal \<and> (\<exists>q r. t' = q @ r \<and> key_cmp p q = Equal)"
      then obtain q r where "t' = q @ r" "key_cmp p q = Equal" "value_cmp a b = Equal" by blast
      with Cons show "\<exists>q r. t = q @ r \<and> key_cmp (a # p) q = Equal"
        by (intro exI [of _ "b # q"] exI [of _ r]) simp
    qed
    with Cons.IH [OF u(2) v(2)] step show ?thesis by blast
  qed
qed

text \<open>C1. The defining property of \<^verbatim>\<open>keys.rs\<close>: comparing two encoded keys as byte strings gives
  the same \<^verbatim>\<open>Ordering\<close> as comparing the logical tuples with \<open>key_cmp\<close>.\<close>

theorem encode_key_order:
  assumes "encode_key a = Inr x" and "encode_key b = Inr y"
  shows "cmp x y = key_cmp a b"
  using assms tuple_code by (simp add: encode_key_def encode_key_into_def)

theorem encode_key_order_witness:
  "encode_key [VInt (- 1)] = Inr [4, 0x7f, 255, 255, 255, 255, 255, 255, 255] \<and>
   cmp [4, 0x7f, 255, 255, 255, 255, 255, 255, 255] [4, 0x80, 0, 0, 0, 0, 0, 0, 1 :: u8] =
     key_cmp [VInt (- 1)] [VInt 1]"
proof -
  have a: "encode_key [VInt (- 1)] = Inr [4, 0x7f, 255, 255, 255, 255, 255, 255, 255]"
    by (simp add: eval_simps)
  have b: "encode_key [VInt 1] = Inr [4, 0x80, 0, 0, 0, 0, 0, 0, 1]"
    by (simp add: eval_simps)
  show ?thesis using a encode_key_order [OF a b] by simp
qed

lemma decode_encode_key:
  assumes "list_all wf_value vs" and "encode_key vs = Inr x"
  shows "decode_key x = Inr (map norm_value vs)"
  using assms decode_elements_write
  by (simp add: encode_key_def encode_key_into_def decode_key_def)

lemma decode_key_strict:
  assumes "decode_key x = Inr vs"
  shows "encode_key vs = Inr x \<and> list_all wf_value vs"
  using assms decode_elements_strict
  by (simp add: encode_key_def encode_key_into_def decode_key_def)

text \<open>C2. A key decodes to the tuple it was encoded from, with negative zeros normalised to positive zero (the
  tuples are Rust values, so their strings are valid UTF-8); and the decoder is strict: what it accepts is
  what \<open>encode_key\<close> produces for the tuple it returns, which is well-formed.\<close>

theorem key_codec_roundtrip:
  "(list_all wf_value vs \<and> encode_key vs = Inr x \<longrightarrow> decode_key x = Inr (map norm_value vs)) \<and>
   (decode_key y = Inr ws \<longrightarrow> encode_key ws = Inr y \<and> list_all wf_value ws)"
  using decode_encode_key decode_key_strict by blast

theorem key_codec_roundtrip_witness:
  "decode_key [5, 0x80, 0, 0, 0, 0, 0, 0, 0, 0x0c, 1, 0] = Inr [VFloat 0, VList [VNull]] \<and>
   encode_key [VFloat 0, VList [VNull]] = Inr [5, 0x80, 0, 0, 0, 0, 0, 0, 0, 0x0c, 1, 0]"
proof -
  let ?vs = "[VFloat 0x8000000000000000, VList [VNull]]" and ?x = "[5, 0x80, 0, 0, 0, 0, 0, 0, 0, 0x0c, 1, 0]"
  have "encode_key ?vs = Inr ?x" by (simp add: eval_simps)
  moreover have "normalise_zero 0x8000000000000000 = 0" by (simp add: eval_simps)
  ultimately show ?thesis using key_codec_roundtrip [of ?vs ?x ?x "[VFloat 0, VList [VNull]]"] by simp
qed

text \<open>Prefix scans are exact: the encoding of a tuple is a byte prefix of the encoding of
  another iff the first tuple equals (under the key order) an initial segment of the second.\<close>

lemma key_prefix_scan:
  assumes "encode_key p = Inr x" and "encode_key t = Inr y"
  shows "(\<exists>z. y = x @ z) \<longleftrightarrow> (\<exists>q r. t = q @ r \<and> key_cmp p q = Equal)"
  using assms prefix_scan_exact by (simp add: encode_key_def encode_key_into_def)

end
