(* ===== verification/Graph_Keys.thy ===== *)
theory Graph_Keys
  imports Keys_Roundtrip "HOL-Library.Sublist"
begin

text \<open>
  The map keys of a graph (\<^verbatim>\<open>crates/acetone-model/src/graph_keys.rs\<close>): node, edge and index keys as
  tuples of the key encoding, their validation, the prefixes of the scans and the successor of a prefix.
  A layout is an instance of the locale \<open>key_layout\<close>; the round trip, the strictness and the exactness
  of prefixes are proved there once.
\<close>

section \<open>Errors and scalars\<close>

datatype graph_key_error =
    EmptyName string
  | EmptyKeyTuple
  | NullKeyValue
  | NonScalar string
  | NanKeyValue string
  | GEncode key_encode_error
  | GDecode key_decode_error
  | GShape string

definition check_scalar :: "mvalue \<Rightarrow> string \<Rightarrow> graph_key_error + unit" where
  "check_scalar v context = (case v of
       VList _ \<Rightarrow> Inl (NonScalar context)
     | VFloat x \<Rightarrow> if f64_is_nan x then Inl (NanKeyValue context) else Inr ()
     | _ \<Rightarrow> Inr ())"

text \<open>\<^verbatim>\<open>expect\<close> on a \<^verbatim>\<open>Result\<close>: \<open>None\<close> is the panic.\<close>

definition expect :: "'e + 'a \<Rightarrow> 'a option" where
  "expect m = (case m of Inl _ \<Rightarrow> None | Inr x \<Rightarrow> Some x)"

section \<open>Node keys\<close>

record node_key =
  nk_label :: bytes
  nk_key :: "mvalue list"

fun check_key_values :: "mvalue list \<Rightarrow> graph_key_error + unit" where
  "check_key_values [] = Inr ()"
| "check_key_values (v # vs) =
     (if v = VNull then Inl NullKeyValue
      else rbind (check_scalar v ''node key tuple'') (\<lambda>_. check_key_values vs))"

definition node_key_new :: "bytes \<Rightarrow> mvalue list \<Rightarrow> graph_key_error + node_key" where
  "node_key_new label key =
     (if label = [] then Inl (EmptyName ''primary label'')
      else if key = [] then Inl EmptyKeyTuple
      else rbind (check_key_values key) (\<lambda>_. Inr \<lparr>nk_label = label, nk_key = key\<rparr>))"

definition node_key_to_value :: "node_key \<Rightarrow> mvalue" where
  "node_key_to_value k = VList (VString (nk_label k) # nk_key k)"

definition node_key_from_value :: "mvalue \<Rightarrow> graph_key_error + node_key" where
  "node_key_from_value v = (case v of
       VList (VString label # key) \<Rightarrow> node_key_new label key
     | VList _ \<Rightarrow> Inl (GShape ''node key list must start with a string label'')
     | _ \<Rightarrow> Inl (GShape ''node key must be a list element''))"

definition node_key_encode :: "node_key \<Rightarrow> graph_key_error + bytes" where
  "node_key_encode k = map_err GEncode (encode_key [node_key_to_value k])"

definition node_key_of_tuple :: "mvalue list \<Rightarrow> graph_key_error + node_key" where
  "node_key_of_tuple tuple = (case tuple of
       [elem] \<Rightarrow> node_key_from_value elem
     | _ \<Rightarrow> Inl (GShape ''nodes-map key must be a single list element''))"

definition node_key_decode :: "bytes \<Rightarrow> graph_key_error + node_key" where
  "node_key_decode bs = rbind (map_err GDecode (decode_key bs)) node_key_of_tuple"

definition node_label_prefix :: "bytes \<Rightarrow> bytes option" where
  "node_label_prefix label = expect (encode_list_prefix [VString label])"

section \<open>Edge keys\<close>

record edge_key =
  ek_src :: node_key
  ek_rtype :: bytes
  ek_dst :: node_key
  ek_disc :: mvalue

definition edge_key_new :: "node_key \<Rightarrow> bytes \<Rightarrow> node_key \<Rightarrow> mvalue \<Rightarrow> graph_key_error + edge_key" where
  "edge_key_new src rtype dst disc =
     (if rtype = [] then Inl (EmptyName ''relationship type'')
      else rbind (check_scalar disc ''discriminator'') (\<lambda>_.
        Inr \<lparr>ek_src = src, ek_rtype = rtype, ek_dst = dst, ek_disc = disc\<rparr>))"

definition edge_tuple :: "edge_key \<Rightarrow> node_key \<Rightarrow> node_key \<Rightarrow> mvalue list" where
  "edge_tuple e first second =
     [node_key_to_value first, VString (ek_rtype e), node_key_to_value second, ek_disc e]"

definition encode_tuple :: "edge_key \<Rightarrow> node_key \<Rightarrow> node_key \<Rightarrow> graph_key_error + bytes" where
  "encode_tuple e first second = map_err GEncode (encode_key (edge_tuple e first second))"

definition encode_fwd :: "edge_key \<Rightarrow> graph_key_error + bytes" where
  "encode_fwd e = encode_tuple e (ek_src e) (ek_dst e)"

definition encode_rev :: "edge_key \<Rightarrow> graph_key_error + bytes" where
  "encode_rev e = encode_tuple e (ek_dst e) (ek_src e)"

definition tuple_parts :: "mvalue list \<Rightarrow> graph_key_error + node_key \<times> bytes \<times> node_key \<times> mvalue" where
  "tuple_parts tuple = (case tuple of
       [first, rtype, second, disc] \<Rightarrow> (case rtype of
           VString rtype \<Rightarrow>
             rbind (node_key_from_value first) (\<lambda>a.
             rbind (node_key_from_value second) (\<lambda>b. Inr (a, rtype, b, disc)))
         | _ \<Rightarrow> Inl (GShape ''edge key second element must be a string type''))
     | _ \<Rightarrow> Inl (GShape ''edge key must have exactly four elements''))"

definition decode_tuple :: "bytes \<Rightarrow> graph_key_error + node_key \<times> bytes \<times> node_key \<times> mvalue" where
  "decode_tuple bs = rbind (map_err GDecode (decode_key bs)) tuple_parts"

definition decode_fwd :: "bytes \<Rightarrow> graph_key_error + edge_key" where
  "decode_fwd bs = rbind (decode_tuple bs) (\<lambda>(src, rtype, dst, disc). edge_key_new src rtype dst disc)"

definition decode_rev :: "bytes \<Rightarrow> graph_key_error + edge_key" where
  "decode_rev bs = rbind (decode_tuple bs) (\<lambda>(dst, rtype, src, disc). edge_key_new src rtype dst disc)"

definition edge_endpoint_prefix :: "node_key \<Rightarrow> graph_key_error + bytes" where
  "edge_endpoint_prefix node = node_key_encode node"

definition edge_endpoint_type_prefix :: "node_key \<Rightarrow> bytes \<Rightarrow> graph_key_error + bytes" where
  "edge_endpoint_type_prefix node rtype =
     map_err GEncode (encode_key [node_key_to_value node, VString rtype])"

section \<open>Index entries\<close>

record index_entry =
  ie_label :: bytes
  ie_properties :: "bytes list"
  ie_values :: "mvalue list"
  ie_node :: node_key

definition index_entry_new ::
  "bytes \<Rightarrow> bytes list \<Rightarrow> mvalue list \<Rightarrow> node_key \<Rightarrow> graph_key_error + index_entry" where
  "index_entry_new label properties vals node =
     (if label = [] then Inl (EmptyName ''index label'')
      else if properties = [] then Inl (EmptyName ''index property'')
      else if \<exists>p \<in> set properties. p = [] then Inl (EmptyName ''index property'')
      else if length properties \<noteq> length vals
      then Inl (GShape ''index entry property and value counts differ'')
      else Inr \<lparr>ie_label = label, ie_properties = properties, ie_values = vals, ie_node = node\<rparr>)"

definition index_tuple :: "index_entry \<Rightarrow> mvalue list" where
  "index_tuple e = [VString (ie_label e), VList (map VString (ie_properties e)), VList (ie_values e),
     node_key_to_value (ie_node e)]"

definition index_entry_encode :: "index_entry \<Rightarrow> graph_key_error + bytes" where
  "index_entry_encode e = map_err GEncode (encode_key (index_tuple e))"

fun property_names :: "mvalue list \<Rightarrow> graph_key_error + bytes list" where
  "property_names [] = Inr []"
| "property_names (p # ps) = rbind (case p of VString s \<Rightarrow> Inr s
       | _ \<Rightarrow> Inl (GShape ''index property names must be strings''))
     (\<lambda>s. rbind (property_names ps) (\<lambda>ss. Inr (s # ss)))"

definition index_of_tuple :: "mvalue list \<Rightarrow> graph_key_error + index_entry" where
  "index_of_tuple tuple = (case tuple of
       [label, properties, vals, node] \<Rightarrow> (case (label, properties, vals) of
           (VString label, VList properties, VList vals) \<Rightarrow>
             rbind (property_names properties) (\<lambda>properties.
             rbind (node_key_from_value node) (\<lambda>node. index_entry_new label properties vals node))
         | _ \<Rightarrow> Inl (GShape ''index key must be [label, [properties], [values], node]''))
     | _ \<Rightarrow> Inl (GShape ''index key must have exactly four elements''))"

definition index_entry_decode :: "bytes \<Rightarrow> graph_key_error + index_entry" where
  "index_entry_decode bs = rbind (map_err GDecode (decode_key bs)) index_of_tuple"

definition index_prefix :: "bytes \<Rightarrow> bytes list \<Rightarrow> bytes option" where
  "index_prefix label properties =
     expect (encode_key [VString label, VList (map VString properties)])"

definition index_value_prefix :: "bytes \<Rightarrow> bytes list \<Rightarrow> mvalue list \<Rightarrow> graph_key_error + bytes" where
  "index_value_prefix label properties vals =
     map_err GEncode (encode_key [VString label, VList (map VString properties), VList vals])"

section \<open>The successor of a prefix\<close>

function prefix_successor :: "bytes \<Rightarrow> bytes option" where
  "prefix_successor succ =
     (if succ = [] then None
      else if last succ = 0xff then prefix_successor (butlast succ)
      else Some (butlast succ @ [last succ + 1]))"
  by pat_completeness auto
termination
  by (relation "measure length") auto

declare prefix_successor.simps [simp del]

text \<open>Between a prefix and its successor lie exactly the byte strings with that prefix.\<close>

lemma max_byte: "0xff \<le> (c :: u8) \<longleftrightarrow> c = 0xff" "c \<noteq> 0xff \<longleftrightarrow> c < (0xff :: u8)"
  using unat_bounds(1) [of c] unfolding word_le_nat_alt word_less_nat_alt word_unat_eq_iff by simp_all linarith+

lemma prefix_less_iff:
  fixes k :: bytes
  assumes "b < 0xff"
  shows "p @ [b] \<le> k \<and> k < p @ [b + 1] \<longleftrightarrow> prefix (p @ [b]) k"
proof (induction p arbitrary: k)
  case Nil
  have b: "c < b + 1 \<longleftrightarrow> c \<le> b" for c
    using assms unfolding word_less_nat_alt word_le_nat_alt by (simp add: unat_word_ariths(1)) linarith
  show ?case
  proof (cases k)
    case (Cons c r)
    have "[b] \<le> c # r \<longleftrightarrow> b \<le> c" by (cases r) (auto simp: order.order_iff_strict)
    moreover have "c # r < [b + 1] \<longleftrightarrow> c \<le> b" by (simp add: b)
    ultimately show ?thesis using Cons by auto
  qed simp
next
  case (Cons a p)
  show ?case
  proof (cases k)
    case Nil
    then show ?thesis by simp
  next
    case (Cons c r)
    have "(a # p) @ [b] \<le> c # r \<and> c # r < (a # p) @ [b + 1] \<longleftrightarrow> a = c \<and> p @ [b] \<le> r \<and> r < p @ [b + 1]"
      by auto
    then show ?thesis using Cons Cons.IH [of r] by simp
  qed
qed

lemma prefix_successor_range:
  "(case prefix_successor p of None \<Rightarrow> True | Some q \<Rightarrow> k < q) \<and> p \<le> k \<longleftrightarrow> prefix p k"
proof (induction p rule: prefix_successor.induct)
  case (1 p)
  consider (nil) "p = []" | (ff) q where "p = q @ [0xff]" | (inc) q b where "p = q @ [b]" "b < 0xff"
    using max_byte(2) by (cases p rule: rev_cases) auto
  then show ?case
  proof cases
    case nil
    then show ?thesis by (simp add: prefix_successor.simps)
  next
    case ff
    have "q @ [0xff] \<le> k \<and> prefix q k \<longleftrightarrow> prefix (q @ [0xff]) k"
    proof (induction q arbitrary: k)
      case Nil
      have "[0xff] \<le> c # r \<longleftrightarrow> c = 0xff" for c :: u8 and r
        using max_byte(1) [of c] by (cases r) (auto simp: order.order_iff_strict)
      then show ?case by (cases k) auto
    next
      case (Cons a q)
      then show ?case by (cases k) auto
    qed
    moreover have "q \<le> k" if "q @ [0xff] \<le> k"
    proof -
      have "q \<le> q @ [0xff]" by (induction q) auto
      then show ?thesis using that by (rule order.trans)
    qed
    ultimately show ?thesis using 1 ff by (auto simp: prefix_successor.simps [of "q @ [0xff]"])
  next
    case inc
    then show ?thesis using prefix_less_iff [of b q k] by (auto simp: prefix_successor.simps [of "q @ [b]"])
  qed
qed

section \<open>Key layouts\<close>

text \<open>Two values with the same normal form (\<^verbatim>\<open>-0.0\<close> equals \<^verbatim>\<open>0.0\<close>) are one key element.\<close>

lemma element_prefix:
  assumes "wf_value v" "wf_value w" "write_element [] v d = Inr x" "write_element [] w d = Inr y"
  shows "(\<exists>r r'. x @ r = y @ r') \<longleftrightarrow> norm_value v = norm_value w" "x @ r = y @ r' \<Longrightarrow> x = y \<and> r = r'"
proof -
  have r: "read_element (x @ r) d = Inr (norm_value v, r)" "read_element (y @ r) d = Inr (norm_value w, r)" for r
    using wf_reads_back [OF assms(1)] wf_reads_back [OF assms(2)] assms(3,4) by (auto simp: reads_back_def)
  have n: "write_element [] (norm_value v) d = Inr x" "write_element [] (norm_value w) d = Inr y"
    using read_strict(1) [OF r(1) [of "[]"]] read_strict(1) [OF r(2) [of "[]"]] by auto
  have imp: "norm_value v = norm_value w \<and> r = r'" if "x @ r = y @ r'" for r r'
    using r(1) [of r] r(2) [of r'] that by simp
  then show "(\<exists>r r'. x @ r = y @ r') \<longleftrightarrow> norm_value v = norm_value w" using n by fastforce
  show "x = y \<and> r = r'" if "x @ r = y @ r'" using imp [OF that] n by simp
qed

lemma tuple_prefix:
  "list_all wf_value p \<Longrightarrow> list_all wf_value t \<Longrightarrow> write_elements [] p 0 = Inr x \<Longrightarrow> write_elements [] t 0 = Inr y \<Longrightarrow>
     prefix x y \<longleftrightarrow> prefix (map norm_value p) (map norm_value t)"
proof (induction p arbitrary: t x y)
  case (Cons v p)
  from Cons.prems(3) obtain xv xp where x: "write_element [] v 0 = Inr xv" "write_elements [] p 0 = Inr xp" "x = xv @ xp"
    by (auto simp: write_elements_Cons simp del: write_elements.simps)
  show ?case
  proof (cases t)
    case Nil
    then show ?thesis using Cons.prems(4) x write_element_rank [OF x(1)] by auto
  next
    case (Cons w t')
    from \<open>write_elements [] t 0 = Inr y\<close> Cons obtain yw yt where y: "write_element [] w 0 = Inr yw"
      "write_elements [] t' 0 = Inr yt" "y = yw @ yt"
      by (auto simp: write_elements_Cons simp del: write_elements.simps)
    have wf: "wf_value v" "wf_value w" using Cons.prems Cons by simp_all
    note e = element_prefix [OF wf x(1) y(1)]
    have ih: "prefix xp yt \<longleftrightarrow> prefix (map norm_value p) (map norm_value t')"
      using Cons.IH [OF _ _ x(2) y(2)] Cons.prems Cons by simp
    show ?thesis
    proof (cases "norm_value v = norm_value w")
      case True
      then obtain r r' where "xv @ r = yw @ r'" using e(1) by blast
      then have "xv = yw" using e(2) by blast
      then show ?thesis using ih True x(3) y(3) Cons by simp
    next
      case False
      have "\<not> prefix x y"
      proof
        assume "prefix x y"
        then obtain z where "xv @ xp @ z = yw @ yt" using x(3) y(3) by (auto simp: prefix_def)
        then show False using e(1) False by blast
      qed
      then show ?thesis using False Cons by simp
    qed
  qed
qed simp

locale key_layout =
  fixes to_tuple :: "'k \<Rightarrow> mvalue list"
    and of_tuple :: "mvalue list \<Rightarrow> graph_key_error + 'k"
    and norm :: "'k \<Rightarrow> 'k"
    and ok :: "'k \<Rightarrow> bool"
  assumes tuple_wf: "ok k \<Longrightarrow> list_all wf_value (to_tuple k)"
    and of_to: "ok k \<Longrightarrow> of_tuple (map norm_value (to_tuple k)) = Inr (norm k)"
    and to_of: "of_tuple t = Inr k \<Longrightarrow> list_all wf_value t \<Longrightarrow> to_tuple k = t \<and> ok k"
begin

lemma roundtrip:
  "ok k \<Longrightarrow> encode_key (to_tuple k) = Inr x \<Longrightarrow> rbind (map_err GDecode (decode_key x)) of_tuple = Inr (norm k)"
  using decode_elements_write [OF tuple_wf] of_to [of k]
  by (simp add: encode_key_def encode_key_into_def decode_key_def)

lemma strict:
  "rbind (map_err GDecode (decode_key x)) of_tuple = Inr k \<Longrightarrow> encode_key (to_tuple k) = Inr x \<and> ok k"
  using to_of by (auto simp: rbind_Inr_iff map_err_Inr_iff decode_key_def encode_key_def encode_key_into_def
    dest!: decode_elements_strict)

lemma prefixed:
  "ok k \<Longrightarrow> list_all wf_value p \<Longrightarrow> encode_key p = Inr x \<Longrightarrow> encode_key (to_tuple k) = Inr y \<Longrightarrow>
     prefix x y \<longleftrightarrow> prefix (map norm_value p) (map norm_value (to_tuple k))"
  using tuple_prefix [OF _ tuple_wf] by (simp add: encode_key_def encode_key_into_def)

end

text \<open>The invariant of each key type (what the constructors check, on Rust strings) and the equality
  derived from \<^verbatim>\<open>f64\<close>'s, as equality of normal forms.\<close>

definition scalar :: "mvalue \<Rightarrow> bool" where
  "scalar v \<longleftrightarrow> check_scalar v [] = Inr ()"

definition node_key_ok :: "node_key \<Rightarrow> bool" where
  "node_key_ok k \<longleftrightarrow> nk_label k \<noteq> [] \<and> utf8_valid (nk_label k) \<and> nk_key k \<noteq> [] \<and>
     (\<forall>v \<in> set (nk_key k). v \<noteq> VNull \<and> scalar v \<and> wf_value v)"

definition norm_node :: "node_key \<Rightarrow> node_key" where
  "norm_node k = k\<lparr>nk_key := map norm_value (nk_key k)\<rparr>"

definition edge_key_ok :: "edge_key \<Rightarrow> bool" where
  "edge_key_ok e \<longleftrightarrow> node_key_ok (ek_src e) \<and> node_key_ok (ek_dst e) \<and> ek_rtype e \<noteq> [] \<and> utf8_valid (ek_rtype e) \<and>
     scalar (ek_disc e) \<and> wf_value (ek_disc e)"

definition norm_edge :: "edge_key \<Rightarrow> edge_key" where
  "norm_edge e = \<lparr>ek_src = norm_node (ek_src e), ek_rtype = ek_rtype e, ek_dst = norm_node (ek_dst e),
     ek_disc = norm_value (ek_disc e)\<rparr>"

definition index_entry_ok :: "index_entry \<Rightarrow> bool" where
  "index_entry_ok e \<longleftrightarrow> ie_label e \<noteq> [] \<and> utf8_valid (ie_label e) \<and> ie_properties e \<noteq> [] \<and>
     (\<forall>p \<in> set (ie_properties e). p \<noteq> [] \<and> utf8_valid p) \<and> length (ie_properties e) = length (ie_values e) \<and>
     list_all wf_value (ie_values e) \<and> node_key_ok (ie_node e)"

definition norm_index :: "index_entry \<Rightarrow> index_entry" where
  "norm_index e = e\<lparr>ie_values := map norm_value (ie_values e), ie_node := norm_node (ie_node e)\<rparr>"

lemma check_scalar_Inr [simp]: "check_scalar v c = Inr () \<longleftrightarrow> scalar v"
  by (cases v) (auto simp: check_scalar_def scalar_def)

lemma norm_value_eq [simp]:
  "norm_value v = VNull \<longleftrightarrow> v = VNull" "scalar (norm_value v) \<longleftrightarrow> scalar v" "wf_value (norm_value v) \<longleftrightarrow> wf_value v"
proof -
  show "wf_value (norm_value v) \<longleftrightarrow> wf_value v" by (induction v) (auto simp: list_all_iff)
qed (cases v; simp add: scalar_def check_scalar_def normalise_zero_props)+

lemma check_key_values_Inr: "check_key_values vs = Inr u \<longleftrightarrow> (\<forall>v \<in> set vs. v \<noteq> VNull \<and> scalar v)"
  by (induction vs) (auto simp: rbind_Inr_iff)

lemma node_key_new_Inr:
  "node_key_new l ks = Inr k \<longleftrightarrow> l \<noteq> [] \<and> ks \<noteq> [] \<and> (\<forall>v \<in> set ks. v \<noteq> VNull \<and> scalar v) \<and>
     k = \<lparr>nk_label = l, nk_key = ks\<rparr>"
  by (auto simp: node_key_new_def rbind_Inr_iff check_key_values_Inr)

lemma node_key_wf: "node_key_ok k \<Longrightarrow> wf_value (node_key_to_value k)"
  by (auto simp: node_key_ok_def node_key_to_value_def list_all_iff)

lemma node_key_of_to: "node_key_ok k \<Longrightarrow> node_key_from_value (norm_value (node_key_to_value k)) = Inr (norm_node k)"
  by (auto simp: node_key_ok_def node_key_to_value_def node_key_from_value_def node_key_new_Inr norm_node_def)

lemma node_key_to_of:
  "node_key_from_value v = Inr k \<Longrightarrow> wf_value v \<Longrightarrow> node_key_to_value k = v \<and> node_key_ok k"
  by (auto simp: node_key_from_value_def node_key_new_Inr node_key_to_value_def node_key_ok_def list_all_iff
      split: mvalue.splits list.splits)

lemma property_names_Inr: "property_names ps = Inr ss \<longleftrightarrow> ps = map VString ss"
  by (induction ps arbitrary: ss) (auto simp: rbind_Inr_iff split: mvalue.splits)

interpretation node_layout: key_layout "\<lambda>k. [node_key_to_value k]" node_key_of_tuple norm_node node_key_ok
  by unfold_locales
    (auto simp: node_key_of_tuple_def node_key_wf node_key_of_to dest: node_key_to_of split: list.splits)

definition edge_of :: "bool \<Rightarrow> mvalue list \<Rightarrow> graph_key_error + edge_key" where
  "edge_of fwd t = rbind (tuple_parts t) (\<lambda>(a, rtype, b, disc).
     if fwd then edge_key_new a rtype b disc else edge_key_new b rtype a disc)"

lemma tuple_parts_Inr:
  "tuple_parts t = Inr (a, r, b, d) \<longleftrightarrow> (\<exists>x y. t = [x, VString r, y, d] \<and> node_key_from_value x = Inr a \<and>
     node_key_from_value y = Inr b)"
  by (auto simp: tuple_parts_def rbind_Inr_iff split: list.splits mvalue.splits)

lemma edge_key_new_Inr:
  "edge_key_new a r b d = Inr e \<longleftrightarrow> r \<noteq> [] \<and> scalar d \<and>
     e = \<lparr>ek_src = a, ek_rtype = r, ek_dst = b, ek_disc = d\<rparr>"
  by (auto simp: edge_key_new_def rbind_Inr_iff)

lemma edge_of_Inr:
  "edge_of fwd t = Inr e \<longleftrightarrow> (\<exists>x y a r b d. t = [x, VString r, y, d] \<and> node_key_from_value x = Inr a \<and>
     node_key_from_value y = Inr b \<and> (if fwd then edge_key_new a r b d else edge_key_new b r a d) = Inr e)"
  by (cases fwd) (auto simp: edge_of_def rbind_Inr_iff tuple_parts_Inr)

interpretation fwd_layout: key_layout "\<lambda>e. edge_tuple e (ek_src e) (ek_dst e)" "edge_of True" norm_edge edge_key_ok
proof (unfold_locales, goal_cases)
  case (2 e)
  then show ?case
    by (auto simp: edge_tuple_def edge_key_ok_def edge_of_Inr node_key_of_to edge_key_new_Inr norm_edge_def)
qed (auto simp: edge_of_Inr edge_tuple_def edge_key_ok_def node_key_wf edge_key_new_Inr dest!: node_key_to_of)

interpretation rev_layout: key_layout "\<lambda>e. edge_tuple e (ek_dst e) (ek_src e)" "edge_of False" norm_edge edge_key_ok
proof (unfold_locales, goal_cases)
  case (2 e)
  then show ?case
    by (auto simp: edge_tuple_def edge_key_ok_def edge_of_Inr node_key_of_to edge_key_new_Inr norm_edge_def)
qed (auto simp: edge_of_Inr edge_tuple_def edge_key_ok_def node_key_wf edge_key_new_Inr dest!: node_key_to_of)

lemma index_entry_new_Inr:
  "index_entry_new l ps vs n = Inr e \<longleftrightarrow> l \<noteq> [] \<and> ps \<noteq> [] \<and> [] \<notin> set ps \<and> length ps = length vs \<and>
     e = \<lparr>ie_label = l, ie_properties = ps, ie_values = vs, ie_node = n\<rparr>"
  by (auto simp: index_entry_new_def)

lemma index_of_tuple_Inr:
  "index_of_tuple t = Inr e \<longleftrightarrow> (\<exists>l ps vs x n. t = [VString l, VList (map VString ps), VList vs, x] \<and>
     node_key_from_value x = Inr n \<and> index_entry_new l ps vs n = Inr e)"
  by (auto simp: index_of_tuple_def rbind_Inr_iff property_names_Inr split: list.splits mvalue.splits)

interpretation index_layout: key_layout index_tuple index_of_tuple norm_index index_entry_ok
proof (unfold_locales, goal_cases)
  case (1 e)
  then show ?case by (auto simp: index_tuple_def index_entry_ok_def node_key_wf list_all_iff)
next
  case (2 e)
  then have "index_entry_new (ie_label e) (ie_properties e) (map norm_value (ie_values e)) (norm_node (ie_node e)) =
      Inr (norm_index e)"
    by (auto simp: index_entry_ok_def index_entry_new_Inr norm_index_def)
  moreover have "map norm_value (map VString ps) = map VString ps" for ps by simp
  ultimately show ?case using 2 node_key_of_to [of "ie_node e"]
    unfolding index_of_tuple_Inr index_entry_ok_def by (auto simp: index_tuple_def comp_def)
next
  case (3 t e)
  then show ?case
    by (auto simp: index_of_tuple_Inr index_entry_new_Inr index_tuple_def index_entry_ok_def list_all_iff
      dest!: node_key_to_of)
qed

lemma decode_edge_of:
  "decode_fwd x = rbind (map_err GDecode (decode_key x)) (edge_of True)"
  "decode_rev x = rbind (map_err GDecode (decode_key x)) (edge_of False)"
  by (simp_all add: decode_fwd_def decode_rev_def decode_tuple_def edge_of_def [abs_def] rbind_assoc)

lemma norm_to_value: "norm_value (node_key_to_value k) = node_key_to_value (norm_node k)"
  by (simp add: node_key_to_value_def norm_node_def)

lemma to_value_inject: "node_key_to_value a = node_key_to_value b \<longleftrightarrow> a = b"
  by (cases a, cases b) (auto simp: node_key_to_value_def)

lemma string_tuples_encode: "d \<le> MAX_DEPTH \<Longrightarrow> \<exists>x. write_elements out (map VString ss) d = Inr x"
  by (induction ss arbitrary: out) (auto simp: write_element.simps)

text \<open>Which keys a prefix selects.\<close>

lemma label_prefix:
  assumes "node_key_ok n" "node_key_encode n = Inr x" "node_label_prefix l = Some p"
  shows "prefix p x \<longleftrightarrow> l = nk_label n"
proof -
  have p: "p = 0x0c # 0x06 # write_chunked [] l"
    using assms(3) write_chunked_append [of "[0x0c, 0x06]" "[]" l]
    by (auto simp: node_label_prefix_def expect_def encode_list_prefix_def write_element.simps MAX_DEPTH_def)
  have "write_element [] (node_key_to_value n) 0 = Inr x"
    using assms(2) by (auto simp: node_key_encode_def encode_key_def encode_key_into_def map_err_Inr_iff rbind_Inr_iff)
  then obtain y where y: "write_elements [] (VString (nk_label n) # nk_key n) (0 + 1) = Inr y" "x = 0x0c # y @ [0]"
    using write_append(2) [of "[0x0c]" "[]" "VString (nk_label n) # nk_key n" "0 + 1"]
    by (auto simp: node_key_to_value_def write_element.simps [of "[]"] rbind_Inr_iff
      simp del: write_elements.simps(2) split: if_splits)
  obtain u z where u: "write_element [] (VString (nk_label n)) (0 + 1) = Inr u" "y = u @ z"
    using y(1) unfolding write_elements_Cons by blast
  then have z: "y = 0x06 # write_chunked [] (nk_label n) @ z"
    using write_chunked_append [of "[0x06]" "[]" "nk_label n"] by (auto simp: write_element.simps split: if_splits)
  have "l = nk_label n" if "write_chunked [] l @ r = write_chunked [] (nk_label n) @ r'" for r r'
    using read_chunked_write [of "[]" l r] read_chunked_write [of "[]" "nk_label n" r'] unfolding that by simp
  from this [OF sym] show ?thesis using p y(2) z by (auto simp: prefix_def)
qed

lemma edge_prefix:
  assumes "edge_key_ok e" "node_key_ok n"
  shows "encode_fwd e = Inr y \<Longrightarrow> edge_endpoint_prefix n = Inr x \<Longrightarrow> prefix x y \<longleftrightarrow> norm_node (ek_src e) = norm_node n"
    and "encode_rev e = Inr y \<Longrightarrow> edge_endpoint_prefix n = Inr x \<Longrightarrow> prefix x y \<longleftrightarrow> norm_node (ek_dst e) = norm_node n"
  using fwd_layout.prefixed [OF assms(1), of "[node_key_to_value n]" x y]
    rev_layout.prefixed [OF assms(1), of "[node_key_to_value n]" x y] node_key_wf [OF assms(2)]
  by (auto simp: encode_fwd_def encode_rev_def encode_tuple_def edge_endpoint_prefix_def node_key_encode_def
    map_err_Inr_iff edge_tuple_def norm_to_value to_value_inject)

lemma edge_type_prefix:
  assumes "edge_key_ok e" "node_key_ok n" "utf8_valid r"
  shows "encode_fwd e = Inr y \<Longrightarrow> edge_endpoint_type_prefix n r = Inr x \<Longrightarrow>
      prefix x y \<longleftrightarrow> norm_node (ek_src e) = norm_node n \<and> ek_rtype e = r"
    and "encode_rev e = Inr y \<Longrightarrow> edge_endpoint_type_prefix n r = Inr x \<Longrightarrow>
      prefix x y \<longleftrightarrow> norm_node (ek_dst e) = norm_node n \<and> ek_rtype e = r"
  using fwd_layout.prefixed [OF assms(1), of "[node_key_to_value n, VString r]" x y]
    rev_layout.prefixed [OF assms(1), of "[node_key_to_value n, VString r]" x y] node_key_wf [OF assms(2)] assms(3)
  by (auto simp: encode_fwd_def encode_rev_def encode_tuple_def edge_endpoint_type_prefix_def
    map_err_Inr_iff edge_tuple_def norm_to_value to_value_inject)

lemma map_norm_strings [simp]: "map norm_value (map VString ps) = map VString ps"
  by simp

lemma map_VString_eq [simp]: "map VString ps = map VString qs \<longleftrightarrow> ps = qs"
  by (simp add: inj_map_eq_map inj_def)

lemma index_prefixes:
  assumes "index_entry_ok i" "utf8_valid l" "list_all utf8_valid ps" "index_entry_encode i = Inr y"
  shows "index_prefix l ps = Some x \<Longrightarrow> prefix x y \<longleftrightarrow> ie_label i = l \<and> ie_properties i = ps"
    and "list_all wf_value vs \<Longrightarrow> index_value_prefix l ps vs = Inr x \<Longrightarrow> prefix x y \<longleftrightarrow>
      ie_label i = l \<and> ie_properties i = ps \<and> map norm_value (ie_values i) = map norm_value vs"
proof -
  have w: "list_all wf_value [VString l, VList (map VString ps)]" using assms(2,3) by (simp add: list_all_iff)
  have e: "encode_key (index_tuple i) = Inr y" using assms(4) by (simp add: index_entry_encode_def map_err_Inr_iff)
  show "prefix x y \<longleftrightarrow> ie_label i = l \<and> ie_properties i = ps" if "index_prefix l ps = Some x"
    using index_layout.prefixed [OF assms(1) w _ e, of x] that
    by (auto simp: index_prefix_def expect_def index_tuple_def split: sum.splits simp del: map_map)
  show "prefix x y \<longleftrightarrow> ie_label i = l \<and> ie_properties i = ps \<and> map norm_value (ie_values i) = map norm_value vs"
    if "list_all wf_value vs" "index_value_prefix l ps vs = Inr x"
    using index_layout.prefixed [OF assms(1) _ _ e, of "[VString l, VList (map VString ps), VList vs]" x] that w
    by (auto simp: index_value_prefix_def map_err_Inr_iff index_tuple_def simp del: map_map)
qed

section \<open>Properties\<close>

text \<open>C27. Node, edge and index keys decode from their encodings up to the sign of zero, and a decoder
  accepts nothing but an encoding of a valid key, so each key has one encoding in each map.\<close>

theorem graph_key_roundtrip:
  "(node_key_ok k \<longrightarrow> node_key_encode k = Inr x \<longrightarrow> node_key_decode x = Inr (norm_node k)) \<and>
   (node_key_decode x = Inr k \<longrightarrow> node_key_encode k = Inr x \<and> node_key_ok k) \<and>
   (edge_key_ok e \<longrightarrow> encode_fwd e = Inr x \<longrightarrow> decode_fwd x = Inr (norm_edge e)) \<and>
   (edge_key_ok e \<longrightarrow> encode_rev e = Inr x \<longrightarrow> decode_rev x = Inr (norm_edge e)) \<and>
   (decode_fwd x = Inr e \<longrightarrow> encode_fwd e = Inr x \<and> edge_key_ok e) \<and>
   (decode_rev x = Inr e \<longrightarrow> encode_rev e = Inr x \<and> edge_key_ok e) \<and>
   (index_entry_ok i \<longrightarrow> index_entry_encode i = Inr x \<longrightarrow> index_entry_decode x = Inr (norm_index i)) \<and>
   (index_entry_decode x = Inr i \<longrightarrow> index_entry_encode i = Inr x \<and> index_entry_ok i)"
  unfolding node_key_encode_def node_key_decode_def encode_fwd_def encode_rev_def encode_tuple_def decode_edge_of
    index_entry_encode_def index_entry_decode_def map_err_Inr_iff
  by (intro conjI impI)
    (auto intro: node_layout.roundtrip fwd_layout.roundtrip rev_layout.roundtrip index_layout.roundtrip
      dest: node_layout.strict fwd_layout.strict rev_layout.strict index_layout.strict)

theorem graph_key_roundtrip_witness:
  "node_key_decode [0x0c, 6, 0x50, 0, 0, 0, 0, 0, 0, 0, 0xf8, 4, 0x80, 0, 0, 0, 0, 0, 0, 7, 0] =
     Inr \<lparr>nk_label = [0x50], nk_key = [VInt 7]\<rparr>"
proof -
  let ?k = "\<lparr>nk_label = [0x50], nk_key = [VInt 7]\<rparr>"
  have "node_key_ok ?k" by (simp add: node_key_ok_def scalar_def check_scalar_def)
  moreover have "node_key_encode ?k =
      Inr [0x0c, 6, 0x50, 0, 0, 0, 0, 0, 0, 0, 0xf8, 4, 0x80, 0, 0, 0, 0, 0, 0, 7, 0]"
    by (simp add: node_key_encode_def node_key_to_value_def eval_simps)
  ultimately show ?thesis
    using graph_key_roundtrip [of ?k "[0x0c, 6, 0x50, 0, 0, 0, 0, 0, 0, 0, 0xf8, 4, 0x80, 0, 0, 0, 0, 0, 0, 7, 0]"]
    by (simp add: norm_node_def)
qed

text \<open>The scan prefixes are exact. A node key has the prefix of a label just when that is its primary
  label; an edge key has the prefix of an endpoint, or of an endpoint and a type, just when it leaves
  (in the reverse map: enters) that node by an edge of that type; an index key has the prefix of an
  equality probe just when it is an entry of that index for those values. The prefixes of strings always
  encode.\<close>

lemma scan_prefixes_exact:
  assumes "node_key_ok n" "edge_key_ok e" "index_entry_ok i" "list_all wf_value vs" "utf8_valid r" "utf8_valid l"
    "list_all utf8_valid ps"
    and "node_key_encode n = Inr x" "encode_fwd e = Inr y" "encode_rev e = Inr z"
    "edge_endpoint_type_prefix n r = Inr q" "index_entry_encode i = Inr w" "index_value_prefix l ps vs = Inr u"
  shows "(\<exists>p. node_label_prefix l = Some p \<and> (prefix p x \<longleftrightarrow> nk_label n = l)) \<and>
    (\<exists>p. edge_endpoint_prefix n = Inr p \<and> (prefix p y \<longleftrightarrow> norm_node (ek_src e) = norm_node n) \<and>
       (prefix p z \<longleftrightarrow> norm_node (ek_dst e) = norm_node n)) \<and>
    (prefix q y \<longleftrightarrow> norm_node (ek_src e) = norm_node n \<and> ek_rtype e = r) \<and>
    (prefix q z \<longleftrightarrow> norm_node (ek_dst e) = norm_node n \<and> ek_rtype e = r) \<and>
    (\<exists>p. index_prefix l ps = Some p \<and> (prefix p w \<longleftrightarrow> ie_label i = l \<and> ie_properties i = ps)) \<and>
    (prefix u w \<longleftrightarrow> ie_label i = l \<and> ie_properties i = ps \<and> map norm_value (ie_values i) = map norm_value vs)"
proof -
  have "\<exists>p. node_label_prefix l = Some p"
    by (simp add: node_label_prefix_def encode_list_prefix_def write_element.simps MAX_DEPTH_def expect_def)
  moreover have "\<exists>p. index_prefix l ps = Some p"
    using string_tuples_encode [of 1 "write_chunked [0x06] l @ [0x0c]" ps]
    by (auto simp: index_prefix_def encode_key_def encode_key_into_def write_element.simps MAX_DEPTH_def expect_def)
  moreover have "edge_endpoint_prefix n = Inr x" using assms(8) by (simp add: edge_endpoint_prefix_def)
  ultimately show ?thesis
    using label_prefix [OF assms(1,8), of l] edge_prefix [OF assms(2,1)] edge_type_prefix [OF assms(2,1,5)]
      index_prefixes [OF assms(3,6,7,12)] assms(4,9-11,13) by auto
qed

text \<open>The half-open range from a prefix to its successor holds exactly the keys with the prefix; a
  prefix without a successor bounds the range from below only.\<close>

lemma prefix_successor_exact:
  "(case prefix_successor p of None \<Rightarrow> True | Some q \<Rightarrow> k < q) \<and> p \<le> k \<longleftrightarrow> (\<exists>z. k = p @ z)"
  using prefix_successor_range by (simp add: prefix_def)

end
