(* ===== verification/Schema.thy ===== *)
theory Schema
  imports Text_Maps Graph_Keys
begin

text \<open>
  The schema map (\<^verbatim>\<open>crates/acetone-model/src/schema.rs\<close>): declarable property types, label,
  relationship-type and index definitions with the checks of their constructors, the rows of the map and
  their encodings, and surrogate identifiers.
\<close>

section \<open>Names and errors\<close>

definition lit :: "string \<Rightarrow> bytes" where
  "lit s = map of_char s"

definition KIND_LABEL :: bytes where "KIND_LABEL = lit ''label''"
definition KIND_RTYPE :: bytes where "KIND_RTYPE = lit ''rtype''"
definition KIND_INDEX :: bytes where "KIND_INDEX = lit ''index''"
definition SURROGATE_KEY_PROPERTY :: bytes where "SURROGATE_KEY_PROPERTY = lit ''_id''"

datatype schema_error =
    SEmptyName string
  | InvalidKey string
  | InvalidConstraint string
  | SCbor value_decode_error
  | SKeyDecode key_decode_error
  | SShape string
  | SNotCanonical string
  | UnknownKind bytes
  | UnknownType bytes

section \<open>Surrogate identifiers\<close>

text \<open>The clock and the entropy source are arguments: 48 bits of milliseconds and ten random bytes. The
  index into the alphabet is the five bits of a digit.\<close>

definition ALPHABET :: bytes where
  "ALPHABET = lit ''0123456789ABCDEFGHJKMNPQRSTVWXYZ''"

definition mint_surrogate_id :: "u64 \<Rightarrow> bytes \<Rightarrow> bytes" where
  "mint_surrogate_id now random =
     (let millis = now AND 0xFFFFFFFFFFFF;
          bits = drop 2 (be_u64 millis) @ random;
          val = (of_nat (nat_of_be bits) :: 128 word)
      in map (\<lambda>i. ALPHABET ! unat (drop_bit (125 - 5 * i) val AND 0x1f)) [0..<26])"

section \<open>Property types\<close>

datatype property_type =
  TBool | TInt | TFloat | TString | TBytes | TDate | TTime | TDateTime | TDuration | TList

fun type_as_str :: "property_type \<Rightarrow> bytes" where
  "type_as_str TBool = lit ''bool''"
| "type_as_str TInt = lit ''int''"
| "type_as_str TFloat = lit ''float''"
| "type_as_str TString = lit ''string''"
| "type_as_str TBytes = lit ''bytes''"
| "type_as_str TDate = lit ''date''"
| "type_as_str TTime = lit ''time''"
| "type_as_str TDateTime = lit ''datetime''"
| "type_as_str TDuration = lit ''duration''"
| "type_as_str TList = lit ''list''"

definition type_parse :: "bytes \<Rightarrow> schema_error + property_type" where
  "type_parse name =
     (if name = lit ''bool'' then Inr TBool
      else if name = lit ''int'' then Inr TInt
      else if name = lit ''float'' then Inr TFloat
      else if name = lit ''string'' then Inr TString
      else if name = lit ''bytes'' then Inr TBytes
      else if name = lit ''date'' then Inr TDate
      else if name = lit ''time'' then Inr TTime
      else if name = lit ''datetime'' then Inr TDateTime
      else if name = lit ''duration'' then Inr TDuration
      else if name = lit ''list'' then Inr TList
      else Inl (UnknownType name))"

fun type_matches :: "property_type \<Rightarrow> mvalue \<Rightarrow> bool" where
  "type_matches _ VNull = True"
| "type_matches TBool (VBool _) = True"
| "type_matches TInt (VInt _) = True"
| "type_matches TFloat (VFloat _) = True"
| "type_matches TFloat (VInt _) = True"
| "type_matches TString (VString _) = True"
| "type_matches TBytes (VBytes _) = True"
| "type_matches TDate (VDate _) = True"
| "type_matches TTime (VTime _) = True"
| "type_matches TDateTime (VDateTime _) = True"
| "type_matches TDuration (VDuration _) = True"
| "type_matches TList (VList _) = True"
| "type_matches _ _ = False"

fun type_of :: "mvalue \<Rightarrow> property_type option" where
  "type_of VNull = None"
| "type_of (VBool _) = Some TBool"
| "type_of (VInt _) = Some TInt"
| "type_of (VFloat _) = Some TFloat"
| "type_of (VString _) = Some TString"
| "type_of (VBytes _) = Some TBytes"
| "type_of (VDate _) = Some TDate"
| "type_of (VTime _) = Some TTime"
| "type_of (VDateTime _) = Some TDateTime"
| "type_of (VDuration _) = Some TDuration"
| "type_of (VList _) = Some TList"

text \<open>The one widening: a \<^verbatim>\<open>float\<close> declaration admits integers.\<close>

lemma type_matches_iff:
  "type_matches ty v \<longleftrightarrow> v = VNull \<or> type_of v = Some ty \<or> (ty = TFloat \<and> type_of v = Some TInt)"
  by (cases ty; cases v) simp_all

section \<open>Definitions\<close>

type_synonym type_map = "(bytes, property_type) btree_map"

definition normalise_names :: "bytes list \<Rightarrow> string \<Rightarrow> schema_error + bytes list" where
  "normalise_names names context =
     (if \<exists>n \<in> set names. n = [] then Inl (SEmptyName context)
      else Inr (dedup (sort_by canonical_str_cmp names)))"

definition check_types :: "type_map \<Rightarrow> schema_error + unit" where
  "check_types types =
     (if \<exists>k \<in> set (map fst types). k = [] then Inl (SEmptyName ''typed property name'') else Inr ())"

record label_def =
  ld_key :: "bytes list"
  ld_surrogate :: bool
  ld_types :: type_map
  ld_exists :: "bytes list"
  ld_unique :: "bytes list"

text \<open>\<^verbatim>\<open>sort\<close> and \<^verbatim>\<open>dedup\<close> on a copy of the key tuple detect repetitions.\<close>

definition label_def_build ::
  "bytes list \<Rightarrow> bool \<Rightarrow> type_map \<Rightarrow> bytes list \<Rightarrow> bytes list \<Rightarrow> schema_error + label_def" where
  "label_def_build key surrogate types exists' unique =
     (if key = [] then Inl (InvalidKey ''key tuple must be non-empty'')
      else if \<exists>k \<in> set key. k = [] then Inl (SEmptyName ''key property'')
      else if length (dedup (sort key)) \<noteq> length key then Inl (InvalidKey ''key properties must be distinct'')
      else if surrogate \<and> key \<noteq> [SURROGATE_KEY_PROPERTY]
      then Inl (InvalidKey ''surrogate labels key on exactly [\"_id\"]'')
      else rbind (check_types types) (\<lambda>_.
        rbind (normalise_names exists' ''existence-constraint property'') (\<lambda>exists'.
        rbind (normalise_names unique ''unique-constraint property'') (\<lambda>unique.
          if \<exists>u \<in> set unique. u \<in> set key
          then Inl (InvalidConstraint ''UNIQUE applies to non-key properties only'')
          else Inr \<lparr>ld_key = key, ld_surrogate = surrogate, ld_types = types, ld_exists = exists',
                    ld_unique = unique\<rparr>))))"

definition label_def_new ::
  "bytes list \<Rightarrow> type_map \<Rightarrow> bytes list \<Rightarrow> bytes list \<Rightarrow> schema_error + label_def" where
  "label_def_new key types exists' unique = label_def_build key False types exists' unique"

definition label_def_surrogate ::
  "type_map \<Rightarrow> bytes list \<Rightarrow> bytes list \<Rightarrow> schema_error + label_def" where
  "label_def_surrogate types exists' unique =
     (let old = map_of types SURROGATE_KEY_PROPERTY;
          types = bt_insert SURROGATE_KEY_PROPERTY TString types
      in if old \<noteq> None \<and> old \<noteq> Some TString
         then Inl (InvalidKey ''a surrogate _id is a ULID string; it cannot be declared another type'')
         else label_def_build [SURROGATE_KEY_PROPERTY] True types exists' unique)"

record rel_type_def =
  rd_discriminator :: "bytes option"
  rd_types :: type_map
  rd_exists :: "bytes list"

definition rel_type_def_new ::
  "bytes option \<Rightarrow> type_map \<Rightarrow> bytes list \<Rightarrow> schema_error + rel_type_def" where
  "rel_type_def_new discriminator types exists' =
     (if discriminator = Some [] then Inl (SEmptyName ''discriminator property'')
      else rbind (check_types types) (\<lambda>_.
        rbind (normalise_names exists' ''existence-constraint property'') (\<lambda>exists'.
          Inr \<lparr>rd_discriminator = discriminator, rd_types = types, rd_exists = exists'\<rparr>)))"

record index_def =
  id_label :: bytes
  id_properties :: "bytes list"

definition index_def_new :: "bytes \<Rightarrow> bytes list \<Rightarrow> schema_error + index_def" where
  "index_def_new label properties =
     (if label = [] then Inl (SEmptyName ''index label'')
      else if properties = [] \<or> (\<exists>p \<in> set properties. p = []) then Inl (SEmptyName ''index property'')
      else Inr \<lparr>id_label = label, id_properties = properties\<rparr>)"

datatype schema_entry =
    SLabel bytes label_def
  | SRelType bytes rel_type_def
  | SIndex bytes index_def

section \<open>Rows of the schema map\<close>

definition schema_entry_key :: "bytes \<Rightarrow> bytes \<Rightarrow> bytes option" where
  "schema_entry_key kind name = expect (encode_key [VString kind, VString name])"

definition schema_kind_prefix :: "bytes \<Rightarrow> bytes option" where
  "schema_kind_prefix kind = expect (encode_key [VString kind])"

fun schema_entry_name :: "schema_entry \<Rightarrow> bytes" where
  "schema_entry_name (SLabel name _) = name"
| "schema_entry_name (SRelType name _) = name"
| "schema_entry_name (SIndex name _) = name"

fun schema_map_key :: "schema_entry \<Rightarrow> bytes option" where
  "schema_map_key (SLabel name _) = schema_entry_key KIND_LABEL name"
| "schema_map_key (SRelType name _) = schema_entry_key KIND_RTYPE name"
| "schema_map_key (SIndex name _) = schema_entry_key KIND_INDEX name"

text \<open>Text never fails to write, so the writer of a type map always succeeds; its error type is \<^typ>\<open>unit\<close>.\<close>

definition write_types :: "bytes \<Rightarrow> type_map \<Rightarrow> bytes" where
  "write_types out types =
     (let entries = sort_by (\<lambda>a b. canonical_str_cmp (fst a) (fst b)) types
      in fold (\<lambda>(name, ty) out. write_text (write_text out name) (type_as_str ty)) entries
           (write_head out MAJOR_MAP (of_nat (length entries))))"

fun schema_encode_value :: "schema_entry \<Rightarrow> bytes" where
  "schema_encode_value (SLabel _ def) =
     (let out = write_head [] MAJOR_MAP 5;
          out = write_name_array (write_text out (lit ''key'')) (ld_key def);
          out = write_types (write_text out (lit ''types'')) (ld_types def);
          out = write_name_array (write_text out (lit ''exists'')) (ld_exists def);
          out = write_name_array (write_text out (lit ''unique'')) (ld_unique def);
          out = write_text out (lit ''surrogate'')
      in out @ [if ld_surrogate def then SIMPLE_TRUE else SIMPLE_FALSE])"
| "schema_encode_value (SRelType _ def) =
     (let out = write_head [] MAJOR_MAP 3;
          out = write_text out (lit ''disc'');
          out = (case rd_discriminator def of Some d \<Rightarrow> write_text out d | None \<Rightarrow> out @ [SIMPLE_NULL]);
          out = write_types (write_text out (lit ''types'')) (rd_types def)
      in write_name_array (write_text out (lit ''exists'')) (rd_exists def))"
| "schema_encode_value (SIndex _ def) =
     (let out = write_head [] MAJOR_MAP 2;
          out = write_text (write_text out (lit ''label'')) (id_label def);
          out = write_head (write_text out (lit ''properties'')) MAJOR_ARRAY (of_nat (length (id_properties def)))
      in write_names out (id_properties def))"

definition expect_map :: "u64 \<Rightarrow> string \<Rightarrow> bytes \<Rightarrow> schema_error + bytes" where
  "expect_map n what r =
     rbind (map_err SCbor (read_head MAJOR_MAP r)) (\<lambda>(count, r).
       if count \<noteq> n then Inl (SShape what) else Inr r)"

definition expect_field :: "bytes \<Rightarrow> bytes \<Rightarrow> schema_error + bytes" where
  "expect_field name r =
     rbind (map_err SCbor (read_text r)) (\<lambda>(got, r).
       if got \<noteq> name then Inl (SNotCanonical ''unexpected field name or order'') else Inr r)"

definition read_bool :: "bytes \<Rightarrow> schema_error + bool \<times> bytes" where
  "read_bool r = rbind (map_err SCbor (cread_u8 r)) (\<lambda>(b, r).
     if b = SIMPLE_TRUE then Inr (True, r)
     else if b = SIMPLE_FALSE then Inr (False, r)
     else Inl (SShape ''expected boolean''))"

definition read_optional_text :: "bytes \<Rightarrow> schema_error + bytes option \<times> bytes" where
  "read_optional_text r =
     (if 0 < length r \<and> hd r = SIMPLE_NULL
      then rbind (map_err SCbor (cread_u8 r)) (\<lambda>(_, r). Inr (None, r))
      else rbind (map_err SCbor (read_text r)) (\<lambda>(s, r). Inr (Some s, r)))"

definition schema_read_names :: "bool \<Rightarrow> bytes \<Rightarrow> schema_error + bytes list \<times> bytes" where
  "schema_read_names srt r = read_name_array SCbor (SNotCanonical ''name set must be strictly ascending'') srt r"

definition read_type :: "bytes \<Rightarrow> schema_error + property_type \<times> bytes" where
  "read_type r = rbind (map_err SCbor (read_text r)) (\<lambda>(name, r). rbind (type_parse name) (\<lambda>ty. Inr (ty, r)))"

definition read_types :: "bytes \<Rightarrow> schema_error + type_map \<times> bytes" where
  "read_types r = read_text_map SCbor (\<lambda>_. Inr ())
     (SNotCanonical ''typed property names must be strictly ascending'') read_type r"

definition decode_label :: "bytes \<Rightarrow> bytes \<Rightarrow> schema_error + schema_entry \<times> bytes" where
  "decode_label name r =
     rbind (expect_map 5 ''label definition'' r) (\<lambda>r.
     rbind (expect_field (lit ''key'') r) (\<lambda>r.
     rbind (schema_read_names False r) (\<lambda>(key_tuple, r).
     rbind (expect_field (lit ''types'') r) (\<lambda>r.
     rbind (read_types r) (\<lambda>(types, r).
     rbind (expect_field (lit ''exists'') r) (\<lambda>r.
     rbind (schema_read_names True r) (\<lambda>(exists', r).
     rbind (expect_field (lit ''unique'') r) (\<lambda>r.
     rbind (schema_read_names True r) (\<lambda>(unique, r).
     rbind (expect_field (lit ''surrogate'') r) (\<lambda>r.
     rbind (read_bool r) (\<lambda>(surrogate, r).
     rbind (label_def_build key_tuple surrogate types exists' unique) (\<lambda>def.
       Inr (SLabel name def, r)))))))))))))"

definition decode_rel_type :: "bytes \<Rightarrow> bytes \<Rightarrow> schema_error + schema_entry \<times> bytes" where
  "decode_rel_type name r =
     rbind (expect_map 3 ''relationship-type definition'' r) (\<lambda>r.
     rbind (expect_field (lit ''disc'') r) (\<lambda>r.
     rbind (read_optional_text r) (\<lambda>(discriminator, r).
     rbind (expect_field (lit ''types'') r) (\<lambda>r.
     rbind (read_types r) (\<lambda>(types, r).
     rbind (expect_field (lit ''exists'') r) (\<lambda>r.
     rbind (schema_read_names True r) (\<lambda>(exists', r).
     rbind (rel_type_def_new discriminator types exists') (\<lambda>def.
       Inr (SRelType name def, r)))))))))"

definition decode_index :: "bytes \<Rightarrow> bytes \<Rightarrow> schema_error + schema_entry \<times> bytes" where
  "decode_index name r =
     rbind (expect_map 2 ''index declaration'' r) (\<lambda>r.
     rbind (expect_field (lit ''label'') r) (\<lambda>r.
     rbind (map_err SCbor (read_text r)) (\<lambda>(label, r).
     rbind (expect_field (lit ''properties'') r) (\<lambda>r.
     rbind (map_err SCbor (read_head MAJOR_ARRAY r)) (\<lambda>(count, r).
     rbind (read_names SCbor (SNotCanonical '''') False (unat count) [] r) (\<lambda>(properties, r).
     rbind (index_def_new label properties) (\<lambda>def. Inr (SIndex name def, r))))))))"

definition schema_decode :: "bytes \<Rightarrow> bytes \<Rightarrow> schema_error + schema_entry" where
  "schema_decode key val =
     rbind (map_err SKeyDecode (decode_key key)) (\<lambda>tuple. case tuple of
         [VString kind, VString name] \<Rightarrow>
           if name = [] then Inl (SEmptyName ''schema entry name'')
           else rbind (if kind = KIND_LABEL then decode_label name val
                       else if kind = KIND_RTYPE then decode_rel_type name val
                       else if kind = KIND_INDEX then decode_index name val
                       else Inl (UnknownKind kind)) (\<lambda>(entry, r).
                  if r \<noteq> [] then Inl (SCbor TrailingBytes) else Inr entry)
       | _ \<Rightarrow> Inl (SShape ''schema key must be [string kind, string name]''))"

section \<open>The pieces of a row\<close>

lemma type_as_str_str [simp]: "is_str (type_as_str ty)"
  by (cases ty) (simp_all add: is_str_def lit_def)

lemma type_parse_as_str [simp]: "type_parse (type_as_str ty) = Inr ty"
  by (cases ty) (simp_all add: type_parse_def lit_def)

lemma type_parse_Inr: "type_parse n = Inr ty \<Longrightarrow> n = type_as_str ty"
  unfolding type_parse_def by ((split if_split_asm, (drule Inr_inject, hypsubst, simp)) +, simp)

definition write_type :: "bytes \<Rightarrow> property_type \<Rightarrow> unit + bytes" where
  "write_type out ty = Inr (write_text out (type_as_str ty))"

interpretation type_codec: entry_codec write_type read_type "\<lambda>_. True" id
proof (unfold_locales, goal_cases)
  case (3 r v r')
  then obtain n r1 where "read_text r = Inr (n, r1)" "n = type_as_str v" "r1 = r'"
    by (auto simp: read_type_def rbind_Inr_iff map_err_Inr_iff dest: type_parse_Inr)
  then show ?case using read_text_strict by (auto simp: write_type_def)
qed (auto simp: write_type_def read_type_def write_text_append)

lemma write_types_map: "write_text_map write_type out m = Inr (write_types out m)"
proof -
  have "write_entries write_type out es =
      Inr (fold (\<lambda>(name, ty) out. write_text (write_text out name) (type_as_str ty)) es out)" for out es
    by (induction es arbitrary: out) (auto simp: write_type_def)
  then show ?thesis by (simp add: write_text_map_def write_types_def Let_def)
qed

lemma write_types_from_Nil: "write_types out m = out @ write_types [] m"
  using type_codec.write_text_map_from_Nil [of out m "write_types out m"] by (simp add: write_types_map)

lemma write_name_array_from_Nil: "write_name_array out ns = out @ write_name_array [] ns"
  by (simp add: write_name_array_def write_names_from_Nil [of "write_head _ _ _"] write_names_from_Nil [of "_ @ _"]
      write_head_from_Nil [of out])

definition types_ok :: "type_map \<Rightarrow> bool" where
  "types_ok types \<longleftrightarrow> bt_ok types \<and> length types < 2 ^ 63 \<and> (\<forall>k \<in> fst ` set types. is_str k)"

definition names_ok :: "bytes list \<Rightarrow> bool" where
  "names_ok ns \<longleftrightarrow> list_all is_str ns \<and> length ns < 2 ^ 63"

lemma read_types_write: "types_ok types \<Longrightarrow> read_types (write_types [] types @ r) = Inr (types, r)"
  unfolding read_types_def
  by (subst type_codec.read_map_write [OF write_types_map]) (auto simp: types_ok_def)

lemma read_types_strict: "read_types r = Inr (types, r') \<Longrightarrow> r = write_types [] types @ r' \<and> bt_ok types"
  unfolding read_types_def by (auto simp: write_types_map dest!: type_codec.read_map_strict)

lemma read_schema_names_write:
  "names_ok ns \<Longrightarrow> (srt \<longrightarrow> canon_ascending ns) \<Longrightarrow> schema_read_names srt (write_name_array [] ns @ r) = Inr (ns, r)"
  unfolding schema_read_names_def names_ok_def by (intro read_name_array_write) auto

lemma read_schema_names_strict:
  "schema_read_names srt r = Inr (ns, r') \<Longrightarrow> r = write_name_array [] ns @ r' \<and> (srt \<longrightarrow> canon_ascending ns)"
  unfolding schema_read_names_def by (auto dest!: read_name_array_strict)

lemma expect_field_write [simp]: "is_str n \<Longrightarrow> expect_field n (write_text [] n @ r) = Inr r"
  by (simp add: expect_field_def)

lemma expect_field_strict: "expect_field n r = Inr r' \<Longrightarrow> r = write_text [] n @ r'"
  by (auto simp: expect_field_def rbind_Inr_iff map_err_Inr_iff split: if_splits dest!: read_text_strict)

lemma expect_map_write [simp]: "expect_map n w (write_head [] 5 n @ r) = Inr r"
  by (simp add: expect_map_def)

lemma expect_map_strict: "expect_map n w r = Inr r' \<Longrightarrow> r = write_head [] 5 n @ r'"
  by (auto simp: expect_map_def rbind_Inr_iff map_err_Inr_iff split: if_splits dest!: read_head_strict)

lemma read_bool_Inr: "read_bool r = Inr (b, r') \<longleftrightarrow> r = (if b then SIMPLE_TRUE else SIMPLE_FALSE) # r'"
  by (cases r) (auto simp: read_bool_def)

lemma read_bool_write: "read_bool [SIMPLE_TRUE] = Inr (True, [])" "read_bool [SIMPLE_FALSE] = Inr (False, [])"
  by (simp_all add: read_bool_Inr)

lemma text_head_not_null: "hd (write_text [] s @ r) \<noteq> SIMPLE_NULL"
proof
  let ?v = "of_nat (length s) :: u64"
  assume "hd (write_text [] s @ r) = SIMPLE_NULL"
  then have "push_bit 5 (3 :: u8) OR head_ai ?v = 0xf6" by (simp add: write_text_def write_head_split)
  moreover have "drop_bit 5 (push_bit 5 (3 :: u8) OR head_ai ?v) = 3"
    by (intro head_byte_split) (simp_all add: word_less_nat_alt head_ai_less)
  ultimately show False by simp
qed

lemma field_names [simp]:
  "is_str (lit ''key'')" "is_str (lit ''types'')" "is_str (lit ''exists'')" "is_str (lit ''unique'')"
  "is_str (lit ''surrogate'')" "is_str (lit ''disc'')" "is_str (lit ''label'')" "is_str (lit ''properties'')"
  "is_str KIND_LABEL" "is_str KIND_RTYPE" "is_str KIND_INDEX"
  by (simp_all add: is_str_def lit_def KIND_LABEL_def KIND_RTYPE_def KIND_INDEX_def)

lemma kinds_differ [simp]:
  "KIND_LABEL \<noteq> KIND_RTYPE" "KIND_LABEL \<noteq> KIND_INDEX" "KIND_RTYPE \<noteq> KIND_INDEX"
  by (simp_all add: lit_def KIND_LABEL_def KIND_RTYPE_def KIND_INDEX_def)

text \<open>A constructor returns a fixed point of itself.\<close>

lemma normalise_canonical: "canon_ascending ns \<Longrightarrow> dedup (sort_by canonical_str_cmp ns) = ns"
  using canon_ascending_unique [of id "remdups_adj (sort_key canon_key ns)" ns] canon_sorted(2) [of ns]
  by (simp add: sort_canonical)

lemma normalise_names_Inr:
  "normalise_names ns c = Inr ms \<longleftrightarrow> [] \<notin> set ns \<and> ms = dedup (sort_by canonical_str_cmp ns)"
  by (auto simp: normalise_names_def)

lemma normalised: "canon_ascending (dedup (sort_by canonical_str_cmp ns)) \<and> set (dedup (sort_by canonical_str_cmp ns)) = set ns"
  using canon_sorted(2) by (simp add: sort_canonical)

lemma label_def_build_Inr:
  "label_def_build key sur types ex un = Inr d \<longleftrightarrow>
     key \<noteq> [] \<and> [] \<notin> set key \<and> length (dedup (sort key)) = length key \<and> (sur \<longrightarrow> key = [SURROGATE_KEY_PROPERTY]) \<and>
     [] \<notin> fst ` set types \<and> [] \<notin> set ex \<and> [] \<notin> set un \<and> set un \<inter> set key = {} \<and>
     d = \<lparr>ld_key = key, ld_surrogate = sur, ld_types = types, ld_exists = dedup (sort_by canonical_str_cmp ex),
          ld_unique = dedup (sort_by canonical_str_cmp un)\<rparr>"
  using normalised [of un] by (auto simp: label_def_build_def rbind_Inr_iff normalise_names_Inr check_types_def)

lemma rel_type_def_new_Inr:
  "rel_type_def_new disc types ex = Inr d \<longleftrightarrow>
     disc \<noteq> Some [] \<and> [] \<notin> fst ` set types \<and> [] \<notin> set ex \<and>
     d = \<lparr>rd_discriminator = disc, rd_types = types, rd_exists = dedup (sort_by canonical_str_cmp ex)\<rparr>"
  by (auto simp: rel_type_def_new_def rbind_Inr_iff normalise_names_Inr check_types_def)

text \<open>The definitions that can exist: what a constructor returned for Rust strings.\<close>

fun schema_entry_ok :: "schema_entry \<Rightarrow> bool" where
  "schema_entry_ok (SLabel name d) \<longleftrightarrow> is_str name \<and> name \<noteq> [] \<and>
     label_def_build (ld_key d) (ld_surrogate d) (ld_types d) (ld_exists d) (ld_unique d) = Inr d \<and>
     names_ok (ld_key d) \<and> types_ok (ld_types d) \<and> names_ok (ld_exists d) \<and> names_ok (ld_unique d)"
| "schema_entry_ok (SRelType name d) \<longleftrightarrow> is_str name \<and> name \<noteq> [] \<and>
     rel_type_def_new (rd_discriminator d) (rd_types d) (rd_exists d) = Inr d \<and>
     (\<forall>s. rd_discriminator d = Some s \<longrightarrow> is_str s) \<and> types_ok (rd_types d) \<and> names_ok (rd_exists d)"
| "schema_entry_ok (SIndex name d) \<longleftrightarrow> is_str name \<and> name \<noteq> [] \<and>
     index_def_new (id_label d) (id_properties d) = Inr d \<and> is_str (id_label d) \<and> names_ok (id_properties d)"

lemma schema_encode_value_parts:
  "schema_encode_value (SLabel name d) = write_head [] 5 5 @ write_text [] (lit ''key'') @ write_name_array [] (ld_key d) @
     write_text [] (lit ''types'') @ write_types [] (ld_types d) @
     write_text [] (lit ''exists'') @ write_name_array [] (ld_exists d) @
     write_text [] (lit ''unique'') @ write_name_array [] (ld_unique d) @
     write_text [] (lit ''surrogate'') @ [if ld_surrogate d then SIMPLE_TRUE else SIMPLE_FALSE]"
  "schema_encode_value (SRelType name e) = write_head [] 5 3 @ write_text [] (lit ''disc'') @
     (case rd_discriminator e of Some s \<Rightarrow> write_text [] s | None \<Rightarrow> [SIMPLE_NULL]) @
     write_text [] (lit ''types'') @ write_types [] (rd_types e) @
     write_text [] (lit ''exists'') @ write_name_array [] (rd_exists e)"
  "schema_encode_value (SIndex name i) = write_head [] 5 2 @ write_text [] (lit ''label'') @ write_text [] (id_label i) @
     write_text [] (lit ''properties'') @ write_head [] 4 (of_nat (length (id_properties i))) @
     write_names [] (id_properties i)"
  unfolding schema_encode_value.simps Let_def
  by (simp_all only: write_name_array_from_Nil [of "write_text _ _"] write_types_from_Nil [of "write_text _ _"]
      write_text_from_Nil [of "write_head _ _ _"] write_text_from_Nil [of "_ @ _"] write_head_from_Nil [of "_ @ _"]
      write_head_from_Nil [of "write_text _ _"] write_names_from_Nil [of "write_head _ _ _"] write_names_from_Nil [of "_ @ _"]
      append_assoc split: option.splits) (auto simp: write_text_from_Nil [of "_ @ _"] write_types_from_Nil [of "_ @ _"] write_name_array_from_Nil [of "_ @ _"])


lemma read_optional_text_write:
  "(\<forall>s. d = Some s \<longrightarrow> is_str s) \<Longrightarrow>
     read_optional_text ((case d of Some s \<Rightarrow> write_text [] s | None \<Rightarrow> [SIMPLE_NULL]) @ r) = Inr (d, r)"
  using text_head_not_null by (cases d) (simp_all add: read_optional_text_def)

lemma read_optional_text_strict:
  "read_optional_text r = Inr (d, r') \<Longrightarrow>
     r = (case d of Some s \<Rightarrow> write_text [] s | None \<Rightarrow> [SIMPLE_NULL]) @ r'"
  by (cases r) (auto simp: read_optional_text_def rbind_Inr_iff map_err_Inr_iff split: if_splits dest!: read_text_strict)

lemma built_canonical:
  "label_def_build key sur types ex un = Inr d \<Longrightarrow> canon_ascending (ld_exists d) \<and> canon_ascending (ld_unique d)"
  "rel_type_def_new disc types ex = Inr e \<Longrightarrow> canon_ascending (rd_exists e)"
  using normalised by (auto simp: label_def_build_Inr rel_type_def_new_Inr)

lemma decode_label_write:
  "schema_entry_ok (SLabel name d) \<Longrightarrow> decode_label name (schema_encode_value (SLabel name d)) = Inr (SLabel name d, [])"
  using built_canonical(1) [of "ld_key d" "ld_surrogate d" "ld_types d" "ld_exists d" "ld_unique d" d]
  unfolding schema_encode_value_parts decode_label_def
  by (cases "ld_surrogate d") (simp_all add: read_schema_names_write read_types_write read_bool_write)

lemma decode_rel_type_write:
  "schema_entry_ok (SRelType name d) \<Longrightarrow> decode_rel_type name (schema_encode_value (SRelType name d)) = Inr (SRelType name d, [])"
  using built_canonical(2) [of "rd_discriminator d" "rd_types d" "rd_exists d" d]
    read_schema_names_write [of "rd_exists d" True "[]"]
  unfolding schema_encode_value_parts decode_rel_type_def
  by (simp add: read_optional_text_write read_types_write)

lemma decode_index_write:
  "schema_entry_ok (SIndex name d) \<Longrightarrow> decode_index name (schema_encode_value (SIndex name d)) = Inr (SIndex name d, [])"
  using read_names_write [of "id_properties d" False "[]" SCbor "SNotCanonical ''''" "[]"]
  unfolding schema_encode_value_parts decode_index_def
  by (simp add: names_ok_def unat_of_nat)

lemma decode_label_strict:
  assumes "decode_label name v = Inr (e, [])"
  shows "\<exists>d. e = SLabel name d \<and> schema_encode_value e = v \<and>
    label_def_build (ld_key d) (ld_surrogate d) (ld_types d) (ld_exists d) (ld_unique d) = Inr d"
proof -
  from assms obtain r1 r2 r3 r4 r5 r6 r7 r8 r9 r10 key types ex un sur d where
    p: "expect_map 5 ''label definition'' v = Inr r1" "expect_field (lit ''key'') r1 = Inr r2"
      "schema_read_names False r2 = Inr (key, r3)" "expect_field (lit ''types'') r3 = Inr r4"
      "read_types r4 = Inr (types, r5)" "expect_field (lit ''exists'') r5 = Inr r6"
      "schema_read_names True r6 = Inr (ex, r7)" "expect_field (lit ''unique'') r7 = Inr r8"
      "schema_read_names True r8 = Inr (un, r9)" "expect_field (lit ''surrogate'') r9 = Inr r10"
      "read_bool r10 = Inr (sur, [])"
    and b: "label_def_build key sur types ex un = Inr d" and e: "e = SLabel name d"
    unfolding decode_label_def by (auto simp only: rbind_Inr_iff split_paired_Ex prod.case prod.inject sum.inject)
  have c: "canon_ascending ex" "canon_ascending un"
    using read_schema_names_strict [OF p(7)] read_schema_names_strict [OF p(9)] by simp_all
  then have d: "ld_key d = key" "ld_surrogate d = sur" "ld_types d = types" "ld_exists d = ex" "ld_unique d = un"
    using b by (simp_all add: label_def_build_Inr normalise_canonical)
  have "schema_encode_value e = v"
    unfolding e schema_encode_value_parts d
    using expect_map_strict [OF p(1)] p(2,4,6,8,10) [THEN expect_field_strict] p(3,7,9) [THEN read_schema_names_strict]
      read_types_strict [OF p(5)] p(11) by (simp add: read_bool_Inr)
  then show ?thesis using b e d by simp
qed

lemma decode_rel_type_strict:
  assumes "decode_rel_type name v = Inr (e, [])"
  shows "\<exists>d. e = SRelType name d \<and> schema_encode_value e = v \<and>
    rel_type_def_new (rd_discriminator d) (rd_types d) (rd_exists d) = Inr d"
proof -
  from assms obtain r1 r2 r3 r4 r5 r6 disc types ex d where
    p: "expect_map 3 ''relationship-type definition'' v = Inr r1" "expect_field (lit ''disc'') r1 = Inr r2"
      "read_optional_text r2 = Inr (disc, r3)" "expect_field (lit ''types'') r3 = Inr r4"
      "read_types r4 = Inr (types, r5)" "expect_field (lit ''exists'') r5 = Inr r6"
      "schema_read_names True r6 = Inr (ex, [])"
    and b: "rel_type_def_new disc types ex = Inr d" and e: "e = SRelType name d"
    unfolding decode_rel_type_def by (auto simp only: rbind_Inr_iff split_paired_Ex prod.case prod.inject sum.inject)
  have d: "rd_discriminator d = disc" "rd_types d = types" "rd_exists d = ex"
    using b read_schema_names_strict [OF p(7)] by (simp_all add: rel_type_def_new_Inr normalise_canonical)
  have "schema_encode_value e = v"
    unfolding e schema_encode_value_parts d
    using expect_map_strict [OF p(1)] p(2,4,6) [THEN expect_field_strict] read_optional_text_strict [OF p(3)]
      read_types_strict [OF p(5)] read_schema_names_strict [OF p(7)] by simp
  then show ?thesis using b e d by simp
qed

lemma decode_index_strict:
  assumes "decode_index name v = Inr (e, [])"
  shows "\<exists>d. e = SIndex name d \<and> schema_encode_value e = v \<and>
    index_def_new (id_label d) (id_properties d) = Inr d \<and> utf8_valid (id_label d) \<and> list_all utf8_valid (id_properties d)"
proof -
  from assms obtain r1 r2 r3 r4 r5 l ps count d where
    p: "expect_map 2 ''index declaration'' v = Inr r1" "expect_field (lit ''label'') r1 = Inr r2"
      "read_text r2 = Inr (l, r3)" "expect_field (lit ''properties'') r3 = Inr r4" "read_head 4 r4 = Inr (count, r5)"
    and n: "read_names SCbor (SNotCanonical '''') False (unat count) [] r5 = Inr (ps, [])"
    and b: "index_def_new l ps = Inr d" and e: "e = SIndex name d"
    unfolding decode_index_def
    by (auto simp only: rbind_Inr_iff map_err_Inr_iff split_paired_Ex prod.case prod.inject sum.inject)
  have d: "id_label d = l" "id_properties d = ps" using b by (auto simp: index_def_new_def split: if_splits)
  from read_names_strict [OF n] have ps: "length ps = unat count" "r5 = write_names [] ps" "list_all utf8_valid ps" by auto
  from ps(1) have "of_nat (length ps) = count" by simp
  with ps have "schema_encode_value e = v"
    unfolding e schema_encode_value_parts d
    using expect_map_strict [OF p(1)] p(2,4) [THEN expect_field_strict] read_text_strict [OF p(3)]
      read_head_strict [OF p(5)] by simp
  then show ?thesis using b e d ps(3) read_text_strict [OF p(3)] by simp
qed

lemma schema_entry_key_Some:
  "schema_entry_key kind name = Some k \<longleftrightarrow> encode_key [VString kind, VString name] = Inr k"
  by (auto simp: schema_entry_key_def expect_def split: sum.splits)

lemma schema_key_decode:
  "is_str kind \<Longrightarrow> is_str name \<Longrightarrow>
     \<exists>k. schema_entry_key kind name = Some k \<and> decode_key k = Inr [VString kind, VString name]"
  using string_tuples_encode [of 0 "[]" "[kind, name]"] decode_elements_write [of "[VString kind, VString name]"]
  by (auto simp: schema_entry_key_Some is_str_def decode_key_def encode_key_def encode_key_into_def MAX_DEPTH_def
      simp del: write_elements.simps)

lemma schema_key_strict: "decode_key k = Inr [VString kind, VString name] \<Longrightarrow> schema_entry_key kind name = Some k"
  using decode_elements_strict [of k "[VString kind, VString name]"]
  by (auto simp: schema_entry_key_Some decode_key_def encode_key_def encode_key_into_def simp del: write_elements.simps)

section \<open>The order of surrogate identifiers\<close>

text \<open>Base-32 digits, most significant first; strings of them of one length compare as their numbers do.\<close>

fun base32 :: "nat \<Rightarrow> nat \<Rightarrow> nat list" where
  "base32 0 v = []"
| "base32 (Suc n) v = (v div 32 ^ n mod 32) # base32 n v"

lemma base32_mod: "base32 n (v mod 32 ^ m) = base32 n v" if "n \<le> m" for n m v
  using that
proof (induction n)
  case (Suc n)
  then obtain k where m: "m = n + Suc k" using less_iff_Suc_add [of n m] by auto
  have "v mod (32 ^ n * 32 ^ Suc k) div 32 ^ n mod 32 = v div 32 ^ n mod 32"
    by (simp add: mod_mult2_eq mod_mult_self4 mult.commute mod_mod_cancel)
  then show ?case using Suc by (simp add: m power_add mult.left_commute)
qed simp

lemma base32_less:
  "v < w \<Longrightarrow> w < 32 ^ n \<Longrightarrow> \<forall>i < 32. \<forall>j < 32. i < j \<longrightarrow> f i < f j \<Longrightarrow>
     map (f :: nat \<Rightarrow> u8) (base32 n v) < map f (base32 n w)"
proof (induction n arbitrary: v w)
  case (Suc n)
  let ?p = "32 ^ n :: nat"
  have q: "v div ?p < 32" "w div ?p < 32" "v div ?p \<le> w div ?p"
    using Suc.prems(1,2) by (auto simp: less_mult_imp_div_less div_le_mono)
  show ?case
  proof (cases "v div ?p = w div ?p")
    case True
    then have "v mod ?p < w mod ?p" using Suc.prems(1) by (metis div_mult_mod_eq nat_add_left_cancel_less)
    moreover have "w mod ?p < ?p" by simp
    ultimately have "map f (base32 n v) < map f (base32 n w)"
      using Suc.IH [of "v mod ?p" "w mod ?p"] Suc.prems(3) base32_mod [of n n v] base32_mod [of n n w] by simp
    then show ?thesis using True by simp
  next
    case False
    then show ?thesis using q Suc.prems(3) by simp
  qed
qed simp

lemma ALPHABET_length: "length ALPHABET = 32"
  by (simp add: ALPHABET_def lit_def)

lemma ALPHABET_ascending: "i < 32 \<Longrightarrow> j < 32 \<Longrightarrow> i < j \<Longrightarrow> ALPHABET ! i < ALPHABET ! j"
proof -
  assume "i < 32" "j < 32" "i < j"
  moreover have "sorted_wrt (<) ALPHABET" by (simp add: ALPHABET_def lit_def)
  ultimately show ?thesis by (simp add: sorted_wrt_nth_less ALPHABET_length)
qed

lemma base32_map: "map (\<lambda>i. v div 32 ^ (n - 1 - i) mod 32) [0..<n] = base32 n v"
proof (induction n)
  case (Suc n)
  have "map (\<lambda>i. v div 32 ^ (n - Suc i) mod 32) [0..<n] = base32 n v"
    using Suc by simp
  then show ?case by (simp add: upt_conv_Cons map_Suc_upt [symmetric] comp_def del: upt_Suc)
qed simp

lemma nat_of_be_append: "nat_of_be (xs @ ys) = nat_of_be xs * 256 ^ length ys + nat_of_be ys"
  by (induction xs) (simp_all add: algebra_simps power_add)

lemma nat_of_be_drop2: "unat m < 2 ^ 48 \<Longrightarrow> nat_of_be (drop 2 (be_u64 m)) = unat m"
proof -
  assume m: "unat m < 2 ^ 48"
  let ?hi = "take 2 (be_u64 m)" and ?lo = "drop 2 (be_u64 m)"
  have len: "length ?lo = 6" by (simp add: be_u64_def)
  have sum: "unat m = nat_of_be ?hi * 256 ^ 6 + nat_of_be ?lo"
    using nat_of_be_append [of ?hi ?lo] len by simp
  then have "nat_of_be ?hi = 0" using m by (cases "nat_of_be ?hi") simp_all
  then show ?thesis using sum by simp
qed

lemma mint_digits:
  fixes now :: u64
  assumes "length random = 10" "v = unat (now AND 0xFFFFFFFFFFFF) * 2 ^ 80 + nat_of_be random"
  shows "mint_surrogate_id now random = map (\<lambda>d. ALPHABET ! d) (base32 26 v)" "v < 32 ^ 26" "nat_of_be random < 2 ^ 80"
proof -
  have "now AND 0xFFFFFFFFFFFF = take_bit 48 now" by (simp add: take_bit_eq_mask mask_eq_exp_minus_1)
  then have "unat (now AND 0xFFFFFFFFFFFF) = take_bit 48 (unat now)" by (simp only: unsigned_take_bit_eq)
  then have m: "unat (now AND 0xFFFFFFFFFFFF) < 2 ^ 48" by (simp only: take_bit_nat_less_exp)
  show r: "nat_of_be random < 2 ^ 80" using nat_of_be_bound [of random] assms(1) by simp
  have "v < 2 ^ 48 * 2 ^ 80"
    using m r unfolding assms(2) by (intro less_le_trans [OF add_strict_left_mono, of _ "2 ^ 80"]) simp_all
  then have v128: "v < 2 ^ 128" by simp
  then show "v < 32 ^ 26" by simp
  have u: "unat (of_nat v :: 128 word) = v" using v128 by (simp add: unat_of_nat)
  have "nat_of_be (drop 2 (be_u64 (now AND 0xFFFFFFFFFFFF)) @ random) = v"
    unfolding nat_of_be_append nat_of_be_drop2 [OF m] assms by simp
  moreover have "unat (drop_bit (125 - 5 * i) (of_nat v :: 128 word) AND 0x1f) = v div 32 ^ (26 - 1 - i) mod 32"
    if "i < 26" for i
  proof -
    have p: "(2 :: nat) ^ (125 - 5 * i) = 32 ^ (25 - i)" 
      using power_mult [of "2 :: nat" 5 "25 - i"] that by (simp add: diff_mult_distrib2)
    have "(x :: 128 word) AND 0x1f = take_bit 5 x" for x by (simp add: take_bit_eq_mask mask_eq_exp_minus_1)
    then have "unat (drop_bit (125 - 5 * i) (of_nat v :: 128 word) AND 0x1f) = take_bit 5 (drop_bit (125 - 5 * i) v)"
      by (simp only: unsigned_take_bit_eq unat_drop_bit_eq u)
    then show ?thesis by (simp add: take_bit_eq_mod drop_bit_eq_div p)
  qed
  ultimately show "mint_surrogate_id now random = map (\<lambda>d. ALPHABET ! d) (base32 26 v)"
    unfolding mint_surrogate_id_def Let_def base32_map [symmetric] map_map by (intro map_cong refl) simp
qed

lemma base32_digits: "d \<in> set (base32 n v) \<Longrightarrow> d < 32" "length (base32 n v) = n"
  by (induction n) auto

text \<open>Surrogate identifiers sort by creation time: an identifier minted in an earlier
  millisecond (of the 48-bit clock) is smaller as a string, whatever the random bits; all of them are 26
  characters of the alphabet.\<close>

lemma surrogate_ids_sort_by_time:
  assumes "length r = 10" "length r' = 10" "now AND 0xFFFFFFFFFFFF < now' AND 0xFFFFFFFFFFFF"
  shows "mint_surrogate_id now r < mint_surrogate_id now' r' \<and> length (mint_surrogate_id now r) = 26 \<and>
    set (mint_surrogate_id now r) \<subseteq> set ALPHABET"
proof -
  let ?m = "unat (now AND 0xFFFFFFFFFFFF)" and ?m' = "unat (now' AND 0xFFFFFFFFFFFF)"
  let ?v = "?m * 2 ^ 80 + nat_of_be r" and ?w = "?m' * 2 ^ 80 + nat_of_be r'"
  note d = mint_digits [OF assms(1) refl [of "unat (now AND _) * _ + _"]] and d' = mint_digits [OF assms(2) refl [of "unat (now' AND _) * _ + _"]]
  have "?m < ?m'" using assms(3) by (simp add: word_less_nat_alt)
  then have "?m * 2 ^ 80 + 2 ^ 80 \<le> ?m' * 2 ^ 80"
    using mult_le_mono1 [of "Suc ?m" ?m' "2 ^ 80"] by simp
  then have "?v < ?w" using d(3) by linarith
  then have "mint_surrogate_id now r < mint_surrogate_id now' r'"
    unfolding d(1) d'(1) using base32_less [OF _ d'(2)] ALPHABET_ascending by blast
  moreover have "set (mint_surrogate_id now r) \<subseteq> set ALPHABET"
    unfolding d(1) by (auto dest!: base32_digits(1) intro!: nth_mem simp: ALPHABET_length)
  ultimately show ?thesis by (simp add: d(1) base32_digits)
qed

section \<open>Rows\<close>

text \<open>Every definition a constructor can return survives its row.\<close>

lemma schema_row_decode:
  assumes "schema_entry_ok e"
  shows "\<exists>k. schema_map_key e = Some k \<and> schema_decode k (schema_encode_value e) = Inr e"
proof (cases e)
  case (SLabel name d)
  then show ?thesis using assms schema_key_decode [of KIND_LABEL name] decode_label_write [of name d]
    by (auto simp: schema_decode_def simp del: schema_encode_value.simps)
next
  case (SRelType name d)
  then show ?thesis using assms schema_key_decode [of KIND_RTYPE name] decode_rel_type_write [of name d]
    by (auto simp: schema_decode_def kinds_differ [symmetric] simp del: schema_encode_value.simps)
next
  case (SIndex name d)
  then show ?thesis using assms schema_key_decode [of KIND_INDEX name] decode_index_write [of name d]
    by (auto simp: schema_decode_def kinds_differ [symmetric] simp del: schema_encode_value.simps)
qed

lemma two_strings:
  "(case tuple of [VString kind, VString name] \<Rightarrow> f kind name | _ \<Rightarrow> Inl e) = Inr x \<Longrightarrow>
     \<exists>kind name. tuple = [VString kind, VString name] \<and> f kind name = Inr x"
  by (auto split: list.splits mvalue.splits)

lemma schema_decode_strict:
  assumes "schema_decode k v = Inr e"
  shows "schema_map_key e = Some k \<and> schema_encode_value e = v \<and> schema_entry_name e \<noteq> [] \<and>
    (case e of
       SLabel _ d \<Rightarrow> label_def_build (ld_key d) (ld_surrogate d) (ld_types d) (ld_exists d) (ld_unique d) = Inr d
     | SRelType _ d \<Rightarrow> rel_type_def_new (rd_discriminator d) (rd_types d) (rd_exists d) = Inr d
     | SIndex _ d \<Rightarrow> index_def_new (id_label d) (id_properties d) = Inr d \<and>
         utf8_valid (id_label d) \<and> list_all utf8_valid (id_properties d))"
proof -
  obtain tuple where "decode_key k = Inr tuple" and row: "(case tuple of
      [VString kind, VString name] \<Rightarrow>
        if name = [] then Inl (SEmptyName ''schema entry name'')
        else rbind (if kind = KIND_LABEL then decode_label name v
                    else if kind = KIND_RTYPE then decode_rel_type name v
                    else if kind = KIND_INDEX then decode_index name v
                    else Inl (UnknownKind kind)) (\<lambda>(entry, r).
               if r \<noteq> [] then Inl (SCbor TrailingBytes) else Inr entry)
      | _ \<Rightarrow> Inl (SShape ''schema key must be [string kind, string name]'')) = Inr e"
    using assms by (auto simp only: schema_decode_def rbind_Inr_iff map_err_Inr_iff)
  then obtain kind name where t: "decode_key k = Inr [VString kind, VString name]" and n: "name \<noteq> []"
    and b: "(kind = KIND_LABEL \<and> decode_label name v = Inr (e, [])) \<or>
      (kind = KIND_RTYPE \<and> decode_rel_type name v = Inr (e, [])) \<or>
      (kind = KIND_INDEX \<and> decode_index name v = Inr (e, []))"
    using two_strings [OF row] by (auto simp: rbind_Inr_iff split: if_splits)
  note key = schema_key_strict [OF t]
  from b consider "kind = KIND_LABEL" "decode_label name v = Inr (e, [])"
    | "kind = KIND_RTYPE" "decode_rel_type name v = Inr (e, [])"
    | "kind = KIND_INDEX" "decode_index name v = Inr (e, [])" by blast
  then show ?thesis
  proof cases
    case 1
    then show ?thesis using key n decode_label_strict [OF 1(2)] by (auto simp del: schema_encode_value.simps)
  next
    case 2
    then show ?thesis using key n decode_rel_type_strict [OF 2(2)] by (auto simp del: schema_encode_value.simps)
  next
    case 3
    then show ?thesis using key n decode_index_strict [OF 3(2)] by (auto simp del: schema_encode_value.simps)
  qed
qed

text \<open>C29. Every definition a constructor can return survives its row: the key exists, and decoding key and
  value gives back the entry. A row that decodes is the row of its entry, byte for byte, and its definition
  satisfies the declaration rules.\<close>

theorem schema_row_roundtrip:
  "(schema_entry_ok e \<longrightarrow> (\<exists>k. schema_map_key e = Some k \<and> schema_decode k (schema_encode_value e) = Inr e)) \<and>
   (schema_decode k v = Inr e' \<longrightarrow> schema_map_key e' = Some k \<and> schema_encode_value e' = v \<and> schema_entry_name e' \<noteq> [] \<and>
     (case e' of
        SLabel _ d \<Rightarrow> label_def_build (ld_key d) (ld_surrogate d) (ld_types d) (ld_exists d) (ld_unique d) = Inr d
      | SRelType _ d \<Rightarrow> rel_type_def_new (rd_discriminator d) (rd_types d) (rd_exists d) = Inr d
      | SIndex _ d \<Rightarrow> index_def_new (id_label d) (id_properties d) = Inr d))"
  using schema_row_decode [of e] schema_decode_strict [of k v e'] by (cases e') (simp_all del: schema_encode_value.simps schema_entry_ok.simps)

theorem schema_row_roundtrip_witness:
  "\<exists>k. schema_map_key (SIndex [0x61] \<lparr>id_label = [0x62], id_properties = [[0x63]]\<rparr>) = Some k \<and>
     schema_decode k (schema_encode_value (SIndex [0x61] \<lparr>id_label = [0x62], id_properties = [[0x63]]\<rparr>)) =
       Inr (SIndex [0x61] \<lparr>id_label = [0x62], id_properties = [[0x63]]\<rparr>) \<and>
     index_def_new [0x62] [[0x63]] = Inr \<lparr>id_label = [0x62], id_properties = [[0x63]]\<rparr>"
proof -
  let ?e = "SIndex [0x61] \<lparr>id_label = [0x62], id_properties = [[0x63]]\<rparr>"
  have "schema_entry_ok ?e" by (simp add: index_def_new_def names_ok_def is_str_def)
  then obtain k where k: "schema_map_key ?e = Some k" "schema_decode k (schema_encode_value ?e) = Inr ?e"
    using schema_row_roundtrip [of ?e] by blast
  then show ?thesis using schema_row_roundtrip [of ?e k "schema_encode_value ?e" ?e] by auto
qed

lemma sorted_distinct_adj: "sorted xs \<Longrightarrow> distinct_adj xs \<longleftrightarrow> distinct xs"
proof (induction xs)
  case (Cons x xs)
  then show ?case by (cases xs) (auto simp: distinct_adj_Cons)
qed simp

text \<open>C30. What a declaration accepts: the constructors succeed exactly on non-empty, distinct,
  non-empty-named key tuples with no key property under UNIQUE, return their name sets in canonical order
  without repetitions, and a surrogate label is keyed on \<open>_id\<close>, which it declares a string.\<close>

theorem label_declarations:
  assumes "bt_ok types"
  shows "(label_def_new key types ex un = Inr d \<longleftrightarrow>
      key \<noteq> [] \<and> distinct key \<and> [] \<notin> set key \<union> fst ` set types \<union> set ex \<union> set un \<and> set un \<inter> set key = {} \<and>
      ld_key d = key \<and> \<not> ld_surrogate d \<and> ld_types d = types \<and> set (ld_exists d) = set ex \<and> set (ld_unique d) = set un \<and>
      canon_ascending (ld_exists d) \<and> canon_ascending (ld_unique d)) \<and>
    (label_def_surrogate types ex un = Inr d \<longleftrightarrow>
      map_of types SURROGATE_KEY_PROPERTY \<in> {None, Some TString} \<and>
      [] \<notin> fst ` set types \<union> set ex \<union> set un \<and> SURROGATE_KEY_PROPERTY \<notin> set un \<and>
      ld_key d = [SURROGATE_KEY_PROPERTY] \<and> ld_surrogate d \<and>
      map_of (ld_types d) = (map_of types)(SURROGATE_KEY_PROPERTY \<mapsto> TString) \<and> bt_ok (ld_types d) \<and>
      set (ld_exists d) = set ex \<and> set (ld_unique d) = set un \<and>
      canon_ascending (ld_exists d) \<and> canon_ascending (ld_unique d))"
proof
  have key: "length (dedup (sort key)) = length key \<longleftrightarrow> distinct key"
    by (metis distinct_adj_conv_length_remdups_adj distinct_sort length_sort sorted_distinct_adj sorted_sort)
  have nn: "ns = dedup (sort_by canonical_str_cmp ms) \<longleftrightarrow> set ns = set ms \<and> canon_ascending ns" for ns ms
    using normalised [of ms] canon_ascending_unique [of id ns "dedup (sort_by canonical_str_cmp ms)"]
    unfolding list.map_id by metis
  have rec: "d = \<lparr>ld_key = k, ld_surrogate = s, ld_types = t, ld_exists = e, ld_unique = u\<rparr> \<longleftrightarrow>
      ld_key d = k \<and> ld_surrogate d = s \<and> ld_types d = t \<and> ld_exists d = e \<and> ld_unique d = u" for k s t e u
    by (cases d) auto
  show "label_def_new key types ex un = Inr d \<longleftrightarrow>
      key \<noteq> [] \<and> distinct key \<and> [] \<notin> set key \<union> fst ` set types \<union> set ex \<union> set un \<and> set un \<inter> set key = {} \<and>
      ld_key d = key \<and> \<not> ld_surrogate d \<and> ld_types d = types \<and> set (ld_exists d) = set ex \<and> set (ld_unique d) = set un \<and>
      canon_ascending (ld_exists d) \<and> canon_ascending (ld_unique d)"
    unfolding label_def_new_def label_def_build_Inr key rec nn by blast
  have ty: "ty = bt_insert SURROGATE_KEY_PROPERTY TString types \<longleftrightarrow>
      map_of ty = (map_of types)(SURROGATE_KEY_PROPERTY \<mapsto> TString) \<and> bt_ok ty" for ty
    using assms bt_eqI [of ty "bt_insert SURROGATE_KEY_PROPERTY TString types"] by auto
  have ne: "SURROGATE_KEY_PROPERTY \<noteq> []" by (simp add: SURROGATE_KEY_PROPERTY_def lit_def)
  have sur: "label_def_surrogate types ex un = Inr d \<longleftrightarrow> map_of types SURROGATE_KEY_PROPERTY \<in> {None, Some TString} \<and>
      label_def_build [SURROGATE_KEY_PROPERTY] True (bt_insert SURROGATE_KEY_PROPERTY TString types) ex un = Inr d"
    by (auto simp: label_def_surrogate_def Let_def)
  show "label_def_surrogate types ex un = Inr d \<longleftrightarrow>
      map_of types SURROGATE_KEY_PROPERTY \<in> {None, Some TString} \<and>
      [] \<notin> fst ` set types \<union> set ex \<union> set un \<and> SURROGATE_KEY_PROPERTY \<notin> set un \<and>
      ld_key d = [SURROGATE_KEY_PROPERTY] \<and> ld_surrogate d \<and>
      map_of (ld_types d) = (map_of types)(SURROGATE_KEY_PROPERTY \<mapsto> TString) \<and> bt_ok (ld_types d) \<and>
      set (ld_exists d) = set ex \<and> set (ld_unique d) = set un \<and>
      canon_ascending (ld_exists d) \<and> canon_ascending (ld_unique d)"
    using ne unfolding sur label_def_build_Inr rec nn ty bt_insert_keys by auto
qed

theorem label_declarations_witness:
  "label_def_new [[1], [2]] [([3], TInt)] [[4], [1], [4]] [[3]] =
     Inr \<lparr>ld_key = [[1], [2]], ld_surrogate = False, ld_types = [([3], TInt)], ld_exists = [[1], [4]], ld_unique = [[3]]\<rparr> \<and>
   label_def_surrogate [] [] [[1]] \<noteq>
     Inr \<lparr>ld_key = [[1]], ld_surrogate = True, ld_types = [], ld_exists = [], ld_unique = [[1]]\<rparr>"
proof -
  have ok: "bt_ok [([3 :: u8], TInt)]" "bt_ok ([] :: type_map)" by (simp_all add: bt_ok_def)
  show ?thesis
    using label_declarations [OF ok(1), of "[[1], [2]]" "[[4], [1], [4]]" "[[3]]"
        "\<lparr>ld_key = [[1], [2]], ld_surrogate = False, ld_types = [([3], TInt)], ld_exists = [[1], [4]], ld_unique = [[3]]\<rparr>"]
      label_declarations [OF ok(2), of _ "[]" "[[1]]"
        "\<lparr>ld_key = [[1]], ld_surrogate = True, ld_types = [], ld_exists = [], ld_unique = [[1]]\<rparr>"]
    by (auto simp: canon_ascending_def canon_key_def SURROGATE_KEY_PROPERTY_def lit_def)
qed

end
