(* ===== verification/Manifest.thy ===== *)
theory Manifest
  imports Schema Prolly_Chunker
begin

text \<open>
  The manifest (\<^verbatim>\<open>crates/acetone-model/src/manifest.rs\<close>): the roots of one graph version's maps under the
  versioned envelope \<^verbatim>\<open>[format_version, body]\<close>, with the dispatch on the version. Lemmas: manifests survive
  their encoding, decoders accept exactly the encoded bytes, and a version without a retained decoder is
  refused before its body is looked at.
\<close>

section \<open>Data\<close>

definition FORMAT_VERSION :: u32 where "FORMAT_VERSION = 1"

datatype manifest_decode_error =
    MCbor value_decode_error
  | UnsupportedVersion u64
  | MShape string
  | MNotCanonical string
  | MInvalidHash store_error
  | InvalidHeight u64
  | MInvalidParams prolly_error
  | EmptyIndexName

record map_root =
  mr_hash :: hash
  mr_height :: u32

definition map_root_from_root :: "root \<Rightarrow> map_root" where
  "map_root_from_root r = \<lparr>mr_hash = root_hash r, mr_height = of_nat (root_height r)\<rparr>"

definition map_root_to_root :: "map_root \<Rightarrow> chunk_params \<Rightarrow> prolly_error + root" where
  "map_root_to_root m params = root_new (mr_hash m) (unat (mr_height m)) params"

record manifest =
  mf_chunk_params :: chunk_params
  mf_schema :: map_root
  mf_nodes :: map_root
  mf_edges_fwd :: map_root
  mf_edges_rev :: map_root
  mf_indexes :: "(bytes, map_root) btree_map"
  mf_conflicts :: "map_root option"

section \<open>Encoding\<close>

definition write_map_root :: "bytes \<Rightarrow> map_root \<Rightarrow> bytes" where
  "write_map_root out m =
     (let out = write_head out MAJOR_ARRAY 2;
          h = as_bytes (mr_hash m);
          out = write_head out MAJOR_BYTES (of_nat (length h)) @ h
      in write_head out MAJOR_UNSIGNED (ucast (mr_height m)))"

definition write_indexes :: "bytes \<Rightarrow> (bytes, map_root) btree_map \<Rightarrow> bytes" where
  "write_indexes out ixs =
     (let indexes = sort_by (\<lambda>a b. canonical_str_cmp (fst a) (fst b)) ixs
      in fold (\<lambda>(name, r) out. write_map_root (write_text out name) r) indexes
           (write_head out MAJOR_MAP (of_nat (length indexes))))"

definition manifest_write_body :: "bytes \<Rightarrow> manifest \<Rightarrow> bytes" where
  "manifest_write_body out m =
     (let out = write_head out MAJOR_MAP (6 + (if mf_conflicts m \<noteq> None then 1 else 0));
          out = write_map_root (write_text out (lit ''nodes'')) (mf_nodes m);
          out = write_map_root (write_text out (lit ''schema'')) (mf_schema m);
          out = write_indexes (write_text out (lit ''indexes'')) (mf_indexes m);
          out = (case mf_conflicts m of
                   Some conflicts \<Rightarrow> write_map_root (write_text out (lit ''conflicts'')) conflicts
                 | None \<Rightarrow> out);
          out = write_map_root (write_text out (lit ''edges_fwd'')) (mf_edges_fwd m);
          out = write_map_root (write_text out (lit ''edges_rev'')) (mf_edges_rev m);
          out = write_head (write_text out (lit ''chunk_params'')) MAJOR_ARRAY 3;
          out = write_head out MAJOR_UNSIGNED (ucast (min_bytes (mf_chunk_params m)));
          out = write_head out MAJOR_UNSIGNED (ucast (mask_bits (mf_chunk_params m)))
      in write_head out MAJOR_UNSIGNED (ucast (max_bytes (mf_chunk_params m))))"

definition manifest_encode :: "manifest \<Rightarrow> bytes" where
  "manifest_encode m =
     manifest_write_body (write_head (write_head [] MAJOR_ARRAY 2) MAJOR_UNSIGNED (ucast FORMAT_VERSION)) m"

section \<open>Decoding\<close>

definition manifest_expect_field :: "bytes \<Rightarrow> bytes \<Rightarrow> manifest_decode_error + bytes" where
  "manifest_expect_field name r =
     rbind (map_err MCbor (read_text r)) (\<lambda>(got, r).
       if got \<noteq> name then Inl (MNotCanonical ''unexpected field name or order'') else Inr r)"

definition manifest_read_u32 :: "bytes \<Rightarrow> manifest_decode_error + u32 \<times> bytes" where
  "manifest_read_u32 r =
     rbind (map_err MCbor (read_head MAJOR_UNSIGNED r)) (\<lambda>(v, r).
       if unat v < 2 ^ 32 then Inr (ucast v, r) else Inl (MShape ''chunk parameter out of u32 range''))"

definition read_map_root :: "bytes \<Rightarrow> manifest_decode_error + map_root \<times> bytes" where
  "read_map_root r =
     rbind (map_err MCbor (read_head MAJOR_ARRAY r)) (\<lambda>(arity, r).
     if arity \<noteq> 2 then Inl (MShape ''map root must be [hash, height]'')
     else rbind (map_err MCbor (read_head MAJOR_BYTES r)) (\<lambda>(len, r).
     rbind (map_err MCbor (check_len len r)) (\<lambda>len.
     rbind (map_err MCbor (read_exact len r)) (\<lambda>(bs, r).
     rbind (map_err MInvalidHash (hash_from_bytes bs)) (\<lambda>h.
     rbind (map_err MCbor (read_head MAJOR_UNSIGNED r)) (\<lambda>(height, r).
       if height = 0 \<or> of_nat MAX_HEIGHT < height then Inl (InvalidHeight height)
       else Inr (\<lparr>mr_hash = h, mr_height = ucast height\<rparr>, r)))))))"

definition read_indexes :: "bytes \<Rightarrow> manifest_decode_error + (bytes, map_root) btree_map \<times> bytes" where
  "read_indexes r = read_text_map MCbor (\<lambda>name. if name = [] then Inl EmptyIndexName else Inr ())
     (MNotCanonical ''index names must be strictly ascending'') read_map_root r"

definition read_conflicts :: "bool \<Rightarrow> bytes \<Rightarrow> manifest_decode_error + map_root option \<times> bytes" where
  "read_conflicts present r =
     (if present
      then rbind (manifest_expect_field (lit ''conflicts'') r) (\<lambda>r.
           rbind (read_map_root r) (\<lambda>(c, r). Inr (Some c, r)))
      else Inr (None, r))"

definition read_chunk_params :: "bytes \<Rightarrow> manifest_decode_error + chunk_params \<times> bytes" where
  "read_chunk_params r =
     rbind (map_err MCbor (read_head MAJOR_ARRAY r)) (\<lambda>(arity, r).
     if arity \<noteq> 3 then Inl (MShape ''chunk_params must be [min_bytes, mask_bits, max_bytes]'')
     else rbind (manifest_read_u32 r) (\<lambda>(min_b, r).
     rbind (manifest_read_u32 r) (\<lambda>(mask_b, r).
     rbind (manifest_read_u32 r) (\<lambda>(max_b, r).
     rbind (map_err MInvalidParams (chunk_params_new min_b mask_b max_b)) (\<lambda>p. Inr (p, r))))))"

definition read_body_current :: "bytes \<Rightarrow> manifest_decode_error + manifest \<times> bytes" where
  "read_body_current r =
     rbind (map_err MCbor (read_head MAJOR_MAP r)) (\<lambda>(count, r).
     if count \<noteq> 6 \<and> count \<noteq> 7 then Inl (MShape ''manifest body must have six fields (seven mid-merge)'')
     else rbind (manifest_expect_field (lit ''nodes'') r) (\<lambda>r.
     rbind (read_map_root r) (\<lambda>(nodes, r).
     rbind (manifest_expect_field (lit ''schema'') r) (\<lambda>r.
     rbind (read_map_root r) (\<lambda>(schema, r).
     rbind (manifest_expect_field (lit ''indexes'') r) (\<lambda>r.
     rbind (read_indexes r) (\<lambda>(indexes, r).
     rbind (read_conflicts (count = 7) r) (\<lambda>(conflicts, r).
     rbind (manifest_expect_field (lit ''edges_fwd'') r) (\<lambda>r.
     rbind (read_map_root r) (\<lambda>(edges_fwd, r).
     rbind (manifest_expect_field (lit ''edges_rev'') r) (\<lambda>r.
     rbind (read_map_root r) (\<lambda>(edges_rev, r).
     rbind (manifest_expect_field (lit ''chunk_params'') r) (\<lambda>r.
     rbind (read_chunk_params r) (\<lambda>(params, r).
       Inr (\<lparr>mf_chunk_params = params, mf_schema = schema, mf_nodes = nodes, mf_edges_fwd = edges_fwd,
             mf_edges_rev = edges_rev, mf_indexes = indexes, mf_conflicts = conflicts\<rparr>, r)))))))))))))))"

definition decode_v1_body :: "bytes \<Rightarrow> manifest_decode_error + manifest" where
  "decode_v1_body r =
     rbind (read_body_current r) (\<lambda>(m, r). if r \<noteq> [] then Inl (MCbor TrailingBytes) else Inr m)"

type_synonym body_decoder = "bytes \<Rightarrow> manifest_decode_error + manifest"

definition DECODERS :: "(u32 \<times> body_decoder) list" where
  "DECODERS = [(FORMAT_VERSION, decode_v1_body)]"

text \<open>\<^verbatim>\<open>find_map\<close> takes the first row of the version, \<^const>\<open>map_of\<close>.\<close>

definition decode_with :: "bytes \<Rightarrow> (u32 \<times> body_decoder) list \<Rightarrow> manifest_decode_error + manifest" where
  "decode_with bs decoders =
     rbind (map_err MCbor (read_head MAJOR_ARRAY bs)) (\<lambda>(arity, r).
     if arity \<noteq> 2 then Inl (MShape ''manifest must be [format_version, body]'')
     else rbind (map_err MCbor (read_head MAJOR_UNSIGNED r)) (\<lambda>(version, r).
       case (if unat version < 2 ^ 32 then map_of decoders (ucast version) else None) of
         Some decode_body \<Rightarrow> decode_body r
       | None \<Rightarrow> Inl (UnsupportedVersion version)))"

definition manifest_decode :: "bytes \<Rightarrow> manifest_decode_error + manifest" where
  "manifest_decode bs = decode_with bs DECODERS"

section \<open>The pieces of the body\<close>

text \<open>What a manifest in memory satisfies: heights of real trees, valid parameters, non-empty index names
  that are Rust strings.\<close>

definition map_root_ok :: "map_root \<Rightarrow> bool" where
  "map_root_ok m \<longleftrightarrow> 0 < unat (mr_height m) \<and> unat (mr_height m) \<le> MAX_HEIGHT"

definition manifest_ok :: "manifest \<Rightarrow> bool" where
  "manifest_ok m \<longleftrightarrow> valid_params (mf_chunk_params m) \<and>
     (\<forall>r \<in> {mf_schema m, mf_nodes m, mf_edges_fwd m, mf_edges_rev m} \<union> set_option (mf_conflicts m) \<union> snd ` set (mf_indexes m).
        map_root_ok r) \<and>
     bt_ok (mf_indexes m) \<and> length (mf_indexes m) < 2 ^ 63 \<and> (\<forall>n \<in> fst ` set (mf_indexes m). is_str n \<and> n \<noteq> [])"

lemma write_map_root_parts:
  "write_map_root out m = out @ write_head [] 4 2 @ write_head [] 2 (of_nat (length (as_bytes (mr_hash m)))) @
     as_bytes (mr_hash m) @ write_head [] 0 (ucast (mr_height m))"
  unfolding write_map_root_def Let_def
  by (simp add: write_head_from_Nil [of "_ @ _"] write_head_from_Nil [of "write_head _ _ _"] write_head_from_Nil [of out])

lemma write_map_root_append: "write_map_root (p @ out) m = p @ write_map_root out m"
  by (simp add: write_map_root_parts)

lemma write_map_root_from_Nil: "write_map_root out m = out @ write_map_root [] m"
  by (simp add: write_map_root_parts)

lemma u32_in_u64:
  fixes x :: u32 and v :: u64
  shows "unat (ucast x :: u64) = unat x" "unat v < 2 ^ 32 \<Longrightarrow> ucast (ucast v :: u32) = v"
    "ucast (ucast x :: u64) = x"
proof -
  show u: "unat (ucast x :: u64) = unat x" for x :: u32
    using unat_bounds(3) [of x] by (simp add: unsigned_ucast_eq take_bit_eq_mod)
  show "ucast (ucast v :: u32) = v" if "unat v < 2 ^ 32"
    using that unfolding word_unat_eq_iff u by (simp add: unsigned_ucast_eq take_bit_eq_mod)
  show "ucast (ucast x :: u64) = x"
    using unat_bounds(3) [of x] unfolding word_unat_eq_iff
    by (simp only: unsigned_ucast_eq [of "ucast x :: u64"] u) (simp add: take_bit_eq_mod)
qed

lemma read_map_root_write: "map_root_ok m \<Longrightarrow> read_map_root (write_map_root [] m @ r) = Inr (m, r)"
proof -
  assume "map_root_ok m"
  moreover have "unat (of_nat (length (as_bytes h)) :: u64) = length (as_bytes h)" for h
    using length_as_bytes [of h] by auto
  ultimately show ?thesis
    by (auto simp: write_map_root_parts read_map_root_def check_len_def map_root_ok_def MAX_HEIGHT_def
        word_less_nat_alt u32_in_u64 word_unat_eq_iff)
qed

lemma read_map_root_strict: "read_map_root r = Inr (m, r') \<Longrightarrow> r = write_map_root [] m @ r' \<and> map_root_ok m"
proof -
  assume "read_map_root r = Inr (m, r')"
  then obtain r1 r2 r3 len bs h height where p: "read_head 4 r = Inr (2, r1)" "read_head 2 r1 = Inr (len, r2)"
    "check_len len r2 = Inr (unat len)" "read_exact (unat len) r2 = Inr (bs, r3)" "hash_from_bytes bs = Inr h"
    "read_head 0 r3 = Inr (height, r')"
    and h: "height \<noteq> 0" "\<not> of_nat MAX_HEIGHT < height" and m: "m = \<lparr>mr_hash = h, mr_height = ucast height\<rparr>"
    by (auto simp: read_map_root_def rbind_Inr_iff map_err_Inr_iff check_len_def split: if_splits)
  have height: "0 < unat height" "unat height \<le> 64"
    using h by (auto simp: MAX_HEIGHT_def word_less_nat_alt unat_gt_0)
  then have u: "unat (ucast height :: u32) = unat height" by (simp add: unsigned_ucast_eq take_bit_eq_mod)
  have "(of_nat (length bs) :: u64) = len" using p(4) by (simp add: read_exact_Inr)
  then show ?thesis using p(1,2,6) [THEN read_head_strict] p(4,5) height u
    by (simp add: write_map_root_parts m map_root_ok_def read_exact_Inr hash_from_bytes_Inr u32_in_u64 MAX_HEIGHT_def)
qed

definition write_root :: "bytes \<Rightarrow> map_root \<Rightarrow> unit + bytes" where
  "write_root out m = Inr (write_map_root out m)"

interpretation root_codec: entry_codec write_root read_map_root map_root_ok id
  by unfold_locales
    (auto simp: write_root_def write_map_root_append read_map_root_write dest: read_map_root_strict)

lemma write_indexes_map: "write_text_map write_root out m = Inr (write_indexes out m)"
proof -
  have "write_entries write_root out es =
      Inr (fold (\<lambda>(name, r) out. write_map_root (write_text out name) r) es out)" for out es
    by (induction es arbitrary: out) (auto simp: write_root_def)
  then show ?thesis by (simp add: write_text_map_def write_indexes_def Let_def)
qed

lemma write_indexes_from_Nil: "write_indexes out m = out @ write_indexes [] m"
  using root_codec.write_text_map_from_Nil [of out m "write_indexes out m"] by (simp add: write_indexes_map)

lemma read_indexes_write:
  "bt_ok m \<Longrightarrow> length m < 2 ^ 63 \<Longrightarrow> \<forall>n \<in> fst ` set m. is_str n \<and> n \<noteq> [] \<Longrightarrow> \<forall>r \<in> snd ` set m. map_root_ok r \<Longrightarrow>
     read_indexes (write_indexes [] m @ r) = Inr (m, r)"
  unfolding read_indexes_def
  by (subst root_codec.read_map_write [OF write_indexes_map]) fastforce+

lemma read_indexes_strict:
  assumes "read_indexes r = Inr (m, r')"
  shows "r = write_indexes [] m @ r' \<and> bt_ok m \<and> (\<forall>v \<in> snd ` set m. map_root_ok v) \<and> (\<forall>n \<in> fst ` set m. n \<noteq> [])"
proof -
  obtain n r1 where "read_entries MCbor (\<lambda>name. if name = [] then Inl EmptyIndexName else Inr ())
     (MNotCanonical ''index names must be strictly ascending'') read_map_root n None [] r1 = Inr (m, r')"
    using assms by (auto simp: read_indexes_def read_text_map_def rbind_Inr_iff split: if_splits)
  from read_entries_values [OF this, of map_root_ok] have "\<forall>v \<in> snd ` set m. map_root_ok v"
    using read_map_root_strict by auto
  with root_codec.read_map_strict [OF assms [unfolded read_indexes_def]] show ?thesis
    by (auto simp: write_indexes_map split: if_splits)
qed

lemma manifest_fields [simp]:
  "is_str (lit ''nodes'')" "is_str (lit ''schema'')" "is_str (lit ''indexes'')" "is_str (lit ''conflicts'')"
  "is_str (lit ''edges_fwd'')" "is_str (lit ''edges_rev'')" "is_str (lit ''chunk_params'')"
  by (simp_all add: is_str_def lit_def)

lemma manifest_expect_field_write [simp]: "is_str n \<Longrightarrow> manifest_expect_field n (write_text [] n @ r) = Inr r"
  by (simp add: manifest_expect_field_def)

lemma manifest_expect_field_strict: "manifest_expect_field n r = Inr r' \<Longrightarrow> r = write_text [] n @ r'"
  by (auto simp: manifest_expect_field_def rbind_Inr_iff map_err_Inr_iff split: if_splits dest!: read_text_strict)

lemma manifest_read_u32_write [simp]: "manifest_read_u32 (write_head [] 0 (ucast x) @ r) = Inr (x, r)"
  using unat_bounds(3) [of x] by (simp add: manifest_read_u32_def u32_in_u64)

lemma manifest_read_u32_strict: "manifest_read_u32 r = Inr (x, r') \<Longrightarrow> r = write_head [] 0 (ucast x) @ r'"
  by (auto simp: manifest_read_u32_def rbind_Inr_iff map_err_Inr_iff u32_in_u64 split: if_splits dest!: read_head_strict)

definition params_bytes :: "chunk_params \<Rightarrow> bytes" where
  "params_bytes p = write_head [] 4 3 @ write_head [] 0 (ucast (min_bytes p)) @ write_head [] 0 (ucast (mask_bits p)) @
     write_head [] 0 (ucast (max_bytes p))"

lemma read_chunk_params_write: "valid_params p \<Longrightarrow> read_chunk_params (params_bytes p @ r) = Inr (p, r)"
  using chunk_params_new_valid [of "min_bytes p" "mask_bits p" "max_bytes p" p]
  by (simp add: read_chunk_params_def params_bytes_def)

lemma read_chunk_params_strict: "read_chunk_params r = Inr (p, r') \<Longrightarrow> r = params_bytes p @ r' \<and> valid_params p"
  by (auto simp: read_chunk_params_def params_bytes_def rbind_Inr_iff map_err_Inr_iff chunk_params_new_valid
      split: if_splits dest!: read_head_strict manifest_read_u32_strict)

definition conflicts_bytes :: "map_root option \<Rightarrow> bytes" where
  "conflicts_bytes c = (case c of Some m \<Rightarrow> write_text [] (lit ''conflicts'') @ write_map_root [] m | None \<Rightarrow> [])"

lemma read_conflicts_write:
  "(\<forall>m \<in> set_option c. map_root_ok m) \<Longrightarrow> read_conflicts (c \<noteq> None) (conflicts_bytes c @ r) = Inr (c, r)"
  by (cases c) (simp_all add: read_conflicts_def conflicts_bytes_def read_map_root_write)

lemma read_conflicts_strict:
  "read_conflicts present r = Inr (c, r') \<Longrightarrow>
     r = conflicts_bytes c @ r' \<and> (present \<longleftrightarrow> c \<noteq> None) \<and> (\<forall>m \<in> set_option c. map_root_ok m)"
  by (auto simp: read_conflicts_def conflicts_bytes_def rbind_Inr_iff split: if_splits
      dest!: manifest_expect_field_strict read_map_root_strict)

lemma manifest_write_body_parts:
  "manifest_write_body out m = out @ write_head [] 5 (6 + (if mf_conflicts m \<noteq> None then 1 else 0)) @
     write_text [] (lit ''nodes'') @ write_map_root [] (mf_nodes m) @
     write_text [] (lit ''schema'') @ write_map_root [] (mf_schema m) @
     write_text [] (lit ''indexes'') @ write_indexes [] (mf_indexes m) @ conflicts_bytes (mf_conflicts m) @
     write_text [] (lit ''edges_fwd'') @ write_map_root [] (mf_edges_fwd m) @
     write_text [] (lit ''edges_rev'') @ write_map_root [] (mf_edges_rev m) @
     write_text [] (lit ''chunk_params'') @ params_bytes (mf_chunk_params m)"
  unfolding manifest_write_body_def conflicts_bytes_def params_bytes_def Let_def
  by (cases "mf_conflicts m")
    (simp_all only: write_head_from_Nil [of out] write_text_from_Nil [of "_ @ _"] write_map_root_from_Nil [of "_ @ _"]
      write_indexes_from_Nil [of "_ @ _"] write_head_from_Nil [of "_ @ _"] option.case append_assoc append_Nil)

lemma read_body_write:
  assumes "manifest_ok m"
  shows "read_body_current (manifest_write_body [] m) = Inr (m, [])"
proof -
  have ok: "map_root_ok (mf_schema m)" "map_root_ok (mf_nodes m)" "map_root_ok (mf_edges_fwd m)" "map_root_ok (mf_edges_rev m)"
    "\<forall>r \<in> set_option (mf_conflicts m). map_root_ok r" "\<forall>r \<in> snd ` set (mf_indexes m). map_root_ok r"
    "valid_params (mf_chunk_params m)" "bt_ok (mf_indexes m)" "length (mf_indexes m) < 2 ^ 63"
    "\<forall>n \<in> fst ` set (mf_indexes m). is_str n \<and> n \<noteq> []" using assms by (auto simp: manifest_ok_def)
  show ?thesis
    unfolding manifest_write_body_parts append_assoc append_Nil read_body_current_def
    using ok read_conflicts_write [OF ok(5)] read_chunk_params_write [OF ok(7), of "[]"]
    by (cases "mf_conflicts m") (simp_all add: read_map_root_write read_indexes_write)
qed

lemma manifest_decode_encode:
  assumes "manifest_ok m"
  shows "manifest_decode (manifest_encode m) = Inr m"
proof -
  have "manifest_encode m = write_head [] 4 2 @ write_head [] 0 (ucast FORMAT_VERSION) @ manifest_write_body [] m"
    unfolding manifest_encode_def by (simp add: manifest_write_body_parts write_head_from_Nil [of "write_head _ _ _"])
  then show ?thesis
    using unat_bounds(3) [of FORMAT_VERSION] read_body_write [OF assms]
    by (simp add: manifest_decode_def decode_with_def DECODERS_def u32_in_u64 decode_v1_body_def)
qed

lemma if_Inl_Inr: "(if b then Inl e else x) = Inr y \<longleftrightarrow> \<not> b \<and> x = Inr y"
  by simp

lemma manifest_decode_Inr:
  assumes "manifest_decode bs = Inr m"
  obtains r1 version r where "read_head 4 bs = Inr (2, r1)" "read_head 0 r1 = Inr (version, r)"
    "unat version < 2 ^ 32" "ucast version = FORMAT_VERSION" "decode_v1_body r = Inr m"
  using assms
  by (auto simp: manifest_decode_def decode_with_def DECODERS_def rbind_Inr_iff map_err_Inr_iff
      split: if_splits option.splits)

lemma manifest_strict:
  assumes "manifest_decode bs = Inr m"
  shows "manifest_encode m = bs \<and> valid_params (mf_chunk_params m) \<and>
    (\<forall>r \<in> {mf_schema m, mf_nodes m, mf_edges_fwd m, mf_edges_rev m} \<union> set_option (mf_conflicts m) \<union> snd ` set (mf_indexes m).
      \<exists>root. map_root_to_root r (mf_chunk_params m) = Inr root \<and> map_root_from_root root = r)"
proof -
  from assms obtain r1 version r where e: "read_head 4 bs = Inr (2, r1)" "read_head 0 r1 = Inr (version, r)"
    and v: "unat version < 2 ^ 32" "ucast version = FORMAT_VERSION" and d: "decode_v1_body r = Inr m"
    by (elim manifest_decode_Inr)
  from d have b: "read_body_current r = Inr (m, [])"
    by (auto simp: decode_v1_body_def rbind_Inr_iff split: if_splits)
  then obtain count r1 r2 r3 r4 r5 r6 r7 r8 r9 r10 r11 r12 r13 sch nds fw rv ixs c ps where
    p: "read_head 5 r = Inr (count, r1)" "manifest_expect_field (lit ''nodes'') r1 = Inr r2"
      "read_map_root r2 = Inr (nds, r3)" "manifest_expect_field (lit ''schema'') r3 = Inr r4"
      "read_map_root r4 = Inr (sch, r5)" "manifest_expect_field (lit ''indexes'') r5 = Inr r6"
      "read_indexes r6 = Inr (ixs, r7)" "read_conflicts (count = 7) r7 = Inr (c, r8)"
      "manifest_expect_field (lit ''edges_fwd'') r8 = Inr r9" "read_map_root r9 = Inr (fw, r10)"
      "manifest_expect_field (lit ''edges_rev'') r10 = Inr r11" "read_map_root r11 = Inr (rv, r12)"
      "manifest_expect_field (lit ''chunk_params'') r12 = Inr r13" "read_chunk_params r13 = Inr (ps, [])"
    and count: "\<not> (count \<noteq> 6 \<and> count \<noteq> 7)"
    and m: "m = \<lparr>mf_chunk_params = ps, mf_schema = sch, mf_nodes = nds, mf_edges_fwd = fw,
             mf_edges_rev = rv, mf_indexes = ixs, mf_conflicts = c\<rparr>"
    unfolding read_body_current_def rbind_Inr_iff map_err_Inr_iff split_paired_Ex prod.case if_Inl_Inr sum.inject prod.inject
    by (elim exE conjE) (hypsubst, rule that, (assumption | rule refl)+)
  have fs: "mf_nodes m = nds" "mf_schema m = sch" "mf_indexes m = ixs" "mf_conflicts m = c" "mf_edges_fwd m = fw"
    "mf_edges_rev m = rv" "mf_chunk_params m = ps" by (simp_all add: m)
  note roots = p(3,5,10,12) [THEN read_map_root_strict] and ix = read_indexes_strict [OF p(7)]
    and cf = read_conflicts_strict [OF p(8)] and cp = read_chunk_params_strict [OF p(14)]
  have "6 + (if mf_conflicts m \<noteq> None then 1 else 0) = count" using cf count fs by auto
  then have "manifest_write_body [] m = r"
    unfolding manifest_write_body_parts fs
    using read_head_strict [OF p(1)] p(2,4,6,9,11,13) [THEN manifest_expect_field_strict] roots ix cf cp by simp
  then have "manifest_encode m = bs"
    using e [THEN read_head_strict] u32_in_u64(2) [OF v(1)] v(2)
    by (simp add: manifest_encode_def manifest_write_body_parts write_head_from_Nil [of "write_head _ _ _"])
  moreover have "\<exists>root. map_root_to_root r (mf_chunk_params m) = Inr root \<and> map_root_from_root root = r"
    if "map_root_ok r" for r
    using that by (auto simp: map_root_ok_def map_root_to_root_def root_new_def map_root_from_root_def MAX_HEIGHT_def)
  ultimately show ?thesis using roots ix cf cp unfolding fs by auto
qed

text \<open>The manifest of an empty graph: four roots of height one.\<close>

definition small_manifest :: manifest where
  "small_manifest =
     (let r = \<lparr>mr_hash = Hash (replicate 20 7), mr_height = 1\<rparr>
      in \<lparr>mf_chunk_params = default_chunk_params, mf_schema = r, mf_nodes = r, mf_edges_fwd = r, mf_edges_rev = r,
          mf_indexes = [([0x61], r)], mf_conflicts = Some r\<rparr>)"

lemma small_manifest_ok: "manifest_ok small_manifest"
  by (simp add: small_manifest_def manifest_ok_def Let_def map_root_ok_def MAX_HEIGHT_def bt_ok_def is_str_def
      valid_params_def default_chunk_params_def MAX_CHUNK_MAX_BYTES_def)

text \<open>C31. A manifest survives its encoding: decoding the bytes of a manifest that can exist (tree heights within
  bounds, valid chunk parameters, named indexes) returns it. A manifest that decodes is the encoding of the
  result, byte for byte; every map root in it has a height in \<open>1..MAX_HEIGHT\<close>, so it opens as a root, and its
  chunk parameters are valid.\<close>

theorem manifest_roundtrip:
  "(manifest_ok m \<longrightarrow> manifest_decode (manifest_encode m) = Inr m) \<and>
   (manifest_decode bs = Inr m' \<longrightarrow> manifest_encode m' = bs \<and> valid_params (mf_chunk_params m') \<and>
     (\<forall>r \<in> {mf_schema m', mf_nodes m', mf_edges_fwd m', mf_edges_rev m'} \<union> set_option (mf_conflicts m') \<union> snd ` set (mf_indexes m').
       \<exists>root. map_root_to_root r (mf_chunk_params m') = Inr root \<and> map_root_from_root root = r))"
  using manifest_decode_encode manifest_strict by blast

theorem manifest_roundtrip_witness:
  "manifest_decode (manifest_encode small_manifest) = Inr small_manifest \<and> valid_params (mf_chunk_params small_manifest)"
  using manifest_roundtrip [of small_manifest "manifest_encode small_manifest" small_manifest] small_manifest_ok by blast


text \<open>An envelope of a version without a retained decoder is refused by its version, whatever its body
  holds; a table that keeps the current decoder reads the same manifests, so adding rows for other
  versions changes nothing for the current one.\<close>

lemma manifest_versions:
  "((unat version < 2 ^ 32 \<longrightarrow> map_of decoders (ucast version) = None) \<longrightarrow>
     decode_with (write_head (write_head [] 4 2) 0 version @ body) decoders = Inl (UnsupportedVersion version)) \<and>
   (map_of decoders FORMAT_VERSION = Some decode_v1_body \<longrightarrow> manifest_decode bs = Inr m \<longrightarrow>
     decode_with bs decoders = Inr m)"
proof (intro conjI impI)
  show "decode_with (write_head (write_head [] 4 2) 0 version @ body) decoders = Inl (UnsupportedVersion version)"
    if "unat version < 2 ^ 32 \<longrightarrow> map_of decoders (ucast version) = None"
    using that by (simp add: decode_with_def write_head_from_Nil [of "write_head _ _ _"])
  assume d: "map_of decoders FORMAT_VERSION = Some decode_v1_body" and "manifest_decode bs = Inr m"
  then obtain r1 version r where "read_head 4 bs = Inr (2, r1)" "read_head 0 r1 = Inr (version, r)"
    "unat version < 2 ^ 32" "ucast version = FORMAT_VERSION" "decode_v1_body r = Inr m"
    by (elim manifest_decode_Inr)
  then show "decode_with bs decoders = Inr m" using d by (simp add: decode_with_def)
qed

end
