(* ===== verification/Records.thy ===== *)
theory Records
  imports Text_Maps
begin

text \<open>
  Node and edge records (\<^verbatim>\<open>crates/acetone-model/src/records.rs\<close>): the constructors that normalise, the
  canonical encodings and their strict decoders.
\<close>

section \<open>Records\<close>

datatype record_encode_error = REncValue value_encode_error

datatype record_decode_error =
    RCbor value_decode_error
  | RShape string
  | RNotCanonical string

definition normalise_strings :: "bytes list \<Rightarrow> bytes list" where
  "normalise_strings items = dedup (sort_by canonical_str_cmp items)"

type_synonym properties = "(bytes, mvalue) btree_map"

definition write_properties :: "bytes \<Rightarrow> properties \<Rightarrow> record_encode_error + bytes" where
  "write_properties out ps = write_text_map (\<lambda>out v. map_err REncValue (write_value out v 0)) out ps"

definition read_properties :: "bytes \<Rightarrow> record_decode_error + properties \<times> bytes" where
  "read_properties r = read_text_map RCbor (\<lambda>_. Inr ()) (RNotCanonical ''property names must be strictly ascending'')
     (\<lambda>r. map_err RCbor (read_value r 0)) r"

record node_record =
  nr_labels :: "bytes list"
  nr_properties :: properties

definition node_record_new :: "bytes list \<Rightarrow> properties \<Rightarrow> node_record" where
  "node_record_new labels ps = \<lparr>nr_labels = normalise_strings labels, nr_properties = ps\<rparr>"

definition node_record_encode :: "node_record \<Rightarrow> record_encode_error + bytes" where
  "node_record_encode nr =
     (let out = write_head [] MAJOR_ARRAY 2;
          out = write_name_array out (nr_labels nr)
      in write_properties out (nr_properties nr))"

definition node_record_decode :: "bytes \<Rightarrow> record_decode_error + node_record" where
  "node_record_decode bs =
     rbind (map_err RCbor (read_head MAJOR_ARRAY bs)) (\<lambda>(arity, r).
       if arity \<noteq> 2 then Inl (RShape ''node record must be a two-element array'')
       else rbind (read_name_array RCbor (RNotCanonical ''secondary labels must be strictly ascending'') True r)
         (\<lambda>(labels, r).
       rbind (read_properties r) (\<lambda>(ps, r).
         if r \<noteq> [] then Inl (RCbor TrailingBytes) else Inr \<lparr>nr_labels = labels, nr_properties = ps\<rparr>)))"

record edge_record =
  er_properties :: properties

definition edge_record_encode :: "edge_record \<Rightarrow> record_encode_error + bytes" where
  "edge_record_encode er = write_properties [] (er_properties er)"

definition edge_record_decode :: "bytes \<Rightarrow> record_decode_error + edge_record" where
  "edge_record_decode bs =
     rbind (read_properties bs) (\<lambda>(ps, r).
       if r \<noteq> [] then Inl (RCbor TrailingBytes) else Inr \<lparr>er_properties = ps\<rparr>)"

section \<open>Properties as a text-keyed map\<close>

interpretation property_codec: entry_codec "\<lambda>out v. map_err REncValue (write_value out v 0)"
  "\<lambda>r. map_err RCbor (read_value r 0)" "\<lambda>v. wf_value v \<and> sized_value v" canon_value
proof (unfold_locales, goal_cases)
  case (1 p out v)
  then show ?case using write_value_append(1) [of p out v 0] by (cases "write_value out v 0") simp_all
next
  case (2 v x r)
  then show ?case using wf_value_reads_back [of v] by (auto simp: value_reads_back_def map_err_Inr_iff)
next
  case (3 r v r')
  then show ?case using read_value_strict(1) [of r 0 v r'] by (auto simp: map_err_Inr_iff)
qed

text \<open>The invariant of a property map and of a record, and the values a reader returns: every NaN is the
  canonical one.\<close>

definition properties_ok :: "properties \<Rightarrow> bool" where
  "properties_ok ps \<longleftrightarrow> bt_ok ps \<and> length ps < 2 ^ 63 \<and>
     (\<forall>(k, v) \<in> set ps. is_str k \<and> wf_value v \<and> sized_value v)"

definition canon_properties :: "properties \<Rightarrow> properties" where
  "canon_properties ps = map (apsnd canon_value) ps"

definition node_record_ok :: "node_record \<Rightarrow> bool" where
  "node_record_ok nr \<longleftrightarrow> canon_ascending (nr_labels nr) \<and> list_all is_str (nr_labels nr) \<and>
     length (nr_labels nr) < 2 ^ 63 \<and> properties_ok (nr_properties nr)"

lemma write_properties_append:
  "write_properties out ps = Inr z \<longleftrightarrow> (\<exists>y. write_properties [] ps = Inr y \<and> z = out @ y)"
  unfolding write_properties_def by (rule property_codec.write_text_map_from_Nil)

lemma read_properties_write:
  "properties_ok ps \<Longrightarrow> write_properties [] ps = Inr x \<Longrightarrow> read_properties (x @ r) = Inr (canon_properties ps, r)"
  unfolding properties_ok_def write_properties_def read_properties_def canon_properties_def
  by (intro property_codec.read_map_write) auto

lemma read_properties_strict:
  "read_properties r = Inr (ps, r') \<Longrightarrow> bt_ok ps \<and> (\<exists>x. write_properties [] ps = Inr x \<and> r = x @ r')"
  unfolding write_properties_def read_properties_def using property_codec.read_map_strict by blast

lemma normalise_strings_spec: "canon_ascending (normalise_strings xs) \<and> set (normalise_strings xs) = set xs"
  using canon_sorted(2) [of xs] by (simp add: normalise_strings_def sort_canonical)

lemma node_record_encode_Inr:
  "node_record_encode nr = Inr x \<longleftrightarrow>
     (\<exists>y. write_properties [] (nr_properties nr) = Inr y \<and> x = write_head [] 4 2 @ write_name_array [] (nr_labels nr) @ y)"
  unfolding node_record_encode_def Let_def
  by (subst write_properties_append) (auto simp: write_name_array_def write_head_append write_names_append
    write_names_from_Nil [of "write_head _ _ _"] write_head_from_Nil [of "write_head _ _ _"])

lemma node_record_decode_encode:
  assumes "node_record_ok nr" "node_record_encode nr = Inr x"
  shows "node_record_decode x = Inr (nr\<lparr>nr_properties := canon_properties (nr_properties nr)\<rparr>)"
proof -
  from assms(2) obtain y where y: "write_properties [] (nr_properties nr) = Inr y"
    "x = write_head [] 4 2 @ write_name_array [] (nr_labels nr) @ y" by (auto simp: node_record_encode_Inr)
  then show ?thesis
    using assms(1) read_name_array_write [of "nr_labels nr" True RCbor _ y] read_properties_write [of "nr_properties nr" y "[]"]
    by (simp add: node_record_decode_def node_record_ok_def)
qed

lemma node_record_strict:
  assumes "node_record_decode x = Inr nr"
  shows "node_record_encode nr = Inr x" "canon_ascending (nr_labels nr)"
proof -
  from assms obtain r1 r2 where h: "read_head 4 x = Inr (2, r1)"
    and n: "read_name_array RCbor (RNotCanonical ''secondary labels must be strictly ascending'') True r1 =
      Inr (nr_labels nr, r2)"
    and p: "read_properties r2 = Inr (nr_properties nr, [])"
    by (auto simp: node_record_decode_def rbind_Inr_iff map_err_Inr_iff split: if_splits)
  from read_head_strict [OF h] read_name_array_strict [OF n] read_properties_strict [OF p]
  show "node_record_encode nr = Inr x" "canon_ascending (nr_labels nr)"
    by (auto simp: node_record_encode_Inr)
qed

lemma edge_record_strict: "edge_record_decode x = Inr er \<Longrightarrow> edge_record_encode er = Inr x"
  using read_properties_strict [of x "er_properties er" "[]"]
  by (auto simp: edge_record_encode_def edge_record_decode_def rbind_Inr_iff split: if_splits)

section \<open>Properties\<close>

text \<open>C28. Node and edge records decode from their encodings (NaN payloads made canonical), and whatever a
  decoder accepts encodes to the very bytes it was read from.\<close>

theorem record_roundtrip:
  "(node_record_ok nr \<longrightarrow> node_record_encode nr = Inr x \<longrightarrow>
      node_record_decode x = Inr (nr\<lparr>nr_properties := canon_properties (nr_properties nr)\<rparr>)) \<and>
   (node_record_decode x = Inr nr' \<longrightarrow> node_record_encode nr' = Inr x \<and> canon_ascending (nr_labels nr')) \<and>
   (properties_ok (er_properties er) \<longrightarrow> edge_record_encode er = Inr x \<longrightarrow>
      edge_record_decode x = Inr \<lparr>er_properties = canon_properties (er_properties er)\<rparr>) \<and>
   (edge_record_decode x = Inr er' \<longrightarrow> edge_record_encode er' = Inr x)"
proof (intro conjI impI)
  assume "node_record_ok nr" "node_record_encode nr = Inr x"
  then show "node_record_decode x = Inr (nr\<lparr>nr_properties := canon_properties (nr_properties nr)\<rparr>)"
    by (rule node_record_decode_encode)
next
  assume "node_record_decode x = Inr nr'"
  then show "node_record_encode nr' = Inr x" "canon_ascending (nr_labels nr')" by (rule node_record_strict)+
next
  assume "properties_ok (er_properties er)" "edge_record_encode er = Inr x"
  then show "edge_record_decode x = Inr \<lparr>er_properties = canon_properties (er_properties er)\<rparr>"
    using read_properties_write [of "er_properties er" x "[]"] by (simp add: edge_record_encode_def edge_record_decode_def)
next
  assume "edge_record_decode x = Inr er'"
  then show "edge_record_encode er' = Inr x" by (rule edge_record_strict)
qed

theorem record_roundtrip_witness:
  "node_record_decode [0x82, 0x81, 0x61, 0x61, 0xa1, 0x61, 0x6b, 0x01] =
     Inr \<lparr>nr_labels = [[0x61]], nr_properties = [([0x6b], VInt 1)]\<rparr>"
proof -
  let ?nr = "\<lparr>nr_labels = [[0x61]], nr_properties = [([0x6b], VInt 1)]\<rparr>"
  have "node_record_ok ?nr"
    by (simp add: node_record_ok_def properties_ok_def bt_ok_def canon_ascending_def is_str_def)
  moreover have "node_record_encode ?nr = Inr [0x82, 0x81, 0x61, 0x61, 0xa1, 0x61, 0x6b, 0x01]"
    by (simp add: node_record_encode_def write_name_array_def write_properties_def write_text_map_def sort_by_def eval_simps)
  ultimately show ?thesis
    using record_roundtrip [of ?nr "[0x82, 0x81, 0x61, 0x61, 0xa1, 0x61, 0x6b, 0x01]"]
    by (simp add: canon_properties_def)
qed

text \<open>A record's bytes are a function of its contents: records made from the same set of labels, in any
  order and with repetitions, and the same properties are encoded alike.\<close>

lemma node_record_canonical:
  "set ls = set ls' \<Longrightarrow> node_record_new ls ps = node_record_new ls' ps"
  using canon_ascending_unique [of id "normalise_strings ls" "normalise_strings ls'"] normalise_strings_spec
  by (simp add: node_record_new_def)

end
