(* ===== verification/Stored_Records.thy ===== *)
theory Stored_Records
  imports Records
begin

text \<open>
  The records a decoder returns: their values are canonical, so that equality of encodings, which the graph
  crate compares values by, is equality.
\<close>

text \<open>A value that was read from bytes that fit in memory.\<close>

definition stored_value :: "mvalue \<Rightarrow> bool" where
  "stored_value v \<longleftrightarrow> sized_value v \<and> (\<exists>r r'. read_value r 0 = Inr (v, r'))"

definition stored_properties :: "properties \<Rightarrow> bool" where
  "stored_properties ps \<longleftrightarrow> bt_ok ps \<and> (\<forall>v \<in> snd ` set ps. stored_value v)"

lemma write_value_not_Nil: "write_value out v d = Inr x \<Longrightarrow> x \<noteq> []"
  by (cases v) (auto simp: write_value.simps write_int_def write_float_def Let_def write_value_from_Nil(2) [of "write_head _ _ _"]
      split: if_splits bool.splits option.splits)

lemma write_value_sized:
  "write_value [] v d = Inr x \<Longrightarrow> length x < 2 ^ 63 \<Longrightarrow> sized_value v"
proof (induction v arbitrary: d x)
  case (VList vs)
  then obtain y where y: "write_values [] vs (d + 1) = Inr y" "x = write_head [] 4 (of_nat (length vs)) @ y"
    by (auto simp: write_value.simps write_value_from_Nil(2) [of "write_head _ _ _"] split: if_splits)
  have "length us \<le> length z \<and> (\<forall>u \<in> set us. \<exists>w. write_value [] u (d + 1) = Inr w \<and> length w \<le> length z)"
    if "write_values [] us (d + 1) = Inr z" for us z
    using that
  proof (induction us arbitrary: z)
    case (Cons u us)
    then obtain a b where a: "write_value [] u (d + 1) = Inr a" and b: "write_values [] us (d + 1) = Inr b" and z: "z = a @ b"
      by (auto simp: write_values_Cons simp del: write_values.simps)
    have "0 < length a" using write_value_not_Nil [OF a] by simp
    then have "length (u # us) \<le> length z" using z Cons.IH [OF b] by (auto simp del: length_greater_0_conv)
    then show ?case using a z Cons.IH [OF b] by (auto intro: trans_le_add2)
  qed simp
  from this [OF y(1)] VList y(2) show ?case by (fastforce simp: list_all_iff)
qed (auto simp: write_value.simps split: if_splits)

lemma stored_value_canon:
  assumes "stored_value v"
  shows "wf_value v \<and> canon_value v = v \<and> (\<exists>x. encode_value v = Inr x)"
proof -
  from assms obtain r r' where r: "read_value r 0 = Inr (v, r')" "sized_value v" by (auto simp: stored_value_def)
  from read_value_strict(1) [OF r(1)] obtain x where x: "write_value [] v 0 = Inr x" "r = x @ r'" "wf_value v" by blast
  with wf_value_reads_back [OF x(3) r(2)] r(1) show ?thesis
    by (auto simp: value_reads_back_def encode_value_def encode_value_into_def)
qed

lemma stored_value_inject:
  assumes "stored_value v" "stored_value w" "encode_value v = Inr x" "encode_value w = Inr x"
  shows "v = w"
proof -
  have "read_value (x @ []) 0 = Inr (u, [])" if "stored_value u" "encode_value u = Inr x" for u
  proof -
    have "value_reads_back u" "canon_value u = u"
      using wf_value_reads_back [of u] stored_value_canon [OF that(1)] that(1) by (simp_all add: stored_value_def)
    then show ?thesis using that(2) unfolding value_reads_back_def encode_value_def encode_value_into_def by metis
  qed
  from this [OF assms(1,3)] this [OF assms(2,4)] show ?thesis by simp
qed

lemma map_of_stored: "stored_properties ps \<Longrightarrow> map_of ps n = Some v \<Longrightarrow> stored_value v"
  by (auto simp: stored_properties_def dest!: map_of_SomeD)

lemma read_properties_stored:
  assumes "read_properties r = Inr (ps, r')" "length r < 2 ^ 63"
  shows "stored_properties ps"
proof -
  from assms(1) obtain n r1 where "read_entries RCbor (\<lambda>_. Inr ()) (RNotCanonical ''property names must be strictly ascending'')
      (\<lambda>r. map_err RCbor (read_value r 0)) n None [] r1 = Inr (ps, r')"
    by (auto simp: read_properties_def read_text_map_def rbind_Inr_iff split: if_splits)
  from read_entries_values [OF this, of "\<lambda>v. \<exists>r r'. read_value r 0 = Inr (v, r')"]
  have read: "\<forall>v \<in> snd ` set ps. \<exists>r r'. read_value r 0 = Inr (v, r')" by (auto simp: map_err_Inr_iff)
  from read_properties_strict [OF assms(1)] obtain x where ok: "bt_ok ps" and x: "write_properties [] ps = Inr x" "r = x @ r'"
    by blast
  have short: "\<exists>y. write_value [] v 0 = Inr y \<and> length y \<le> length z"
    if "write_entries (\<lambda>out v. map_err REncValue (write_value out v 0)) [] es = Inr z" "v \<in> snd ` set es" for es z v
    using that
  proof (induction es arbitrary: z)
    case (Cons e es)
    obtain n u where e: "e = (n, u)" by (cases e)
    from Cons.prems(1) obtain a b where "write_value [] u 0 = Inr a"
      "write_entries (\<lambda>out v. map_err REncValue (write_value out v 0)) [] es = Inr b" "z = write_text [] n @ a @ b"
      by (auto simp: e property_codec.write_entries_Cons map_err_Inr_iff simp del: write_entries.simps)
    with Cons.IH Cons.prems(2) show ?case by (force simp: e)
  qed simp
  have "sized_value v" if "v \<in> snd ` set ps" for v
  proof -
    obtain z where "write_entries (\<lambda>out v. map_err REncValue (write_value out v 0)) []
        (sort_key (canon_key \<circ> fst) ps) = Inr z" "x = write_head [] 5 (of_nat (length ps)) @ z"
      using x(1) unfolding write_properties_def write_text_map_def Let_def sort_canonical
      by (subst (asm) property_codec.write_entries_from_Nil) auto
    with short [of "sort_key (canon_key \<circ> fst) ps" z v] that
    obtain y where "write_value [] v 0 = Inr y" "length y \<le> length x" by force
    then show ?thesis using write_value_sized [of v 0 y] x(2) assms(2) by simp
  qed
  with read ok show ?thesis by (auto simp: stored_properties_def stored_value_def)
qed

lemma node_record_decode_stored:
  assumes "node_record_decode x = Inr nr" "length x < 2 ^ 63"
  shows "stored_properties (nr_properties nr)" "canon_ascending (nr_labels nr)" "list_all utf8_valid (nr_labels nr)"
proof -
  from assms(1) obtain r1 r2 where h: "read_head 4 x = Inr (2, r1)"
    and n: "read_name_array RCbor (RNotCanonical ''secondary labels must be strictly ascending'') True r1 =
      Inr (nr_labels nr, r2)"
    and p: "read_properties r2 = Inr (nr_properties nr, [])"
    by (auto simp: node_record_decode_def rbind_Inr_iff map_err_Inr_iff split: if_splits)
  note l = read_name_array_strict [OF n]
  then show "canon_ascending (nr_labels nr)" "list_all utf8_valid (nr_labels nr)" by simp_all
  have "length r2 \<le> length x" using l read_head_strict [OF h] by simp
  then show "stored_properties (nr_properties nr)" using read_properties_stored [OF p] assms(2) by simp
qed

lemma edge_record_decode_stored:
  "edge_record_decode x = Inr er \<Longrightarrow> length x < 2 ^ 63 \<Longrightarrow> stored_properties (er_properties er)"
  by (auto simp: edge_record_decode_def rbind_Inr_iff split: if_splits dest: read_properties_stored)

end
