(* ===== verification/Scan_Ends.thy ===== *)
theory Scan_Ends
  imports Prolly_Scan "HOL-Library.Multiset_Order"
begin

text \<open>
  Scans end, whatever the store holds: what a scan may still visit, weighed by levels, goes down with every
  entry it yields.
\<close>

section \<open>The work left\<close>

fun children_left :: "direction \<Rightarrow> frame \<Rightarrow> nat" where
  "children_left Forward f = length (fr_refs f) - Suc (fr_idx f)"
| "children_left Reverse f = fr_idx f"

fun entries_left :: "direction \<Rightarrow> scan_state \<Rightarrow> nat" where
  "entries_left Forward sc = length (sc_leaf sc) - sc_pos sc"
| "entries_left Reverse sc = sc_pos sc"

definition frames_left :: "direction \<Rightarrow> frame list \<Rightarrow> nat multiset" where
  "frames_left dir fs = (\<Sum>f \<leftarrow> fs. replicate_mset (children_left dir f) (Suc (fr_child_level f)))"

text \<open>An entry of the leaf weighs nothing, a child not entered yet more than anything below it.\<close>

definition work_left :: "scan_state \<Rightarrow> nat multiset" where
  "work_left sc = frames_left (sc_dir sc) (sc_stack sc) + replicate_mset (entries_left (sc_dir sc) sc) 0"

lemma frames_left_simps [simp]:
  "frames_left dir [] = {#}"
  "frames_left dir (f # fs) = replicate_mset (children_left dir f) (Suc (fr_child_level f)) + frames_left dir fs"
  by (simp_all add: frames_left_def)

lemma descend_edge_work:
  "descend_edge S s h k l sc = Inr sc' \<Longrightarrow> sc_dir sc' = sc_dir sc \<and>
     (\<exists>N. work_left sc' = frames_left (sc_dir sc) (sc_stack sc) + N \<and> (\<forall>x \<in># N. x \<le> l))"
proof (induction S s h k l sc rule: descend_edge.induct)
  case (1 S s h k l sc)
  from "1.prems" obtain node where n: "read_node S s h l (Some k) None = Inr node"
    by (subst (asm) descend_edge.simps) (cases "read_node S s h l (Some k) None"; auto)
  show ?case
  proof (cases node)
    case (Leaf entries)
    with "1.prems" n show ?thesis
      by (subst (asm) descend_edge.simps) (auto simp: work_left_def)
  next
    case (Inner refs)
    let ?i = "case sc_dir sc of Forward \<Rightarrow> 0 | Reverse \<Rightarrow> length refs - 1"
    let ?f = "\<lparr>fr_refs = refs, fr_idx = ?i, fr_child_level = l - 1\<rparr>"
    have l: "0 < l" using n Inner by (auto dest!: read_node_Inner)
    have "descend_edge S s (ref_hash (refs ! ?i)) (last_key (refs ! ?i)) (l - 1) (sc\<lparr>sc_stack := ?f # sc_stack sc\<rparr>) = Inr sc'"
      using "1.prems" n Inner by (subst (asm) descend_edge.simps) (auto simp: Let_def)
    from "1.IH" [OF n Inner refl this] obtain N where N: "sc_dir sc' = sc_dir sc"
      "work_left sc' = frames_left (sc_dir sc) (?f # sc_stack sc) + N" "\<forall>x \<in># N. x \<le> l - 1" by auto
    show ?thesis
      using N l by (intro conjI exI [of _ "replicate_mset (children_left (sc_dir sc) ?f) l + N"]) (auto simp: ac_simps)
  qed
qed

lemma pop_frames_work:
  "pop_frames dir fs = f # fs' \<Longrightarrow> frames_left dir fs = add_mset (Suc (fr_child_level f)) (frames_left dir (f # fs'))"
proof (induction dir fs rule: pop_frames.induct)
  case (2 f fs)
  then show ?case by (auto split: if_splits simp: Suc_diff_Suc simp flip: replicate_mset_Suc)
next
  case (3 f fs)
  then show ?case by (cases "fr_idx f") (auto split: if_splits)
qed simp

lemma advance_leaf_work:
  assumes "advance_leaf S s sc = Inr (True, sc')"
  shows "work_left sc' < work_left sc"
proof -
  obtain f fs where f: "pop_frames (sc_dir sc) (sc_stack sc) = f # fs"
    using assms by (auto simp: advance_leaf_def Let_def split: list.splits)
  then have "descend_edge S s (ref_hash (fr_refs f ! fr_idx f)) (last_key (fr_refs f ! fr_idx f)) (fr_child_level f)
      (sc\<lparr>sc_stack := f # fs\<rparr>) = Inr sc'"
    using assms by (auto simp: advance_leaf_def Let_def rbind_Inr_iff)
  from descend_edge_work [OF this] obtain N where N: "work_left sc' = frames_left (sc_dir sc) (f # fs) + N"
    "\<forall>x \<in># N. x \<le> fr_child_level f" by auto
  have w: "work_left sc = frames_left (sc_dir sc) (f # fs) + add_mset (Suc (fr_child_level f)) (replicate_mset (entries_left (sc_dir sc) sc) 0)"
    unfolding work_left_def pop_frames_work [OF f] by simp
  show ?thesis unfolding N(1) w less_multiset_def
    by (rule one_step_implies_multp) (use N(2) in \<open>auto simp: less_Suc_eq_le\<close>)
qed

lemma take_from_leaf_work:
  assumes "take_from_leaf sc = (Some e, sc')"
  shows "work_left sc' < work_left sc"
proof -
  have same: "sc_dir sc' = sc_dir sc" "sc_stack sc' = sc_stack sc"
    and n: "entries_left (sc_dir sc) sc = Suc (entries_left (sc_dir sc) sc')"
    using assms by (auto simp: take_from_leaf_def Suc_diff_Suc split: direction.splits if_splits)
  show ?thesis unfolding work_left_def same n less_multiset_def replicate_mset_Suc
    using one_step_implies_multp [of "{#0#}" "{#}" "(<)" "frames_left (sc_dir sc) (sc_stack sc) + replicate_mset (entries_left (sc_dir sc) sc') 0"]
    by simp
qed

lemma scan_next_work: "scan_next S s sc = (Some (Inr e), sc') \<Longrightarrow> work_left sc' < work_left sc"
proof (induction S s sc rule: scan_next.induct)
  case (1 S s sc)
  have keep: "work_left (sc\<lparr>sc_prev_key := k\<rparr>) = work_left sc" for sc k
    by (cases "sc_dir sc") (simp_all add: work_left_def)
  obtain x sc1 where t: "take_from_leaf sc = (x, sc1)" by fastforce
  have nd: "\<not> sc_done sc" using "1.prems" by (subst (asm) scan_next.simps) (auto split: if_splits)
  show ?case
  proof (cases x)
    case (Some kv)
    then have "work_left sc1 < work_left sc" using take_from_leaf_work t by blast
    moreover have "sc' = sc1\<lparr>sc_prev_key := Some (fst kv)\<rparr>"
      using "1.prems" t Some nd by (subst (asm) scan_next.simps) (cases kv; auto split: if_splits sum.splits)
    ultimately show ?thesis by (simp add: keep)
  next
    case None
    then have sc1: "sc1 = sc" using t by (auto simp: take_from_leaf_def split: direction.splits if_splits)
    obtain sc2 where a: "advance_leaf S s sc = Inr (True, sc2)" "scan_next S s sc2 = (Some (Inr e), sc')"
      using "1.prems" t None nd sc1 by (subst (asm) scan_next.simps) (auto split: if_splits sum.splits bool.splits)
    have "work_left sc' < work_left sc2"
      using "1.IH" [OF nd t [symmetric] None, unfolded sc1, OF a(1) refl _ a(2)] by simp
    then show ?thesis using advance_leaf_work [OF a(1)] by simp
  qed
qed

lemma done_scan: "sc_done sc \<Longrightarrow> scan_next S s sc = (None, sc)"
  by (subst scan_next.simps) simp

lemma scan_finite: "\<exists>xs. \<forall>n. scan_take S s n sc = take n xs"
proof (induction sc rule: measure_induct_rule [where f = work_left])
  case (less sc)
  obtain r sc' where r: "scan_next S s sc = (r, sc')" by fastforce
  show ?case
  proof (cases r)
    case None
    have "scan_take S s n sc = take n []" for n using r None by (cases n) simp_all
    then show ?thesis by blast
  next
    case (Some x)
    have "\<exists>xs. \<forall>n. scan_take S s n sc' = take n xs"
    proof (cases x)
      case (Inl e)
      then have "sc_done sc'" using scan_next_stepped [of sc S s] r Some by simp
      then have "scan_take S s n sc' = take n []" for n by (cases n) (simp_all add: done_scan)
      then show ?thesis by blast
    next
      case (Inr kv)
      then have "work_left sc' < work_left sc" using scan_next_work [of S s sc kv sc'] r Some by simp
      then show ?thesis by (rule less)
    qed
    then obtain xs where xs: "\<forall>n. scan_take S s n sc' = take n xs" ..
    have "scan_take S s n sc = take n (x # xs)" for n using xs r Some by (cases n) simp_all
    then show ?thesis by blast
  qed
qed

section \<open>Properties\<close>

text \<open>C17. Every scan ends, on any store, however damaged or forged: the results of its calls are a finite list,
  and only its last one can be an error.\<close>

theorem scan_ends:
  "\<exists>xs. (\<forall>n. scan_take S s n sc = take n xs) \<and> list_all (\<lambda>x. \<not> isl x) (butlast xs)"
proof -
  obtain xs where xs: "\<forall>n. scan_take S s n sc = take n xs" using scan_finite [of S s sc] by blast
  have "\<not> isl x" if x: "x \<in> set (butlast xs)" for x
  proof -
    from x obtain i where i: "Suc i < length xs" "xs ! i = x" by (auto simp: in_set_conv_nth nth_butlast less_diff_conv)
    moreover have "scan_take S s (length xs) sc = xs" using xs by simp
    ultimately show ?thesis using scan_take_stepped [of sc S s "length xs"] by (cases x) (metis Suc_lessD nat_neq_iff, simp)
  qed
  with xs show ?thesis by (auto simp: list_all_iff)
qed

end
