(* ===== verification/Graph_Base.thy ===== *)
theory Graph_Base
  imports Manifest Stored_Records Graph_Keys Scan_Ends Prolly_Merge
begin

text \<open>
  What the operations of the graph crate share: its error type
  (\<^verbatim>\<open>crates/acetone-graph/src/error.rs\<close>), results of operations that may not return, and loops over scans.
\<close>

section \<open>Errors and results\<close>

text \<open>The variants that the modelled operations raise; a rendered key is the key.\<close>

datatype graph_error =
    GStore store_error
  | GProlly prolly_error
  | GManifest manifest_decode_error
  | GGraphKey graph_key_error
  | GRecordEncode record_encode_error
  | GValueEncode value_encode_error
  | GRecordDecode record_decode_error
  | GSchema schema_error
  | CorruptConflicts string
  | GLabelKeyChanged bytes
  | GRelDiscriminatorChanged bytes
  | GDanglingEdge bytes string node_key
  | GInconsistentReverseEdge node_key
  | GMergeState string
  | GPropertyTypeViolation node_key bytes property_type property_type
  | GEdgePropertyTypeViolation edge_key bytes property_type property_type

text \<open>An operation that loops over a scan returns, or not (\<^const>\<open>None\<close>: it runs forever or panics).\<close>

type_synonym 'a run = "(graph_error + 'a) option"

definition gbind :: "'a run \<Rightarrow> ('a \<Rightarrow> 'b run) \<Rightarrow> 'b run" where
  "gbind m f = (case m of None \<Rightarrow> None | Some (Inl e) \<Rightarrow> Some (Inl e) | Some (Inr x) \<Rightarrow> f x)"

abbreviation (input) lift :: "graph_error + 'a \<Rightarrow> 'a run" where
  "lift \<equiv> Some"

lemma gbind_simps [simp]:
  "gbind None f = None" "gbind (Some (Inl e)) f = Some (Inl e)" "gbind (Some (Inr x)) f = f x"
  by (simp_all add: gbind_def)

lemma gbind_Some_Inr: "gbind m f = Some (Inr y) \<longleftrightarrow> (\<exists>x. m = Some (Inr x) \<and> f x = Some (Inr y))"
  by (auto simp: gbind_def split: option.splits sum.splits)

text \<open>An operation that returns, and fails only for its environment.\<close>

definition genv_error :: "graph_error \<Rightarrow> bool" where
  "genv_error e \<longleftrightarrow> (\<exists>p. e = GProlly p \<and> env_error p)"

definition gensures :: "'a run \<Rightarrow> ('a \<Rightarrow> bool) \<Rightarrow> bool" where
  "gensures m Q \<longleftrightarrow> (case m of None \<Rightarrow> False | Some (Inl e) \<Rightarrow> genv_error e | Some (Inr x) \<Rightarrow> Q x)"

lemma gensures_simps [simp]:
  "\<not> gensures None Q" "gensures (Some (Inl e)) Q \<longleftrightarrow> genv_error e" "gensures (Some (Inr x)) Q \<longleftrightarrow> Q x"
  by (simp_all add: gensures_def)

lemma gensures_gbind:
  "gensures m R \<Longrightarrow> (\<And>x. R x \<Longrightarrow> gensures (f x) Q) \<Longrightarrow> gensures (gbind m f) Q"
  by (cases m; cases "the m") auto

lemma gensures_mono: "gensures m R \<Longrightarrow> (\<And>x. R x \<Longrightarrow> Q x) \<Longrightarrow> gensures m Q"
  by (auto simp: gensures_def split: option.splits sum.splits)

lemma gensures_prolly: "ensures m Q \<Longrightarrow> gensures (lift (map_err GProlly m)) Q"
  by (cases m) (auto simp: genv_error_def)

section \<open>Loops over scans\<close>

text \<open>The body of \<^verbatim>\<open>for item in scan(..)? { let (key, value) = item?; .. }\<close> updates an accumulator.\<close>

partial_function (option) scan_loop ::
  "'s store_ops \<Rightarrow> 's \<Rightarrow> (bytes \<times> bytes \<Rightarrow> 'a \<Rightarrow> 'a run) \<Rightarrow> scan_state \<Rightarrow> 'a \<Rightarrow> 'a run" where
  "scan_loop S s body sc acc = (case scan_next S s sc of
       (None, _) \<Rightarrow> Some (Inr acc)
     | (Some (Inl e), _) \<Rightarrow> Some (Inl (GProlly e))
     | (Some (Inr kv), sc) \<Rightarrow>
         (case body kv acc of
            None \<Rightarrow> None
          | Some (Inl e) \<Rightarrow> Some (Inl e)
          | Some (Inr acc) \<Rightarrow> scan_loop S s body sc acc))"

definition for_scan ::
  "'s store_ops \<Rightarrow> 's \<Rightarrow> root \<Rightarrow> (bytes \<times> bytes \<Rightarrow> 'a \<Rightarrow> 'a run) \<Rightarrow> 'a \<Rightarrow> 'a run" where
  "for_scan S s root body acc =
     gbind (lift (map_err GProlly (scan S s root Unbounded Unbounded))) (\<lambda>sc. scan_loop S s body sc acc)"

text \<open>The folds such loops are, over lists: of bodies that always return, and of bodies that may not.\<close>

fun rfold :: "('b \<Rightarrow> 'a \<Rightarrow> 'e + 'a) \<Rightarrow> 'b list \<Rightarrow> 'a \<Rightarrow> 'e + 'a" where
  "rfold body [] acc = Inr acc"
| "rfold body (x # xs) acc = rbind (body x acc) (rfold body xs)"

fun gfold :: "('b \<Rightarrow> 'a \<Rightarrow> 'a run) \<Rightarrow> 'b list \<Rightarrow> 'a \<Rightarrow> 'a run" where
  "gfold body [] acc = Some (Inr acc)"
| "gfold body (x # xs) acc = gbind (body x acc) (gfold body xs)"

lemma gfold_cong [fundef_cong]:
  "xs = ys \<Longrightarrow> acc = acc' \<Longrightarrow> (\<And>x acc. x \<in> set ys \<Longrightarrow> f x acc = g x acc) \<Longrightarrow> gfold f xs acc = gfold g ys acc'"
  by (induction xs arbitrary: ys acc acc') (auto simp: gbind_def split: option.splits sum.splits)

lemma scan_loop_ok:
  "\<forall>n. scan_take S s n sc = map Inr (take n kvs) \<Longrightarrow> scan_loop S s body sc acc = gfold body kvs acc"
proof (induction kvs arbitrary: sc acc)
  case Nil
  have "scan_take S s (Suc 0) sc = []" using Nil [rule_format, of "Suc 0"] by (simp only: list.map take_Nil)
  then obtain sc' where "scan_next S s sc = (None, sc')"
    by (auto split: prod.splits option.splits)
  then show ?case by (subst scan_loop.simps) simp
next
  case (Cons kv kvs)
  have "scan_take S s (Suc 0) sc = [Inr kv]"
    using Cons.prems [rule_format, of "Suc 0"] by (simp only: list.map take_Suc_Cons take_0)
  then obtain sc' where n: "scan_next S s sc = (Some (Inr kv), sc')"
    by (auto split: prod.splits option.splits)
  have "scan_take S s m sc' = map Inr (take m kvs)" for m
    using Cons.prems [rule_format, of "Suc m"] n by simp
  with Cons.IH n show ?case by (subst scan_loop.simps) (auto simp: gbind_def split: option.splits sum.splits)
qed

text \<open>A loop over a scan returns, on any store, when its body does.\<close>

lemma scan_loop_returns:
  assumes "\<And>kv acc. body kv acc \<noteq> None"
  shows "scan_loop S s body sc acc \<noteq> None"
proof -
  obtain xs where "\<forall>n. scan_take S s n sc = take n xs" using scan_finite [of S s sc] by blast
  then show ?thesis
  proof (induction xs arbitrary: sc acc)
    case Nil
    then obtain sc' where "scan_next S s sc = (None, sc')" using Nil [rule_format, of "Suc 0"] by (auto split: prod.splits option.splits)
    then show ?case by (subst scan_loop.simps) simp
  next
    case (Cons x xs)
    obtain sc' where n: "scan_next S s sc = (Some x, sc')" using Cons.prems [rule_format, of "Suc 0"] by (auto split: prod.splits option.splits)
    have "scan_take S s m sc' = take m xs" for m using Cons.prems [rule_format, of "Suc m"] n by simp
    then have "scan_loop S s body sc' acc' \<noteq> None" for acc' using Cons.IH by blast
    with n assms show ?case by (subst scan_loop.simps) (cases x; auto split: option.splits sum.splits)
  qed
qed

lemma for_scan_returns: "(\<And>kv acc. body kv acc \<noteq> None) \<Longrightarrow> for_scan S s r body acc \<noteq> None"
  using scan_loop_returns [of body S s] by (cases "scan S s r Unbounded Unbounded") (simp_all add: for_scan_def)

lemma for_scan_ok: "intact S s kvs r \<Longrightarrow> for_scan S s r body acc = gfold body kvs acc"
  using seek_ok [of S s kvs r Unbounded Unbounded Forward]
  by (auto simp: for_scan_def scan_def intro!: scan_loop_ok)

text \<open>An invariant of the part of the list that is done carries a fold.\<close>

lemma gensures_gfold:
  assumes "I [] acc" and step: "\<And>xs x ys acc. zs = xs @ x # ys \<Longrightarrow> I xs acc \<Longrightarrow> gensures (body x acc) (I (xs @ [x]))"
  shows "gensures (gfold body zs acc) (I zs)"
proof -
  have "gensures (gfold body ys acc) (I zs)" if "zs = xs @ ys" "I xs acc" for xs ys acc
    using that
  proof (induction ys arbitrary: xs acc)
    case (Cons y ys)
    show ?case using Cons.IH [of "xs @ [y]"] Cons.prems(1) step [OF Cons.prems]
      by (auto intro: gensures_gbind)
  qed simp
  from this [of "[]" zs] assms(1) show ?thesis by simp
qed

section \<open>Maps under persisted roots\<close>

definition holds_map ::
  "'s store_ops \<Rightarrow> (bytes \<Rightarrow> hash) \<Rightarrow> 's \<Rightarrow> chunk_params \<Rightarrow> map_root \<Rightarrow> (bytes \<rightharpoonup> bytes) \<Rightarrow> bool" where
  "holds_map S addr s params mr m \<longleftrightarrow>
     (\<exists>r. map_root_to_root mr params = Inr r \<and> root_params r = params \<and> is_map S addr s r m)"

lemma map_root_to_from: "1 \<le> root_height r \<Longrightarrow> root_height r \<le> MAX_HEIGHT \<Longrightarrow> map_root_to_root (map_root_from_root r) (root_params r) = Inr r"
  by (simp add: map_root_to_root_def map_root_from_root_def root_new_def MAX_HEIGHT_def unat_of_nat)

lemma holds_map_from_root: "is_map S addr s r m \<Longrightarrow> holds_map S addr s (root_params r) (map_root_from_root r) m"
  using map_root_to_from [of r] by (auto simp: holds_map_def is_map_def canon_root_def Let_def)

lemma holds_map_grows: "holds_map S addr s params mr m \<Longrightarrow> grows S s s' \<Longrightarrow> holds_map S addr s' params mr m"
  unfolding holds_map_def by (blast intro: is_map_grows)

lemma holds_map_open:
  assumes "holds_map S addr s params mr m"
  obtains r kvs where "map_root_to_root mr params = Inr r" "root_params r = params" "is_map S addr s r m"
    "intact S s kvs r" "m = map_of kvs" "distinct (map fst kvs)" "card (dom m) = length kvs"
proof -
  from assms obtain r kvs where r: "map_root_to_root mr params = Inr r" "root_params r = params" "is_map S addr s r m"
    "canon_root S addr s kvs r" "m = map_of kvs"
    by (auto simp: holds_map_def is_map_def)
  then show ?thesis
    using that [OF r(1-3) canon_intact [OF r(4)] r(5)] canon_root_sorted [OF r(4)] card_dom_sorted [of kvs]
    by (simp add: strict_sorted_iff)
qed

text \<open>A fresh map from a batch, as \<^verbatim>\<open>empty(..)?\<close> and \<^verbatim>\<open>apply_batch(..)?\<close> on it build it.\<close>

definition fresh_map :: "'s store_ops \<Rightarrow> 's \<Rightarrow> chunk_params \<Rightarrow> batch_op list \<Rightarrow> (root \<times> 's) run" where
  "fresh_map S s params ops =
     gbind (lift (map_err GProlly (empty_map S s params))) (\<lambda>(base, s).
     lift (map_err GProlly (apply_batch S s base ops)))"

lemma fresh_map_ok:
  assumes "chunk_store S addr" "length ops \<le> 2 ^ 64"
  shows "gensures (fresh_map S s params ops) (\<lambda>(r, s').
    grows S s s' \<and> root_params r = params \<and> is_map S addr s' r (fold apply_to_map ops Map.empty))"
proof -
  have "ensures (empty_map S s params) (\<lambda>(e, s'). grows S s s' \<and> root_params e = params \<and> is_map S addr s' e Map.empty)"
    unfolding empty_map_def
    by (rule ensures_mono [OF bulk_load_spec [OF assms(1)]]) (auto simp: is_map_def norm_def)
  then have "gensures (lift (map_err GProlly (empty_map S s params)))
      (\<lambda>(e, s'). grows S s s' \<and> root_params e = params \<and> is_map S addr s' e Map.empty)" by (rule gensures_prolly)
  moreover have "fits (length ops) Map.empty" using assms(2) by (simp add: fits_def)
  ultimately show ?thesis unfolding fresh_map_def
    by (elim gensures_gbind)
      (auto intro!: gensures_mono [OF gensures_prolly [OF apply_batch_map [OF assms(1)]]] intro: grows_trans)
qed

lemma update_map_ok:
  assumes "chunk_store S addr" "is_map S addr s r m" "fits (length ops) m"
  shows "gensures (lift (map_err GProlly (apply_batch S s r ops))) (\<lambda>(r', s').
    grows S s s' \<and> root_params r' = root_params r \<and> is_map S addr s' r' (fold apply_to_map ops m))"
  by (rule gensures_prolly [OF apply_batch_map [OF assms]])

section \<open>Sets\<close>

text \<open>A \<^verbatim>\<open>BTreeSet\<close> is the ascending list of its elements.\<close>

definition btree_set :: "'a :: linorder list \<Rightarrow> 'a list" where
  "btree_set xs = dedup (sort xs)"

lemma btree_set_spec [simp]: "set (btree_set xs) = set xs" "sorted_wrt (<) (btree_set xs)"
proof -
  show "set (btree_set xs) = set xs" by (simp add: btree_set_def)
  have "distinct (btree_set xs)"
    using sorted_distinct_adj [of "btree_set xs"] by (simp add: btree_set_def)
  then show "sorted_wrt (<) (btree_set xs)" by (simp add: strict_sorted_iff btree_set_def)
qed

end
