(* ===== verification/Derived_Maps.thy ===== *)
theory Derived_Maps
  imports Graph_Base
begin

text \<open>
  Maps derived from a primary map: each pair of the primary map contributes at most one key, with an empty
  value. The reverse edge map and the index maps of a graph are derived; what keeps them consistent is the
  same for both and is proved once, in the locale \<open>derived_map\<close>.
\<close>

definition derived :: "(bytes \<Rightarrow> bytes \<Rightarrow> bytes option) \<Rightarrow> (bytes \<rightharpoonup> bytes) \<Rightarrow> (bytes \<rightharpoonup> bytes)" where
  "derived entry_of m = (\<lambda>e. if \<exists>k v. m k = Some v \<and> entry_of k v = Some e then Some [] else None)"

text \<open>The operations that follow a change of one pair.\<close>

definition delta_ops :: "bytes option \<Rightarrow> bytes option \<Rightarrow> batch_op list" where
  "delta_ops old new =
     (if old \<noteq> new
      then (case old of Some k \<Rightarrow> [Delete k] | None \<Rightarrow> []) @ (case new of Some k \<Rightarrow> [Put k []] | None \<Rightarrow> [])
      else [])"

definition build_ops :: "(bytes \<Rightarrow> bytes \<Rightarrow> bytes option) \<Rightarrow> (bytes \<times> bytes) list \<Rightarrow> batch_op list" where
  "build_ops entry_of kvs = concat (map (\<lambda>(k, v). case entry_of k v of Some e \<Rightarrow> [Put e []] | None \<Rightarrow> []) kvs)"

locale derived_map =
  fixes entry_of :: "bytes \<Rightarrow> bytes \<Rightarrow> bytes option"
  assumes owner: "entry_of k v = Some e \<Longrightarrow> entry_of k' v' = Some e \<Longrightarrow> k = k'"
begin

lemma derived_update:
  "derived entry_of (m(k := after)) =
     fold apply_to_map (delta_ops (Option.bind (m k) (entry_of k)) (Option.bind after (entry_of k))) (derived entry_of m)"
proof
  fix e
  show "derived entry_of (m(k := after)) e =
     fold apply_to_map (delta_ops (Option.bind (m k) (entry_of k)) (Option.bind after (entry_of k))) (derived entry_of m) e"
  proof (cases "\<exists>v. entry_of k v = Some e")
    case True
    then have only: "entry_of k' v = Some e \<Longrightarrow> k' = k" for k' v using owner by blast
    have "derived entry_of h e = (if Option.bind (h k) (entry_of k) = Some e then Some [] else None)" for h
      using only by (fastforce simp: derived_def bind_eq_Some_conv)
    then show ?thesis
      by (cases "Option.bind (m k) (entry_of k)"; cases "Option.bind after (entry_of k)") (auto simp: delta_ops_def)
  next
    case False
    have "derived entry_of (m(k := after)) e = derived entry_of m e"
      using False by (auto simp: derived_def split: if_splits)
    moreover have "Option.bind w (entry_of k) \<noteq> Some e" for w using False by (simp add: bind_eq_Some_conv)
    ultimately show ?thesis
      by (cases "Option.bind (m k) (entry_of k)"; cases "Option.bind after (entry_of k)")
        (force simp: delta_ops_def)+
  qed
qed

lemma derived_updates:
  assumes "distinct ks"
  shows "fold apply_to_map (concat (map (\<lambda>k. delta_ops (Option.bind (before k) (entry_of k)) (Option.bind (after k) (entry_of k))) ks))
      (derived entry_of before) = derived entry_of (\<lambda>k. if k \<in> set ks then after k else before k)"
  using assms
proof (induction ks rule: rev_induct)
  case (snoc k ks)
  let ?h = "\<lambda>j. if j \<in> set ks then after j else before j"
  have "(\<lambda>j. if j \<in> set (ks @ [k]) then after j else before j) = ?h(k := after k)" by auto
  moreover have "?h k = before k" using snoc.prems by simp
  ultimately show ?case using snoc derived_update [of ?h k "after k"] by simp
qed simp

lemma derived_build: "distinct (map fst kvs) \<Longrightarrow> fold apply_to_map (build_ops entry_of kvs) Map.empty = derived entry_of (map_of kvs)"
proof (induction kvs rule: rev_induct)
  case Nil
  show ?case by (simp add: build_ops_def derived_def)
next
  case (snoc kv kvs)
  obtain k v where kv: "kv = (k, v)" by (cases kv)
  have none: "map_of kvs k = None" using snoc.prems by (auto simp: kv map_of_eq_None_iff)
  have "map_of (kvs @ [kv]) = (map_of kvs)(k \<mapsto> v)"
    using none by (auto simp: kv fun_eq_iff map_add_def split: option.splits)
  moreover have "fold apply_to_map (delta_ops None (entry_of k v)) m =
      fold apply_to_map (case entry_of k v of Some e \<Rightarrow> [Put e []] | None \<Rightarrow> []) m" for m
    by (cases "entry_of k v") (simp_all add: delta_ops_def)
  ultimately show ?case using snoc derived_update [of "map_of kvs" k "Some v"] none by (simp add: build_ops_def kv fun_upd_def)
qed

end

lemma card_derived: "finite (dom m) \<Longrightarrow> card (dom (derived f m)) \<le> card (dom m)"
proof -
  assume "finite (dom m)"
  moreover have "dom (derived f m) \<subseteq> (\<lambda>k. the (f k (the (m k)))) ` dom m"
    by (force simp: derived_def split: if_splits)
  ultimately show ?thesis by (meson card_image_le card_mono finite_imageI order_trans)
qed

lemma length_delta_ops: "length (delta_ops old new) \<le> 2"
  by (auto simp: delta_ops_def split: option.splits)

lemma length_build_ops: "length (build_ops f kvs) \<le> length kvs"
  by (induction kvs) (auto simp: build_ops_def split: option.splits)

section \<open>The reverse of the forward edges\<close>

definition rev_entry :: "bytes \<Rightarrow> bytes \<Rightarrow> bytes option" where
  "rev_entry k v = (case rbind (decode_fwd k) encode_rev of Inr x \<Rightarrow> Some x | Inl _ \<Rightarrow> None)"

lemma decoded_node:
  assumes "node_key_decode x = Inr k"
  shows "node_key_ok k" "node_key_encode k = Inr x" "norm_node k = k"
proof -
  have d: "rbind (map_err GDecode (decode_key x)) node_key_of_tuple = Inr k"
    using assms by (simp add: node_key_decode_def)
  note s = node_layout.strict [OF d]
  then show "node_key_ok k" "node_key_encode k = Inr x" by (simp_all add: node_key_encode_def)
  from node_layout.roundtrip [of k x] s d show "norm_node k = k" by simp
qed

lemma decoded_edge:
  assumes "decode_fwd x = Inr e"
  shows "edge_key_ok e" "encode_fwd e = Inr x" "norm_edge e = e"
proof -
  note d = assms [unfolded decode_edge_of]
  note s = fwd_layout.strict [OF d]
  then show "edge_key_ok e" "encode_fwd e = Inr x" by (simp_all add: encode_fwd_def encode_tuple_def)
  from fwd_layout.roundtrip [of e x] s d show "norm_edge e = e" by simp
qed

lemma decode_rev_encode: "edge_key_ok e \<Longrightarrow> encode_rev e = Inr x \<Longrightarrow> decode_rev x = Inr (norm_edge e)"
  unfolding decode_edge_of encode_rev_def encode_tuple_def
  by (rule rev_layout.roundtrip) (simp_all add: map_err_Inr_iff)

interpretation reverse_edges: derived_map rev_entry
proof
  fix k v e k' v'
  assume "rev_entry k v = Some e" "rev_entry k' v' = Some e"
  then obtain a b where a: "decode_fwd k = Inr a" "encode_rev a = Inr e" and b: "decode_fwd k' = Inr b" "encode_rev b = Inr e"
    by (auto simp: rev_entry_def rbind_Inr_iff split: sum.splits)
  have "a = b" using decode_rev_encode [of a e] decode_rev_encode [of b e] decoded_edge [OF a(1)] decoded_edge [OF b(1)] a(2) b(2)
    by simp
  then show "k = k'" using decoded_edge(2) [OF a(1)] decoded_edge(2) [OF b(1)] by simp
qed

end
