(* ===== verification/Graph_Sample.thy ===== *)
theory Graph_Sample
  imports Graph_Base
begin

text \<open>
  A graph of one node in a memory store, beside the empty map: the concrete inputs of the examples of the
  graph crate.
\<close>

definition sample_key :: bytes where
  "sample_key = [0x0c, 6, 0x50, 0, 0, 0, 0, 0, 0, 0, 0xf8, 4, 0x80, 0, 0, 0, 0, 0, 0, 7, 0]"

definition sample_node :: bytes where
  "sample_node = [0x82, 0x80, 0xa1, 0x61, 0x6b, 0x01]"

definition empty_leaf :: bytes where "empty_leaf = [0, 0, 0, 0, 0]"

definition node_leaf :: bytes where
  "node_leaf = [0, 0, 0, 0, 1, 0, 0, 0, 21] @ sample_key @ [0, 0, 0, 6] @ sample_node"

definition sample_objs :: "(hash \<times> bytes) list" where
  "sample_objs = [(mem_digest node_leaf, node_leaf), (mem_digest empty_leaf, empty_leaf)]"

definition empty_root :: root where
  "empty_root = \<lparr>root_hash = mem_digest empty_leaf, root_height = 1, root_params = tiny\<rparr>"

definition node_root :: root where
  "node_root = \<lparr>root_hash = mem_digest node_leaf, root_height = 1, root_params = tiny\<rparr>"

lemmas sample_defs = sample_key_def sample_node_def empty_leaf_def node_leaf_def sample_objs_def empty_root_def node_root_def
  tiny_def

lemma sample_loaded:
  "bulk_load (mem_store 1000) [] tiny [] = Inr (empty_root, [(mem_digest empty_leaf, empty_leaf)])"
  "bulk_load (mem_store 1000) [(mem_digest empty_leaf, empty_leaf)] tiny [(sample_key, sample_node)] =
     Inr (node_root, sample_objs)"
  by (simp_all add: tree_eval sample_defs norm_def)

lemma sample_maps:
  "is_map (mem_store 1000) mem_digest sample_objs empty_root Map.empty"
  "is_map (mem_store 1000) mem_digest sample_objs node_root [sample_key \<mapsto> sample_node]"
proof -
  have a: "is_map (mem_store 1000) mem_digest [(mem_digest empty_leaf, empty_leaf)] empty_root Map.empty"
    using bulk_load_map [OF mem_chunk_store [of 1000], of "[]" "[]" tiny] by (simp add: sample_loaded fits_def)
  have b: "grows (mem_store 1000) [(mem_digest empty_leaf, empty_leaf)] sample_objs \<and>
      is_map (mem_store 1000) mem_digest sample_objs node_root [sample_key \<mapsto> sample_node]"
    using bulk_load_map [OF mem_chunk_store [of 1000], of "[(sample_key, sample_node)]" "[(mem_digest empty_leaf, empty_leaf)]" tiny]
    by (simp add: sample_loaded fits_def)
  show "is_map (mem_store 1000) mem_digest sample_objs empty_root Map.empty"
    using is_map_grows [OF a] b by blast
  show "is_map (mem_store 1000) mem_digest sample_objs node_root [sample_key \<mapsto> sample_node]" using b by blast
qed

lemma sample_decodes:
  "node_key_decode sample_key = Inr \<lparr>nk_label = [0x50], nk_key = [VInt 7]\<rparr>"
  "node_record_decode sample_node = Inr \<lparr>nr_labels = [], nr_properties = [([0x6b], VInt 1)]\<rparr>"
proof -
  let ?k = "\<lparr>nk_label = [0x50], nk_key = [VInt 7]\<rparr>" and ?r = "\<lparr>nr_labels = [], nr_properties = [([0x6b], VInt 1)]\<rparr>"
  have "node_key_ok ?k" by (simp add: node_key_ok_def scalar_def check_scalar_def)
  moreover have "node_key_encode ?k = Inr sample_key"
    by (simp add: node_key_encode_def node_key_to_value_def sample_key_def eval_simps)
  ultimately show "node_key_decode sample_key = Inr ?k"
    using node_layout.roundtrip [of ?k sample_key] by (simp add: node_key_encode_def node_key_decode_def norm_node_def)
  have "node_record_ok ?r"
    by (simp add: node_record_ok_def properties_ok_def bt_ok_def canon_ascending_def is_str_def)
  moreover have "node_record_encode ?r = Inr sample_node"
    by (simp add: node_record_encode_def write_name_array_def write_properties_def write_text_map_def sort_by_def
        sample_node_def eval_simps)
  ultimately show "node_record_decode sample_node = Inr ?r"
    using node_record_decode_encode [of ?r sample_node] by (simp add: canon_properties_def)
qed

end
