(* ===== verification/Graph_Index.thy ===== *)
theory Graph_Index
  imports Derived_Maps Graph_Sample
begin

text \<open>
  Declared property indexes (\<^verbatim>\<open>crates/acetone-graph/src/index.rs\<close>): the entry a node contributes, the
  rebuild of an index from the nodes and its incremental maintenance.
\<close>

section \<open>Index entries\<close>

type_synonym label_keys = "(bytes, bytes list) btree_map"

fun schema_index_step ::
  "schema_entry \<Rightarrow> (bytes \<times> index_def) list \<times> label_keys \<Rightarrow> (bytes \<times> index_def) list \<times> label_keys" where
  "schema_index_step (SIndex name def) (indexes, lk) = (indexes @ [(name, def)], lk)"
| "schema_index_step (SLabel name def) (indexes, lk) = (indexes, bt_insert name (ld_key def) lk)"
| "schema_index_step (SRelType _ _) acc = acc"

definition schema_index_info :: "schema_entry list \<Rightarrow> (bytes \<times> index_def) list \<times> label_keys" where
  "schema_index_info entries = fold schema_index_step entries ([], [])"

fun position :: "'a list \<Rightarrow> 'a \<Rightarrow> nat option" where
  "position [] x = None"
| "position (y # ys) x = (if y = x then Some 0 else map_option Suc (position ys x))"

text \<open>A property of the primary label's key tuple lives in the node key, everything else in the record.\<close>

definition indexed_value :: "node_key \<Rightarrow> node_record \<Rightarrow> label_keys \<Rightarrow> bytes \<Rightarrow> mvalue option" where
  "indexed_value node_key rec lk property =
     (case Option.bind (map_of lk (nk_label node_key)) (\<lambda>keys. position keys property) of
        Some pos \<Rightarrow> if pos < length (nk_key node_key) then Some (nk_key node_key ! pos) else None
      | None \<Rightarrow> map_of (nr_properties rec) property)"

fun indexed_values :: "node_key \<Rightarrow> node_record \<Rightarrow> label_keys \<Rightarrow> bytes list \<Rightarrow> mvalue list option" where
  "indexed_values node_key rec lk [] = Some []"
| "indexed_values node_key rec lk (property # ps) = (case indexed_value node_key rec lk property of
       None \<Rightarrow> None
     | Some v \<Rightarrow> if v = VNull then None else map_option ((#) v) (indexed_values node_key rec lk ps))"

text \<open>\<^const>\<open>None\<close> is the panic of \<^verbatim>\<open>expect\<close>; an encoding error contributes no entry (the release build).\<close>

definition index_entry_key ::
  "node_key \<Rightarrow> node_record option \<Rightarrow> index_def \<Rightarrow> label_keys \<Rightarrow> bytes option option" where
  "index_entry_key node_key rec def lk = (case rec of
       None \<Rightarrow> Some None
     | Some rec \<Rightarrow>
         let bears = nk_label node_key = id_label def \<or> (\<exists>l \<in> set (nr_labels rec). l = id_label def)
         in if \<not> bears then Some None
            else (case indexed_values node_key rec lk (id_properties def) of
                None \<Rightarrow> Some None
              | Some vals \<Rightarrow>
                  (case expect (index_entry_new (id_label def) (id_properties def) vals node_key) of
                     None \<Rightarrow> None
                   | Some entry \<Rightarrow>
                       (case index_entry_encode entry of
                          Inr bs \<Rightarrow> Some (Some bs)
                        | Inl (GEncode NanNotPermitted) \<Rightarrow> Some None
                        | Inl _ \<Rightarrow> Some None))))"

section \<open>Rebuild and maintenance\<close>

definition record_at ::
  "'s store_ops \<Rightarrow> 's \<Rightarrow> chunk_params \<Rightarrow> map_root \<Rightarrow> bytes \<Rightarrow> graph_error + node_record option" where
  "record_at S s params nodes encoded_key =
     rbind (map_err GProlly (map_root_to_root nodes params)) (\<lambda>root.
     rbind (map_err GProlly (prolly_get S s root encoded_key)) (\<lambda>found. case found of
         None \<Rightarrow> Inr None
       | Some bs \<Rightarrow> rbind (map_err GRecordDecode (node_record_decode bs)) (\<lambda>rec. Inr (Some rec))))"

definition index_node ::
  "index_def \<Rightarrow> label_keys \<Rightarrow> bytes \<times> bytes \<Rightarrow> batch_op list \<Rightarrow> batch_op list run" where
  "index_node def lk kv ops =
     gbind (lift (map_err GGraphKey (node_key_decode (fst kv)))) (\<lambda>node_key.
     gbind (lift (map_err GRecordDecode (node_record_decode (snd kv)))) (\<lambda>rec.
       case index_entry_key node_key (Some rec) def lk of
         None \<Rightarrow> None
       | Some None \<Rightarrow> Some (Inr ops)
       | Some (Some entry) \<Rightarrow> Some (Inr (ops @ [Put entry []]))))"

definition build_full ::
  "'s store_ops \<Rightarrow> 's \<Rightarrow> chunk_params \<Rightarrow> map_root \<Rightarrow> index_def \<Rightarrow> label_keys \<Rightarrow> (map_root \<times> 's) run" where
  "build_full S s params nodes def lk =
     gbind (lift (map_err GProlly (map_root_to_root nodes params))) (\<lambda>root.
     gbind (for_scan S s root (index_node def lk) []) (\<lambda>ops.
     gbind (fresh_map S s params ops) (\<lambda>(root, s). Some (Inr (map_root_from_root root, s)))))"

definition rebuild_step ::
  "'s store_ops \<Rightarrow> chunk_params \<Rightarrow> map_root \<Rightarrow> label_keys \<Rightarrow> bytes \<times> index_def \<Rightarrow>
     (bytes, map_root) btree_map \<times> 's \<Rightarrow> ((bytes, map_root) btree_map \<times> 's) run" where
  "rebuild_step S params nodes lk ix acc =
     gbind (build_full S (snd acc) params nodes (snd ix) lk) (\<lambda>(root, s).
       Some (Inr (bt_insert (fst ix) root (fst acc), s)))"

definition rebuild_all ::
  "'s store_ops \<Rightarrow> 's \<Rightarrow> manifest \<Rightarrow> schema_entry list \<Rightarrow> ((bytes, map_root) btree_map \<times> 's) run" where
  "rebuild_all S s m entries =
     (let (index_defs, lk) = schema_index_info entries
      in gfold (rebuild_step S (mf_chunk_params m) (mf_nodes m) lk) index_defs ([], s))"

type_synonym touched_state = "node_key \<times> node_record option \<times> node_record option"

fun touched_states ::
  "'s store_ops \<Rightarrow> 's \<Rightarrow> chunk_params \<Rightarrow> map_root \<Rightarrow> map_root \<Rightarrow> bytes list \<Rightarrow> graph_error + touched_state list" where
  "touched_states S s params base_nodes new_nodes [] = Inr []"
| "touched_states S s params base_nodes new_nodes (encoded # keys) =
     rbind (map_err GGraphKey (node_key_decode encoded)) (\<lambda>node_key.
     rbind (record_at S s params base_nodes encoded) (\<lambda>before.
     rbind (record_at S s params new_nodes encoded) (\<lambda>after.
     rbind (touched_states S s params base_nodes new_nodes keys) (\<lambda>states.
       Inr ((node_key, before, after) # states)))))"

fun index_ops :: "index_def \<Rightarrow> label_keys \<Rightarrow> touched_state list \<Rightarrow> batch_op list option" where
  "index_ops def lk [] = Some []"
| "index_ops def lk ((node_key, before, after) # states) =
     (case index_entry_key node_key before def lk of
        None \<Rightarrow> None
      | Some old_entry \<Rightarrow>
          (case index_entry_key node_key after def lk of
             None \<Rightarrow> None
           | Some new_entry \<Rightarrow> map_option ((@) (delta_ops old_entry new_entry)) (index_ops def lk states)))"

definition maintain_step ::
  "'s store_ops \<Rightarrow> chunk_params \<Rightarrow> map_root \<Rightarrow> touched_state list \<Rightarrow> (bytes, map_root) btree_map \<Rightarrow> label_keys \<Rightarrow>
     bytes \<times> index_def \<Rightarrow> (bytes, map_root) btree_map \<times> 's \<Rightarrow> ((bytes, map_root) btree_map \<times> 's) run" where
  "maintain_step S params new_nodes states base_indexes lk ix acc =
     (let (name, def) = ix; (out, s) = acc
      in (case map_of base_indexes name of
            Some base_root \<Rightarrow>
              (case index_ops def lk states of
                 None \<Rightarrow> None
               | Some ops \<Rightarrow>
                   if ops = [] then Some (Inr (bt_insert name base_root out, s))
                   else gbind (lift (map_err GProlly (map_root_to_root base_root params))) (\<lambda>root.
                        gbind (lift (map_err GProlly (apply_batch S s root ops))) (\<lambda>(root, s).
                          Some (Inr (bt_insert name (map_root_from_root root) out, s)))))
          | None \<Rightarrow>
              gbind (build_full S s params new_nodes def lk) (\<lambda>(root, s).
                Some (Inr (bt_insert name root out, s)))))"

definition maintain ::
  "'s store_ops \<Rightarrow> 's \<Rightarrow> chunk_params \<Rightarrow> map_root \<Rightarrow> map_root \<Rightarrow> bytes list \<Rightarrow> (bytes, map_root) btree_map \<Rightarrow>
     (bytes \<times> index_def) list \<Rightarrow> label_keys \<Rightarrow> ((bytes, map_root) btree_map \<times> 's) run" where
  "maintain S s params base_nodes new_nodes touched base_indexes index_defs lk =
     (let keys = dedup (sort touched)
      in gbind (lift (touched_states S s params base_nodes new_nodes keys)) (\<lambda>states.
           gfold (maintain_step S params new_nodes states base_indexes lk) index_defs ([], s)))"

section \<open>Indexes are derived from the nodes\<close>

definition index_def_ok :: "index_def \<Rightarrow> bool" where
  "index_def_ok def \<longleftrightarrow> index_def_new (id_label def) (id_properties def) = Inr def \<and>
     utf8_valid (id_label def) \<and> list_all utf8_valid (id_properties def)"

text \<open>The entry of an encoded node, none for bytes that are no node.\<close>

definition index_of :: "index_def \<Rightarrow> label_keys \<Rightarrow> bytes \<Rightarrow> bytes \<Rightarrow> bytes option" where
  "index_of def lk k v = (case (node_key_decode k, node_record_decode v) of
       (Inr nk, Inr rec) \<Rightarrow>
         if index_def_ok def \<and> length v < 2 ^ 63 then Option.bind (index_entry_key nk (Some rec) def lk) id else None
     | _ \<Rightarrow> None)"

lemma indexed_values_length: "indexed_values nk rec lk ps = Some vs \<Longrightarrow> length vs = length ps"
  by (induction ps arbitrary: vs) (auto split: option.splits if_splits)

lemma indexed_values_wf:
  "indexed_values nk rec lk ps = Some vs \<Longrightarrow> node_key_ok nk \<Longrightarrow> stored_properties (nr_properties rec) \<Longrightarrow> list_all wf_value vs"
proof (induction ps arbitrary: vs)
  case (Cons p ps)
  then obtain v ws where v: "indexed_value nk rec lk p = Some v" and ws: "indexed_values nk rec lk ps = Some ws" "vs = v # ws"
    by (auto split: option.splits if_splits)
  have "wf_value v"
    using v Cons.prems(2,3) map_of_stored [of "nr_properties rec" p v] stored_value_canon [of v]
    by (auto simp: indexed_value_def node_key_ok_def list_all_iff split: option.splits if_splits)
  then show ?case using Cons ws by simp
qed simp

text \<open>Declared indexes do not make the code panic, and an entry names its node.\<close>

lemma index_entry_key_total: "index_def_ok def \<Longrightarrow> index_entry_key nk rec def lk \<noteq> None"
  by (auto simp: index_entry_key_def Let_def index_def_ok_def index_def_new_def index_entry_new_def expect_def
      dest!: indexed_values_length split: option.splits sum.splits if_splits graph_key_error.splits key_encode_error.splits)

lemma index_entry_key_node:
  assumes "index_entry_key nk (Some rec) def lk = Some (Some e)" "index_def_ok def" "node_key_ok nk"
    "stored_properties (nr_properties rec)"
  shows "\<exists>ie. index_entry_ok ie \<and> index_entry_encode ie = Inr e \<and> ie_node ie = nk \<and> ie_label ie = id_label def \<and>
    ie_properties ie = id_properties def"
proof -
  from assms(1) obtain vs ie where vs: "indexed_values nk rec lk (id_properties def) = Some vs"
    and ie: "index_entry_new (id_label def) (id_properties def) vs nk = Inr ie" "index_entry_encode ie = Inr e"
    by (auto simp: index_entry_key_def Let_def expect_def
        split: option.splits sum.splits if_splits graph_key_error.splits key_encode_error.splits)
  then show ?thesis
    using indexed_values_wf [OF vs assms(3,4)] assms(2,3)
    by (intro exI [of _ ie]) (auto simp: index_entry_new_Inr index_entry_ok_def index_def_ok_def list_all_iff)
qed

interpretation index_map: derived_map "index_of def lk" for def lk
proof
  fix k v e k' v'
  assume "index_of def lk k v = Some e" "index_of def lk k' v' = Some e"
  then obtain nk rec nk' rec' where d: "index_def_ok def" "length v < 2 ^ 63" "length v' < 2 ^ 63"
    and a: "node_key_decode k = Inr nk" "node_record_decode v = Inr rec" "index_entry_key nk (Some rec) def lk = Some (Some e)"
    and b: "node_key_decode k' = Inr nk'" "node_record_decode v' = Inr rec'" "index_entry_key nk' (Some rec') def lk = Some (Some e)"
    by (auto simp: index_of_def bind_eq_Some_conv split: sum.splits if_splits)
  obtain ie where ie: "index_entry_ok ie" "index_entry_encode ie = Inr e" "ie_node ie = nk"
    using index_entry_key_node [OF a(3) d(1)] decoded_node(1) [OF a(1)] node_record_decode_stored(1) [OF a(2) d(2)] by blast
  obtain ie' where ie': "index_entry_ok ie'" "index_entry_encode ie' = Inr e" "ie_node ie' = nk'"
    using index_entry_key_node [OF b(3) d(1)] decoded_node(1) [OF b(1)] node_record_decode_stored(1) [OF b(2) d(3)] by blast
  have rt: "rbind (map_err GDecode (decode_key e)) index_of_tuple = Inr (norm_index i)"
    if "index_entry_ok i" "index_entry_encode i = Inr e" for i
    by (rule index_layout.roundtrip) (use that in \<open>auto simp: index_entry_encode_def map_err_Inr_iff\<close>)
  have "norm_index ie = norm_index ie'" using rt [OF ie(1,2)] rt [OF ie'(1,2)] by simp
  then have "norm_node nk = norm_node nk'" using ie(3) ie'(3) by (auto simp: norm_index_def dest: arg_cong [of _ _ ie_node])
  then have "nk = nk'" using decoded_node(3) [OF a(1)] decoded_node(3) [OF b(1)] by simp
  then show "k = k'" using decoded_node(2) [OF a(1)] decoded_node(2) [OF b(1)] by simp
qed

section \<open>Rebuilt and maintained indexes\<close>

definition node_map :: "(bytes \<rightharpoonup> bytes) \<Rightarrow> bool" where
  "node_map m \<longleftrightarrow> (\<forall>k v. m k = Some v \<longrightarrow>
     length v < 2 ^ 63 \<and> (\<exists>nk rec. node_key_decode k = Inr nk \<and> node_record_decode v = Inr rec))"

lemma index_nodes:
  assumes "index_def_ok def"
  shows "\<forall>(k, v) \<in> set kvs. length v < 2 ^ 63 \<and> (\<exists>nk rec. node_key_decode k = Inr nk \<and> node_record_decode v = Inr rec) \<Longrightarrow>
    gfold (index_node def lk) kvs ops = Some (Inr (ops @ build_ops (index_of def lk) kvs))"
proof (induction kvs arbitrary: ops)
  case (Cons kv kvs)
  obtain k v where kv: "kv = (k, v)" by (cases kv)
  from Cons.prems obtain nk rec where d: "node_key_decode k = Inr nk" "node_record_decode v = Inr rec" "length v < 2 ^ 63"
    by (auto simp: kv)
  obtain e where e: "index_entry_key nk (Some rec) def lk = Some e" using index_entry_key_total [OF assms] by blast
  then have "index_of def lk k v = e" using d assms by (simp add: index_of_def)
  moreover have "index_node def lk kv ops = Some (Inr (ops @ (case e of Some x \<Rightarrow> [Put x []] | None \<Rightarrow> [])))"
    using d e by (auto simp: index_node_def kv split: option.splits)
  ultimately show ?case using Cons by (auto simp: build_ops_def kv)
qed (simp add: build_ops_def)

lemma build_full_ok:
  assumes "chunk_store S addr" "holds_map S addr s params nodes m" "node_map m" "index_def_ok def" "card (dom m) \<le> 2 ^ 64"
  shows "gensures (build_full S s params nodes def lk) (\<lambda>(mr, s').
    grows S s s' \<and> holds_map S addr s' params mr (derived (index_of def lk) m))"
proof -
  obtain r kvs where r: "map_root_to_root nodes params = Inr r" "intact S s kvs r" "m = map_of kvs" "distinct (map fst kvs)"
    "card (dom m) = length kvs" using assms(2) by (rule holds_map_open)
  let ?ops = "build_ops (index_of def lk) kvs"
  have "\<forall>(k, v) \<in> set kvs. length v < 2 ^ 63 \<and> (\<exists>nk rec. node_key_decode k = Inr nk \<and> node_record_decode v = Inr rec)"
    using assms(3) r(4) by (auto simp: node_map_def r(3))
  then have ops: "for_scan S s r (index_node def lk) [] = Some (Inr ?ops)"
    unfolding for_scan_ok [OF r(2)] by (simp only: index_nodes [OF assms(4)] append_Nil)
  have "length ?ops \<le> 2 ^ 64"
    using length_build_ops [of "index_of def lk" kvs] assms(5) r(5) by linarith
  from fresh_map_ok [OF assms(1) this, of s params] show ?thesis
    unfolding build_full_def
    by (auto simp: r(1,3) ops index_map.derived_build [OF r(4)] holds_map_from_root elim!: gensures_gbind)
qed

lemma record_at_ok:
  assumes "holds_map S addr s params nodes m" "node_map m"
  shows "record_at S s params nodes k = Inr (map_option (projr \<circ> node_record_decode) (m k))"
proof -
  obtain r where "map_root_to_root nodes params = Inr r" "is_map S addr s r m" using assms(1) by (rule holds_map_open)
  moreover have "\<exists>rec. node_record_decode v = Inr rec" if "m k = Some v" for v
    using that assms(2) by (auto simp: node_map_def)
  ultimately show ?thesis by (cases "m k") (auto simp: record_at_def prolly_get_map)
qed

text \<open>The change of an index entry at a key, on encoded nodes.\<close>

definition index_delta :: "index_def \<Rightarrow> label_keys \<Rightarrow> (bytes \<rightharpoonup> bytes) \<Rightarrow> (bytes \<rightharpoonup> bytes) \<Rightarrow> bytes \<Rightarrow> batch_op list" where
  "index_delta def lk before after k =
     delta_ops (Option.bind (before k) (index_of def lk k)) (Option.bind (after k) (index_of def lk k))"

lemma touched_ok:
  assumes "holds_map S addr s params base_nodes mb" "holds_map S addr s params new_nodes mn" "node_map mb" "node_map mn"
    and "\<forall>k \<in> set keys. \<exists>nk. node_key_decode k = Inr nk"
  shows "\<exists>states. touched_states S s params base_nodes new_nodes keys = Inr states \<and>
    (\<forall>def. index_def_ok def \<longrightarrow> index_ops def lk states = Some (concat (map (index_delta def lk mb mn) keys)))"
  using assms(5)
proof (induction keys)
  case (Cons k keys)
  then obtain nk where nk: "node_key_decode k = Inr nk" by auto
  from Cons obtain states where st: "touched_states S s params base_nodes new_nodes keys = Inr states"
    "\<forall>def. index_def_ok def \<longrightarrow> index_ops def lk states = Some (concat (map (index_delta def lk mb mn) keys))" by auto
  have entry: "index_entry_key nk (map_option (projr \<circ> node_record_decode) (m k)) def lk =
      Some (Option.bind (m k) (index_of def lk k))" if "node_map m" "index_def_ok def" for m def
  proof (cases "m k")
    case None
    then show ?thesis by (simp add: index_entry_key_def)
  next
    case (Some v)
    then obtain rec where "node_record_decode v = Inr rec" "length v < 2 ^ 63" using \<open>node_map m\<close> by (auto simp: node_map_def)
    then show ?thesis using Some nk that(2) index_entry_key_total [OF that(2), of nk "Some rec" lk]
      by (auto simp: index_of_def)
  qed
  show ?case using st nk record_at_ok [OF assms(1,3)] record_at_ok [OF assms(2,4)] entry [OF assms(3)] entry [OF assms(4)]
    by (auto simp: index_delta_def [of _ _ _ _ k])
qed simp

lemma maintain_step_ok:
  assumes "chunk_store S addr" "holds_map S addr s params new_nodes mn" "node_map mn" "card (dom mn) \<le> 2 ^ 64"
    and "index_def_ok def" "distinct keys" "\<forall>k. k \<notin> set keys \<longrightarrow> mb k = mn k"
    and ops: "index_ops def lk states = Some (concat (map (index_delta def lk mb mn) keys))"
    and base: "\<forall>mr. map_of base_indexes name = Some mr \<longrightarrow> holds_map S addr s params mr (derived (index_of def lk) mb)"
    and fits: "card (dom (derived (index_of def lk) mb)) + 2 * length keys \<le> 2 ^ 64"
  shows "gensures (maintain_step S params new_nodes states base_indexes lk (name, def) (out, s)) (\<lambda>(out', s').
    grows S s s' \<and> (\<exists>mr. out' = bt_insert name mr out \<and> holds_map S addr s' params mr (derived (index_of def lk) mn)))"
proof (cases "map_of base_indexes name")
  case None
  from build_full_ok [OF assms(1-3,5,4), of lk] show ?thesis
    by (auto simp: maintain_step_def None elim!: gensures_gbind)
next
  case (Some mr)
  let ?ops = "concat (map (index_delta def lk mb mn) keys)"
  have "fold apply_to_map ?ops (derived (index_of def lk) mb) = derived (index_of def lk) (\<lambda>k. if k \<in> set keys then mn k else mb k)"
    using index_map.derived_updates [OF assms(6), where def = def and lk = lk and before = mb and after = mn] by (simp add: index_delta_def [abs_def])
  also have "(\<lambda>k. if k \<in> set keys then mn k else mb k) = mn" using assms(7) by auto
  finally have eff: "fold apply_to_map ?ops (derived (index_of def lk) mb) = derived (index_of def lk) mn" .
  have mr: "holds_map S addr s params mr (derived (index_of def lk) mb)" using base Some by simp
  show ?thesis
  proof (cases "?ops = []")
    case True
    then have "derived (index_of def lk) mb = derived (index_of def lk) mn" using eff unfolding True by simp
    then show ?thesis using mr True by (auto simp: maintain_step_def Some ops)
  next
    case False
    obtain r where r: "map_root_to_root mr params = Inr r" "root_params r = params" "is_map S addr s r (derived (index_of def lk) mb)"
      using mr by (rule holds_map_open)
    have "length ?ops \<le> 2 * length keys"
      by (induction keys) (auto simp: index_delta_def intro: add_le_mono [OF length_delta_ops, simplified])
    then have "Prolly_Map.fits (length ?ops) (derived (index_of def lk) mb)" using fits by (simp add: fits_def)
    from update_map_ok [OF assms(1) r(3) this] show ?thesis
      using False r eff by (auto simp: maintain_step_def Some ops elim!: gensures_gbind) (metis holds_map_from_root)
  qed
qed

text \<open>Both the rebuild and the maintenance go through the declared indexes one by one.\<close>

lemma index_fold_ok:
  fixes defs :: "(bytes \<times> 'd) list"
  assumes step: "\<And>name def out s1. (name, def) \<in> set defs \<Longrightarrow> grows S s s1 \<Longrightarrow>
      gensures (body (name, def) (out, s1)) (\<lambda>(out', s').
        grows S s1 s' \<and> (\<exists>mr. out' = bt_insert name mr out \<and> holds_map S addr s' params mr (D def)))"
    and "distinct (map fst defs)"
  shows "gensures (gfold body defs ([], s)) (\<lambda>(out, s'). grows S s s' \<and> bt_ok out \<and> fst ` set out = fst ` set defs \<and>
    (\<forall>(name, def) \<in> set defs. \<exists>mr. map_of out name = Some mr \<and> holds_map S addr s' params mr (D def)))"
proof -
  define I where "I = (\<lambda>(xs :: (bytes \<times> 'd) list) (out, s'). grows S s s' \<and> bt_ok out \<and> fst ` set out = fst ` set xs \<and> (\<forall>(name, def) \<in> set xs.
    \<exists>mr. map_of out name = Some mr \<and> holds_map S addr s' params mr (D def)))"
  have "gensures (gfold body defs ([], s)) (I defs)"
  proof (rule gensures_gfold)
    fix xs x ys acc
    assume split: "defs = xs @ x # ys" and "I xs acc"
    obtain name def out s1 where x: "x = (name, def)" "acc = (out, s1)" by (cases x, cases acc)
    with \<open>I xs acc\<close> have g: "grows S s s1" and out: "bt_ok out" "fst ` set out = fst ` set xs"
      and old: "\<And>n d. (n, d) \<in> set xs \<Longrightarrow> \<exists>mr. map_of out n = Some mr \<and> holds_map S addr s1 params mr (D d)"
      by (auto simp: I_def)
    have other: "n \<noteq> name" if "(n, d) \<in> set xs" for n d using assms(2) that by (force simp: split x)
    have "(name, def) \<in> set defs" by (simp add: split x)
    from step [OF this g, of out] show "gensures (body x acc) (I (xs @ [x]))"
      unfolding x
    proof (rule gensures_mono, clarify)
      fix out' s' mr
      assume s': "grows S s1 s'" "holds_map S addr s' params mr (D def)"
      show "I (xs @ [(name, def)]) (bt_insert name mr out, s')"
        using s' out grows_trans [OF g s'(1)] old other by (fastforce simp: I_def bt_insert_keys intro: holds_map_grows [OF _ s'(1)])
    qed
  qed (simp add: I_def)
  then show ?thesis by (rule gensures_mono) (auto simp: I_def)
qed

lemma rebuild_all_ok:
  assumes "chunk_store S addr" "holds_map S addr s (mf_chunk_params m) (mf_nodes m) mn" "node_map mn"
    and "schema_index_info entries = (defs, lk)" "distinct (map fst defs)" "\<forall>(name, def) \<in> set defs. index_def_ok def"
    and "card (dom mn) \<le> 2 ^ 64"
  shows "gensures (rebuild_all S s m entries) (\<lambda>(out, s'). grows S s s' \<and> bt_ok out \<and> fst ` set out = fst ` set defs \<and>
    (\<forall>(name, def) \<in> set defs. \<exists>mr. map_of out name = Some mr \<and>
      holds_map S addr s' (mf_chunk_params m) mr (derived (index_of def lk) mn)))"
  unfolding rebuild_all_def assms(4) Let_def prod.case
proof (rule index_fold_ok [OF _ assms(5)])
  fix name def out s1
  assume "(name, def) \<in> set defs" and g: "grows S s s1"
  then have d: "index_def_ok def" using assms(6) by auto
  from build_full_ok [OF assms(1) holds_map_grows [OF assms(2) g] assms(3) d assms(7), of lk]
  show "gensures (rebuild_step S (mf_chunk_params m) (mf_nodes m) lk (name, def) (out, s1)) (\<lambda>(out', s').
      grows S s1 s' \<and> (\<exists>mr. out' = bt_insert name mr out \<and>
        holds_map S addr s' (mf_chunk_params m) mr (derived (index_of def lk) mn)))"
    by (auto simp: rebuild_step_def elim!: gensures_gbind)
qed

lemma maintain_ok:
  assumes "chunk_store S addr" "holds_map S addr s params base_nodes mb" "holds_map S addr s params new_nodes mn"
    and "node_map mb" "node_map mn" "\<forall>k. mb k \<noteq> mn k \<longrightarrow> k \<in> set touched"
    and "\<forall>k \<in> set touched. \<exists>nk. node_key_decode k = Inr nk"
    and "distinct (map fst index_defs)" "\<forall>(name, def) \<in> set index_defs. index_def_ok def \<and>
      (\<forall>mr. map_of base_indexes name = Some mr \<longrightarrow> holds_map S addr s params mr (derived (index_of def lk) mb))"
    and "card (dom mb) + 2 * length touched \<le> 2 ^ 64" "card (dom mn) \<le> 2 ^ 64"
  shows "gensures (maintain S s params base_nodes new_nodes touched base_indexes index_defs lk) (\<lambda>(out, s').
    grows S s s' \<and> bt_ok out \<and> fst ` set out = fst ` set index_defs \<and> (\<forall>(name, def) \<in> set index_defs. \<exists>mr. map_of out name = Some mr \<and>
      holds_map S addr s' params mr (derived (index_of def lk) mn)))"
proof -
  let ?keys = "btree_set touched"
  have keys: "distinct ?keys" "set ?keys = set touched" "length ?keys \<le> length touched"
    using btree_set_spec [of touched] remdups_adj_length [of "sort touched"] by (simp_all add: strict_sorted_iff btree_set_def)
  obtain states where st: "touched_states S s params base_nodes new_nodes ?keys = Inr states"
    "\<forall>def. index_def_ok def \<longrightarrow> index_ops def lk states = Some (concat (map (index_delta def lk mb mn) ?keys))"
    using touched_ok [OF assms(2-5), of ?keys lk] assms(7) keys(2) by auto
  have fin: "finite (dom mb)" using assms(2) by (auto elim!: holds_map_open simp: finite_dom_map_of)
  have "gensures (gfold (maintain_step S params new_nodes states base_indexes lk) index_defs ([], s)) (\<lambda>(out, s').
      grows S s s' \<and> bt_ok out \<and> fst ` set out = fst ` set index_defs \<and> (\<forall>(name, def) \<in> set index_defs.
        \<exists>mr. map_of out name = Some mr \<and> holds_map S addr s' params mr (derived (index_of def lk) mn)))"
  proof (rule index_fold_ok [OF _ assms(8)])
    fix name def out s1
    assume nd: "(name, def) \<in> set index_defs" and g: "grows S s s1"
    have d: "index_def_ok def"
      "\<forall>mr. map_of base_indexes name = Some mr \<longrightarrow> holds_map S addr s1 params mr (derived (index_of def lk) mb)"
      using assms(9) nd holds_map_grows [OF _ g] by auto
    have fits: "card (dom (derived (index_of def lk) mb)) + 2 * length ?keys \<le> 2 ^ 64"
      using card_derived [OF fin, of "index_of def lk"] assms(10) keys(3) by linarith
    show "gensures (maintain_step S params new_nodes states base_indexes lk (name, def) (out, s1)) (\<lambda>(out', s').
        grows S s1 s' \<and> (\<exists>mr. out' = bt_insert name mr out \<and> holds_map S addr s' params mr (derived (index_of def lk) mn)))"
      by (rule maintain_step_ok [OF assms(1) holds_map_grows [OF assms(3) g] assms(5,11) d(1) keys(1) _ _ d(2) fits])
        (use assms(6) keys(2) st(2) d(1) in auto)
  qed
  then show ?thesis
    unfolding maintain_def Let_def btree_set_def [symmetric] st(1) gbind_simps
    by (rule gensures_mono) auto
qed

section \<open>Properties\<close>

text \<open>C33. Maintaining the declared indexes over the nodes a transaction touched leaves each of them
  exactly as a rebuild from the new nodes would: it returns, fails only for its environment, and every
  declared index then holds the entries of the nodes there are now, and nothing else, whether it was
  updated or newly declared.\<close>

theorem index_maintained:
  assumes "chunk_store S addr" "holds_map S addr s params base_nodes mb" "holds_map S addr s params new_nodes mn"
    and "node_map mb" "node_map mn" "\<forall>k. mb k \<noteq> mn k \<longrightarrow> k \<in> set touched"
    and "\<forall>k \<in> set touched. \<exists>nk. node_key_decode k = Inr nk"
    and "distinct (map fst index_defs)" "\<forall>(name, def) \<in> set index_defs. index_def_ok def \<and>
      (\<forall>mr. map_of base_indexes name = Some mr \<longrightarrow> holds_map S addr s params mr (derived (index_of def lk) mb))"
    and "card (dom mb) + 2 * length touched \<le> 2 ^ 64" "card (dom mn) \<le> 2 ^ 64"
  shows "gensures (maintain S s params base_nodes new_nodes touched base_indexes index_defs lk) (\<lambda>(out, s').
    grows S s s' \<and> (\<forall>(name, def) \<in> set index_defs. \<exists>mr. map_of out name = Some mr \<and>
      holds_map S addr s' params mr (derived (index_of def lk) mn)))"
  by (rule gensures_mono [OF maintain_ok [OF assms]]) auto

theorem index_maintained_witness:
  "gensures (maintain (mem_store 1000) sample_objs tiny (map_root_from_root empty_root) (map_root_from_root node_root)
      [sample_key] [([0x69], map_root_from_root empty_root)]
      [([0x69], \<lparr>id_label = [0x50], id_properties = [[0x6b]]\<rparr>)] [([0x50], [[0x6e]])])
    (\<lambda>(out, s'). \<exists>mr. map_of out [0x69] = Some mr \<and>
      holds_map (mem_store 1000) mem_digest s' tiny mr
        (derived (index_of \<lparr>id_label = [0x50], id_properties = [[0x6b]]\<rparr> [([0x50], [[0x6e]])]) [sample_key \<mapsto> sample_node]))"
proof -
  let ?def = "\<lparr>id_label = [0x50 :: u8], id_properties = [[0x6b]]\<rparr>" and ?lk = "[([0x50 :: u8], [[0x6e :: u8]])]"
  have h: "holds_map (mem_store 1000) mem_digest sample_objs tiny (map_root_from_root empty_root) Map.empty"
    "holds_map (mem_store 1000) mem_digest sample_objs tiny (map_root_from_root node_root) [sample_key \<mapsto> sample_node]"
    using sample_maps [THEN holds_map_from_root] by (simp_all add: empty_root_def node_root_def)
  have n: "node_map Map.empty" "node_map [sample_key \<mapsto> sample_node]"
    using sample_decodes by (simp_all add: node_map_def) (simp add: sample_node_def)
  have d: "index_def_ok ?def" by (simp add: index_def_ok_def index_def_new_def)
  have e: "derived (index_of ?def ?lk) Map.empty = Map.empty" by (simp add: derived_def)
  have "gensures (maintain (mem_store 1000) sample_objs tiny (map_root_from_root empty_root) (map_root_from_root node_root)
      [sample_key] [([0x69], map_root_from_root empty_root)] [([0x69], ?def)] ?lk) (\<lambda>(out, s').
    grows (mem_store 1000) sample_objs s' \<and> (\<forall>(name, def) \<in> set [([0x69 :: u8], ?def)]. \<exists>mr. map_of out name = Some mr \<and>
      holds_map (mem_store 1000) mem_digest s' tiny mr (derived (index_of def ?lk) [sample_key \<mapsto> sample_node])))"
    by (rule index_maintained [OF mem_chunk_store h n])
      (use sample_decodes(1) d h(1) e in \<open>auto split: if_splits\<close>)
  then show ?thesis by (rule gensures_mono) auto
qed

end
