(* ===== verification/Conflicts_Map.thy ===== *)
theory Conflicts_Map
  imports Graph_Sample
begin

text \<open>
  The persisted conflicts of a merge in progress (\<^verbatim>\<open>crates/acetone-graph/src/conflicts.rs\<close>, with the conflict
  types of \<^verbatim>\<open>merge.rs\<close>): the keys of the conflicts map, building it, clearing what was written, reading it
  back.
\<close>

section \<open>Conflicts\<close>

datatype conflict_map = CSchema | CNodes | CEdges

record cell_conflict =
  cc_map :: conflict_map
  cc_key :: bytes
  cc_property :: "bytes option"
  cc_base :: "bytes option"
  cc_ours :: "bytes option"
  cc_theirs :: "bytes option"

datatype endpoint = Src | Dst

datatype graph_violation =
    DanglingEdge (dv_edge: bytes) (dv_endpoint: bytes) (dv_role: endpoint)
  | MissingRequired (mv_node: bytes) (mv_property: bytes)
  | WrongType (wv_node: bytes) (wv_property: bytes) (wv_declared: property_type) (wv_actual: property_type)
  | EdgeWrongType (ev_edge: bytes) (ev_property: bytes) (ev_declared: property_type) (ev_actual: property_type)
  | StaleDiscriminator (sv_edge: bytes) (sv_declared: "bytes option") (sv_minted: "bytes option")
  | UniqueViolation (uv_label: bytes) (uv_property: bytes) (uv_value: bytes) (uv_nodes: "bytes list")

datatype merge_conflict = MCell cell_conflict | MGraph graph_violation

datatype workspace_conflict =
    WCell conflict_map bytes "bytes option"
  | WGraph graph_violation

section \<open>Entry keys\<close>

definition KIND_CELL :: u8 where "KIND_CELL = 0"
definition KIND_GRAPH :: u8 where "KIND_GRAPH = 1"

definition MAP_SCHEMA :: u8 where "MAP_SCHEMA = 0"
definition MAP_NODES :: u8 where "MAP_NODES = 1"
definition MAP_EDGES :: u8 where "MAP_EDGES = 2"

fun map_tag :: "conflict_map \<Rightarrow> u8" where
  "map_tag CSchema = MAP_SCHEMA"
| "map_tag CNodes = MAP_NODES"
| "map_tag CEdges = MAP_EDGES"

definition map_from_tag :: "u8 \<Rightarrow> conflict_map option" where
  "map_from_tag tag =
     (if tag = MAP_SCHEMA then Some CSchema
      else if tag = MAP_NODES then Some CNodes
      else if tag = MAP_EDGES then Some CEdges
      else None)"

definition push_field :: "bytes \<Rightarrow> bytes \<Rightarrow> bytes" where
  "push_field key bs = key @ be_u32 (of_nat (length bs)) @ bs"

definition cell_key_prefix :: "conflict_map \<Rightarrow> bytes \<Rightarrow> bytes" where
  "cell_key_prefix m key = push_field [KIND_CELL, map_tag m] key"

fun role_tag :: "endpoint \<Rightarrow> u8" where
  "role_tag Src = 0"
| "role_tag Dst = 1"

fun violation_key :: "graph_violation \<Rightarrow> bytes" where
  "violation_key (DanglingEdge edge _ role) = push_field [KIND_GRAPH, 0, role_tag role] edge"
| "violation_key (MissingRequired node property) = push_field (push_field [KIND_GRAPH, 1] property) node"
| "violation_key (WrongType node property declared _) =
     push_field (push_field (push_field [KIND_GRAPH, 3] property) (type_as_str declared)) node"
| "violation_key (EdgeWrongType edge property declared _) =
     push_field (push_field (push_field [KIND_GRAPH, 4] property) (type_as_str declared)) edge"
| "violation_key (StaleDiscriminator edge declared _) =
     push_field (case declared of
         Some name \<Rightarrow> push_field [KIND_GRAPH, 5, 1] name
       | None \<Rightarrow> [KIND_GRAPH, 5, 0]) edge"
| "violation_key (UniqueViolation label property val _) =
     push_field (push_field (push_field [KIND_GRAPH, 2] label) property) val"

fun conflict_entry_key :: "merge_conflict \<Rightarrow> bytes" where
  "conflict_entry_key (MCell c) =
     (case cc_property c of
        Some property \<Rightarrow> push_field (cell_key_prefix (cc_map c) (cc_key c) @ [1]) property
      | None \<Rightarrow> cell_key_prefix (cc_map c) (cc_key c) @ [0])"
| "conflict_entry_key (MGraph v) = violation_key v"

text \<open>The cursor of the reader is the unread suffix.\<close>

definition read_field :: "bytes \<Rightarrow> (bytes \<times> bytes) option" where
  "read_field r =
     (if length r < 4 then None
      else let len = unat (u32_of_be (take 4 r)); rest = drop 4 r
           in if length rest < len then None else Some (take len rest, drop len rest))"

definition decode_entry :: "bytes \<Rightarrow> graph_error + workspace_conflict option" where
  "decode_entry key =
     (let invalid = CorruptConflicts ''conflicts-map entry key is malformed''
      in case key of
           [] \<Rightarrow> Inl invalid
         | kind # r \<Rightarrow>
             if kind = KIND_CELL
             then (case r of
                 [] \<Rightarrow> Inl invalid
               | tag # r \<Rightarrow> (case map_from_tag tag of
                     None \<Rightarrow> Inl invalid
                   | Some m \<Rightarrow> (case read_field r of
                         None \<Rightarrow> Inl invalid
                       | Some (map_key, r) \<Rightarrow> (case r of
                             [] \<Rightarrow> Inl invalid
                           | b # r \<Rightarrow>
                               if b = 0 then Inr (Some (WCell m map_key None))
                               else if b = 1 then (case read_field r of
                                   None \<Rightarrow> Inl invalid
                                 | Some (bs, _) \<Rightarrow>
                                     if utf8_valid bs then Inr (Some (WCell m map_key (Some bs))) else Inl invalid)
                               else Inl invalid))))
             else if kind = KIND_GRAPH then Inr None
             else Inl invalid)"

section \<open>The map\<close>

definition build_conflicts_map ::
  "'s store_ops \<Rightarrow> 's \<Rightarrow> chunk_params \<Rightarrow> merge_conflict list \<Rightarrow> (root \<times> 's) run" where
  "build_conflicts_map S s params conflicts =
     (let ops = map (\<lambda>c. Put (conflict_entry_key c) []) conflicts
      in fresh_map S s params ops)"

definition clear_written ::
  "'s store_ops \<Rightarrow> 's \<Rightarrow> root \<Rightarrow> (conflict_map \<times> bytes) list \<Rightarrow> (root option \<times> 's) run" where
  "clear_written S s root written =
     (let prefixes = map (\<lambda>(m, key). cell_key_prefix m key) written
      in gbind (for_scan S s root (\<lambda>(entry, _) ops.
             Some (Inr (if \<exists>p \<in> set prefixes. prefix p entry then ops @ [Delete entry] else ops))) []) (\<lambda>ops.
         gbind (lift (map_err GProlly (apply_batch S s root ops))) (\<lambda>(reduced, s).
         gbind (lift (map_err GProlly (scan S s reduced Unbounded Unbounded))) (\<lambda>sc.
           case fst (scan_next S s sc) of
             None \<Rightarrow> Some (Inr (None, s))
           | Some _ \<Rightarrow> Some (Inr (Some reduced, s))))))"

record persisted_entries =
  pe_cells :: "workspace_conflict list"
  pe_graph_markers :: nat

definition read_conflict_entries :: "'s store_ops \<Rightarrow> 's \<Rightarrow> root \<Rightarrow> persisted_entries run" where
  "read_conflict_entries S s root =
     gbind (for_scan S s root (\<lambda>(key, _) (cells, graph_markers).
         gbind (lift (decode_entry key)) (\<lambda>found. case found of
             Some cell \<Rightarrow> Some (Inr (cells @ [cell], graph_markers))
           | None \<Rightarrow> Some (Inr (cells, graph_markers + 1)))) ([], 0)) (\<lambda>(cells, graph_markers).
       Some (Inr \<lparr>pe_cells = cells, pe_graph_markers = graph_markers\<rparr>))"

section \<open>Fields\<close>

definition field_ok :: "bytes \<Rightarrow> bool" where
  "field_ok bs \<longleftrightarrow> length bs < 2 ^ 32"

fun conflict_ok :: "merge_conflict \<Rightarrow> bool" where
  "conflict_ok (MCell c) \<longleftrightarrow> field_ok (cc_key c) \<and> (\<forall>p \<in> set_option (cc_property c). field_ok p \<and> utf8_valid p)"
| "conflict_ok (MGraph (DanglingEdge edge _ _)) \<longleftrightarrow> field_ok edge"
| "conflict_ok (MGraph (MissingRequired node p)) \<longleftrightarrow> field_ok node \<and> field_ok p"
| "conflict_ok (MGraph (WrongType node p _ _)) \<longleftrightarrow> field_ok node \<and> field_ok p"
| "conflict_ok (MGraph (EdgeWrongType edge p _ _)) \<longleftrightarrow> field_ok edge \<and> field_ok p"
| "conflict_ok (MGraph (StaleDiscriminator edge d _)) \<longleftrightarrow> field_ok edge \<and> (\<forall>n \<in> set_option d. field_ok n)"
| "conflict_ok (MGraph (UniqueViolation l p v _)) \<longleftrightarrow> field_ok l \<and> field_ok p \<and> field_ok v"

text \<open>The fields that identify a conflict; the rest follows from them and the merged versions.\<close>

fun conflict_id :: "merge_conflict \<Rightarrow> merge_conflict" where
  "conflict_id (MCell c) = MCell (c\<lparr>cc_base := None, cc_ours := None, cc_theirs := None\<rparr>)"
| "conflict_id (MGraph (DanglingEdge edge _ role)) = MGraph (DanglingEdge edge [] role)"
| "conflict_id (MGraph (MissingRequired node p)) = MGraph (MissingRequired node p)"
| "conflict_id (MGraph (WrongType node p ty _)) = MGraph (WrongType node p ty TBool)"
| "conflict_id (MGraph (EdgeWrongType edge p ty _)) = MGraph (EdgeWrongType edge p ty TBool)"
| "conflict_id (MGraph (StaleDiscriminator edge d _)) = MGraph (StaleDiscriminator edge d None)"
| "conflict_id (MGraph (UniqueViolation l p v _)) = MGraph (UniqueViolation l p v [])"

definition field :: "bytes \<Rightarrow> bytes" where
  "field bs = be_u32 (of_nat (length bs)) @ bs"

lemma push_field_append: "push_field key bs = key @ field bs"
  by (simp add: push_field_def field_def)

lemma field_append_eq:
  assumes "field_ok a" "field_ok b"
  shows "field a @ r = field b @ r' \<longleftrightarrow> a = b \<and> r = r'"
proof
  assume eq: "field a @ r = field b @ r'"
  then have "be_u32 (of_nat (length a)) = be_u32 (of_nat (length b))" and rest: "a @ r = b @ r'"
    by (simp_all add: field_def be_u32_def)
  then have "unat (of_nat (length a) :: u32) = unat (of_nat (length b) :: u32)" by (metis nat_of_be_words(2))
  then have "length a = length b" using assms by (simp add: field_ok_def unat_of_nat)
  then show "a = b \<and> r = r'" using rest by simp
qed simp

lemma field_eq: "field_ok a \<Longrightarrow> field_ok b \<Longrightarrow> field a = field b \<longleftrightarrow> a = b"
  using field_append_eq [of a b "[]" "[]"] by simp

lemma read_field_field: "field_ok bs \<Longrightarrow> read_field (field bs @ r) = Some (bs, r)"
  by (simp add: read_field_def field_def field_ok_def u32_of_be_def unat_of_nat Let_def)

lemma type_field_ok [simp]: "field_ok (type_as_str ty)"
  by (cases ty) (simp_all add: field_ok_def lit_def)

lemma type_as_str_inject [simp]: "type_as_str a = type_as_str b \<longleftrightarrow> a = b"
  by (metis Inr_inject type_parse_as_str)

lemma map_tag_inject [simp]: "map_tag a = map_tag b \<longleftrightarrow> a = b"
  by (cases a; cases b) (simp_all add: MAP_SCHEMA_def MAP_NODES_def MAP_EDGES_def)

lemma role_tag_inject [simp]: "role_tag a = role_tag b \<longleftrightarrow> a = b"
  by (cases a; cases b) simp_all

lemmas entry_key_simps = push_field_append cell_key_prefix_def KIND_CELL_def KIND_GRAPH_def field_append_eq field_eq

lemma cell_entry_key:
  "conflict_entry_key (MCell c) = cell_key_prefix (cc_map c) (cc_key c) @
     (case cc_property c of Some p \<Rightarrow> 1 # field p | None \<Rightarrow> [0])"
  by (simp add: push_field_append split: option.splits)

text \<open>C34. The keys of the conflicts map tell conflicts apart: two conflicts have the same key exactly when
  they agree in what identifies them (map, key and property of a cell; class and the distinguishing
  fields of a violation), and no cell has the key of a violation.\<close>

theorem conflict_keys_distinct:
  assumes "conflict_ok c" "conflict_ok c'"
  shows "conflict_entry_key c = conflict_entry_key c' \<longleftrightarrow> conflict_id c = conflict_id c'"
proof (cases c)
  case cell: (MCell a)
  show ?thesis
  proof (cases c')
    case (MCell b)
    then show ?thesis using assms cell
      by (cases a; cases b) (auto simp: cell_entry_key entry_key_simps simp del: conflict_entry_key.simps split: option.splits)
  next
    case (MGraph v)
    then show ?thesis using cell by (cases v) (auto simp: cell_entry_key entry_key_simps simp del: conflict_entry_key.simps(1) split: option.splits)
  qed
next
  case (MGraph v)
  show ?thesis
  proof (cases c')
    case (MCell b)
    then show ?thesis using MGraph by (cases v) (auto simp: cell_entry_key entry_key_simps simp del: conflict_entry_key.simps(1) split: option.splits)
  next
    case (MGraph w)
    then show ?thesis using assms \<open>c = MGraph v\<close>
      by (cases v; cases w) (auto simp: entry_key_simps split: option.splits)
  qed
qed

theorem conflict_keys_distinct_witness:
  "conflict_entry_key (MGraph (DanglingEdge [1] [2] Src)) \<noteq> conflict_entry_key (MGraph (DanglingEdge [1] [3] Dst)) \<and>
   conflict_entry_key (MGraph (MissingRequired [1] [2])) = conflict_entry_key (MGraph (MissingRequired [1] [2]))"
  using conflict_keys_distinct [of "MGraph (DanglingEdge [1] [2] Src)" "MGraph (DanglingEdge [1] [3] Dst)"]
  by (simp add: field_ok_def)

section \<open>Entries\<close>

definition conflict_entries :: "merge_conflict set \<Rightarrow> (bytes \<rightharpoonup> bytes)" where
  "conflict_entries C = (\<lambda>e. if e \<in> conflict_entry_key ` C then Some [] else None)"

fun cell_of :: "merge_conflict \<Rightarrow> workspace_conflict option" where
  "cell_of (MCell c) = Some (WCell (cc_map c) (cc_key c) (cc_property c))"
| "cell_of (MGraph v) = None"

fun is_written :: "(conflict_map \<times> bytes) list \<Rightarrow> merge_conflict \<Rightarrow> bool" where
  "is_written written (MCell c) \<longleftrightarrow> (cc_map c, cc_key c) \<in> set written"
| "is_written written (MGraph v) \<longleftrightarrow> False"

lemma map_from_tag_inverse [simp]: "map_from_tag (map_tag m) = Some m"
  by (cases m) (simp_all add: map_from_tag_def MAP_SCHEMA_def MAP_NODES_def MAP_EDGES_def)

lemma violation_key_kind: "\<exists>r. violation_key v = KIND_GRAPH # r"
  by (cases v) (simp_all add: push_field_def split: option.splits)

lemma decode_entry_key: "conflict_ok c \<Longrightarrow> decode_entry (conflict_entry_key c) = Inr (cell_of c)"
proof (cases c)
  case (MCell a)
  assume "conflict_ok c"
  then show ?thesis unfolding MCell cell_entry_key
    by (auto simp: MCell decode_entry_def entry_key_simps read_field_field read_field_field [where r = "[]", simplified]
        split: option.splits)
next
  case (MGraph v)
  then show ?thesis using violation_key_kind [of v] by (auto simp: decode_entry_def KIND_CELL_def KIND_GRAPH_def)
qed

lemma cell_prefix_iff:
  assumes "conflict_ok c" "field_ok key"
  shows "prefix (cell_key_prefix m key) (conflict_entry_key c) \<longleftrightarrow> is_written [(m, key)] c"
proof (cases c)
  case (MCell a)
  have "field_ok (cc_key a)" using assms(1) MCell by simp
  then show ?thesis unfolding MCell cell_entry_key using assms(2)
    by (auto simp: prefix_def entry_key_simps)
next
  case (MGraph v)
  then show ?thesis using violation_key_kind [of v] by (auto simp: prefix_def entry_key_simps)
qed

lemma conflict_entries_build: "fold apply_to_map (map (\<lambda>c. Put (conflict_entry_key c) []) cs) Map.empty = conflict_entries (set cs)"
proof (induction cs rule: rev_induct)
  case (snoc c cs)
  then show ?case by (auto simp: conflict_entries_def fun_eq_iff)
qed (simp add: conflict_entries_def)

lemma read_fold:
  "\<forall>kv \<in> set kvs. decode_entry (fst kv) = Inr (f (fst kv)) \<Longrightarrow>
     gfold (\<lambda>(key, _) (cells, graph_markers).
         gbind (lift (decode_entry key)) (\<lambda>found. case found of
             Some cell \<Rightarrow> Some (Inr (cells @ [cell], graph_markers))
           | None \<Rightarrow> Some (Inr (cells, graph_markers + 1)))) kvs (cells, n) =
     Some (Inr (cells @ List.map_filter (f \<circ> fst) kvs, n + length (filter (\<lambda>kv. f (fst kv) = None) kvs)))"
  by (induction kvs arbitrary: cells n) (auto simp: map_filter_simps split: option.splits)

lemma clear_fold:
  "gfold (\<lambda>(entry, _) ops. Some (Inr (if P entry then ops @ [Delete entry] else ops))) kvs ops =
     Some (Inr (ops @ map (\<lambda>kv. Delete (fst kv)) (filter (\<lambda>kv. P (fst kv)) kvs)))"
  by (induction kvs arbitrary: ops) auto

lemma deletes: "fold apply_to_map (map (\<lambda>kv. Delete (fst kv)) kvs) m = (\<lambda>k. if k \<in> fst ` set kvs then None else m k)"
  by (induction kvs arbitrary: m) (auto simp: fun_eq_iff)

section \<open>The life of a conflicts map\<close>

lemma conflicts_kvs:
  assumes "is_map S addr s root (conflict_entries C)"
  obtains kvs where "intact S s kvs root" "fst ` set kvs = conflict_entry_key ` C" "sorted_wrt (<) (map fst kvs)"
    "map_of kvs = conflict_entries C"
proof -
  obtain kvs where k: "canon_root S addr s kvs root" "conflict_entries C = map_of kvs" using assms by (auto simp: is_map_def)
  have "fst ` set kvs = dom (conflict_entries C)" by (simp add: k(2) dom_map_of_conv_image_fst)
  also have "\<dots> = conflict_entry_key ` C" by (auto simp: conflict_entries_def split: if_splits)
  finally show ?thesis using that canon_intact [OF k(1)] canon_root_sorted [OF k(1)] k(2) by metis
qed

lemma map_filter_conv: "List.map_filter g xs = map (the \<circ> g) (filter (\<lambda>x. g x \<noteq> None) xs)"
  by (induction xs) (auto simp: map_filter_simps split: option.splits)

lemma cell_of_key: "cell_of c = Some w \<Longrightarrow> cell_of c' = Some w \<Longrightarrow> conflict_entry_key c = conflict_entry_key c'"
  by (cases c; cases c') (auto split: option.splits)

lemma read_back:
  assumes "is_map S addr s root (conflict_entries C)" "\<forall>c \<in> C. conflict_ok c"
  shows "\<exists>pe. read_conflict_entries S s root = Some (Inr pe) \<and> distinct (pe_cells pe) \<and>
    set (pe_cells pe) = {WCell (cc_map c) (cc_key c) (cc_property c) | c. MCell c \<in> C} \<and>
    pe_graph_markers pe = card {violation_key v | v. MGraph v \<in> C}"
proof -
  obtain kvs where k: "intact S s kvs root" "fst ` set kvs = conflict_entry_key ` C" "sorted_wrt (<) (map fst kvs)"
    by (rule conflicts_kvs [OF assms(1)])
  have dist: "distinct (map fst kvs)" using k(3) by (simp add: strict_sorted_iff)
  define f where "f e = projr (decode_entry e)" for e
  have f: "decode_entry (conflict_entry_key c) = Inr (f (conflict_entry_key c)) \<and> f (conflict_entry_key c) = cell_of c"
    if "c \<in> C" for c using decode_entry_key [of c] assms(2) that by (simp add: f_def)
  have "\<forall>kv \<in> set kvs. decode_entry (fst kv) = Inr (f (fst kv))"
  proof
    fix kv assume "kv \<in> set kvs"
    then obtain c where "c \<in> C" "fst kv = conflict_entry_key c" using k(2) by blast
    then show "decode_entry (fst kv) = Inr (f (fst kv))" using f by simp
  qed
  note fold = read_fold [OF this, of "[]" 0]
  let ?cells = "List.map_filter f (map fst kvs)" and ?marks = "filter (\<lambda>e. f e = None) (map fst kvs)"
  have run: "read_conflict_entries S s root = Some (Inr \<lparr>pe_cells = ?cells, pe_graph_markers = length ?marks\<rparr>)"
    unfolding read_conflict_entries_def for_scan_ok [OF k(1)] fold
    by (simp add: map_filter_conv comp_def filter_map)
  have cells: "set ?cells = {WCell (cc_map c) (cc_key c) (cc_property c) | c. MCell c \<in> C}"
  proof -
    have "set ?cells = {w. \<exists>e \<in> fst ` set kvs. f e = Some w}" by (force simp: map_filter_conv)
    also have "\<dots> = {w. \<exists>c \<in> C. cell_of c = Some w}" unfolding k(2) using f by auto
    also have "\<dots> = {WCell (cc_map c) (cc_key c) (cc_property c) | c. MCell c \<in> C}"
      by (auto elim!: cell_of.elims intro: bexI [of _ "MCell _"])
    finally show ?thesis .
  qed
  have "inj_on (the \<circ> f) {e \<in> fst ` set kvs. f e \<noteq> None}"
  proof (rule inj_onI)
    fix e e'
    assume e: "e \<in> {e \<in> fst ` set kvs. f e \<noteq> None}" "e' \<in> {e \<in> fst ` set kvs. f e \<noteq> None}" "(the \<circ> f) e = (the \<circ> f) e'"
    then obtain c c' where c: "c \<in> C" "e = conflict_entry_key c" "c' \<in> C" "e' = conflict_entry_key c'"
      unfolding k(2) by blast
    obtain w where "f e = Some w" "f e' = Some w" using e by auto
    then show "e = e'" using c f [OF c(1)] f [OF c(3)] cell_of_key [of c w c'] by metis
  qed
  then have "distinct ?cells" using dist by (auto simp: map_filter_conv distinct_map inj_on_def)
  moreover have "length ?marks = card {violation_key v | v. MGraph v \<in> C}"
  proof -
    have "set ?marks = {e \<in> conflict_entry_key ` C. f e = None}" using k(2) by auto
    also have "\<dots> = {conflict_entry_key c | c. c \<in> C \<and> cell_of c = None}" using f by fastforce
    also have "\<dots> = {violation_key v | v. MGraph v \<in> C}" by (force elim!: cell_of.elims)
    finally show ?thesis using distinct_card [of ?marks] dist by (metis distinct_filter)
  qed
  ultimately show ?thesis using run cells by simp
qed

text \<open>C35. A merge's conflicts survive in the workspace: reading the map built from a list of conflicts
  returns its cell conflicts, each once, and counts its violations; both
  the building and the reading return and fail only for the environment.\<close>

theorem conflicts_read_back:
  assumes "chunk_store S addr" "\<forall>c \<in> set cs. conflict_ok c" "length cs \<le> 2 ^ 64"
  shows "gensures (build_conflicts_map S s params cs) (\<lambda>(root, s').
    is_map S addr s' root (conflict_entries (set cs)) \<and>
    (\<exists>pe. read_conflict_entries S s' root = Some (Inr pe) \<and> distinct (pe_cells pe) \<and>
      set (pe_cells pe) = {WCell (cc_map c) (cc_key c) (cc_property c) | c. MCell c \<in> set cs} \<and>
      pe_graph_markers pe = card {violation_key v | v. MGraph v \<in> set cs}))"
proof -
  have "length (map (\<lambda>c. Put (conflict_entry_key c) []) cs) \<le> 2 ^ 64" using assms(3) by simp
  from fresh_map_ok [OF assms(1) this, of s params] show ?thesis
    unfolding build_conflicts_map_def Let_def conflict_entries_build
    by (rule gensures_mono) (auto intro: read_back [OF _ assms(2)])
qed

theorem conflicts_read_back_witness:
  "gensures (build_conflicts_map (mem_store 1000) [] tiny
      [MCell \<lparr>cc_map = CNodes, cc_key = [7], cc_property = Some [0x61], cc_base = None, cc_ours = Some [1], cc_theirs = Some [2]\<rparr>,
       MGraph (MissingRequired [7] [0x62])])
    (\<lambda>(root, s'). \<exists>pe. read_conflict_entries (mem_store 1000) s' root = Some (Inr pe) \<and>
      set (pe_cells pe) = {WCell CNodes [7] (Some [0x61])} \<and> pe_graph_markers pe = 1)"
proof -
  let ?cs = "[MCell \<lparr>cc_map = CNodes, cc_key = [7], cc_property = Some [0x61], cc_base = None, cc_ours = Some [1], cc_theirs = Some [2]\<rparr>,
    MGraph (MissingRequired [7] [0x62])]"
  have "\<forall>c \<in> set ?cs. conflict_ok c" "length ?cs \<le> 2 ^ 64" by (simp_all add: field_ok_def)
  from conflicts_read_back [OF mem_chunk_store this, of 1000 "[]" tiny] show ?thesis
    by (rule gensures_mono) auto
qed


text \<open>Writing keys resolves their conflicts and no others: clearing a list of written keys removes from
  the map exactly the cell conflicts on these keys, all properties at once, and says that none is left
  exactly when that was all of them.\<close>

lemma clear_written_exact:
  assumes "chunk_store S addr" "is_map S addr s root (conflict_entries C)" "\<forall>c \<in> C. conflict_ok c"
    and "\<forall>(m, key) \<in> set written. field_ok key" "2 * card (conflict_entry_key ` C) \<le> 2 ^ 64"
  shows "gensures (clear_written S s root written) (\<lambda>(res, s'). grows S s s' \<and>
    (case res of
       None \<Rightarrow> \<forall>c \<in> C. is_written written c
     | Some root' \<Rightarrow> (\<exists>c \<in> C. \<not> is_written written c) \<and> root_params root' = root_params root \<and>
         is_map S addr s' root' (conflict_entries {c \<in> C. \<not> is_written written c})))"
proof -
  obtain kvs where k: "intact S s kvs root" "fst ` set kvs = conflict_entry_key ` C" "sorted_wrt (<) (map fst kvs)"
    "map_of kvs = conflict_entries C"
    by (rule conflicts_kvs [OF assms(2)])
  let ?P = "\<lambda>entry. \<exists>p \<in> set (map (\<lambda>(m, key). cell_key_prefix m key) written). prefix p entry"
  let ?gone = "filter (\<lambda>kv. ?P (fst kv)) kvs"
  let ?ops = "map (\<lambda>kv. Delete (fst kv)) ?gone" and ?left = "{c \<in> C. \<not> is_written written c}"
  have P: "?P (conflict_entry_key c) \<longleftrightarrow> is_written written c" if "c \<in> C" for c
  proof -
    have "?P (conflict_entry_key c) \<longleftrightarrow> (\<exists>mk \<in> set written. prefix (cell_key_prefix (fst mk) (snd mk)) (conflict_entry_key c))"
      by (simp add: case_prod_beta)
    also have "\<dots> \<longleftrightarrow> (\<exists>mk \<in> set written. is_written [(fst mk, snd mk)] c)"
      using assms(3,4) that by (intro bex_cong refl cell_prefix_iff) auto
    also have "\<dots> \<longleftrightarrow> is_written written c" by (cases c) auto
    finally show ?thesis .
  qed
  have scan: "for_scan S s root (\<lambda>(entry, _) ops. Some (Inr (if ?P entry then ops @ [Delete entry] else ops))) [] =
      Some (Inr ?ops)"
    unfolding for_scan_ok [OF k(1)] clear_fold by simp
  have eff: "fold apply_to_map ?ops (conflict_entries C) = conflict_entries ?left"
  proof
    fix e
    have left: "e \<in> conflict_entry_key ` ?left \<longleftrightarrow> e \<in> conflict_entry_key ` C \<and> \<not> ?P e" using P by blast
    have gone: "e \<in> fst ` set ?gone \<longleftrightarrow> e \<in> conflict_entry_key ` C \<and> ?P e"
      unfolding k(2) [symmetric] by force
    show "fold apply_to_map ?ops (conflict_entries C) e = conflict_entries ?left e"
      unfolding deletes conflict_entries_def gone left by simp
  qed
  have "length ?ops \<le> length kvs" by simp
  also have "length kvs = card (conflict_entry_key ` C)"
    using k(2,3) distinct_card [of "map fst kvs"] by (simp add: strict_sorted_iff)
  finally have "fits (length ?ops) (conflict_entries C)"
    using assms(5) card_dom_sorted [OF k(3)] k(4) \<open>length kvs = _\<close> by (simp add: fits_def)
  from update_map_ok [OF assms(1,2) this, unfolded eff]
  have upd: "gensures (lift (map_err GProlly (apply_batch S s root ?ops))) (\<lambda>(r', s'). grows S s s' \<and>
      root_params r' = root_params root \<and> is_map S addr s' r' (conflict_entries ?left))"
    by (rule gensures_mono) auto
  show ?thesis unfolding clear_written_def Let_def scan gbind_simps
  proof (rule gensures_gbind [OF upd], clarify)
    fix r' s'
    assume g: "grows S s s'" and rp: "root_params r' = root_params root" and r': "is_map S addr s' r' (conflict_entries ?left)"
    from r' obtain kvs' where k': "intact S s' kvs' r'" "fst ` set kvs' = conflict_entry_key ` ?left"
      by (rule conflicts_kvs)
    obtain sc where sc: "scan S s' r' Unbounded Unbounded = Inr sc" "\<forall>n. scan_take S s' n sc = map Inr (take n kvs')"
      using seek_ok [OF k'(1), of Unbounded Unbounded Forward] by (auto simp: scan_def)
    have n: "fst (scan_next S s' sc) = (if kvs' = [] then None else Some (Inr (hd kvs')))"
      using sc(2) [rule_format, of "Suc 0"] by (cases kvs') (auto split: prod.splits option.splits)
    have e: "kvs' = [] \<longleftrightarrow> (\<forall>c \<in> C. is_written written c)" using k'(2) by (cases kvs') auto
    show "gensures (gbind (lift (map_err GProlly (scan S s' r' Unbounded Unbounded))) (\<lambda>sc.
           case fst (scan_next S s' sc) of
             None \<Rightarrow> Some (Inr (None, s'))
           | Some _ \<Rightarrow> Some (Inr (Some r', s'))))
      (\<lambda>(res, s'). grows S s s' \<and> (case res of None \<Rightarrow> \<forall>c \<in> C. is_written written c
       | Some root' \<Rightarrow> (\<exists>c \<in> C. \<not> is_written written c) \<and> root_params root' = root_params root \<and>
         is_map S addr s' root' (conflict_entries {c \<in> C. \<not> is_written written c})))"
      using e g rp r' by (auto simp: sc(1) n)
  qed
qed

end
