(* ===== verification/Constraints.thy ===== *)
theory Constraints
  imports Graph_Index "HOL-Library.Product_Lexorder"
begin

text \<open>
  Declared constraints (\<^verbatim>\<open>crates/acetone-graph/src/constraints.rs\<close>): existence, declared types and UNIQUE.
  \<^verbatim>\<open>check_nodes\<close> judges a set of nodes; \<^verbatim>\<open>check_label\<close> and \<^verbatim>\<open>check_upsert\<close> stream the nodes of one label out
  of a snapshot instead.
\<close>

section \<open>Violations of one node or edge\<close>

datatype constraint_violation =
    CVMissingRequired node_key bytes
  | CVWrongType node_key bytes property_type property_type
  | CVUnique bytes bytes mvalue "node_key list"

type_synonym node_set = "(bytes, node_key \<times> node_record) btree_map"

type_synonym type_breach = "bytes \<times> property_type \<times> property_type"

text \<open>A value against a declared type.\<close>

definition type_breach :: "bytes \<Rightarrow> property_type \<Rightarrow> mvalue \<Rightarrow> type_breach option" where
  "type_breach property declared v =
     (if type_matches declared v then None
      else map_option (\<lambda>actual. (property, declared, actual)) (type_of v))"

definition type_violation :: "node_key \<Rightarrow> node_record \<Rightarrow> label_def \<Rightarrow> bytes \<times> property_type \<Rightarrow> type_breach list" where
  "type_violation key rec def = (\<lambda>(property, declared).
     case (case position (ld_key def) property of
             Some i \<Rightarrow> if i < length (nk_key key) then Some (nk_key key ! i) else None
           | None \<Rightarrow> map_of (nr_properties rec) property) of
       None \<Rightarrow> []
     | Some v \<Rightarrow> (case type_breach property declared v of None \<Rightarrow> [] | Some b \<Rightarrow> [b]))"

definition type_violations :: "node_key \<Rightarrow> node_record \<Rightarrow> label_def \<Rightarrow> type_breach list" where
  "type_violations key rec def =
     (if ld_types def = [] then [] else concat (map (type_violation key rec def) (ld_types def)))"

text \<open>The first mistyped candidate counts.\<close>

fun first_breach :: "bytes \<Rightarrow> property_type \<Rightarrow> mvalue list \<Rightarrow> type_breach list" where
  "first_breach property declared [] = []"
| "first_breach property declared (v # vs) = (case type_breach property declared v of
       None \<Rightarrow> first_breach property declared vs
     | Some b \<Rightarrow> [b])"

definition rel_type_violation :: "edge_key \<Rightarrow> edge_record \<Rightarrow> rel_type_def \<Rightarrow> bytes \<times> property_type \<Rightarrow> type_breach list" where
  "rel_type_violation key rec def = (\<lambda>(property, declared).
     first_breach property declared
       ((case map_of (er_properties rec) property of Some v \<Rightarrow> [v] | None \<Rightarrow> []) @
        (if rd_discriminator def = Some property then [ek_disc key] else [])))"

definition rel_type_violations :: "edge_key \<Rightarrow> edge_record \<Rightarrow> rel_type_def \<Rightarrow> type_breach list" where
  "rel_type_violations key rec def =
     (if rd_types def = [] then [] else concat (map (rel_type_violation key rec def) (rd_types def)))"

definition present :: "node_record \<Rightarrow> label_def \<Rightarrow> bytes \<Rightarrow> bool" where
  "present rec def property \<longleftrightarrow>
     (\<exists>k \<in> set (ld_key def). k = property) \<or> map_of (nr_properties rec) property \<noteq> None"

definition node_violations ::
  "node_key \<Rightarrow> node_record \<Rightarrow> label_def \<Rightarrow> constraint_violation list \<Rightarrow> constraint_violation list" where
  "node_violations key rec def violations =
     violations @
     map (CVMissingRequired key) (filter (\<lambda>property. \<not> present rec def property) (ld_exists def)) @
     map (\<lambda>(property, declared, actual). CVWrongType key property declared actual) (type_violations key rec def)"

section \<open>Groups of equal values\<close>

text \<open>\<^verbatim>\<open>groups.entry(k).or_insert_with(|| (value, Vec::new())).1.push(x)\<close>\<close>

definition group_push :: "'k :: linorder \<Rightarrow> 'v \<Rightarrow> 'm \<Rightarrow> ('k, 'v \<times> 'm list) btree_map \<Rightarrow> ('k, 'v \<times> 'm list) btree_map" where
  "group_push k v x groups = (case map_of groups k of
       None \<Rightarrow> bt_insert k (v, [x]) groups
     | Some (v0, xs) \<Rightarrow> bt_insert k (v0, xs @ [x]) groups)"

fun group_values ::
  "(bytes \<Rightarrow> bytes \<Rightarrow> 'k :: linorder) \<Rightarrow> 'm \<Rightarrow> properties \<Rightarrow> bytes list \<Rightarrow> ('k, mvalue \<times> 'm list) btree_map \<Rightarrow>
     graph_error + ('k, mvalue \<times> 'm list) btree_map" where
  "group_values at x ps [] groups = Inr groups"
| "group_values at x ps (property # us) groups = (case map_of ps property of
       None \<Rightarrow> group_values at x ps us groups
     | Some v \<Rightarrow> rbind (map_err (GRecordEncode \<circ> REncValue) (encode_value v)) (\<lambda>value_enc.
         group_values at x ps us (group_push (at property value_enc) v x groups)))"

section \<open>The check of a node set\<close>

definition in_focus :: "bytes set option \<Rightarrow> bytes \<Rightarrow> bool" where
  "in_focus focus encoded = (case focus of None \<Rightarrow> True | Some f \<Rightarrow> encoded \<in> f)"

definition check_node ::
  "(bytes, label_def) btree_map \<Rightarrow> bytes set option \<Rightarrow> bytes \<times> node_key \<times> node_record \<Rightarrow>
     constraint_violation list \<Rightarrow> constraint_violation list" where
  "check_node labels focus = (\<lambda>(encoded, key, rec) violations.
     if \<not> in_focus focus encoded then violations
     else (case map_of labels (nk_label key) of
         None \<Rightarrow> violations
       | Some def \<Rightarrow> node_violations key rec def violations))"

type_synonym unique_groups = "(bytes \<times> bytes \<times> bytes, mvalue \<times> (bytes \<times> node_key) list) btree_map"

definition group_node ::
  "(bytes, label_def) btree_map \<Rightarrow> bytes \<times> node_key \<times> node_record \<Rightarrow> unique_groups \<Rightarrow> graph_error + unique_groups" where
  "group_node labels = (\<lambda>(encoded, key, rec) groups.
     case map_of labels (nk_label key) of
       None \<Rightarrow> Inr groups
     | Some def \<Rightarrow>
         group_values (\<lambda>property value_enc. (nk_label key, property, value_enc)) (encoded, key) (nr_properties rec)
           (ld_unique def) groups)"

definition unique_violations :: "bytes set option \<Rightarrow> unique_groups \<Rightarrow> constraint_violation list" where
  "unique_violations focus groups =
     map (\<lambda>((label, property, _), (v, members)). CVUnique label property v (map snd members))
       (filter (\<lambda>(_, (_, members)). \<not> (length members < 2 \<or> \<not> (\<exists>(encoded, _) \<in> set members. in_focus focus encoded))) groups)"

definition check_nodes ::
  "(bytes, label_def) btree_map \<Rightarrow> node_set \<Rightarrow> bytes set option \<Rightarrow> graph_error + constraint_violation list" where
  "check_nodes labels nodes focus =
     (let violations = fold (check_node labels focus) nodes []
      in rbind (rfold (group_node labels) nodes []) (\<lambda>groups.
           Inr (violations @ unique_violations focus groups)))"

section \<open>Streaming checks\<close>

text \<open>A loop over the nodes from a prefix on that breaks at the first key without the prefix
  (\<^verbatim>\<open>Snapshot::scan_nodes_from\<close> in \<^verbatim>\<open>repo.rs\<close>).\<close>

partial_function (option) prefix_loop ::
  "'s store_ops \<Rightarrow> 's \<Rightarrow> bytes \<Rightarrow> (bytes \<times> bytes \<Rightarrow> 'a \<Rightarrow> 'a run) \<Rightarrow> scan_state \<Rightarrow> 'a \<Rightarrow> 'a run" where
  "prefix_loop S s p body sc acc = (case scan_next S s sc of
       (None, _) \<Rightarrow> Some (Inr acc)
     | (Some (Inl e), _) \<Rightarrow> Some (Inl (GProlly e))
     | (Some (Inr kv), sc) \<Rightarrow>
         (if \<not> prefix p (fst kv) then Some (Inr acc)
          else (case body kv acc of
              None \<Rightarrow> None
            | Some (Inl e) \<Rightarrow> Some (Inl e)
            | Some (Inr acc) \<Rightarrow> prefix_loop S s p body sc acc)))"

definition scan_nodes_from :: "'s store_ops \<Rightarrow> 's \<Rightarrow> manifest \<Rightarrow> bytes \<Rightarrow> graph_error + scan_state" where
  "scan_nodes_from S s m from =
     rbind (map_err GProlly (map_root_to_root (mf_nodes m) (mf_chunk_params m))) (\<lambda>root.
     map_err GProlly (scan S s root (Included from) Unbounded))"

definition snapshot_schema_entries :: "'s store_ops \<Rightarrow> 's \<Rightarrow> manifest \<Rightarrow> schema_entry list run" where
  "snapshot_schema_entries S s m =
     gbind (lift (map_err GProlly (map_root_to_root (mf_schema m) (mf_chunk_params m)))) (\<lambda>root.
     for_scan S s root (\<lambda>kv out. lift (rbind (map_err GSchema (schema_decode (fst kv) (snd kv))) (\<lambda>e. Inr (out @ [e])))) [])"

type_synonym label_groups = "(bytes \<times> bytes, mvalue \<times> node_key list) btree_map"

definition check_label_node ::
  "label_def \<Rightarrow> bytes \<times> bytes \<Rightarrow> constraint_violation list \<times> label_groups \<Rightarrow>
     (constraint_violation list \<times> label_groups) run" where
  "check_label_node def kv acc =
     gbind (lift (map_err GGraphKey (node_key_decode (fst kv)))) (\<lambda>key.
     gbind (lift (map_err GRecordDecode (node_record_decode (snd kv)))) (\<lambda>rec.
     gbind (lift (group_values Pair key (nr_properties rec) (ld_unique def) (snd acc))) (\<lambda>groups.
       Some (Inr (node_violations key rec def (fst acc), groups)))))"

definition check_label ::
  "'s store_ops \<Rightarrow> 's \<Rightarrow> manifest \<Rightarrow> bytes \<Rightarrow> label_def \<Rightarrow> constraint_violation list run" where
  "check_label S s m label def =
     (if ld_exists def = [] \<and> ld_unique def = [] \<and> ld_types def = [] then Some (Inr [])
      else (case node_label_prefix label of
          None \<Rightarrow> None
        | Some p \<Rightarrow>
            gbind (lift (scan_nodes_from S s m p)) (\<lambda>sc.
            gbind (prefix_loop S s p (check_label_node def) sc ([], [])) (\<lambda>(violations, groups).
              Some (Inr (violations @
                map (\<lambda>((property, _), (v, members)). CVUnique label property v members)
                  (filter (\<lambda>(_, (_, members)). \<not> length members < 2) groups)))))))"

type_synonym wanted_groups = "(bytes \<times> bytes, (bytes \<times> node_key \<times> mvalue) list) btree_map"

fun seed_wanted :: "properties \<Rightarrow> bytes list \<Rightarrow> wanted_groups \<Rightarrow> graph_error + wanted_groups" where
  "seed_wanted ps [] wanted = Inr wanted"
| "seed_wanted ps (property # us) wanted = (case map_of ps property of
       None \<Rightarrow> seed_wanted ps us wanted
     | Some v \<Rightarrow> rbind (map_err (GRecordEncode \<circ> REncValue) (encode_value v)) (\<lambda>enc.
         seed_wanted ps us (bt_insert (property, enc) [] wanted)))"

fun join_wanted :: "node_record \<Rightarrow> bytes \<Rightarrow> wanted_groups \<Rightarrow> graph_error + wanted_groups" where
  "join_wanted other kbytes [] = Inr []"
| "join_wanted other kbytes (((property, enc), members) # wanted) =
     rbind (case map_of (nr_properties other) property of
              None \<Rightarrow> Inr members
            | Some v \<Rightarrow> rbind (map_err (GRecordEncode \<circ> REncValue) (encode_value v)) (\<lambda>e.
                if e \<noteq> enc then Inr members
                else rbind (map_err GGraphKey (node_key_decode kbytes)) (\<lambda>decoded.
                  Inr (members @ [(kbytes, decoded, v)])))) (\<lambda>members.
     rbind (join_wanted other kbytes wanted) (\<lambda>wanted. Inr (((property, enc), members) # wanted)))"

definition check_upsert_node :: "bytes \<Rightarrow> bytes \<times> bytes \<Rightarrow> wanted_groups \<Rightarrow> wanted_groups run" where
  "check_upsert_node encoded kv wanted =
     (if fst kv = encoded then Some (Inr wanted)
      else gbind (lift (map_err GRecordDecode (node_record_decode (snd kv)))) (\<lambda>other.
        lift (join_wanted other (fst kv) wanted)))"

text \<open>The members come in key order, so that the partition point is the end of the smaller ones.\<close>

fun upsert_violations ::
  "node_key \<Rightarrow> node_record \<Rightarrow> bytes \<Rightarrow> wanted_groups \<Rightarrow> constraint_violation list option" where
  "upsert_violations key rec encoded [] = Some []"
| "upsert_violations key rec encoded (((property, _), members) # wanted) =
     (if members = [] then upsert_violations key rec encoded wanted
      else (case map_of (nr_properties rec) property of
          None \<Rightarrow> None
        | Some v \<Rightarrow>
            let smaller = takeWhile (\<lambda>(e, _, _). e < encoded) members;
                members = smaller @ (encoded, key, v) # drop (length smaller) members
            in map_option ((#) (CVUnique (nk_label key) property (snd (snd (hd members))) (map (\<lambda>(_, k, _). k) members)))
                 (upsert_violations key rec encoded wanted)))"

fun find_label :: "bytes \<Rightarrow> schema_entry list \<Rightarrow> label_def option" where
  "find_label label [] = None"
| "find_label label (SLabel name def # es) = (if name = label then Some def else find_label label es)"
| "find_label label (_ # es) = find_label label es"

definition check_upsert ::
  "'s store_ops \<Rightarrow> 's \<Rightarrow> manifest \<Rightarrow> node_key \<Rightarrow> node_record \<Rightarrow> constraint_violation list run" where
  "check_upsert S s m key rec =
     gbind (snapshot_schema_entries S s m) (\<lambda>entries. case find_label (nk_label key) entries of
         None \<Rightarrow> Some (Inr [])
       | Some def \<Rightarrow>
           if ld_exists def = [] \<and> ld_unique def = [] \<and> ld_types def = [] then Some (Inr [])
           else
             let violations = node_violations key rec def []
             in gbind (lift (map_err GGraphKey (node_key_encode key))) (\<lambda>encoded.
                gbind (lift (seed_wanted (nr_properties rec) (ld_unique def) [])) (\<lambda>wanted.
                gbind (if wanted = [] then Some (Inr wanted)
                       else (case node_label_prefix (nk_label key) of
                           None \<Rightarrow> None
                         | Some p \<Rightarrow>
                             gbind (lift (scan_nodes_from S s m p)) (\<lambda>sc.
                               prefix_loop S s p (check_upsert_node encoded) sc wanted))) (\<lambda>wanted.
                  case upsert_violations key rec encoded wanted of
                    None \<Rightarrow> None
                  | Some unique \<Rightarrow> Some (Inr (violations @ unique))))))"


section \<open>Scans of a prefix\<close>

lemma prefix_loop_ok:
  "\<forall>n. scan_take S s n sc = map Inr (take n kvs) \<Longrightarrow>
     prefix_loop S s p body sc acc = gfold body (takeWhile (\<lambda>kv. prefix p (fst kv)) kvs) acc"
proof (induction kvs arbitrary: sc acc)
  case Nil
  have "scan_take S s (Suc 0) sc = []" using Nil [rule_format, of "Suc 0"] by (simp only: list.map take_Nil)
  then obtain sc' where "scan_next S s sc = (None, sc')"
    by (auto split: prod.splits option.splits)
  then show ?case by (subst prefix_loop.simps) simp
next
  case (Cons kv kvs)
  have "scan_take S s (Suc 0) sc = [Inr kv]"
    using Cons.prems [rule_format, of "Suc 0"] by (simp only: list.map take_Suc_Cons take_0)
  then obtain sc' where n: "scan_next S s sc = (Some (Inr kv), sc')"
    by (auto split: prod.splits option.splits)
  have "scan_take S s m sc' = map Inr (take m kvs)" for m
    using Cons.prems [rule_format, of "Suc m"] n by simp
  with Cons.IH n show ?case by (subst prefix_loop.simps) (auto simp: gbind_def split: option.splits sum.splits)
qed

lemma prefix_closed: "prefix p k' \<Longrightarrow> p \<le> k \<Longrightarrow> k < k' \<Longrightarrow> prefix p k" for p k k' :: bytes
  using prefix_successor_range [where p = p and k = k] prefix_successor_range [where p = p and k = k']
  by (auto split: option.splits)

lemma prefix_from:
  fixes p :: bytes
  assumes "sorted_wrt (<) (map fst kvs)"
  shows "takeWhile (\<lambda>kv. prefix p (fst kv)) (filter (\<lambda>kv. p \<le> fst kv) kvs) = filter (\<lambda>kv. prefix p (fst kv)) kvs"
  using assms
proof (induction kvs)
  case (Cons kv kvs)
  have le: "prefix p k \<Longrightarrow> p \<le> k" for k using prefix_successor_range [where p = p and k = k] by simp
  have "filter (\<lambda>kv. prefix p (fst kv)) kvs = []" if "p \<le> fst kv" "\<not> prefix p (fst kv)"
    using Cons.prems that by (auto simp: filter_empty_conv dest: prefix_closed)
  with Cons le show ?case by auto
qed simp

lemma scan_prefix_ok:
  assumes "map_root_to_root (mf_nodes m) (mf_chunk_params m) = Inr r" "intact S s kvs r"
  shows "gbind (lift (scan_nodes_from S s m p)) (\<lambda>sc. prefix_loop S s p body sc acc) =
    gfold body (filter (\<lambda>kv. prefix p (fst kv)) kvs) acc"
proof -
  obtain sc where sc: "scan S s r (Included p) Unbounded = Inr sc"
    "\<forall>n. scan_take S s n sc = map Inr (take n (filter (\<lambda>kv. p \<le> fst kv) kvs))"
    using seek_ok [OF assms(2), of "Included p" Unbounded Forward] by (auto simp: scan_def)
  show ?thesis
    using prefix_loop_ok [OF sc(2), of p body acc] prefix_from [OF intact_sorted [OF assms(2)], of p] sc(1) assms(1)
    by (simp add: scan_nodes_from_def)
qed

lemma gbind_assoc: "gbind m (\<lambda>x. gbind (f x) g) = gbind (gbind m f) g"
  by (auto simp: gbind_def split: option.splits sum.splits)

section \<open>What the groups hold\<close>

fun push :: "'k :: linorder \<times> 'v \<times> 'm \<Rightarrow> ('k, 'v \<times> 'm list) btree_map \<Rightarrow> ('k, 'v \<times> 'm list) btree_map" where
  "push (k, v, x) groups = group_push k v x groups"

definition group_of :: "'k \<Rightarrow> ('k \<times> 'v \<times> 'm) list \<Rightarrow> ('v \<times> 'm list) option" where
  "group_of k cs = (case filter (\<lambda>c. fst c = k) cs of
       [] \<Rightarrow> None
     | c # cs \<Rightarrow> Some (fst (snd c), map (snd \<circ> snd) (c # cs)))"

lemma groups_ok: "bt_ok (fold push cs []) \<and> map_of (fold push cs []) = (\<lambda>k. group_of k cs)"
proof (induction cs rule: rev_induct)
  case Nil
  show ?case by (simp add: group_of_def)
next
  case (snoc c cs)
  obtain k v x where c: "c = (k, v, x)" by (cases c)
  show ?case
    using snoc by (auto simp: c group_push_def group_of_def fun_eq_iff split: option.splits list.splits)
qed

definition contribs :: "(bytes \<Rightarrow> bytes \<Rightarrow> 'k) \<Rightarrow> 'm \<Rightarrow> properties \<Rightarrow> bytes list \<Rightarrow> ('k \<times> mvalue \<times> 'm) list" where
  "contribs at x ps us = concat (map (\<lambda>p. case map_of ps p of
       None \<Rightarrow> [] | Some v \<Rightarrow> [(at p (projr (encode_value v)), v, x)]) us)"

text \<open>The first value that has no encoding, the only way a grouping fails.\<close>

fun encode_failure :: "properties \<Rightarrow> bytes list \<Rightarrow> graph_error option" where
  "encode_failure ps [] = None"
| "encode_failure ps (p # us) = (case map_of ps p of
       None \<Rightarrow> encode_failure ps us
     | Some v \<Rightarrow> (case encode_value v of Inl e \<Rightarrow> Some (GRecordEncode (REncValue e)) | Inr _ \<Rightarrow> encode_failure ps us))"

lemma group_values_eq:
  "group_values at x ps us groups = (case encode_failure ps us of
     Some e \<Rightarrow> Inl e | None \<Rightarrow> Inr (fold push (contribs at x ps us) groups))"
  by (induction at x ps us groups rule: group_values.induct)
    (auto simp: contribs_def split: option.splits sum.splits)

lemma stored_encodes: "stored_properties ps \<Longrightarrow> encode_failure ps us = None"
  by (induction us) (auto split: option.splits sum.splits dest!: map_of_stored stored_value_canon)

section \<open>The streaming check of a label\<close>

text \<open>The nodes of a map, decoded: the set \<^verbatim>\<open>check_nodes\<close> is called with.\<close>

definition node_entry :: "bytes \<times> bytes \<Rightarrow> bytes \<times> node_key \<times> node_record" where
  "node_entry kv = (fst kv, projr (node_key_decode (fst kv)), projr (node_record_decode (snd kv)))"

definition node_contribs ::
  "(bytes, label_def) btree_map \<Rightarrow> bytes \<times> node_key \<times> node_record \<Rightarrow>
     ((bytes \<times> bytes \<times> bytes) \<times> mvalue \<times> bytes \<times> node_key) list" where
  "node_contribs labels = (\<lambda>(encoded, key, rec). case map_of labels (nk_label key) of
       None \<Rightarrow> []
     | Some def \<Rightarrow> contribs (\<lambda>p e. (nk_label key, p, e)) (encoded, key) (nr_properties rec) (ld_unique def))"

definition node_encodable :: "(bytes, label_def) btree_map \<Rightarrow> bytes \<times> node_key \<times> node_record \<Rightarrow> bool" where
  "node_encodable labels = (\<lambda>(encoded, key, rec). \<forall>def. map_of labels (nk_label key) = Some def \<longrightarrow>
     encode_failure (nr_properties rec) (ld_unique def) = None)"

lemma group_nodes_eq:
  "list_all (node_encodable labels) nodes \<Longrightarrow>
     rfold (group_node labels) nodes g = Inr (fold push (concat (map (node_contribs labels) nodes)) g)"
proof (induction nodes arbitrary: g)
  case (Cons n nodes)
  obtain e k r where n: "n = (e, k, r)" by (cases n)
  with Cons.prems have "node_encodable labels (e, k, r)" "list_all (node_encodable labels) nodes" by simp_all
  moreover from this have "group_node labels n g = Inr (fold push (node_contribs labels n) g)"
    by (auto simp: n group_node_def node_contribs_def group_values_eq node_encodable_def split: option.splits)
  ultimately show ?case using Cons.IH by simp
qed simp

text \<open>A sorted map that decodes, as the checks meet it.\<close>

definition decodes :: "(bytes \<times> bytes) list \<Rightarrow> bool" where
  "decodes kvs \<longleftrightarrow> (\<forall>(k, v) \<in> set kvs. length v < 2 ^ 63 \<and>
     (\<exists>nk rec. node_key_decode k = Inr nk \<and> node_record_decode v = Inr rec))"

lemma node_map_decodes: "node_map (map_of kvs) \<Longrightarrow> distinct (map fst kvs) \<Longrightarrow> decodes kvs"
  by (auto simp: node_map_def decodes_def)

lemma decodes_encodable: "decodes kvs \<Longrightarrow> list_all (node_encodable labels) (map node_entry kvs)"
  by (fastforce simp: decodes_def node_encodable_def node_entry_def list_all_iff
      dest: node_record_decode_stored(1) intro: stored_encodes)

lemma check_label_nodes:
  "decodes kvs \<Longrightarrow> gfold (check_label_node def) kvs (vs, g) = Some (Inr
     (fold (\<lambda>(e, k, r). node_violations k r def) (map node_entry kvs) vs,
      fold push (concat (map (\<lambda>(e, k, r). contribs Pair k (nr_properties r) (ld_unique def)) (map node_entry kvs))) g))"
proof (induction kvs arbitrary: vs g)
  case (Cons kv kvs)
  then obtain nk rec where d: "node_key_decode (fst kv) = Inr nk" "node_record_decode (snd kv) = Inr rec" "length (snd kv) < 2 ^ 63"
    and "decodes kvs" by (cases kv) (auto simp: decodes_def)
  then show ?case
    using Cons.IH stored_encodes [OF node_record_decode_stored(1) [OF d(2,3)]]
    by (simp add: check_label_node_def node_entry_def group_values_eq)
qed simp

lemma label_prefix_node:
  assumes "node_key_decode k = Inr nk" "node_label_prefix l = Some p"
  shows "prefix p k \<longleftrightarrow> nk_label nk = l"
  using label_prefix [of nk k l] decoded_node [OF assms(1)] assms(2) by auto

text \<open>Groups under renamed keys and members are renamed groups.\<close>

lemma bt_insert_map:
  "(\<And>x y. cmp (h x) (h y) = cmp x y) \<Longrightarrow> map (map_prod h f) (bt_insert k v m) = bt_insert (h k) (f v) (map (map_prod h f) m)"
  by (induction k v m rule: bt_insert.induct) (auto split: ordering.splits)

lemma groups_map:
  assumes "\<And>x y. cmp (h x) (h y) = cmp x y"
  shows "fold push (map (map_prod h (map_prod id f)) cs) (map (map_prod h (map_prod id (map f))) g) =
    map (map_prod h (map_prod id (map f))) (fold push cs g)"
proof (induction cs arbitrary: g)
  case (Cons c cs)
  obtain k v x where c: "c = (k, v, x)" by (cases c)
  have inj: "h a = h b \<longleftrightarrow> a = b" for a b using assms [of a b] by (auto simp: cmp_def split: if_splits)
  have "map_of (map (map_prod h (map_prod id (map f))) g) (h k) = map_option (map_prod id (map f)) (map_of g k)"
    by (induction g) (auto simp: inj)
  then have "push (map_prod h (map_prod id f) c) (map (map_prod h (map_prod id (map f))) g) =
      map (map_prod h (map_prod id (map f))) (push c g)"
    by (auto simp: c group_push_def bt_insert_map [OF assms] split: option.splits)
  then show ?case using Cons.IH [of "push c g"] by (simp only: fold.simps list.map comp_apply)
qed simp

lemma contribs_map: "contribs at' (f x) ps us = map (map_prod h (map_prod id f)) (contribs at x ps us)"
  if "\<And>p e. at' p e = h (at p e)"
  using that by (induction us) (auto simp: contribs_def split: option.splits)

lemma unconstrained:
  "ld_exists def = [] \<Longrightarrow> ld_types def = [] \<Longrightarrow> fold (\<lambda>(e, k, r). node_violations k r def) ns vs = vs"
  by (induction ns arbitrary: vs) (auto simp: node_violations_def type_violations_def)

lemma no_unique [simp]: "concat (map (\<lambda>(e, k, r). contribs at (f k) (nr_properties r) []) ns) = []"
  by (auto simp: contribs_def)

lemma unique_violations_None:
  "unique_violations None groups = map (\<lambda>((l, p, _), (v, ms)). CVUnique l p v (map snd ms)) (filter (\<lambda>(_, (_, ms)). \<not> length ms < 2) groups)"
proof -
  have "(\<exists>(e, _) \<in> set ms. in_focus None e) \<longleftrightarrow> ms \<noteq> []" for ms :: "(bytes \<times> node_key) list"
    by (cases ms) (auto simp: in_focus_def)
  then have "\<not> (length ms < 2 \<or> \<not> (\<exists>(e, _) \<in> set ms. in_focus None e)) \<longleftrightarrow> \<not> length ms < 2" for ms :: "(bytes \<times> node_key) list"
    by (cases ms) auto
  then show ?thesis unfolding unique_violations_def by simp
qed

lemma check_label_eq:
  assumes "holds_map S addr s (mf_chunk_params m) (mf_nodes m) (map_of kvs)" "sorted_wrt (<) (map fst kvs)" "node_map (map_of kvs)"
  shows "check_label S s m label def = Some (check_nodes [(label, def)] (map node_entry kvs) None)"
proof -
  obtain r kvs' where r: "map_root_to_root (mf_nodes m) (mf_chunk_params m) = Inr r" "intact S s kvs' r" "map_of kvs = map_of kvs'"
    using assms(1) by (rule holds_map_open)
  have kvs: "kvs' = kvs" using sorted_map_of_inject [OF assms(2) intact_sorted [OF r(2)] r(3)] by simp
  have dec: "decodes kvs" using node_map_decodes assms(2,3) by (simp add: strict_sorted_iff)
  obtain p where p: "node_label_prefix label = Some p"
    by (simp add: node_label_prefix_def encode_list_prefix_def write_element.simps MAX_DEPTH_def expect_def)
  let ?mine = "filter (\<lambda>kv. prefix p (fst kv)) kvs" and ?is = "\<lambda>(e, k, r :: node_record). nk_label k = label"
  have mine: "map node_entry ?mine = filter ?is (map node_entry kvs)"
    using dec label_prefix_node [OF _ p] by (auto simp: filter_map decodes_def node_entry_def comp_def intro!: arg_cong [of _ _ "map _"] filter_cong)
  have decm: "decodes ?mine" using dec by (auto simp: decodes_def)
  let ?C2 = "concat (map (\<lambda>(e, k, r). contribs Pair k (nr_properties r) (ld_unique def)) (map node_entry ?mine))"
  let ?C3 = "concat (map (node_contribs [(label, def)]) (map node_entry kvs))"
  have vio: "fold (check_node [(label, def)] None) ns vs = fold (\<lambda>(e, k, r). node_violations k r def) (filter ?is ns) vs" for ns vs
    by (induction ns arbitrary: vs) (auto simp: check_node_def in_focus_def)
  have "map (map_prod id (map_prod id snd)) (concat (map (node_contribs [(label, def)]) ns)) =
      map (map_prod (Pair label) (map_prod id id)) (concat (map (\<lambda>(e, k, r). contribs Pair k (nr_properties r) (ld_unique def)) (filter ?is ns)))"
    for ns
    by (induction ns) (auto simp: node_contribs_def contribs_def map_concat comp_def split: option.splits intro!: arg_cong [of _ _ concat])
  from this [of "map node_entry kvs"] have cs: "map (map_prod id (map_prod id snd)) ?C3 = map (map_prod (Pair label) (map_prod id id)) ?C2"
    unfolding mine .
  have "map (map_prod id (map_prod id (map snd))) (fold push ?C3 []) = map (map_prod (Pair label) (map_prod id (map id))) (fold push ?C2 [])"
    using groups_map [of id snd ?C3 "[]"] groups_map [of "Pair label" id ?C2 "[]"] cs by (simp add: cmp_def)
  from arg_cong [OF this, of "\<lambda>g. map (\<lambda>((l, p, _), (v, ms)). CVUnique l p v ms) (filter (\<lambda>(_, (_, ms)). \<not> length ms < 2) g)"]
  have un: "unique_violations None (fold push ?C3 []) =
      map (\<lambda>((p, _), (v, ms)). CVUnique label p v ms) (filter (\<lambda>(_, (_, ms)). \<not> length ms < 2) (fold push ?C2 []))"
    by (simp add: unique_violations_None filter_map comp_def case_prod_unfold)
  have "check_nodes [(label, def)] (map node_entry kvs) None = Inr (fold (\<lambda>(e, k, r). node_violations k r def) (map node_entry ?mine) [] @
      unique_violations None (fold push ?C3 []))"
    using group_nodes_eq [OF decodes_encodable [OF dec], of "[(label, def)]" "[]"]
    unfolding check_nodes_def Let_def vio mine by simp
  then show ?thesis
    using p un by (auto simp: check_label_def unconstrained gbind_assoc scan_prefix_ok [OF r(1,2) [unfolded kvs]]
        check_label_nodes [OF decm] simp del: map_map)
qed

section \<open>The check of one write\<close>

lemma bt_insert_split:
  "bt_ok m \<Longrightarrow> bt_insert k v m = filter (\<lambda>x. fst x < k) m @ (k, v) # filter (\<lambda>x. k < fst x) m"
proof (induction k v m rule: bt_insert.induct)
  case (2 k v k' v' m)
  have "k' < k \<Longrightarrow> bt_ok m" and above: "\<forall>x \<in> set m. k' < fst x" using "2.prems" by (auto simp: bt_ok_def)
  have "filter (\<lambda>x. fst x < k) m = [] \<and> filter (\<lambda>x. k < fst x) m = m" if "k \<le> k'"
    using above that by (auto simp: filter_empty_conv filter_id_conv)
  with 2 \<open>k' < k \<Longrightarrow> bt_ok m\<close> show ?case by (auto simp: cmp_def)
qed simp

text \<open>What a node contributes to one group.\<close>

lemma contribs_group:
  "distinct us \<Longrightarrow> filter (\<lambda>c. fst c = (l, p, e)) (contribs (\<lambda>p e. (l', p, e)) x ps us) =
    (if l' = l \<and> p \<in> set us
     then (case map_of ps p of Some v \<Rightarrow> if projr (encode_value v) = e then [((l, p, e), v, x)] else [] | None \<Rightarrow> [])
     else [])"
  by (induction us) (auto simp: contribs_def split: option.splits)

lemma node_group:
  assumes "map_of labels l = Some def" "distinct (ld_unique def)" "p \<in> set (ld_unique def)"
  shows "filter (\<lambda>c. fst c = (l, p, e)) (node_contribs labels (b, k, r)) =
    (if nk_label k = l
     then (case map_of (nr_properties r) p of Some v \<Rightarrow> if projr (encode_value v) = e then [((l, p, e), v, (b, k))] else [] | None \<Rightarrow> [])
     else [])"
proof (cases "nk_label k = l")
  case True
  then show ?thesis using assms by (simp add: node_contribs_def contribs_group)
next
  case False
  then have "(l, p, e) \<notin> fst ` set (node_contribs labels (b, k, r))"
    by (auto simp: node_contribs_def contribs_def split: option.splits)
  then show ?thesis using False by (auto simp: filter_empty_conv image_iff)
qed

definition hits ::
  "(bytes, label_def) btree_map \<Rightarrow> bytes \<times> bytes \<times> bytes \<Rightarrow> (bytes \<times> node_key \<times> node_record) list \<Rightarrow>
     (bytes \<times> node_key \<times> mvalue) list" where
  "hits labels g ns = map (\<lambda>(_, v, (b, k)). (b, k, v)) (filter (\<lambda>c. fst c = g) (concat (map (node_contribs labels) ns)))"

lemma hits_append [simp]: "hits labels g (ns @ ns') = hits labels g ns @ hits labels g ns'" "hits labels g [] = []"
  by (simp_all add: hits_def)

lemma group_of_hits:
  "group_of g (concat (map (node_contribs labels) ns)) = (if hits labels g ns = [] then None
     else Some (snd (snd (hd (hits labels g ns))), map (\<lambda>(b, k, _). (b, k)) (hits labels g ns)))"
  by (auto simp: group_of_def hits_def comp_def case_prod_unfold split: list.splits)

lemma hits_from: "h \<in> set (hits labels g ns) \<Longrightarrow> fst h \<in> fst ` set ns"
  by (force simp: hits_def node_contribs_def contribs_def split: option.splits)

text \<open>The seeds: one group per encoded value of the record that is declared unique.\<close>

lemma seed_wanted_eq:
  "seed_wanted ps us w = (case encode_failure ps us of
     Some e \<Rightarrow> Inl e | None \<Rightarrow> Inr (fold (\<lambda>c. bt_insert (fst c) []) (contribs Pair x ps us) w))"
  by (induction ps us w rule: seed_wanted.induct) (auto simp: contribs_def split: option.splits sum.splits)

lemma seeds:
  "bt_ok w \<Longrightarrow> bt_ok (fold (\<lambda>c. bt_insert (fst c) x) cs w) \<and>
     map_of (fold (\<lambda>c. bt_insert (fst c) x) cs w) = (\<lambda>k. if k \<in> fst ` set cs then Some x else map_of w k)"
  by (induction cs arbitrary: w) (auto simp: fun_eq_iff)

definition joined ::
  "(bytes, label_def) btree_map \<Rightarrow> bytes \<Rightarrow> (bytes \<times> node_key \<times> node_record) list \<Rightarrow> wanted_groups \<Rightarrow> wanted_groups" where
  "joined labels l ns = map (\<lambda>((p, e), ms). ((p, e), ms @ hits labels (l, p, e) ns))"

lemma join_wanted_eq:
  assumes "map_of labels l = Some def" "distinct (ld_unique def)" "fst ` fst ` set w \<subseteq> set (ld_unique def)"
    and "node_key_decode kb = Inr k" "nk_label k = l" "stored_properties (nr_properties r)"
  shows "join_wanted r kb w = Inr (joined labels l [(kb, k, r)] w)"
  using assms(3)
proof (induction w)
  case (Cons g w)
  obtain p e ms where g: "g = ((p, e), ms)" by (cases g) auto
  have "\<exists>x. encode_value v = Inr x" if "map_of (nr_properties r) p = Some v" for v
    using stored_value_canon [OF map_of_stored [OF assms(6) that]] by blast
  moreover have "p \<in> set (ld_unique def)" using Cons.prems by (simp add: g)
  ultimately show ?case
    using Cons assms(4,5) node_group [OF assms(1,2), of p e kb k r]
    by (fastforce simp: g joined_def hits_def split: option.splits)
qed (simp add: joined_def)

lemma joined_append: "joined labels l (ns @ ns') w = joined labels l ns' (joined labels l ns w)"
  by (auto simp: joined_def)

lemma joined_keys: "map fst (joined labels l ns w) = map fst w" "joined labels l [] w = w"
  by (auto simp: joined_def case_prod_unfold intro: map_idI)

lemma upsert_nodes:
  assumes "map_of labels l = Some def" "distinct (ld_unique def)"
  shows "fst ` fst ` set w \<subseteq> set (ld_unique def) \<Longrightarrow> decodes kvs \<Longrightarrow> \<forall>kv \<in> set kvs. nk_label (projr (node_key_decode (fst kv))) = l \<Longrightarrow>
    gfold (check_upsert_node encoded) kvs w =
      Some (Inr (joined labels l (filter (\<lambda>n. fst n \<noteq> encoded) (map node_entry kvs)) w))"
proof (induction kvs arbitrary: w)
  case (Cons kv kvs)
  then obtain nk rec where d: "node_key_decode (fst kv) = Inr nk" "node_record_decode (snd kv) = Inr rec" "length (snd kv) < 2 ^ 63"
    and dec: "decodes kvs" by (cases kv) (auto simp: decodes_def)
  let ?w = "joined labels l [(fst kv, nk, rec)] w"
  have w: "fst ` fst ` set ?w \<subseteq> set (ld_unique def)"
    using Cons.prems(1) joined_keys(1) [of labels l "[(fst kv, nk, rec)]" w] by (metis list.set_map)
  have "join_wanted rec (fst kv) w = Inr ?w"
    by (rule join_wanted_eq [OF assms Cons.prems(1) d(1)]) (use Cons.prems(3) d in \<open>auto intro: node_record_decode_stored\<close>)
  then show ?case
    using Cons.IH [OF w dec] Cons.IH [OF Cons.prems(1) dec] Cons.prems(3) d
      joined_append [of labels l "[(fst kv, nk, rec)]" "filter (\<lambda>n. fst n \<noteq> encoded) (map node_entry kvs)" w]
    by (simp add: check_upsert_node_def [of _ kv] node_entry_def [of kv])
qed (simp add: joined_keys)

lemma hits_label: "hits labels (l, p, e) (filter (\<lambda>(b, k, r). nk_label k = l) ns) = hits labels (l, p, e) ns"
proof (induction ns)
  case (Cons n ns)
  obtain b k r where n: "n = (b, k, r)" by (cases n)
  have "filter (\<lambda>c. fst c = (l, p, e)) (node_contribs labels n) = []" if "nk_label k \<noteq> l"
    using that by (auto simp: n node_contribs_def contribs_def filter_empty_conv split: option.splits)
  then show ?case using Cons by (auto simp: n hits_def)
qed simp

definition insert_member :: "bytes \<Rightarrow> node_key \<Rightarrow> mvalue \<Rightarrow> (bytes \<times> node_key \<times> mvalue) list \<Rightarrow> (bytes \<times> node_key \<times> mvalue) list" where
  "insert_member encoded key v ms =
     (let smaller = takeWhile (\<lambda>(e, _, _). e < encoded) ms in smaller @ (encoded, key, v) # drop (length smaller) ms)"

lemma insert_member_split:
  assumes "\<forall>x \<in> set as. fst x < encoded" "\<forall>x \<in> set bs. encoded < fst x"
  shows "insert_member encoded key v (as @ bs) = as @ (encoded, key, v) # bs"
proof -
  have "takeWhile (\<lambda>(e, _, _). e < encoded) bs = []" using assms(2) by (cases bs) auto
  moreover have "takeWhile (\<lambda>(e, _, _). e < encoded) (as @ bs) = as @ takeWhile (\<lambda>(e, _, _). e < encoded) bs"
    using assms(1) by (intro takeWhile_append2) auto
  ultimately show ?thesis by (simp add: insert_member_def)
qed

lemma upsert_violations_eq:
  "\<forall>g \<in> set w. map_of (nr_properties rec) (fst (fst g)) = Some (val (fst (fst g))) \<Longrightarrow>
     upsert_violations key rec encoded w = Some (map (\<lambda>(g, ms). CVUnique (nk_label key) (fst g)
       (snd (snd (hd (insert_member encoded key (val (fst g)) ms)))) (map (\<lambda>(_, k, _). k) (insert_member encoded key (val (fst g)) ms)))
       (filter (\<lambda>(_, ms). ms \<noteq> []) w))"
  by (induction key rec encoded w rule: upsert_violations.induct) (auto simp: insert_member_def Let_def split: option.splits)

lemma bt_filter: "bt_ok m \<Longrightarrow> bt_ok (filter P m) \<and> map_of (filter P m) k = (case map_of m k of
    None \<Rightarrow> None | Some v \<Rightarrow> if P (k, v) then Some v else None)"
proof (induction m)
  case (Cons x m)
  have "map_of m (fst x) = None" using Cons.prems by (force simp: bt_ok_def map_of_eq_None_iff)
  moreover have "bt_ok m" using Cons.prems by (simp add: bt_ok_def)
  ultimately show ?case using Cons by (auto simp: bt_ok_def split: option.splits)
qed simp

lemma bt_map_keys:
  assumes "bt_ok m" "\<And>x y :: 'a :: linorder. x < y \<Longrightarrow> h x < (h y :: 'b :: linorder)"
  shows "bt_ok (map (\<lambda>(k, v). (h k, f k v)) m) \<and> map_of (map (\<lambda>(k, v). (h k, f k v)) m) (h k) = map_option (f k) (map_of m k)"
proof -
  have "h x = h y \<longleftrightarrow> x = y" for x y using assms(2) by (metis less_irrefl linorder_less_linear)
  with assms show ?thesis
    by (induction m) (auto simp: bt_ok_def)
qed

lemma seed_keys:
  "(p, e) \<in> fst ` set (contribs Pair x ps us) \<longleftrightarrow> p \<in> set us \<and> (\<exists>v. map_of ps p = Some v \<and> e = projr (encode_value v))"
  by (force simp: contribs_def split: option.splits)

lemma joined_map_of: "map_of (joined labels l ns w) (p, e) = map_option (\<lambda>ms. ms @ hits labels (l, p, e) ns) (map_of w (p, e))"
  by (induction w) (auto simp: joined_def)

lemma own_hits:
  assumes "map_of labels (nk_label key) = Some def" "distinct (ld_unique def)"
  shows "hits labels (l, p, e) [(encoded, key, rec)] =
    (if l = nk_label key \<and> (p, e) \<in> fst ` set (contribs Pair () (nr_properties rec) (ld_unique def))
     then [(encoded, key, the (map_of (nr_properties rec) p))] else [])"
  using assms by (auto simp: hits_def node_contribs_def contribs_group seed_keys split: option.splits)

lemma upsert_unique:
  assumes l: "map_of labels (nk_label key) = Some def" "distinct (ld_unique def)"
    and A: "\<forall>n \<in> set A. fst n < encoded" and B: "\<forall>n \<in> set B. encoded < fst n"
    and W: "W = joined labels (nk_label key) (A @ B) (fold (\<lambda>c. bt_insert (fst c) []) (contribs Pair () (nr_properties rec) (ld_unique def)) [])"
  shows "Some (unique_violations (Some {encoded}) (fold push (concat (map (node_contribs labels) (A @ (encoded, key, rec) # B))) [])) =
    upsert_violations key rec encoded W"
proof -
  let ?l = "nk_label key" and ?val = "\<lambda>p. the (map_of (nr_properties rec) p)" and ?ns = "A @ (encoded, key, rec) # B"
  let ?K = "fst ` set (contribs Pair () (nr_properties rec) (ld_unique def))"
  define G where "G = fold push (concat (map (node_contribs labels) ?ns)) []"
  let ?P = "\<lambda>(g :: bytes \<times> bytes \<times> bytes, v :: mvalue, ms). \<not> (length ms < 2 \<or> \<not> (\<exists>(b, _ :: node_key) \<in> set ms. in_focus (Some {encoded}) b))"
  let ?ins = "\<lambda>g ms. insert_member encoded key (?val (fst g)) ms"
  let ?f = "\<lambda>g ms. (snd (snd (hd (?ins g ms))), map (\<lambda>(b, k, _). (b, k)) (?ins g ms))"
  let ?W = "filter (\<lambda>(_, ms). ms \<noteq> []) W"
  note seeds = seeds [of "[] :: wanted_groups" "[]" "contribs Pair () (nr_properties rec) (ld_unique def)"]
  have okW: "bt_ok W" using seeds by (simp add: W bt_ok_def joined_keys)
  have mW: "map_of W (p, e) = (if (p, e) \<in> ?K then Some (hits labels (?l, p, e) (A @ B)) else None)" for p e
    using seeds by (simp add: W joined_map_of)
  have okG: "bt_ok G" and mG: "map_of G g = group_of g (concat (map (node_contribs labels) ?ns))" for g
    using groups_ok [of "concat (map (node_contribs labels) ?ns)"] unfolding G_def by simp_all
  have split: "hits labels g ?ns = hits labels g A @ hits labels g [(encoded, key, rec)] @ hits labels g B" for g
    by (simp add: hits_def)
  have hA: "\<forall>h \<in> set (hits labels g A). fst h < encoded" and hB: "\<forall>h \<in> set (hits labels g B). encoded < fst h" for g
    using A B hits_from [of _ labels g A] hits_from [of _ labels g B] by fastforce+
  have ins: "insert_member encoded key v (hits labels g A @ hits labels g B) = hits labels g A @ (encoded, key, v) # hits labels g B" for v g
    using insert_member_split [OF hA hB] by simp
  have eq: "map_of (filter ?P G) (l, p, e) = (if l = ?l then map_option (?f (p, e)) (map_of ?W (p, e)) else None)" for l p e
  proof (cases "l = ?l \<and> (p, e) \<in> ?K")
    case True
    then have "map_of G (l, p, e) = Some (?f (p, e) (hits labels (?l, p, e) A @ hits labels (?l, p, e) B))"
      unfolding mG group_of_hits split own_hits [OF l] by (simp add: ins)
    then show ?thesis using True bt_filter [OF okG, of ?P "(l, p, e)"] bt_filter [OF okW, of "\<lambda>(_, ms). ms \<noteq> []" "(p, e)"]
      by (auto simp: mW ins in_focus_def)
  next
    case False
    then have "hits labels (l, p, e) ?ns = hits labels (l, p, e) A @ hits labels (l, p, e) B"
      unfolding split own_hits [OF l] by auto
    then have "encoded \<notin> fst ` set (hits labels (l, p, e) ?ns)"
      using hA [of "(l, p, e)"] hB [of "(l, p, e)"] by (auto simp del: hits_append)
    then have "\<forall>v ms. map_of G (l, p, e) = Some (v, ms) \<longrightarrow> encoded \<notin> fst ` set ms"
      unfolding mG group_of_hits by (auto simp: image_iff simp del: hits_append split: if_splits)
    then have "map_of (filter ?P G) (l, p, e) = None"
      using bt_filter [OF okG, of ?P "(l, p, e)"] by (fastforce simp: in_focus_def image_iff split: option.splits)
    then show ?thesis
      using False bt_filter [OF okW, of "\<lambda>(_, ms). ms \<noteq> []" "(p, e)"]
      by (auto simp: mW)
  qed
  have "filter ?P G = map (\<lambda>(g, ms). ((?l, g), ?f g ms)) ?W"
  proof (rule bt_eqI)
    have okw: "bt_ok ?W" using bt_filter [OF okW] by blast
    have mk: "bt_ok (map (\<lambda>(g, ms). ((?l, g), ?f g ms)) ?W)"
      "map_of (map (\<lambda>(g, ms). ((?l, g), ?f g ms)) ?W) (?l, g) = map_option (?f g) (map_of ?W g)" for g
      using bt_map_keys [OF okw, of "Pair ?l" ?f g] by simp_all
    show "bt_ok (filter ?P G)" using bt_filter [OF okG] by blast
    show "bt_ok (map (\<lambda>(g, ms). ((?l, g), ?f g ms)) ?W)" by (rule mk(1))
    show "map_of (filter ?P G) = map_of (map (\<lambda>(g, ms). ((?l, g), ?f g ms)) ?W)"
    proof (rule ext)
      fix g :: "bytes \<times> bytes \<times> bytes"
      obtain l p e where g: "g = (l, p, e)" by (cases g)
      show "map_of (filter ?P G) g = map_of (map (\<lambda>(g, ms). ((?l, g), ?f g ms)) ?W) g"
      proof (cases "l = ?l")
        case True
        show ?thesis unfolding g eq True if_P [OF refl] by (rule mk(2) [symmetric])
      next
        case False
        then have "map_of (map (\<lambda>(g, ms). ((?l, g), ?f g ms)) ?W) (l, p, e) = None"
          by (auto simp: map_of_eq_None_iff)
        then show ?thesis unfolding g eq if_not_P [OF False] by simp
      qed
    qed
  qed
  moreover have "\<forall>g \<in> set W. map_of (nr_properties rec) (fst (fst g)) = Some (?val (fst (fst g)))"
  proof
    fix g assume "g \<in> set W"
    then have "map_of W (fst g) \<noteq> None" by (simp add: map_of_eq_None_iff)
    then have "fst g \<in> ?K" using mW [of "fst (fst g)" "snd (fst g)"] by (auto split: if_splits)
    then show "map_of (nr_properties rec) (fst (fst g)) = Some (?val (fst (fst g)))"
      using seed_keys [of "fst (fst g)" "snd (fst g)" "()" "nr_properties rec" "ld_unique def"]
      unfolding prod.collapse by (metis option.sel)
  qed
  ultimately show ?thesis unfolding G_def [symmetric]
    by (simp add: upsert_violations_eq [where val = ?val] unique_violations_def comp_def case_prod_unfold)
qed

lemma no_focus:
  assumes "\<And>g. encoded \<notin> fst ` set (hits labels g ns)"
  shows "unique_violations (Some {encoded}) (fold push (concat (map (node_contribs labels) ns)) []) = []"
proof -
  have "encoded \<notin> fst ` set ms" if "(g, v, ms) \<in> set (fold push (concat (map (node_contribs labels) ns)) [])" for g v ms
  proof -
    note ok = groups_ok [of "concat (map (node_contribs labels) ns)"]
    from ok that have "group_of g (concat (map (node_contribs labels) ns)) = Some (v, ms)"
      by (metis bt_ok_def map_of_is_SomeI strict_sorted_iff)
    then show ?thesis using assms [of g] unfolding group_of_hits by (force split: if_splits)
  qed
  then show ?thesis by (force simp: unique_violations_def filter_empty_conv in_focus_def)
qed

text \<open>The label declarations of a list of schema entries.\<close>

definition labels_of :: "schema_entry list \<Rightarrow> (bytes, label_def) btree_map" where
  "labels_of entries = concat (map (\<lambda>e. case e of SLabel name def \<Rightarrow> [(name, def)] | _ \<Rightarrow> []) entries)"

lemma find_label_labels_of: "find_label l entries = map_of (labels_of entries) l"
  by (induction l entries rule: find_label.induct) (auto simp: labels_of_def)

definition row_entry :: "bytes \<times> bytes \<Rightarrow> schema_entry" where
  "row_entry row = projr (schema_decode (fst row) (snd row))"

definition schema_rows :: "(bytes \<times> bytes) list \<Rightarrow> bool" where
  "schema_rows rows \<longleftrightarrow> (\<forall>(k, v) \<in> set rows. \<exists>e. schema_decode k v = Inr e)"

lemma row_decodes: "schema_rows rows \<Longrightarrow> row \<in> set rows \<Longrightarrow> schema_decode (fst row) (snd row) = Inr (row_entry row)"
  by (fastforce simp: schema_rows_def row_entry_def)

lemma declared_unique:
  assumes "schema_rows rows" "map_of (labels_of (map row_entry rows)) l = Some def"
  shows "distinct (ld_unique def)"
proof -
  from map_of_SomeD [OF assms(2)] obtain row where "row \<in> set rows" "row_entry row = SLabel l def"
    by (auto simp: labels_of_def split: schema_entry.splits)
  with schema_decode_strict [OF row_decodes [OF assms(1), of row]] have "canon_ascending (ld_unique def)"
    by (auto dest: built_canonical(1))
  then show ?thesis by (simp add: canon_ascending_distinct)
qed

lemma scan_schema_rows:
  assumes "schema_rows rows"
  shows "gfold (\<lambda>kv out. lift (rbind (map_err GSchema (schema_decode (fst kv) (snd kv))) (\<lambda>e. Inr (out @ [e])))) rows out =
    Some (Inr (out @ map row_entry rows))"
  using assms
proof (induction rows arbitrary: out)
  case (Cons row rows)
  then have "schema_decode (fst row) (snd row) = Inr (row_entry row)" "schema_rows rows"
    using row_decodes [OF Cons.prems, of row] by (simp_all add: schema_rows_def)
  then show ?case using Cons.IH by simp
qed simp

lemma snapshot_schema_ok:
  assumes "holds_map S addr s (mf_chunk_params m) (mf_schema m) (map_of rows)" "sorted_wrt (<) (map fst rows)" "schema_rows rows"
  shows "snapshot_schema_entries S s m = Some (Inr (map row_entry rows))"
proof -
  obtain r rows' where r: "map_root_to_root (mf_schema m) (mf_chunk_params m) = Inr r" "intact S s rows' r" "map_of rows = map_of rows'"
    using assms(1) by (rule holds_map_open)
  have "rows' = rows" using sorted_map_of_inject [OF assms(2) intact_sorted [OF r(2)] r(3)] by simp
  then show ?thesis using r(1,2) scan_schema_rows [OF assms(3)] by (simp add: snapshot_schema_entries_def for_scan_ok)
qed


lemma filter_around: "bt_ok m \<Longrightarrow> filter (\<lambda>n. fst n \<noteq> k) m = filter (\<lambda>n. fst n < k) m @ filter (\<lambda>n. k < fst n) m"
proof (induction m)
  case (Cons n m)
  have above: "\<forall>x \<in> set m. fst n < fst x" and ok: "bt_ok m" using Cons.prems by (auto simp: bt_ok_def)
  have "filter (\<lambda>n. fst n < k) m = []" if "k \<le> fst n" using above that by (auto simp: filter_empty_conv)
  then show ?case using Cons.IH [OF ok] by auto
qed simp

lemma rfold_append: "rfold f (xs @ ys) acc = rbind (rfold f xs acc) (rfold f ys)"
  by (induction xs arbitrary: acc) (auto simp: rbind_def split: sum.splits)

text \<open>The focus node alone is judged for existence and types.\<close>

lemma focus_violations:
  assumes "\<forall>n \<in> set A. fst n < encoded" "\<forall>n \<in> set B. encoded < fst n"
  shows "fold (check_node labels (Some {encoded})) (A @ (encoded, key, rec) # B) [] =
    (case map_of labels (nk_label key) of None \<Rightarrow> [] | Some def \<Rightarrow> node_violations key rec def [])"
proof -
  have "fold (check_node labels (Some {encoded})) ns vs = vs" if "\<forall>n \<in> set ns. fst n \<noteq> encoded" for ns vs
    using that by (induction ns arbitrary: vs) (auto simp: check_node_def in_focus_def)
  moreover have "check_node labels (Some {encoded}) (encoded, key, rec) vs =
      (case map_of labels (nk_label key) of None \<Rightarrow> vs | Some def \<Rightarrow> node_violations key rec def vs)" for vs
    by (simp add: check_node_def in_focus_def)
  moreover have "\<forall>n \<in> set A. fst n \<noteq> encoded" "\<forall>n \<in> set B. fst n \<noteq> encoded" using assms by auto
  ultimately show ?thesis by simp
qed

lemma wanted_scan:
  assumes "map_root_to_root (mf_nodes m) (mf_chunk_params m) = Inr r" "intact S s kvs r" "decodes kvs"
    and "map_of labels l = Some def" "distinct (ld_unique def)" "fst ` fst ` set w \<subseteq> set (ld_unique def)"
  shows "(if w = [] then Some (Inr w)
      else (case node_label_prefix l of None \<Rightarrow> None | Some p \<Rightarrow>
          gbind (lift (scan_nodes_from S s m p)) (\<lambda>sc. prefix_loop S s p (check_upsert_node encoded) sc w))) =
    Some (Inr (joined labels l (filter (\<lambda>n. fst n \<noteq> encoded) (map node_entry kvs)) w))"
proof -
  obtain p where p: "node_label_prefix l = Some p"
    by (simp add: node_label_prefix_def encode_list_prefix_def write_element.simps MAX_DEPTH_def expect_def)
  let ?mine = "filter (\<lambda>kv. prefix p (fst kv)) kvs" and ?other = "\<lambda>n. fst n \<noteq> encoded"
  have lab: "prefix p (fst kv) \<longleftrightarrow> nk_label (projr (node_key_decode (fst kv))) = l" if "kv \<in> set kvs" for kv
    using assms(3) that label_prefix_node [OF _ p] by (cases kv) (fastforce simp: decodes_def)
  have "map node_entry ?mine = filter (\<lambda>(b, k, r). nk_label k = l) (map node_entry kvs)"
    using lab by (auto simp: filter_map comp_def node_entry_def intro!: arg_cong [of _ _ "map _"] filter_cong)
  then have "filter ?other (map node_entry ?mine) = filter (\<lambda>(b, k, r). nk_label k = l) (filter ?other (map node_entry kvs))"
    by (simp add: conj_commute)
  then have "joined labels l (filter ?other (map node_entry ?mine)) w = joined labels l (filter ?other (map node_entry kvs)) w"
    unfolding joined_def by (simp only: hits_label)
  moreover have "gfold (check_upsert_node encoded) ?mine w = Some (Inr (joined labels l (filter ?other (map node_entry ?mine)) w))"
    using assms(3) lab by (intro upsert_nodes [OF assms(4-6)]) (auto simp: decodes_def)
  moreover have "joined labels l ns [] = []" for ns by (simp add: joined_def)
  ultimately show ?thesis by (simp add: p scan_prefix_ok [OF assms(1,2)])
qed

lemma check_upsert_eq:
  assumes "holds_map S addr s (mf_chunk_params m) (mf_nodes m) (map_of kvs)" "sorted_wrt (<) (map fst kvs)" "node_map (map_of kvs)"
    and "holds_map S addr s (mf_chunk_params m) (mf_schema m) (map_of rows)" "sorted_wrt (<) (map fst rows)" "schema_rows rows"
    and enc: "node_key_encode key = Inr encoded"
  shows "check_upsert S s m key rec = Some (check_nodes (labels_of (map row_entry rows))
    (bt_insert encoded (key, rec) (map node_entry kvs)) (Some {encoded}))"
proof -
  obtain r kvs' where r: "map_root_to_root (mf_nodes m) (mf_chunk_params m) = Inr r" "intact S s kvs' r" "map_of kvs = map_of kvs'"
    using assms(1) by (rule holds_map_open)
  have kvs: "kvs' = kvs" using sorted_map_of_inject [OF assms(2) intact_sorted [OF r(2)] r(3)] by simp
  have dec: "decodes kvs" using node_map_decodes assms(2,3) by (simp add: strict_sorted_iff)
  let ?labels = "labels_of (map row_entry rows)" and ?l = "nk_label key" and ?ns = "map node_entry kvs"
  define A B where "A = filter (\<lambda>n. fst n < encoded) ?ns" and "B = filter (\<lambda>n. encoded < fst n) ?ns"
  have ok: "bt_ok ?ns" using assms(2) by (simp add: bt_ok_def node_entry_def comp_def)
  have set: "bt_insert encoded (key, rec) ?ns = A @ (encoded, key, rec) # B"
    using bt_insert_split [OF ok] by (simp add: A_def B_def)
  have others: "filter (\<lambda>n. fst n \<noteq> encoded) ?ns = A @ B"
    using filter_around [OF ok] by (simp add: A_def B_def)
  have AB: "\<forall>n \<in> set A. fst n < encoded" "\<forall>n \<in> set B. encoded < fst n" by (auto simp: A_def B_def)
  have encAB: "list_all (node_encodable ?labels) A" "list_all (node_encodable ?labels) B"
    using decodes_encodable [OF dec, of ?labels] by (auto simp: A_def B_def list_all_iff)
  note vio = focus_violations [OF AB, of ?labels key rec]
  show ?thesis
  proof (cases "map_of ?labels ?l")
    case None
    then have h1: "list_all (node_encodable ?labels) (A @ (encoded, key, rec) # B)" and own: "node_contribs ?labels (encoded, key, rec) = []"
      using encAB by (simp_all add: node_encodable_def node_contribs_def)
    have h2: "encoded \<notin> fst ` set (hits ?labels g (A @ (encoded, key, rec) # B))" for g
    proof -
      have "hits ?labels g (A @ (encoded, key, rec) # B) = hits ?labels g (A @ B)" by (simp add: hits_def own)
      moreover have "encoded \<notin> fst ` set (A @ B)" using AB by fastforce
      moreover have "fst ` set (hits ?labels g (A @ B)) \<subseteq> fst ` set (A @ B)" by (auto dest!: hits_from simp del: hits_append)
      ultimately show ?thesis by auto
    qed
    have "check_nodes ?labels (bt_insert encoded (key, rec) ?ns) (Some {encoded}) = Inr []"
      unfolding set check_nodes_def Let_def vio None group_nodes_eq [OF h1] rbind_simps no_focus [OF h2] by simp
    then show ?thesis
      unfolding check_upsert_def snapshot_schema_ok [OF assms(4-6)] find_label_labels_of by (simp add: None)
  next
    case (Some def)
    let ?u = "ld_unique def" and ?ps = "nr_properties rec"
    let ?seeds = "fold (\<lambda>c. bt_insert (fst c) []) (contribs Pair () ?ps ?u) [] :: wanted_groups"
    note def = Some declared_unique [OF assms(6) Some]
    have "fst ` set ?seeds = fst ` set (contribs Pair () ?ps ?u)"
      using seeds [of "[] :: wanted_groups" "[]" "contribs Pair () ?ps ?u"]
      unfolding dom_map_of_conv_image_fst [symmetric] by (auto simp: dom_def)
    then have "fst ` fst ` set ?seeds \<subseteq> set ?u" by (auto simp: contribs_def split: option.splits)
    note scan = wanted_scan [OF r(1,2) [unfolded kvs] dec def this, where encoded = encoded, unfolded others]
    show ?thesis
    proof (cases "encode_failure ?ps ?u")
      case None
      have "list_all (node_encodable ?labels) (A @ (encoded, key, rec) # B)" using encAB None def by (simp add: node_encodable_def)
      moreover obtain U where U: "U = unique_violations (Some {encoded})
          (fold push (concat (map (node_contribs ?labels) (A @ (encoded, key, rec) # B))) [])" by blast
      ultimately have "check_nodes ?labels (bt_insert encoded (key, rec) ?ns) (Some {encoded}) = Inr (node_violations key rec def [] @ U)"
        unfolding set check_nodes_def Let_def vio def U by (simp only: group_nodes_eq) simp
      moreover have uv: "upsert_violations key rec encoded (joined ?labels ?l (A @ B) ?seeds) = Some U"
        unfolding U by (rule upsert_unique [OF def AB refl, symmetric])
      moreover have "node_violations key rec def [] @ U = []" if "ld_exists def = []" "ld_types def = []" "?u = []"
        using unconstrained [OF that(1,2), of "[(encoded, key, rec)]"] uv by (simp add: that(3) contribs_def joined_def)
      ultimately show ?thesis
        unfolding check_upsert_def snapshot_schema_ok [OF assms(4-6)] find_label_labels_of
        by (simp add: def None enc Let_def seed_wanted_eq [where x = "()"] scan)
    next
      case (Some e)
      then have "?u \<noteq> []" by auto
      moreover have "group_node ?labels (encoded, key, rec) groups = Inl e" for groups
        by (simp add: group_node_def def Some group_values_eq)
      ultimately show ?thesis
        unfolding set check_nodes_def Let_def vio check_upsert_def snapshot_schema_ok [OF assms(4-6)] find_label_labels_of
        by (simp add: def Some enc seed_wanted_eq [where x = "()"] rfold_append group_nodes_eq [OF encAB(1)])
    qed
  qed
qed

section \<open>What the check of a node set finds\<close>

definition sharing :: "bytes \<Rightarrow> bytes \<Rightarrow> bytes \<Rightarrow> node_set \<Rightarrow> node_set" where
  "sharing l p x nodes = filter (\<lambda>(b, k, r). nk_label k = l \<and>
     (\<exists>v. map_of (nr_properties r) p = Some v \<and> encode_value v = Inr x)) nodes"

lemma encodable_value:
  "encode_failure ps us = None \<Longrightarrow> p \<in> set us \<Longrightarrow> map_of ps p = Some v \<Longrightarrow> encode_value v = Inr (projr (encode_value v))"
  by (induction us) (auto split: option.splits sum.splits)

lemma hits_sharing:
  assumes "list_all (node_encodable labels) nodes" "map_of labels l = Some def" "distinct (ld_unique def)"
  shows "hits labels (l, p, x) nodes = (if p \<in> set (ld_unique def)
    then map (\<lambda>(b, k, r). (b, k, the (map_of (nr_properties r) p))) (sharing l p x nodes) else [])"
  using assms(1)
proof (induction nodes)
  case (Cons n nodes)
  obtain b k r where n: "n = (b, k, r)" by (cases n)
  have enc: "projr (encode_value v) = x \<longleftrightarrow> encode_value v = Inr x"
    if "nk_label k = l" "p \<in> set (ld_unique def)" "map_of (nr_properties r) p = Some v" for v
    using Cons.prems assms(2) that encodable_value [of "nr_properties r" "ld_unique def" p v]
    by (auto simp: n node_encodable_def)
  have "filter (\<lambda>c. fst c = (l, p, x)) (node_contribs labels (b, k, r)) = []" if "p \<notin> set (ld_unique def)"
    using that assms(2,3) by (auto simp: node_contribs_def contribs_group split: option.splits)
      (auto simp: contribs_def filter_empty_conv split: option.splits)
  then show ?case
    using Cons enc node_group [OF assms(2,3), of p x b k r]
    by (auto simp: n hits_def sharing_def split: option.splits)
qed (simp add: hits_def sharing_def)

lemma grouped_encodable: "rfold (group_node labels) nodes g = Inr G \<Longrightarrow> list_all (node_encodable labels) nodes"
proof (induction nodes arbitrary: g)
  case (Cons n nodes)
  obtain b k r where n: "n = (b, k, r)" by (cases n)
  from Cons.prems obtain g' where "group_node labels n g = Inr g'" "rfold (group_node labels) nodes g' = Inr G"
    by (auto simp: rbind_Inr_iff)
  then show ?case using Cons.IH
    by (auto simp: n group_node_def group_values_eq node_encodable_def split: option.splits)
qed simp

lemma unique_violations_mem:
  assumes "list_all (node_encodable labels) nodes" "\<forall>l def. map_of labels l = Some def \<longrightarrow> distinct (ld_unique def)"
  shows "CVUnique l p v ks \<in> set (unique_violations focus (fold push (concat (map (node_contribs labels) nodes)) [])) \<longleftrightarrow>
    (\<exists>def x. map_of labels l = Some def \<and> p \<in> set (ld_unique def) \<and> 2 \<le> length (sharing l p x nodes) \<and>
       (\<exists>(b, _) \<in> set (sharing l p x nodes). in_focus focus b) \<and> ks = map (\<lambda>(b, k, r). k) (sharing l p x nodes) \<and>
       v = the (map_of (nr_properties (snd (snd (hd (sharing l p x nodes))))) p))"
proof -
  define G where "G = fold push (concat (map (node_contribs labels) nodes)) []"
  have G: "((l, p, x), (v, ms)) \<in> set G \<longleftrightarrow> group_of (l, p, x) (concat (map (node_contribs labels) nodes)) = Some (v, ms)" for x ms
    using groups_ok [of "concat (map (node_contribs labels) nodes)"] map_of_eq_Some_iff [of G "(l, p, x)" "(v, ms)"]
    by (simp add: G_def bt_ok_def strict_sorted_iff)
  have "CVUnique l p v ks \<in> set (unique_violations focus G) \<longleftrightarrow> (\<exists>x ms. ((l, p, x), (v, ms)) \<in> set G \<and> 2 \<le> length ms \<and>
      (\<exists>(b, _) \<in> set ms. in_focus focus b) \<and> ks = map snd ms)"
    by (force simp: unique_violations_def not_less)
  also have "\<dots> \<longleftrightarrow> (\<exists>x. hits labels (l, p, x) nodes \<noteq> [] \<and> 2 \<le> length (hits labels (l, p, x) nodes) \<and>
      (\<exists>(b, _) \<in> set (hits labels (l, p, x) nodes). in_focus focus b) \<and> ks = map (\<lambda>(b, k, _). k) (hits labels (l, p, x) nodes) \<and>
      v = snd (snd (hd (hits labels (l, p, x) nodes))))"
    unfolding G group_of_hits by (intro ex_cong1) (auto simp: comp_def case_prod_unfold)
  also have "\<dots> \<longleftrightarrow> (\<exists>def x. map_of labels l = Some def \<and> p \<in> set (ld_unique def) \<and> 2 \<le> length (sharing l p x nodes) \<and>
       (\<exists>(b, _) \<in> set (sharing l p x nodes). in_focus focus b) \<and> ks = map (\<lambda>(b, k, r). k) (sharing l p x nodes) \<and>
       v = the (map_of (nr_properties (snd (snd (hd (sharing l p x nodes))))) p))"
  proof (cases "map_of labels l")
    case None
    then have "hits labels (l, p, x) nodes = []" for x
      by (auto simp: hits_def filter_empty_conv node_contribs_def contribs_def split: option.splits)
    then show ?thesis using None by simp
  next
    case (Some def)
    show ?thesis
      unfolding hits_sharing [OF assms(1) Some assms(2) [rule_format, OF Some]]
      by (cases "p \<in> set (ld_unique def)")
        (auto simp: Some case_prod_unfold comp_def hd_map simp flip: length_greater_0_conv intro!: ex_cong1)
  qed
  finally show ?thesis unfolding G_def .
qed

lemma node_violations_mem:
  "CVMissingRequired k' p \<in> set (node_violations k r def vs) \<longleftrightarrow>
     CVMissingRequired k' p \<in> set vs \<or> (k' = k \<and> p \<in> set (ld_exists def) \<and> \<not> present r def p)"
  "CVWrongType k' p t a \<in> set (node_violations k r def vs) \<longleftrightarrow>
     CVWrongType k' p t a \<in> set vs \<or> (k' = k \<and> (p, t, a) \<in> set (type_violations k r def))"
  "CVUnique l p v ks \<in> set (node_violations k r def vs) \<longleftrightarrow> CVUnique l p v ks \<in> set vs"
  by (force simp: node_violations_def)+

lemma check_node_mem:
  "x \<in> set (fold (check_node labels focus) nodes vs) \<longleftrightarrow> x \<in> set vs \<or>
     (\<exists>b k r def. (b, k, r) \<in> set nodes \<and> in_focus focus b \<and> map_of labels (nk_label k) = Some def \<and>
        x \<in> set (node_violations k r def []))"
proof (induction nodes arbitrary: vs)
  case (Cons n nodes)
  obtain b k r where n: "n = (b, k, r)" by (cases n)
  have "x \<in> set (check_node labels focus n vs) \<longleftrightarrow> x \<in> set vs \<or>
      (in_focus focus b \<and> (\<exists>def. map_of labels (nk_label k) = Some def \<and> x \<in> set (node_violations k r def [])))"
    by (auto simp: n check_node_def node_violations_def split: option.splits)
  then show ?case unfolding fold_simps Cons.IH n set_simps insert_iff by blast
qed simp

text \<open>The value a declared type is held against.\<close>

definition typed_value :: "node_key \<Rightarrow> node_record \<Rightarrow> label_def \<Rightarrow> bytes \<Rightarrow> mvalue option" where
  "typed_value k r def p = (case position (ld_key def) p of
       Some i \<Rightarrow> if i < length (nk_key k) then Some (nk_key k ! i) else None
     | None \<Rightarrow> map_of (nr_properties r) p)"

lemma type_violations_mem:
  "(p, t, a) \<in> set (type_violations k r def) \<longleftrightarrow>
     (p, t) \<in> set (ld_types def) \<and> (\<exists>v. typed_value k r def p = Some v \<and> \<not> type_matches t v \<and> type_of v = Some a)"
proof -
  have "(p, t, a) \<in> set (type_violation k r def (p', t')) \<longleftrightarrow>
      p' = p \<and> t' = t \<and> (\<exists>v. typed_value k r def p = Some v \<and> \<not> type_matches t v \<and> type_of v = Some a)" for p' t'
    unfolding type_violation_def typed_value_def [symmetric] prod.case
    by (cases "typed_value k r def p'") (auto simp: type_breach_def split: option.splits dest!: sym [of "Some (p, t, a)"])
  then show ?thesis by (cases "ld_types def = []") (auto simp: type_violations_def)
qed


text \<open>The one-node graph as a manifest, and a declaration it does not meet.\<close>

definition sample_manifest :: manifest where
  "sample_manifest = \<lparr>mf_chunk_params = tiny, mf_schema = map_root_from_root empty_root, mf_nodes = map_root_from_root node_root,
     mf_edges_fwd = map_root_from_root empty_root, mf_edges_rev = map_root_from_root empty_root, mf_indexes = [], mf_conflicts = None\<rparr>"

definition required_z :: label_def where
  "required_z = \<lparr>ld_key = [[0x69]], ld_surrogate = False, ld_types = [], ld_exists = [[0x7a]], ld_unique = []\<rparr>"

section \<open>Properties\<close>



text \<open>C37. The streaming checks agree with the check of the whole node set, results, order and errors:
  declaring a label over a snapshot reports what \<^verbatim>\<open>check_nodes\<close> reports of all its nodes under that
  declaration alone, and a write is judged as \<^verbatim>\<open>check_nodes\<close> judges the nodes as they would be after it, with
  the written node in the focus.\<close>

theorem streaming_checks:
  assumes "holds_map S addr s (mf_chunk_params m) (mf_nodes m) (map_of kvs)" "sorted_wrt (<) (map fst kvs)" "node_map (map_of kvs)"
    and "holds_map S addr s (mf_chunk_params m) (mf_schema m) (map_of rows)" "sorted_wrt (<) (map fst rows)" "schema_rows rows"
    and "node_key_encode key = Inr encoded"
  shows "check_label S s m label def = Some (check_nodes [(label, def)] (map node_entry kvs) None) \<and>
    check_upsert S s m key rec = Some (check_nodes (labels_of (map row_entry rows))
      (bt_insert encoded (key, rec) (map node_entry kvs)) (Some {encoded}))"
  using check_label_eq [OF assms(1-3)] check_upsert_eq [OF assms] by blast

theorem streaming_checks_witness:
  "check_label (mem_store 1000) sample_objs sample_manifest [0x50] required_z =
     Some (Inr [CVMissingRequired \<lparr>nk_label = [0x50], nk_key = [VInt 7]\<rparr> [0x7a]]) \<and>
   check_upsert (mem_store 1000) sample_objs sample_manifest \<lparr>nk_label = [0x50], nk_key = [VInt 7]\<rparr> \<lparr>nr_labels = [], nr_properties = []\<rparr> =
     Some (Inr [])"
proof -
  have n: "holds_map (mem_store 1000) mem_digest sample_objs (mf_chunk_params sample_manifest) (mf_nodes sample_manifest)
      (map_of [(sample_key, sample_node)])"
    and s: "holds_map (mem_store 1000) mem_digest sample_objs (mf_chunk_params sample_manifest) (mf_schema sample_manifest)
      (map_of [])"
    using holds_map_from_root [OF sample_maps(2)] holds_map_from_root [OF sample_maps(1)]
    by (simp_all add: sample_manifest_def node_root_def empty_root_def)
  have nm: "node_map (map_of [(sample_key, sample_node)])"
    by (auto simp: node_map_def sample_decodes) (simp add: sample_node_def)
  have e: "node_key_encode \<lparr>nk_label = [0x50], nk_key = [VInt 7]\<rparr> = Inr sample_key"
    using decoded_node(2) [OF sample_decodes(1)] .
  from streaming_checks [OF n _ nm s _ _ e, where label = "[0x50]" and def = required_z and rec = "\<lparr>nr_labels = [], nr_properties = []\<rparr>"]
  show ?thesis
    by (simp add: schema_rows_def labels_of_def check_nodes_def check_node_def group_node_def in_focus_def node_entry_def
        sample_decodes node_violations_def type_violations_def required_z_def unique_violations_def present_def)
qed

end
