(* ===== verification/Cell_Merge.thy ===== *)
theory Cell_Merge
  imports Graph_Base
begin

text \<open>
  The cell-wise merge of node and edge records (\<^verbatim>\<open>crates/acetone-graph/src/cell_merge.rs\<close>): properties are
  merged one by one, secondary labels as sets. On decoded records it is the three-way merge of maps that
  the tree merge implements on whole values.
\<close>

section \<open>Properties\<close>

record property_conflict =
  pc_property :: bytes
  pc_base :: "mvalue option"
  pc_ours :: "mvalue option"
  pc_theirs :: "mvalue option"

definition value_eq :: "mvalue \<Rightarrow> mvalue \<Rightarrow> graph_error + bool" where
  "value_eq a b =
     rbind (map_err GValueEncode (encode_value a)) (\<lambda>x.
     rbind (map_err GValueEncode (encode_value b)) (\<lambda>y. Inr (x = y)))"

fun opt_eq :: "mvalue option \<Rightarrow> mvalue option \<Rightarrow> graph_error + bool" where
  "opt_eq None None = Inr True"
| "opt_eq (Some x) (Some y) = value_eq x y"
| "opt_eq _ _ = Inr False"

definition merge_property ::
  "properties \<Rightarrow> properties \<Rightarrow> properties \<Rightarrow> bytes \<Rightarrow> properties \<times> property_conflict list \<Rightarrow>
     graph_error + properties \<times> property_conflict list" where
  "merge_property base ours theirs name acc =
     (let b = map_of base name; o' = map_of ours name; t = map_of theirs name;
          keep = (\<lambda>resolved. Inr (case resolved of
                    Some v \<Rightarrow> (bt_insert name v (fst acc), snd acc)
                  | None \<Rightarrow> acc))
      in rbind (opt_eq o' t) (\<lambda>agree. if agree then keep o'
         else rbind (opt_eq o' b) (\<lambda>ours_same. if ours_same then keep t
         else rbind (opt_eq t b) (\<lambda>theirs_same. if theirs_same then keep o'
         else Inr (fst acc, snd acc @ [\<lparr>pc_property = name, pc_base = b, pc_ours = o', pc_theirs = t\<rparr>])))))"

definition merge_properties ::
  "properties \<Rightarrow> properties \<Rightarrow> properties \<Rightarrow> graph_error + properties \<times> property_conflict list" where
  "merge_properties base ours theirs =
     (let names = btree_set (map fst base @ map fst ours @ map fst theirs)
      in rfold (merge_property base ours theirs) names ([], []))"

definition merge_labels :: "bytes list \<Rightarrow> bytes list \<Rightarrow> bytes list \<Rightarrow> bytes list" where
  "merge_labels base ours theirs =
     (let base = btree_set base; ours = btree_set ours; theirs = btree_set theirs;
          all = btree_set (base @ ours @ theirs)
      in filter (\<lambda>label.
           let in_base = label \<in> set base;
               removed = (in_base \<and> label \<notin> set ours) \<or> (in_base \<and> label \<notin> set theirs);
               present = in_base \<or> label \<in> set ours \<or> label \<in> set theirs
           in present \<and> \<not> removed) all)"

definition merge_node_record ::
  "node_record \<Rightarrow> node_record \<Rightarrow> node_record \<Rightarrow> graph_error + node_record \<times> property_conflict list" where
  "merge_node_record base ours theirs =
     (let labels = merge_labels (nr_labels base) (nr_labels ours) (nr_labels theirs)
      in rbind (merge_properties (nr_properties base) (nr_properties ours) (nr_properties theirs)) (\<lambda>(ps, conflicts).
           Inr (node_record_new labels ps, conflicts)))"

definition merge_edge_record ::
  "edge_record \<Rightarrow> edge_record \<Rightarrow> edge_record \<Rightarrow> graph_error + edge_record \<times> property_conflict list" where
  "merge_edge_record base ours theirs =
     rbind (merge_properties (er_properties base) (er_properties ours) (er_properties theirs)) (\<lambda>(ps, conflicts).
       Inr (\<lparr>er_properties = ps\<rparr>, conflicts))"

section \<open>The merge of decoded records\<close>

lemma value_eq_stored: "stored_value a \<Longrightarrow> stored_value b \<Longrightarrow> value_eq a b = Inr (a = b)"
  using stored_value_canon [of a] stored_value_canon [of b] stored_value_inject [of a b] by (auto simp: value_eq_def)

lemma opt_eq_stored:
  "\<forall>v \<in> set_option a \<union> set_option b. stored_value v \<Longrightarrow> opt_eq a b = Inr (a = b)"
  by (cases a; cases b) (auto simp: value_eq_stored)

lemma merge_property_stored:
  assumes "stored_properties base" "stored_properties ours" "stored_properties theirs"
  shows "merge_property base ours theirs n (ps, cs) =
    (let b = map_of base n; o' = map_of ours n; t = map_of theirs n
     in Inr (case merged_value b o' t of Some v \<Rightarrow> bt_insert n v ps | None \<Rightarrow> ps,
        if clashes b o' t then cs @ [\<lparr>pc_property = n, pc_base = b, pc_ours = o', pc_theirs = t\<rparr>] else cs))"
proof -
  have "\<forall>v \<in> set_option (map_of base n) \<union> set_option (map_of ours n) \<union> set_option (map_of theirs n). stored_value v"
    using assms map_of_stored by blast
  then show ?thesis
    by (auto simp: merge_property_def Let_def opt_eq_stored value_eq_stored merged_value_def clashes_def split: option.splits)
qed

lemma merge_names_stored:
  assumes "stored_properties base" "stored_properties ours" "stored_properties theirs"
  defines "m \<equiv> \<lambda>n. merged_value (map_of base n) (map_of ours n) (map_of theirs n)"
  shows "bt_ok ps \<Longrightarrow> distinct ns \<Longrightarrow>
    \<exists>ps'. rfold (merge_property base ours theirs) ns (ps, cs) =
      Inr (ps', cs @ map (\<lambda>n. \<lparr>pc_property = n, pc_base = map_of base n, pc_ours = map_of ours n, pc_theirs = map_of theirs n\<rparr>)
             (filter (\<lambda>n. clashes (map_of base n) (map_of ours n) (map_of theirs n)) ns)) \<and>
    bt_ok ps' \<and> map_of ps' = (\<lambda>n. if n \<in> set ns \<and> m n \<noteq> None then m n else map_of ps n)"
proof (induction ns arbitrary: ps cs)
  case (Cons n ns)
  let ?ps = "case m n of Some v \<Rightarrow> bt_insert n v ps | None \<Rightarrow> ps"
  let ?c = "\<lparr>pc_property = n, pc_base = map_of base n, pc_ours = map_of ours n, pc_theirs = map_of theirs n\<rparr>"
  let ?cs = "if clashes (map_of base n) (map_of ours n) (map_of theirs n) then cs @ [?c] else cs"
  have step: "merge_property base ours theirs n (ps, cs) = Inr (?ps, ?cs)"
    by (simp add: merge_property_stored [OF assms(1-3)] Let_def m_def)
  have ok: "bt_ok ?ps" and mo: "map_of ?ps = (\<lambda>k. if k = n \<and> m n \<noteq> None then m n else map_of ps k)"
    using Cons.prems(1) by (auto split: option.splits)
  from Cons.IH [OF ok, of ?cs] Cons.prems(2) step show ?case by (auto simp: mo fun_eq_iff)
qed auto

definition swap_conflict :: "property_conflict \<Rightarrow> property_conflict" where
  "swap_conflict c = c\<lparr>pc_ours := pc_theirs c, pc_theirs := pc_ours c\<rparr>"

lemma merge_properties_stored:
  assumes "stored_properties base" "stored_properties ours" "stored_properties theirs"
  shows "\<exists>ps cs. merge_properties base ours theirs = Inr (ps, cs) \<and> bt_ok ps \<and>
    map_of ps = (\<lambda>n. merged_value (map_of base n) (map_of ours n) (map_of theirs n)) \<and>
    cs = map (\<lambda>n. \<lparr>pc_property = n, pc_base = map_of base n, pc_ours = map_of ours n, pc_theirs = map_of theirs n\<rparr>)
      (filter (\<lambda>n. clashes (map_of base n) (map_of ours n) (map_of theirs n))
        (btree_set (map fst base @ map fst ours @ map fst theirs)))"
proof -
  let ?ns = "btree_set (map fst base @ map fst ours @ map fst theirs)"
  have "merged_value (map_of base n) (map_of ours n) (map_of theirs n) = None" if "n \<notin> set ?ns" for n
    using that by (auto simp: map_of_eq_None_iff [THEN iffD2] merged_value_def)
  moreover have "distinct ?ns" using btree_set_spec(2) [of "map fst base @ _"] unfolding strict_sorted_iff by blast
  ultimately show ?thesis
    using merge_names_stored [OF assms, of "[]" ?ns "[]"] by (fastforce simp: merge_properties_def Let_def fun_eq_iff)
qed


lemma swap_merge:
  "merged_value b t o' = merged_value b o' t" "clashes b t o' \<longleftrightarrow> clashes b o' t"
  by (auto simp: merged_value_def clashes_def)

lemma merge_properties_swap:
  assumes "stored_properties base" "stored_properties ours" "stored_properties theirs"
    and "merge_properties base ours theirs = Inr (ps, cs)"
  shows "merge_properties base theirs ours = Inr (ps, map swap_conflict cs)"
proof -
  have n: "btree_set (map fst base @ map fst theirs @ map fst ours) = btree_set (map fst base @ map fst ours @ map fst theirs)"
    by (rule sorted_distinct_set_unique)
      (use btree_set_spec [unfolded strict_sorted_iff] in \<open>auto simp: Un_ac\<close>)
  obtain ps' cs' where s: "merge_properties base theirs ours = Inr (ps', cs')" "bt_ok ps'"
    "map_of ps' = (\<lambda>n. merged_value (map_of base n) (map_of theirs n) (map_of ours n))"
    "cs' = map (\<lambda>n. \<lparr>pc_property = n, pc_base = map_of base n, pc_ours = map_of theirs n, pc_theirs = map_of ours n\<rparr>)
      (filter (\<lambda>n. clashes (map_of base n) (map_of theirs n) (map_of ours n))
        (btree_set (map fst base @ map fst theirs @ map fst ours)))"
    using merge_properties_stored [OF assms(1,3,2)] by blast
  moreover have "ps' = ps" using merge_properties_stored [OF assms(1-3)] assms(4) s(2,3)
    by (auto simp: swap_merge intro!: bt_eqI)
  moreover have "cs' = map swap_conflict cs" using merge_properties_stored [OF assms(1-3)] assms(4) s(4)
    by (auto simp: swap_merge n swap_conflict_def)
  ultimately show ?thesis by simp
qed

lemma merge_labels_set:
  "l \<in> set (merge_labels base ours theirs) \<longleftrightarrow>
     (if l \<in> set base then l \<in> set ours \<and> l \<in> set theirs else l \<in> set ours \<or> l \<in> set theirs)"
  by (auto simp: merge_labels_def Let_def)

text \<open>C32. Merging two versions of a node that were read from the store never fails. Each property takes
  its one-sided or common change; exactly the properties both sides changed differently are reported, in
  ascending order and with their three values, and left out; a label stays when no side removed it and
  comes when a side added it. Exchanging the sides gives the same record and mirrored conflicts.\<close>

theorem merge_node_record_three_way:
  assumes "node_record_decode xb = Inr base" "node_record_decode xo = Inr ours" "node_record_decode xt = Inr theirs"
    and "length xb < 2 ^ 63" "length xo < 2 ^ 63" "length xt < 2 ^ 63"
  shows "\<exists>nr cs. merge_node_record base ours theirs = Inr (nr, cs) \<and>
    merge_node_record base theirs ours = Inr (nr, map swap_conflict cs) \<and>
    map_of (nr_properties nr) = (\<lambda>n. merged_value (map_of (nr_properties base) n) (map_of (nr_properties ours) n)
      (map_of (nr_properties theirs) n)) \<and>
    sorted_wrt (<) (map pc_property cs) \<and>
    set cs = {\<lparr>pc_property = n, pc_base = map_of (nr_properties base) n, pc_ours = map_of (nr_properties ours) n,
        pc_theirs = map_of (nr_properties theirs) n\<rparr> | n.
      clashes (map_of (nr_properties base) n) (map_of (nr_properties ours) n) (map_of (nr_properties theirs) n)} \<and>
    canon_ascending (nr_labels nr) \<and>
    set (nr_labels nr) = {l. if l \<in> set (nr_labels base) then l \<in> set (nr_labels ours) \<and> l \<in> set (nr_labels theirs)
      else l \<in> set (nr_labels ours) \<or> l \<in> set (nr_labels theirs)}"
proof -
  let ?b = "nr_properties base" and ?o = "nr_properties ours" and ?t = "nr_properties theirs"
  let ?ns = "btree_set (map fst ?b @ map fst ?o @ map fst ?t)"
  note st = node_record_decode_stored(1) [OF assms(1,4)] node_record_decode_stored(1) [OF assms(2,5)]
    node_record_decode_stored(1) [OF assms(3,6)]
  obtain ps cs where m: "merge_properties ?b ?o ?t = Inr (ps, cs)"
    "map_of ps = (\<lambda>n. merged_value (map_of ?b n) (map_of ?o n) (map_of ?t n))"
    and cs: "cs = map (\<lambda>n. \<lparr>pc_property = n, pc_base = map_of ?b n, pc_ours = map_of ?o n, pc_theirs = map_of ?t n\<rparr>)
      (filter (\<lambda>n. clashes (map_of ?b n) (map_of ?o n) (map_of ?t n)) ?ns)"
    using merge_properties_stored [OF st] by blast
  let ?nr = "node_record_new (merge_labels (nr_labels base) (nr_labels ours) (nr_labels theirs)) ps"
  have labels: "node_record_new (merge_labels (nr_labels base) (nr_labels theirs) (nr_labels ours)) ps = ?nr"
    using normalise_strings_spec by (auto simp: node_record_new_def merge_labels_set intro!: canon_ascending_unique [of id])
  have "n \<in> set ?ns" if "clashes (map_of ?b n) (map_of ?o n) (map_of ?t n)" for n
    using that by (auto simp: map_of_eq_None_iff [THEN iffD2] clashes_def)
  then have "set cs = {\<lparr>pc_property = n, pc_base = map_of ?b n, pc_ours = map_of ?o n, pc_theirs = map_of ?t n\<rparr> | n.
      clashes (map_of ?b n) (map_of ?o n) (map_of ?t n)}" by (auto simp: cs)
  moreover have "sorted_wrt (<) (map pc_property cs)"
    using btree_set_spec(2) [of "map fst ?b @ _"] by (simp add: cs comp_def sorted_wrt_filter)
  moreover have "canon_ascending (nr_labels ?nr)" "set (nr_labels ?nr) = {l. if l \<in> set (nr_labels base)
      then l \<in> set (nr_labels ours) \<and> l \<in> set (nr_labels theirs) else l \<in> set (nr_labels ours) \<or> l \<in> set (nr_labels theirs)}"
    using normalise_strings_spec by (auto simp: node_record_new_def merge_labels_set)
  ultimately show ?thesis
    using m merge_properties_swap [OF st m(1)] labels
    by (intro exI [of _ ?nr] exI [of _ cs]) (simp add: merge_node_record_def node_record_new_def)
qed

theorem merge_node_record_three_way_witness:
  "\<exists>nr cs. merge_node_record \<lparr>nr_labels = [], nr_properties = [([1], VInt 1), ([2], VInt 1)]\<rparr>
       \<lparr>nr_labels = [[0x61]], nr_properties = [([1], VInt 2), ([2], VInt 5)]\<rparr>
       \<lparr>nr_labels = [], nr_properties = [([1], VInt 3), ([2], VInt 1)]\<rparr> = Inr (nr, cs) \<and>
     map_of (nr_properties nr) [2] = Some (VInt 5) \<and> map_of (nr_properties nr) [1] = None \<and>
     set (nr_labels nr) = {[0x61]} \<and>
     cs = [\<lparr>pc_property = [1], pc_base = Some (VInt 1), pc_ours = Some (VInt 2), pc_theirs = Some (VInt 3)\<rparr>]"
proof -
  let ?p = "\<lambda>ls a b. \<lparr>nr_labels = ls, nr_properties = [([1], VInt a), ([2], VInt b)]\<rparr>"
  let ?B = "?p [] 1 1" and ?O = "?p [[0x61]] 2 5" and ?T = "?p [] 3 1"
  have ok: "node_record_ok ?B" "node_record_ok ?O" "node_record_ok ?T"
    by (simp_all add: node_record_ok_def properties_ok_def bt_ok_def canon_ascending_def is_str_def)
  have enc: "node_record_encode ?B = Inr [0x82, 0x80, 0xa2, 0x61, 1, 1, 0x61, 2, 1]"
    "node_record_encode ?O = Inr [0x82, 0x81, 0x61, 0x61, 0xa2, 0x61, 1, 2, 0x61, 2, 5]"
    "node_record_encode ?T = Inr [0x82, 0x80, 0xa2, 0x61, 1, 3, 0x61, 2, 1]"
    by (simp_all add: node_record_encode_def write_name_array_def write_properties_def write_text_map_def sort_by_def
        canonical_str_cmp_def eval_simps)
  have dec: "node_record_decode [0x82, 0x80, 0xa2, 0x61, 1, 1, 0x61, 2, 1] = Inr ?B"
    "node_record_decode [0x82, 0x81, 0x61, 0x61, 0xa2, 0x61, 1, 2, 0x61, 2, 5] = Inr ?O"
    "node_record_decode [0x82, 0x80, 0xa2, 0x61, 1, 3, 0x61, 2, 1] = Inr ?T"
    using node_record_decode_encode [OF ok(1) enc(1)] node_record_decode_encode [OF ok(2) enc(2)]
      node_record_decode_encode [OF ok(3) enc(3)] by (simp_all add: canon_properties_def)
  from merge_node_record_three_way [OF dec] obtain nr cs where
    m: "merge_node_record ?B ?O ?T = Inr (nr, cs)" and
    ps: "map_of (nr_properties nr) = (\<lambda>n. merged_value (map_of (nr_properties ?B) n) (map_of (nr_properties ?O) n)
      (map_of (nr_properties ?T) n))" and
    c: "sorted_wrt (<) (map pc_property cs)"
      "set cs = {\<lparr>pc_property = n, pc_base = map_of (nr_properties ?B) n, pc_ours = map_of (nr_properties ?O) n,
        pc_theirs = map_of (nr_properties ?T) n\<rparr> | n.
        clashes (map_of (nr_properties ?B) n) (map_of (nr_properties ?O) n) (map_of (nr_properties ?T) n)}" and
    l: "set (nr_labels nr) = {l. if l \<in> set (nr_labels ?B) then l \<in> set (nr_labels ?O) \<and> l \<in> set (nr_labels ?T)
      else l \<in> set (nr_labels ?O) \<or> l \<in> set (nr_labels ?T)}" by auto
  have "set cs = {\<lparr>pc_property = [1], pc_base = Some (VInt 1), pc_ours = Some (VInt 2), pc_theirs = Some (VInt 3)\<rparr>}"
    unfolding c(2) by (auto simp: clashes_def)
  moreover have "distinct cs" using c(1) by (simp add: strict_sorted_iff distinct_map)
  ultimately have "cs = [\<lparr>pc_property = [1], pc_base = Some (VInt 1), pc_ours = Some (VInt 2), pc_theirs = Some (VInt 3)\<rparr>]"
    by (cases cs; cases "tl cs") auto
  with m ps l show ?thesis by (intro exI [of _ nr] exI [of _ cs]) (auto simp: merged_value_def clashes_def)
qed

end
