(* ===== verification/Merged_Records.thy ===== *)
theory Merged_Records
  imports Cell_Merge
begin

text \<open>
  Records read from the store stay readable when they are merged: a merged record has an encoding, and the
  encoding decodes to it.
\<close>

definition stored_props :: "properties \<Rightarrow> bool" where
  "stored_props ps \<longleftrightarrow> stored_properties ps \<and> list_all utf8_valid (map fst ps)"

definition stored_node :: "node_record \<Rightarrow> bool" where
  "stored_node nr \<longleftrightarrow> stored_props (nr_properties nr) \<and> canon_ascending (nr_labels nr) \<and> list_all utf8_valid (nr_labels nr)"

lemma read_entries_names:
  "read_entries ce chk bad rd n prev m r = Inr (m', r') \<Longrightarrow> list_all utf8_valid (map fst m) \<Longrightarrow> list_all utf8_valid (map fst m')"
proof (induction n arbitrary: prev m r)
  case (Suc n)
  from Suc.prems(1) obtain name v r1 r2 where "read_text r = Inr (name, r1)"
    and n: "read_entries ce chk bad rd n (Some name) (bt_insert name v m) r2 = Inr (m', r')"
    by (auto simp: rbind_Inr_iff map_err_Inr_iff split: if_splits)
  then have "utf8_valid name" using read_text_strict by blast
  then have "list_all utf8_valid (map fst (bt_insert name v m))"
    using Suc.prems(2) bt_insert_keys [of name v m] unfolding list_all_iff list.set_map by auto
  from Suc.IH [OF n this] show ?case .
qed simp

lemma read_properties_props:
  assumes "read_properties r = Inr (ps, r')" "length r < 2 ^ 63"
  shows "stored_props ps"
  using read_properties_stored [OF assms] assms(1) read_entries_names
  by (fastforce simp: stored_props_def read_properties_def read_text_map_def rbind_Inr_iff split: if_splits)

lemma decoded_stored:
  "node_record_decode x = Inr nr \<Longrightarrow> length x < 2 ^ 63 \<Longrightarrow> stored_node nr"
  "edge_record_decode x = Inr er \<Longrightarrow> length x < 2 ^ 63 \<Longrightarrow> stored_props (er_properties er)"
proof -
  assume d: "node_record_decode x = Inr nr" and l: "length x < 2 ^ 63"
  from d obtain r1 r2 where h: "read_head 4 x = Inr (2, r1)"
    and n: "read_name_array RCbor (RNotCanonical ''secondary labels must be strictly ascending'') True r1 =
      Inr (nr_labels nr, r2)"
    and p: "read_properties r2 = Inr (nr_properties nr, [])"
    by (auto simp: node_record_decode_def rbind_Inr_iff map_err_Inr_iff split: if_splits)
  have "length r2 \<le> length x" using read_name_array_strict [OF n] read_head_strict [OF h] by simp
  then show "stored_node nr"
    using read_properties_props [OF p] node_record_decode_stored [OF d l] l by (simp add: stored_node_def)
next
  show "edge_record_decode x = Inr er \<Longrightarrow> length x < 2 ^ 63 \<Longrightarrow> stored_props (er_properties er)"
    by (auto simp: edge_record_decode_def rbind_Inr_iff split: if_splits dest: read_properties_props)
qed

section \<open>Encodings of stored properties\<close>

abbreviation (input) write_prop :: "bytes \<Rightarrow> mvalue \<Rightarrow> record_encode_error + bytes" where
  "write_prop out v \<equiv> map_err REncValue (write_value out v 0)"

lemma write_entries_total:
  "\<forall>v \<in> snd ` set es. \<exists>x. write_value [] v 0 = Inr x \<Longrightarrow>
     \<exists>z. write_entries write_prop [] es = Inr z \<and> length es \<le> length z \<and> (\<forall>k \<in> fst ` set es. length k \<le> length z)"
proof (induction es)
  case (Cons e es)
  obtain k v where e: "e = (k, v)" by (cases e)
  obtain x where x: "write_value [] v 0 = Inr x" using Cons.prems by (auto simp: e)
  obtain z where z: "write_entries write_prop [] es = Inr z" "length es \<le> length z" "\<forall>k \<in> fst ` set es. length k \<le> length z"
    using Cons by auto
  have "write_entries write_prop [] (e # es) = Inr (write_text [] k @ x @ z)"
    using x z(1) unfolding e property_codec.write_entries_Cons by (simp add: map_err_Inr_iff)
  moreover have "length k \<le> length (write_text [] k)" by (simp add: write_text_def)
  moreover obtain b bs where "write_text [] k = b # bs" by (rule write_text_Cons)
  ultimately show ?case using z(2,3) by (auto simp: e simp del: write_entries.simps intro: trans_le_add2)
qed simp

lemma write_properties_total:
  assumes "stored_props ps"
  shows "\<exists>x. write_properties [] ps = Inr x \<and> (length x < 2 ^ 63 \<longrightarrow> properties_ok ps \<and> canon_properties ps = ps)"
proof -
  let ?es = "sort_key (canon_key \<circ> fst) ps"
  have st: "stored_value v" if "v \<in> snd ` set ps" for v using assms that by (auto simp: stored_props_def stored_properties_def)
  have "\<forall>v \<in> snd ` set ?es. \<exists>x. write_value [] v 0 = Inr x"
    using st stored_value_canon by (fastforce simp: encode_value_def encode_value_into_def)
  from write_entries_total [OF this] obtain z where z: "write_entries write_prop [] ?es = Inr z" "length ps \<le> length z"
    "\<forall>k \<in> fst ` set ps. length k \<le> length z" by auto
  let ?x = "write_head [] 5 (of_nat (length ps)) @ z"
  have "write_properties [] ps = Inr ?x"
    unfolding write_properties_def write_text_map_def Let_def sort_canonical
    by (subst property_codec.write_entries_from_Nil) (simp add: z(1))
  moreover have "properties_ok ps" if "length ?x < 2 ^ 63"
    using assms z that st stored_value_canon
    by (fastforce simp: properties_ok_def stored_props_def stored_properties_def is_str_def list_all_iff stored_value_def)
  moreover have "canon_properties ps = ps"
    unfolding canon_properties_def using st stored_value_canon by (intro map_idI) force
  ultimately show ?thesis by blast
qed

lemma stored_node_encode:
  assumes "stored_node nr"
  shows "\<exists>x. node_record_encode nr = Inr x \<and> (length x < 2 ^ 63 \<longrightarrow> node_record_decode x = Inr nr)"
proof -
  from write_properties_total [of "nr_properties nr"] assms obtain y where y: "write_properties [] (nr_properties nr) = Inr y"
    "length y < 2 ^ 63 \<longrightarrow> properties_ok (nr_properties nr) \<and> canon_properties (nr_properties nr) = nr_properties nr"
    by (auto simp: stored_node_def)
  let ?x = "write_head [] 4 2 @ write_name_array [] (nr_labels nr) @ y"
  have e: "node_record_encode nr = Inr ?x" using y(1) by (simp add: node_record_encode_Inr)
  have "node_record_ok nr \<and> nr\<lparr>nr_properties := canon_properties (nr_properties nr)\<rparr> = nr" if l: "length ?x < 2 ^ 63"
  proof -
    have short: "length ns \<le> length (write_names [] ns) \<and> (\<forall>n \<in> set ns. length n \<le> length (write_names [] ns))" for ns
    proof (induction ns)
      case (Cons n ns)
      obtain b bs where "write_text [] n = b # bs" by (rule write_text_Cons)
      moreover have "length n \<le> length (write_text [] n)" by (simp add: write_text_def)
      ultimately show ?case using Cons by (auto simp: write_names_from_Nil [of "_ # _"] intro: trans_le_add2)
    qed simp
    have "length (write_names [] (nr_labels nr)) < 2 ^ 63"
      using l by (simp add: write_name_array_def write_names_from_Nil [of "write_head _ _ _"])
    then show ?thesis
      using short [of "nr_labels nr"] y(2) l assms by (auto simp: node_record_ok_def stored_node_def list_all_iff is_str_def)
  qed
  with e node_record_decode_encode [OF _ e] show ?thesis by auto
qed

lemma stored_edge_encode:
  assumes "stored_props (er_properties er)"
  shows "\<exists>x. edge_record_encode er = Inr x \<and> (length x < 2 ^ 63 \<longrightarrow> edge_record_decode x = Inr er)"
proof -
  from write_properties_total [OF assms] obtain y where y: "write_properties [] (er_properties er) = Inr y"
    "length y < 2 ^ 63 \<longrightarrow> properties_ok (er_properties er) \<and> canon_properties (er_properties er) = er_properties er" by blast
  then show ?thesis using read_properties_write [of "er_properties er" y "[]"]
    by (auto simp: edge_record_encode_def edge_record_decode_def)
qed

section \<open>Merged records\<close>

lemma stored_props_map:
  "stored_props ps \<longleftrightarrow> bt_ok ps \<and> (\<forall>n v. map_of ps n = Some v \<longrightarrow> stored_value v \<and> utf8_valid n)"
proof -
  have "(n, v) \<in> set ps \<longleftrightarrow> map_of ps n = Some v" if "bt_ok ps" for n v
    using that by (simp add: bt_ok_def strict_sorted_iff)
  then show ?thesis by (fastforce simp: stored_props_def stored_properties_def list_all_iff)
qed

definition stored_conflict :: "property_conflict \<Rightarrow> bool" where
  "stored_conflict c \<longleftrightarrow> (\<forall>v \<in> set_option (pc_base c) \<union> set_option (pc_ours c) \<union> set_option (pc_theirs c). stored_value v)"

lemma merge_properties_props:
  assumes "stored_props b" "stored_props o'" "stored_props t"
  shows "\<exists>ps cs. merge_properties b o' t = Inr (ps, cs) \<and> stored_props ps \<and> list_all stored_conflict cs"
proof -
  have st: "stored_properties b" "stored_properties o'" "stored_properties t" using assms by (simp_all add: stored_props_def)
  obtain ps cs where m: "merge_properties b o' t = Inr (ps, cs)" "bt_ok ps"
    "map_of ps = (\<lambda>n. merged_value (map_of b n) (map_of o' n) (map_of t n))"
    and cs: "cs = map (\<lambda>n. \<lparr>pc_property = n, pc_base = map_of b n, pc_ours = map_of o' n, pc_theirs = map_of t n\<rparr>)
      (filter (\<lambda>n. clashes (map_of b n) (map_of o' n) (map_of t n)) (btree_set (map fst b @ map fst o' @ map fst t)))"
    using merge_properties_stored [OF st] by blast
  have "merged_value x y z = Some v \<Longrightarrow> y = Some v \<or> z = Some v" for x y z :: "mvalue option" and v
    by (auto simp: merged_value_def split: if_splits)
  then have "stored_props ps" using assms m(2,3) by (fastforce simp: stored_props_map)
  moreover have "list_all stored_conflict cs" using st by (auto simp: cs list_all_iff stored_conflict_def dest: map_of_stored)
  ultimately show ?thesis using m(1) by blast
qed

lemma merge_node_stored:
  assumes "stored_node b" "stored_node o'" "stored_node t"
  shows "\<exists>nr cs. merge_node_record b o' t = Inr (nr, cs) \<and> stored_node nr \<and> list_all stored_conflict cs"
proof -
  obtain ps cs where "merge_properties (nr_properties b) (nr_properties o') (nr_properties t) = Inr (ps, cs)"
    "stored_props ps" "list_all stored_conflict cs"
    using merge_properties_props assms unfolding stored_node_def by blast
  moreover have "list_all utf8_valid (normalise_strings (merge_labels (nr_labels b) (nr_labels o') (nr_labels t)))"
    using assms normalise_strings_spec by (auto simp: list_all_iff stored_node_def merge_labels_set split: if_splits)
  ultimately show ?thesis
    using normalise_strings_spec by (simp add: merge_node_record_def stored_node_def node_record_new_def)
qed

lemma merge_edge_stored:
  assumes "stored_props (er_properties b)" "stored_props (er_properties o')" "stored_props (er_properties t)"
  shows "\<exists>er cs. merge_edge_record b o' t = Inr (er, cs) \<and> stored_props (er_properties er) \<and> list_all stored_conflict cs"
  using merge_properties_props [OF assms] by (auto simp: merge_edge_record_def)

end
