(* ===== verification/Graph_Merge.thy ===== *)
theory Graph_Merge
  imports Constraints Merged_Records Conflicts_Map
begin

text \<open>
  The merge of two graph versions against their base (\<^verbatim>\<open>crates/acetone-graph/src/merge.rs\<close>): the three primary
  maps are merged, nodes and edges cell by cell; the reverse edges and the indexes are rebuilt; a merge
  without cell conflicts is validated against the base.
\<close>

section \<open>Merging one map\<close>

datatype manifest_merge = Clean manifest | Conflicts manifest "merge_conflict list"

definition encode_opt_value :: "mvalue option \<Rightarrow> graph_error + bytes option" where
  "encode_opt_value v = (case v of
       Some v \<Rightarrow> rbind (map_err GValueEncode (encode_value v)) (\<lambda>bs. Inr (Some bs))
     | None \<Rightarrow> Inr None)"

text \<open>A whole-record conflict.\<close>

definition whole_conflict :: "conflict_map \<Rightarrow> conflict \<Rightarrow> cell_conflict" where
  "whole_conflict cmap c = \<lparr>cc_map = cmap, cc_key = cf_key c, cc_property = None, cc_base = cf_base c,
     cc_ours = cf_ours c, cc_theirs = cf_theirs c\<rparr>"

text \<open>The record both sides changed, decoded, merged and encoded again.\<close>

definition merge_node_bytes ::
  "bytes option \<Rightarrow> bytes \<Rightarrow> bytes \<Rightarrow> graph_error + bytes \<times> property_conflict list" where
  "merge_node_bytes base ours theirs =
     rbind (case base of
              Some b \<Rightarrow> map_err GRecordDecode (node_record_decode b)
            | None \<Rightarrow> Inr (node_record_new [] [])) (\<lambda>base_rec.
     rbind (map_err GRecordDecode (node_record_decode ours)) (\<lambda>ours_rec.
     rbind (map_err GRecordDecode (node_record_decode theirs)) (\<lambda>theirs_rec.
     rbind (merge_node_record base_rec ours_rec theirs_rec) (\<lambda>(rec, pcs).
     rbind (map_err GRecordEncode (node_record_encode rec)) (\<lambda>bs. Inr (bs, pcs))))))"

definition merge_edge_bytes ::
  "bytes option \<Rightarrow> bytes \<Rightarrow> bytes \<Rightarrow> graph_error + bytes \<times> property_conflict list" where
  "merge_edge_bytes base ours theirs =
     rbind (case base of
              Some b \<Rightarrow> map_err GRecordDecode (edge_record_decode b)
            | None \<Rightarrow> Inr \<lparr>er_properties = []\<rparr>) (\<lambda>base_rec.
     rbind (map_err GRecordDecode (edge_record_decode ours)) (\<lambda>ours_rec.
     rbind (map_err GRecordDecode (edge_record_decode theirs)) (\<lambda>theirs_rec.
     rbind (merge_edge_record base_rec ours_rec theirs_rec) (\<lambda>(rec, pcs).
     rbind (map_err GRecordEncode (edge_record_encode rec)) (\<lambda>bs. Inr (bs, pcs))))))"

text \<open>\<^const>\<open>None\<close> is the panic of \<^verbatim>\<open>unreachable!\<close>.\<close>

definition merge_bytes ::
  "conflict_map \<Rightarrow> bytes option \<Rightarrow> bytes \<Rightarrow> bytes \<Rightarrow> (bytes \<times> property_conflict list) run" where
  "merge_bytes cmap base ours theirs = (case cmap of
       CNodes \<Rightarrow> lift (merge_node_bytes base ours theirs)
     | CEdges \<Rightarrow> lift (merge_edge_bytes base ours theirs)
     | CSchema \<Rightarrow> None)"

fun push_conflicts ::
  "conflict_map \<Rightarrow> bytes \<Rightarrow> property_conflict list \<Rightarrow> cell_conflict list \<Rightarrow> graph_error + cell_conflict list" where
  "push_conflicts cmap key [] conflicts = Inr conflicts"
| "push_conflicts cmap key (pc # pcs) conflicts =
     rbind (encode_opt_value (pc_base pc)) (\<lambda>base.
     rbind (encode_opt_value (pc_ours pc)) (\<lambda>ours.
     rbind (encode_opt_value (pc_theirs pc)) (\<lambda>theirs.
       push_conflicts cmap key pcs (conflicts @ [\<lparr>cc_map = cmap, cc_key = key, cc_property = Some (pc_property pc),
         cc_base = base, cc_ours = ours, cc_theirs = theirs\<rparr>]))))"

definition refine_conflict ::
  "conflict_map \<Rightarrow> conflict \<Rightarrow> batch_op list \<times> cell_conflict list \<Rightarrow> (batch_op list \<times> cell_conflict list) run" where
  "refine_conflict cmap c acc = (case (cf_ours c, cf_theirs c) of
       (Some ours, Some theirs) \<Rightarrow>
         gbind (merge_bytes cmap (cf_base c) ours theirs) (\<lambda>(merged_value, pcs).
         gbind (lift (push_conflicts cmap (cf_key c) pcs (snd acc))) (\<lambda>conflicts.
           Some (Inr (fst acc @ [Put (cf_key c) merged_value], conflicts))))
     | _ \<Rightarrow> Some (Inr (fst acc, snd acc @ [whole_conflict cmap c])))"

definition merge_one ::
  "'s store_ops \<Rightarrow> 's \<Rightarrow> conflict_map \<Rightarrow> (manifest \<Rightarrow> map_root) \<Rightarrow> manifest \<Rightarrow> manifest \<Rightarrow> manifest \<Rightarrow>
     cell_conflict list \<Rightarrow> (root \<times> cell_conflict list \<times> 's) run" where
  "merge_one S s cmap select base ours theirs conflicts =
     (let params = mf_chunk_params base
      in gbind (lift (map_err GProlly (map_root_to_root (select base) params))) (\<lambda>b.
         gbind (lift (map_err GProlly (map_root_to_root (select ours) params))) (\<lambda>o'.
         gbind (lift (map_err GProlly (map_root_to_root (select theirs) params))) (\<lambda>t.
         gbind (map_option (map_err GProlly) (merge S s b o' t)) (\<lambda>(outcome, s).
           if cmap = CSchema
           then Some (Inr (mo_root outcome, conflicts @ map (whole_conflict cmap) (mo_conflicts outcome), s))
           else
             gbind (gfold (refine_conflict cmap) (mo_conflicts outcome) ([], conflicts)) (\<lambda>(puts, conflicts).
               if puts = [] then Some (Inr (mo_root outcome, conflicts, s))
               else gbind (lift (map_err GProlly (apply_batch S s (mo_root outcome) puts))) (\<lambda>(root, s).
                      Some (Inr (root, conflicts, s)))))))))"

section \<open>Derived maps and schema reads\<close>

definition reverse_edge :: "bytes \<times> bytes \<Rightarrow> batch_op list \<Rightarrow> batch_op list run" where
  "reverse_edge kv ops =
     gbind (lift (map_err GGraphKey (decode_fwd (fst kv)))) (\<lambda>edge.
     gbind (lift (map_err GGraphKey (encode_rev edge))) (\<lambda>rev.
       Some (Inr (ops @ [Put rev []]))))"

definition rebuild_reverse :: "'s store_ops \<Rightarrow> 's \<Rightarrow> root \<Rightarrow> chunk_params \<Rightarrow> (root \<times> 's) run" where
  "rebuild_reverse S s edges_fwd params =
     gbind (for_scan S s edges_fwd reverse_edge []) (fresh_map S s params)"

definition schema_entries :: "'s store_ops \<Rightarrow> 's \<Rightarrow> root \<Rightarrow> schema_entry list run" where
  "schema_entries S s schema =
     for_scan S s schema (\<lambda>kv out. lift (rbind (map_err GSchema (schema_decode (fst kv) (snd kv))) (\<lambda>e. Inr (out @ [e])))) []"

definition rel_type_defs :: "'s store_ops \<Rightarrow> 's \<Rightarrow> root \<Rightarrow> (bytes, rel_type_def) btree_map run" where
  "rel_type_defs S s schema =
     for_scan S s schema (\<lambda>kv out. lift (rbind (map_err GSchema (schema_decode (fst kv) (snd kv))) (\<lambda>e.
       Inr (case e of SRelType name def \<Rightarrow> bt_insert name def out | _ \<Rightarrow> out)))) []"

definition label_defs :: "'s store_ops \<Rightarrow> 's \<Rightarrow> root \<Rightarrow> (bytes, label_def) btree_map run" where
  "label_defs S s schema =
     for_scan S s schema (\<lambda>kv out. lift (rbind (map_err GSchema (schema_decode (fst kv) (snd kv))) (\<lambda>e.
       Inr (case e of SLabel name def \<Rightarrow> bt_insert name def out | _ \<Rightarrow> out)))) []"

section \<open>Validation\<close>

text \<open>\<^verbatim>\<open>for entry in prolly_diff(..)? { let entry = entry?; .. }\<close>\<close>

partial_function (option) diff_loop ::
  "'s store_ops \<Rightarrow> 's \<Rightarrow> (diff_entry \<Rightarrow> 'a \<Rightarrow> 'a run) \<Rightarrow> diff_state \<Rightarrow> 'a \<Rightarrow> 'a run" where
  "diff_loop S s body d acc = (case diff_next S s d of
       (None, _) \<Rightarrow> Some (Inr acc)
     | (Some (Inl e), _) \<Rightarrow> Some (Inl (GProlly e))
     | (Some (Inr entry), d) \<Rightarrow>
         (case body entry acc of
            None \<Rightarrow> None
          | Some (Inl e) \<Rightarrow> Some (Inl e)
          | Some (Inr acc) \<Rightarrow> diff_loop S s body d acc))"

definition for_diff ::
  "'s store_ops \<Rightarrow> 's \<Rightarrow> root \<Rightarrow> root \<Rightarrow> (diff_entry \<Rightarrow> 'a \<Rightarrow> 'a run) \<Rightarrow> 'a \<Rightarrow> 'a run" where
  "for_diff S s a b body acc = gbind (lift (map_err GProlly (diff S s a b))) (\<lambda>d. diff_loop S s body d acc)"

text \<open>Deleted and changed keys; added_edges and changed keys.\<close>

definition node_change :: "diff_entry \<Rightarrow> bytes set \<times> bytes set \<Rightarrow> bytes set \<times> bytes set" where
  "node_change entry acc = (case (de_before entry, de_after entry) of
       (Some _, None) \<Rightarrow> (insert (de_key entry) (fst acc), snd acc)
     | (_, Some _) \<Rightarrow> (fst acc, insert (de_key entry) (snd acc))
     | (None, None) \<Rightarrow> acc)"

definition edge_change :: "diff_entry \<Rightarrow> bytes set \<times> bytes set \<Rightarrow> bytes set \<times> bytes set" where
  "edge_change entry acc =
     (if de_after entry \<noteq> None
      then (if de_before entry = None then insert (de_key entry) (fst acc) else fst acc, insert (de_key entry) (snd acc))
      else acc)"

definition check_endpoint ::
  "'s store_ops \<Rightarrow> 's \<Rightarrow> root \<Rightarrow> bytes set \<Rightarrow> bool \<Rightarrow> bytes \<Rightarrow> endpoint \<Rightarrow> node_key \<Rightarrow> graph_violation list \<Rightarrow>
     graph_error + graph_violation list" where
  "check_endpoint S s merged_nodes deleted_nodes is_added raw_key role node violations =
     rbind (map_err GGraphKey (node_key_encode node)) (\<lambda>enc.
     rbind (map_err GProlly (prolly_get S s merged_nodes enc)) (\<lambda>found.
       Inr (if found = None \<and> (is_added \<or> enc \<in> deleted_nodes) then violations @ [DanglingEdge raw_key enc role] else violations)))"

definition check_endpoints ::
  "'s store_ops \<Rightarrow> 's \<Rightarrow> root \<Rightarrow> bytes set \<Rightarrow> bytes set \<Rightarrow> bytes \<times> bytes \<Rightarrow> graph_violation list \<Rightarrow> graph_violation list run" where
  "check_endpoints S s merged_nodes deleted_nodes added_edges kv violations =
     gbind (lift (map_err GGraphKey (decode_fwd (fst kv)))) (\<lambda>edge.
     let is_added = fst kv \<in> added_edges
     in lift (rbind (check_endpoint S s merged_nodes deleted_nodes is_added (fst kv) Src (ek_src edge) violations) (\<lambda>violations.
        check_endpoint S s merged_nodes deleted_nodes is_added (fst kv) Dst (ek_dst edge) violations)))"

definition push_node :: "bytes \<times> bytes \<Rightarrow> (node_key \<times> node_record) list \<Rightarrow> (node_key \<times> node_record) list run" where
  "push_node kv nodes =
     gbind (lift (map_err GGraphKey (node_key_decode (fst kv)))) (\<lambda>key.
     gbind (lift (map_err GRecordDecode (node_record_decode (snd kv)))) (\<lambda>rec.
       Some (Inr (nodes @ [(key, rec)]))))"

definition merge_existence ::
  "(bytes, label_def) btree_map \<Rightarrow> (bytes, label_def) btree_map \<Rightarrow> bytes set \<Rightarrow> node_key \<times> node_record \<Rightarrow>
     graph_violation list \<Rightarrow> graph_error + graph_violation list" where
  "merge_existence labels base_labels changed_nodes = (\<lambda>(key, rec) violations.
     case map_of labels (nk_label key) of
       None \<Rightarrow> Inr violations
     | Some def \<Rightarrow>
         rbind (map_err GGraphKey (node_key_encode key)) (\<lambda>key_enc.
           let changed = key_enc \<in> changed_nodes;
               missing = filter (\<lambda>property. \<not> present rec def property \<and>
                 (changed \<or> (case map_of base_labels (nk_label key) of
                    None \<Rightarrow> True | Some b \<Rightarrow> \<not> (\<exists>e \<in> set (ld_exists b). e = property)))) (ld_exists def)
           in Inr (violations @ map (MissingRequired key_enc) missing)))"

definition merge_types ::
  "(bytes, label_def) btree_map \<Rightarrow> (bytes, label_def) btree_map \<Rightarrow> bytes set \<Rightarrow> node_key \<times> node_record \<Rightarrow>
     graph_violation list \<Rightarrow> graph_error + graph_violation list" where
  "merge_types labels base_labels changed_nodes = (\<lambda>(key, rec) violations.
     case map_of labels (nk_label key) of
       None \<Rightarrow> Inr violations
     | Some def \<Rightarrow>
         rbind (map_err GGraphKey (node_key_encode key)) (\<lambda>key_enc.
           let changed = key_enc \<in> changed_nodes;
               breaches = filter (\<lambda>(property, declared, _).
                 changed \<or> (case map_of base_labels (nk_label key) of
                    None \<Rightarrow> True | Some b \<Rightarrow> map_of (ld_types b) property \<noteq> Some declared)) (type_violations key rec def)
           in Inr (violations @ map (\<lambda>(property, declared, actual). WrongType key_enc property declared actual) breaches)))"

definition merge_edge_types ::
  "(bytes, rel_type_def) btree_map \<Rightarrow> (bytes, rel_type_def) btree_map \<Rightarrow> bytes set \<Rightarrow> bytes \<times> bytes \<Rightarrow>
     graph_violation list \<Rightarrow> graph_violation list run" where
  "merge_edge_types rel_types base_rel_types changed_edges kv violations =
     gbind (lift (map_err GGraphKey (decode_fwd (fst kv)))) (\<lambda>edge.
       case map_of rel_types (ek_rtype edge) of
         None \<Rightarrow> Some (Inr violations)
       | Some def \<Rightarrow>
           gbind (lift (map_err GRecordDecode (edge_record_decode (snd kv)))) (\<lambda>rec.
             let changed = fst kv \<in> changed_edges;
                 breaches = filter (\<lambda>(property, declared, _).
                   changed \<or> (case map_of base_rel_types (ek_rtype edge) of
                      None \<Rightarrow> True | Some b \<Rightarrow> map_of (rd_types b) property \<noteq> Some declared)) (rel_type_violations edge rec def)
             in Some (Inr (violations @
                  map (\<lambda>(property, declared, actual). EdgeWrongType (fst kv) property declared actual) breaches))))"

text \<open>Relationship discriminators.\<close>

definition disc_of :: "(bytes, rel_type_def) btree_map \<Rightarrow> bytes \<Rightarrow> bytes option" where
  "disc_of rel_types rtype = Option.bind (map_of rel_types rtype) rd_discriminator"

definition disagreeing_types ::
  "(bytes, rel_type_def) btree_map \<Rightarrow> (bytes, rel_type_def) btree_map \<Rightarrow> (bytes, bytes option) btree_map" where
  "disagreeing_types merged_rel_types side =
     (let d = fold (\<lambda>(name, def) d. if rd_discriminator def \<noteq> disc_of merged_rel_types name then bt_insert name (rd_discriminator def) d else d)
                side []
      in fold (\<lambda>(name, _) d. if map_of side name = None \<and> disc_of merged_rel_types name \<noteq> None then bt_insert name None d else d) merged_rel_types d)"

definition stale_edge ::
  "'s store_ops \<Rightarrow> 's \<Rightarrow> (bytes, rel_type_def) btree_map \<Rightarrow> root \<Rightarrow> (bytes, bytes option) btree_map \<Rightarrow> bytes \<times> bytes \<Rightarrow>
     (bytes, graph_violation) btree_map \<Rightarrow> (bytes, graph_violation) btree_map run" where
  "stale_edge S s merged_rel_types merged_edges disagreeing kv stale =
     gbind (lift (map_err GGraphKey (decode_fwd (fst kv)))) (\<lambda>edge.
       case map_of disagreeing (ek_rtype edge) of
         None \<Rightarrow> Some (Inr stale)
       | Some minted \<Rightarrow>
           if map_of stale (fst kv) \<noteq> None then Some (Inr stale)
           else gbind (lift (map_err GProlly (prolly_get S s merged_edges (fst kv)))) (\<lambda>found.
             if found = None then Some (Inr stale)
             else Some (Inr (bt_insert (fst kv) (StaleDiscriminator (fst kv) (disc_of merged_rel_types (ek_rtype edge)) minted) stale))))"

definition stale_side ::
  "'s store_ops \<Rightarrow> 's \<Rightarrow> (bytes, rel_type_def) btree_map \<Rightarrow> root \<Rightarrow> manifest \<Rightarrow>
     (bytes, graph_violation) btree_map \<Rightarrow> (bytes, graph_violation) btree_map run" where
  "stale_side S s merged_rel_types merged_edges side stale =
     (let params = mf_chunk_params side
      in gbind (lift (map_err GProlly (map_root_to_root (mf_schema side) params))) (\<lambda>schema.
         gbind (rel_type_defs S s schema) (\<lambda>side_rel_types.
           let disagreeing = disagreeing_types merged_rel_types side_rel_types
           in if disagreeing = [] then Some (Inr stale)
              else gbind (lift (map_err GProlly (map_root_to_root (mf_edges_fwd side) params))) (\<lambda>edges.
                for_scan S s edges (stale_edge S s merged_rel_types merged_edges disagreeing) stale))))"

definition stale_discriminators ::
  "'s store_ops \<Rightarrow> 's \<Rightarrow> (bytes, rel_type_def) btree_map \<Rightarrow> manifest \<Rightarrow> manifest \<Rightarrow> root \<Rightarrow>
     graph_violation list \<Rightarrow> graph_violation list run" where
  "stale_discriminators S s merged_rel_types ours theirs merged_edges violations =
     gbind (stale_side S s merged_rel_types merged_edges ours []) (\<lambda>stale.
     gbind (stale_side S s merged_rel_types merged_edges theirs stale) (\<lambda>stale.
       Some (Inr (violations @ map snd stale))))"

text \<open>UNIQUE, over the encoded keys of the merged nodes.\<close>

type_synonym key_groups = "(bytes \<times> bytes \<times> bytes, bytes list) btree_map"

fun group_keys :: "node_key \<Rightarrow> properties \<Rightarrow> bytes list \<Rightarrow> key_groups \<Rightarrow> graph_error + key_groups" where
  "group_keys key ps [] groups = Inr groups"
| "group_keys key ps (property # us) groups = (case map_of ps property of
       None \<Rightarrow> group_keys key ps us groups
     | Some v \<Rightarrow> rbind (map_err (GRecordEncode \<circ> REncValue) (encode_value v)) (\<lambda>value_enc.
         rbind (map_err GGraphKey (node_key_encode key)) (\<lambda>key_enc.
           let g = (nk_label key, property, value_enc);
               members = (case map_of groups g of None \<Rightarrow> [] | Some ms \<Rightarrow> ms)
           in group_keys key ps us (bt_insert g (members @ [key_enc]) groups))))"

definition group_merged ::
  "(bytes, label_def) btree_map \<Rightarrow> node_key \<times> node_record \<Rightarrow> key_groups \<Rightarrow> graph_error + key_groups" where
  "group_merged labels = (\<lambda>(key, rec) groups. case map_of labels (nk_label key) of
       None \<Rightarrow> Inr groups
     | Some def \<Rightarrow> group_keys key (nr_properties rec) (ld_unique def) groups)"

definition merge_unique ::
  "(bytes, label_def) btree_map \<Rightarrow> bytes set \<Rightarrow> key_groups \<Rightarrow> graph_violation list" where
  "merge_unique base_labels changed_nodes groups =
     map (\<lambda>((label, property, v), nodes). UniqueViolation label property v nodes)
       (filter (\<lambda>((label, property, v), nodes). \<not> length nodes < 2 \<and>
          ((case map_of base_labels label of None \<Rightarrow> True | Some b \<Rightarrow> \<not> (\<exists>u \<in> set (ld_unique b). u = property)) \<or>
           (\<exists>n \<in> set nodes. n \<in> changed_nodes))) groups)"

definition validate_merged ::
  "'s store_ops \<Rightarrow> 's \<Rightarrow> manifest \<Rightarrow> manifest \<Rightarrow> manifest \<Rightarrow> manifest \<Rightarrow> graph_violation list run" where
  "validate_merged S s base ours theirs merged_mf =
     (let params = mf_chunk_params merged_mf
      in gbind (lift (map_err GProlly (map_root_to_root (mf_nodes base) params))) (\<lambda>base_nodes.
         gbind (lift (map_err GProlly (map_root_to_root (mf_nodes merged_mf) params))) (\<lambda>merged_nodes.
         gbind (lift (map_err GProlly (map_root_to_root (mf_edges_fwd base) params))) (\<lambda>base_edges.
         gbind (lift (map_err GProlly (map_root_to_root (mf_edges_fwd merged_mf) params))) (\<lambda>merged_edges.
         gbind (for_diff S s base_nodes merged_nodes (\<lambda>entry acc. Some (Inr (node_change entry acc))) ({}, {})) (\<lambda>(deleted_nodes, changed_nodes).
         gbind (for_diff S s base_edges merged_edges (\<lambda>entry acc. Some (Inr (edge_change entry acc))) ({}, {})) (\<lambda>(added_edges, changed_edges).
         gbind (for_scan S s merged_edges (check_endpoints S s merged_nodes deleted_nodes added_edges) []) (\<lambda>violations.
         gbind (lift (map_err GProlly (map_root_to_root (mf_schema merged_mf) params))) (\<lambda>schema.
         gbind (label_defs S s schema) (\<lambda>labels.
         gbind (lift (map_err GProlly (map_root_to_root (mf_schema base) params))) (\<lambda>base_schema.
         gbind (label_defs S s base_schema) (\<lambda>base_labels.
         gbind (for_scan S s merged_nodes push_node []) (\<lambda>all_nodes.
         gbind (lift (rfold (merge_existence labels base_labels changed_nodes) all_nodes violations)) (\<lambda>violations.
         gbind (lift (rfold (merge_types labels base_labels changed_nodes) all_nodes violations)) (\<lambda>violations.
         gbind (rel_type_defs S s schema) (\<lambda>rel_types.
         gbind (rel_type_defs S s base_schema) (\<lambda>base_rel_types.
         gbind (if \<exists>(_, def) \<in> set rel_types. rd_types def \<noteq> []
                then for_scan S s merged_edges (merge_edge_types rel_types base_rel_types changed_edges) violations
                else Some (Inr violations)) (\<lambda>violations.
         gbind (stale_discriminators S s rel_types ours theirs merged_edges violations) (\<lambda>violations.
         gbind (lift (rfold (group_merged labels) all_nodes [])) (\<lambda>groups.
           Some (Inr (violations @ merge_unique base_labels changed_nodes groups))))))))))))))))))))))"

definition merge_manifests ::
  "'s store_ops \<Rightarrow> 's \<Rightarrow> manifest \<Rightarrow> manifest \<Rightarrow> manifest \<Rightarrow> (manifest_merge \<times> 's) run" where
  "merge_manifests S s base ours theirs =
     (let params = mf_chunk_params base
      in gbind (merge_one S s CSchema mf_schema base ours theirs []) (\<lambda>(schema, cells, s).
         gbind (merge_one S s CNodes mf_nodes base ours theirs cells) (\<lambda>(nodes, cells, s).
         gbind (merge_one S s CEdges mf_edges_fwd base ours theirs cells) (\<lambda>(edges_fwd, cells, s).
         gbind (rebuild_reverse S s edges_fwd params) (\<lambda>(edges_rev, s).
         let merged_mf = \<lparr>mf_chunk_params = params, mf_schema = map_root_from_root schema, mf_nodes = map_root_from_root nodes,
               mf_edges_fwd = map_root_from_root edges_fwd, mf_edges_rev = map_root_from_root edges_rev,
               mf_indexes = [], mf_conflicts = None\<rparr>
         in gbind (schema_entries S s schema) (\<lambda>entries.
            gbind (rebuild_all S s merged_mf entries) (\<lambda>(indexes, s).
            let merged_mf = merged_mf\<lparr>mf_indexes := indexes\<rparr>
            in if cells \<noteq> [] then Some (Inr (Conflicts merged_mf (map MCell cells), s))
               else gbind (validate_merged S s base ours theirs merged_mf) (\<lambda>violations.
                 if violations \<noteq> [] then Some (Inr (Conflicts merged_mf (map MGraph violations), s))
                 else Some (Inr (Clean merged_mf, s))))))))))"

section \<open>Refined conflicts\<close>

text \<open>What a record merge provides on the values of its map, for nodes and for edges.\<close>

definition cell :: "conflict_map \<Rightarrow> bytes \<Rightarrow> property_conflict \<Rightarrow> cell_conflict" where
  "cell cmap k pc = \<lparr>cc_map = cmap, cc_key = k, cc_property = Some (pc_property pc),
     cc_base = map_option (projr \<circ> encode_value) (pc_base pc), cc_ours = map_option (projr \<circ> encode_value) (pc_ours pc),
     cc_theirs = map_option (projr \<circ> encode_value) (pc_theirs pc)\<rparr>"

definition cell_value ::
  "(bytes option \<Rightarrow> bytes \<Rightarrow> bytes \<Rightarrow> graph_error + bytes \<times> property_conflict list) \<Rightarrow>
     bytes option \<Rightarrow> bytes option \<Rightarrow> bytes option \<Rightarrow> bytes option" where
  "cell_value f b o' t = (case (clashes b o' t, o', t) of
       (True, Some x, Some y) \<Rightarrow> Some (fst (projr (f b x y)))
     | _ \<Rightarrow> merged_value b o' t)"

definition cells_at ::
  "(bytes option \<Rightarrow> bytes \<Rightarrow> bytes \<Rightarrow> graph_error + bytes \<times> property_conflict list) \<Rightarrow> conflict_map \<Rightarrow>
     bytes \<Rightarrow> bytes option \<Rightarrow> bytes option \<Rightarrow> bytes option \<Rightarrow> cell_conflict list" where
  "cells_at f cmap k b o' t = (case (clashes b o' t, o', t) of
       (True, Some x, Some y) \<Rightarrow> map (cell cmap k) (snd (projr (f b x y)))
     | (True, _, _) \<Rightarrow> [whole_conflict cmap \<lparr>cf_key = k, cf_base = b, cf_ours = o', cf_theirs = t\<rparr>]
     | _ \<Rightarrow> [])"

lemma encode_opt_stored: "\<forall>v \<in> set_option x. stored_value v \<Longrightarrow> encode_opt_value x = Inr (map_option (projr \<circ> encode_value) x)"
  by (cases x) (auto simp: encode_opt_value_def dest: stored_value_canon)

lemma push_conflicts_stored:
  "list_all stored_conflict pcs \<Longrightarrow> push_conflicts cmap k pcs cells = Inr (cells @ map (cell cmap k) pcs)"
  by (induction pcs arbitrary: cells) (auto simp: stored_conflict_def encode_opt_stored cell_def)

locale record_merger =
  fixes f :: "bytes option \<Rightarrow> bytes \<Rightarrow> bytes \<Rightarrow> graph_error + bytes \<times> property_conflict list"
    and cmap :: conflict_map
    and stored :: "bytes \<Rightarrow> bool"
  assumes merges: "pred_option stored b \<Longrightarrow> stored x \<Longrightarrow> stored y \<Longrightarrow>
      \<exists>bs pcs. f b x y = Inr (bs, pcs) \<and> list_all stored_conflict pcs \<and> (length bs < 2 ^ 63 \<longrightarrow> stored bs)"
    and dispatch: "merge_bytes cmap b x y = Some (f b x y)"
    and cell_wise: "cmap \<noteq> CSchema"
begin

definition stored_conf :: "conflict \<Rightarrow> bool" where
  "stored_conf c \<longleftrightarrow> pred_option stored (cf_base c) \<and> pred_option stored (cf_ours c) \<and> pred_option stored (cf_theirs c) \<and>
     clashes (cf_base c) (cf_ours c) (cf_theirs c)"

definition put_of :: "conflict \<Rightarrow> batch_op list" where
  "put_of c = (case (cf_ours c, cf_theirs c) of
       (Some x, Some y) \<Rightarrow> [Put (cf_key c) (fst (projr (f (cf_base c) x y)))] | _ \<Rightarrow> [])"

definition cells_of :: "conflict \<Rightarrow> cell_conflict list" where
  "cells_of c = cells_at f cmap (cf_key c) (cf_base c) (cf_ours c) (cf_theirs c)"

lemma refine_step:
  assumes "stored_conf c"
  shows "refine_conflict cmap c (puts, cells) = Some (Inr (puts @ put_of c, cells @ cells_of c))"
proof -
  have "\<exists>bs pcs. f (cf_base c) x y = Inr (bs, pcs) \<and> list_all stored_conflict pcs"
    if "cf_ours c = Some x" "cf_theirs c = Some y" for x y
    using merges [of "cf_base c" x y] assms that by (auto simp: stored_conf_def)
  then show ?thesis using assms
    by (cases "cf_ours c"; cases "cf_theirs c")
      (fastforce simp: refine_conflict_def dispatch push_conflicts_stored put_of_def cells_of_def cells_at_def stored_conf_def
        whole_conflict_def)+
qed

lemma refine_all:
  "list_all stored_conf cs \<Longrightarrow> gfold (refine_conflict cmap) cs (puts, cells) =
     Some (Inr (puts @ concat (map put_of cs), cells @ concat (map cells_of cs)))"
  by (induction cs arbitrary: puts cells) (simp_all add: refine_step)

end

definition stored_node_bytes :: "bytes \<Rightarrow> bool" where
  "stored_node_bytes v \<longleftrightarrow> length v < 2 ^ 63 \<and> (\<exists>rec. node_record_decode v = Inr rec)"

definition stored_edge_bytes :: "bytes \<Rightarrow> bool" where
  "stored_edge_bytes v \<longleftrightarrow> length v < 2 ^ 63 \<and> (\<exists>rec. edge_record_decode v = Inr rec)"

interpretation node_merger: record_merger merge_node_bytes CNodes stored_node_bytes
proof
  fix b x y
  assume st: "pred_option stored_node_bytes b" "stored_node_bytes x" "stored_node_bytes y"
  then obtain rx ry where d: "node_record_decode x = Inr rx" "node_record_decode y = Inr ry" by (auto simp: stored_node_bytes_def)
  have e: "stored_node (node_record_new [] [])"
    using normalise_strings_spec [of "[]"] by (simp add: stored_node_def stored_props_map node_record_new_def canon_ascending_def)
  obtain rb where b: "(case b of Some b \<Rightarrow> map_err GRecordDecode (node_record_decode b) | None \<Rightarrow> Inr (node_record_new [] [])) = Inr rb"
    "stored_node rb"
    using st(1) e by (cases b) (auto simp: stored_node_bytes_def dest: decoded_stored [simplified])
  obtain nr pcs where m: "merge_node_record rb rx ry = Inr (nr, pcs)" "stored_node nr" "list_all stored_conflict pcs"
    using merge_node_stored [OF b(2), of rx ry] decoded_stored(1) [OF d(1)] decoded_stored(1) [OF d(2)] st(2,3)
    by (auto simp: stored_node_bytes_def)
  from stored_node_encode [OF m(2)] show "\<exists>bs pcs. merge_node_bytes b x y = Inr (bs, pcs) \<and> list_all stored_conflict pcs \<and>
      (length bs < 2 ^ 63 \<longrightarrow> stored_node_bytes bs)"
    using b(1) d m(1,3) by (auto simp: merge_node_bytes_def stored_node_bytes_def)
qed (simp_all add: merge_bytes_def)

interpretation edge_merger: record_merger merge_edge_bytes CEdges stored_edge_bytes
proof
  fix b x y
  assume st: "pred_option stored_edge_bytes b" "stored_edge_bytes x" "stored_edge_bytes y"
  then obtain rx ry where d: "edge_record_decode x = Inr rx" "edge_record_decode y = Inr ry" by (auto simp: stored_edge_bytes_def)
  obtain rb where b: "(case b of Some b \<Rightarrow> map_err GRecordDecode (edge_record_decode b) | None \<Rightarrow> Inr \<lparr>er_properties = []\<rparr>) = Inr rb"
    "stored_props (er_properties rb)"
    using st(1) stored_props_map [of "[]"] by (cases b) (auto simp: stored_edge_bytes_def dest: decoded_stored [simplified])
  obtain er pcs where m: "merge_edge_record rb rx ry = Inr (er, pcs)" "stored_props (er_properties er)" "list_all stored_conflict pcs"
    using merge_edge_stored [OF b(2), of rx ry] decoded_stored(2) [OF d(1)] decoded_stored(2) [OF d(2)] st(2,3)
    by (auto simp: stored_edge_bytes_def)
  from stored_edge_encode [OF m(2)] show "\<exists>bs pcs. merge_edge_bytes b x y = Inr (bs, pcs) \<and> list_all stored_conflict pcs \<and>
      (length bs < 2 ^ 63 \<longrightarrow> stored_edge_bytes bs)"
    using b(1) d m(1,3) by (auto simp: merge_edge_bytes_def stored_edge_bytes_def)
qed (simp_all add: merge_bytes_def)

section \<open>Merged maps\<close>

lemma gensures_gbind2:
  "gensures m (\<lambda>(x, y). R x y) \<Longrightarrow> (\<And>x y. R x y \<Longrightarrow> gensures (f (x, y)) Q) \<Longrightarrow> gensures (gbind m f) Q"
  by (erule gensures_gbind) auto

lemma merge_ok:
  assumes "chunk_store S addr" "holds_map S addr s params rb mb" "holds_map S addr s params ro mo" "holds_map S addr s params rt mt"
    and "3 * (card (dom mb) + card (dom mo) + card (dom mt)) \<le> 2 ^ 64"
  shows "gensures (gbind (lift (map_err GProlly (map_root_to_root rb params))) (\<lambda>b.
         gbind (lift (map_err GProlly (map_root_to_root ro params))) (\<lambda>o'.
         gbind (lift (map_err GProlly (map_root_to_root rt params))) (\<lambda>t.
           map_option (map_err GProlly) (merge S s b o' t))))) (\<lambda>(out, s').
    grows S s s' \<and> root_params (mo_root out) = params \<and>
    is_map S addr s' (mo_root out) (\<lambda>k. merged_value (mb k) (mo k) (mt k)) \<and>
    sorted_wrt (<) (map cf_key (mo_conflicts out)) \<and>
    set (mo_conflicts out) = {\<lparr>cf_key = k, cf_base = mb k, cf_ours = mo k, cf_theirs = mt k\<rparr> | k. clashes (mb k) (mo k) (mt k)})"
proof -
  obtain b where b: "map_root_to_root rb params = Inr b" "root_params b = params" "is_map S addr s b mb"
    using assms(2) by (rule holds_map_open)
  obtain o' where o': "map_root_to_root ro params = Inr o'" "root_params o' = params" "is_map S addr s o' mo"
    using assms(3) by (rule holds_map_open)
  obtain t where t: "map_root_to_root rt params = Inr t" "root_params t = params" "is_map S addr s t mt"
    using assms(4) by (rule holds_map_open)
  have "3 * card (dom mb) + card (dom mo) + card (dom mt) \<le> 2 ^ 64" using assms(5) by simp
  with merge_spec [OF assms(1) b(3) o'(3) t(3)] b o' t show ?thesis by (auto intro: gensures_prolly)
qed

lemma merge_one_split:
  "merge_one S s cmap select base ours theirs cells =
     gbind (gbind (lift (map_err GProlly (map_root_to_root (select base) (mf_chunk_params base)))) (\<lambda>b.
         gbind (lift (map_err GProlly (map_root_to_root (select ours) (mf_chunk_params base)))) (\<lambda>o'.
         gbind (lift (map_err GProlly (map_root_to_root (select theirs) (mf_chunk_params base)))) (\<lambda>t.
           map_option (map_err GProlly) (merge S s b o' t))))) (\<lambda>(outcome, s).
       if cmap = CSchema
       then Some (Inr (mo_root outcome, cells @ map (whole_conflict cmap) (mo_conflicts outcome), s))
       else gbind (gfold (refine_conflict cmap) (mo_conflicts outcome) ([], cells)) (\<lambda>(puts, cells).
         if puts = [] then Some (Inr (mo_root outcome, cells, s))
         else gbind (lift (map_err GProlly (apply_batch S s (mo_root outcome) puts))) (\<lambda>(root, s).
                Some (Inr (root, cells, s)))))"
  by (simp add: merge_one_def Let_def gbind_assoc [symmetric])

text \<open>The schema conflicts of two versions.\<close>

definition schema_cells :: "(bytes \<rightharpoonup> bytes) \<Rightarrow> (bytes \<rightharpoonup> bytes) \<Rightarrow> (bytes \<rightharpoonup> bytes) \<Rightarrow> cell_conflict set" where
  "schema_cells mb mo mt = {whole_conflict CSchema \<lparr>cf_key = k, cf_base = mb k, cf_ours = mo k, cf_theirs = mt k\<rparr> | k.
     clashes (mb k) (mo k) (mt k)}"

lemma merge_schema_ok:
  assumes "chunk_store S addr" "holds_map S addr s (mf_chunk_params base) (mf_schema base) mb"
    "holds_map S addr s (mf_chunk_params base) (mf_schema ours) mo" "holds_map S addr s (mf_chunk_params base) (mf_schema theirs) mt"
    and "3 * (card (dom mb) + card (dom mo) + card (dom mt)) \<le> 2 ^ 64"
  shows "gensures (merge_one S s CSchema mf_schema base ours theirs cells) (\<lambda>(root, cells', s').
    grows S s s' \<and> root_params root = mf_chunk_params base \<and>
    is_map S addr s' root (\<lambda>k. merged_value (mb k) (mo k) (mt k)) \<and>
    (\<exists>new. cells' = cells @ new \<and> set new = schema_cells mb mo mt))"
  unfolding merge_one_split
  by (rule gensures_gbind [OF merge_ok [OF assms]]) (force simp: schema_cells_def)

context record_merger
begin

definition stored_map :: "(bytes \<rightharpoonup> bytes) \<Rightarrow> bool" where
  "stored_map m \<longleftrightarrow> (\<forall>k v. m k = Some v \<longrightarrow> stored v)"

definition merged_map :: "(bytes \<rightharpoonup> bytes) \<Rightarrow> (bytes \<rightharpoonup> bytes) \<Rightarrow> (bytes \<rightharpoonup> bytes) \<Rightarrow> (bytes \<rightharpoonup> bytes)" where
  "merged_map mb mo mt = (\<lambda>k. cell_value f (mb k) (mo k) (mt k))"

definition merge_cells :: "(bytes \<rightharpoonup> bytes) \<Rightarrow> (bytes \<rightharpoonup> bytes) \<Rightarrow> (bytes \<rightharpoonup> bytes) \<Rightarrow> cell_conflict set" where
  "merge_cells mb mo mt = {c. \<exists>k. c \<in> set (cells_at f cmap k (mb k) (mo k) (mt k))}"

lemma dom_merged: "dom (merged_map mb mo mt) \<subseteq> dom mo \<union> dom mt" "dom (\<lambda>k. merged_value (mb k) (mo k) (mt k)) \<subseteq> dom mo \<union> dom mt"
  by (auto simp: merged_map_def cell_value_def merged_value_def split: if_splits bool.splits option.splits)

lemma merged_stored:
  assumes "stored_map mb" "stored_map mo" "stored_map mt" "\<forall>k v. merged_map mb mo mt k = Some v \<longrightarrow> length v < 2 ^ 63"
  shows "stored_map (merged_map mb mo mt)"
  unfolding stored_map_def
proof (intro allI impI)
  fix k v
  assume v: "merged_map mb mo mt k = Some v"
  have opt: "pred_option stored (mb k)" using assms(1) by (auto simp: stored_map_def pred_option_def)
  show "stored v"
  proof (cases "clashes (mb k) (mo k) (mt k) \<and> mo k \<noteq> None \<and> mt k \<noteq> None")
    case True
    then obtain x y where xy: "mo k = Some x" "mt k = Some y" by auto
    then obtain bs pcs where "f (mb k) x y = Inr (bs, pcs)" "length bs < 2 ^ 63 \<longrightarrow> stored bs"
      using merges [OF opt, of x y] assms(2,3) by (auto simp: stored_map_def)
    moreover have "length v < 2 ^ 63" using assms(4) v by blast
    ultimately show ?thesis using v True xy by (auto simp: merged_map_def cell_value_def)
  next
    case False
    then have "merged_value (mb k) (mo k) (mt k) = Some v"
      using v by (auto simp: merged_map_def cell_value_def split: bool.splits option.splits)
    then show ?thesis using assms(1-3) by (auto simp: merged_value_def stored_map_def split: if_splits)
  qed
qed

text \<open>Writing the refined records back.\<close>

lemma puts_effect:
  assumes "distinct (map cf_key cs)" "set cs = {\<lparr>cf_key = k, cf_base = mb k, cf_ours = mo k, cf_theirs = mt k\<rparr> | k. clashes (mb k) (mo k) (mt k)}"
  shows "fold apply_to_map (concat (map put_of cs)) (\<lambda>k. merged_value (mb k) (mo k) (mt k)) = merged_map mb mo mt"
proof -
  have gen: "fold apply_to_map (concat (map put_of cs)) m =
      (\<lambda>k. if k \<in> cf_key ` set cs \<and> mo k \<noteq> None \<and> mt k \<noteq> None then Some (fst (projr (f (mb k) (the (mo k)) (the (mt k))))) else m k)"
    if "distinct (map cf_key cs)" "\<forall>c \<in> set cs. cf_base c = mb (cf_key c) \<and> cf_ours c = mo (cf_key c) \<and> cf_theirs c = mt (cf_key c)" for cs m
    using that
  proof (induction cs arbitrary: m)
    case (Cons c cs)
    have "fold apply_to_map (put_of c) m = (\<lambda>k. if k = cf_key c \<and> mo k \<noteq> None \<and> mt k \<noteq> None
        then Some (fst (projr (f (mb k) (the (mo k)) (the (mt k))))) else m k)"
      using Cons.prems(2) by (auto simp: put_of_def fun_eq_iff split: option.splits)
    then show ?case using Cons by (auto simp: fun_eq_iff)
  qed simp
  have key: "k \<in> cf_key ` set cs \<longleftrightarrow> clashes (mb k) (mo k) (mt k)" for k by (auto simp: assms(2) image_iff)
  have "\<forall>c \<in> set cs. cf_base c = mb (cf_key c) \<and> cf_ours c = mo (cf_key c) \<and> cf_theirs c = mt (cf_key c)"
    by (auto simp: assms(2))
  from gen [OF assms(1) this] show ?thesis
    unfolding key by (auto simp: merged_map_def cell_value_def fun_eq_iff split: bool.splits option.splits)
qed

lemma puts_bound:
  assumes "distinct (map cf_key cs)" "finite (dom mo)" "\<forall>c \<in> set cs. cf_ours c = mo (cf_key c)"
  shows "length (concat (map put_of cs)) \<le> card (dom mo)"
proof -
  let ?ks = "map cf_key (filter (\<lambda>c. cf_ours c \<noteq> None) cs)"
  have "length (concat (map put_of cs)) \<le> length ?ks"
    by (induction cs) (auto simp: put_of_def split: option.splits)
  also have "\<dots> = card (set ?ks)" using assms(1) by (intro distinct_card [symmetric]) (simp add: distinct_map_filter)
  also have "\<dots> \<le> card (dom mo)" using assms(2,3) by (intro card_mono) auto
  finally show ?thesis .
qed

lemma merge_one_ok:
  assumes "chunk_store S addr" "holds_map S addr s (mf_chunk_params base) (select base) mb"
    "holds_map S addr s (mf_chunk_params base) (select ours) mo" "holds_map S addr s (mf_chunk_params base) (select theirs) mt"
    and "stored_map mb" "stored_map mo" "stored_map mt"
    and fit: "3 * (card (dom mb) + card (dom mo) + card (dom mt)) \<le> 2 ^ 64"
  shows "gensures (merge_one S s cmap select base ours theirs cells) (\<lambda>(root, cells', s').
    grows S s s' \<and> root_params root = mf_chunk_params base \<and> is_map S addr s' root (merged_map mb mo mt) \<and>
    (\<exists>new. cells' = cells @ new \<and> set new = merge_cells mb mo mt))"
  unfolding merge_one_split if_not_P [OF cell_wise]
proof (rule gensures_gbind [OF merge_ok [OF assms(1-4) fit]], clarsimp simp only: prod.case)
  fix out s'
  let ?m = "\<lambda>k. merged_value (mb k) (mo k) (mt k)" and ?cs = "mo_conflicts out"
  assume g: "grows S s s'" and r: "root_params (mo_root out) = mf_chunk_params base" "is_map S addr s' (mo_root out) ?m"
    and cs: "sorted_wrt (<) (map cf_key ?cs)"
      "set ?cs = {\<lparr>cf_key = k, cf_base = mb k, cf_ours = mo k, cf_theirs = mt k\<rparr> | k. clashes (mb k) (mo k) (mt k)}"
  have fin: "finite (dom mo)" "finite (dom mt)" using assms(3,4) by (auto elim!: holds_map_open simp: finite_dom_map_of)
  have d: "distinct (map cf_key ?cs)" using cs(1) by (simp add: strict_sorted_iff)
  have st: "list_all stored_conf ?cs"
    using assms(5-7) by (auto simp: list_all_iff cs(2) stored_conf_def stored_map_def pred_option_def)
  let ?puts = "concat (map put_of ?cs)" and ?new = "concat (map cells_of ?cs)"
  have new: "set ?new = merge_cells mb mo mt"
  proof -
    have "cells_at f cmap k b o' t = []" if "\<not> clashes b o' t" for k b o' t using that by (simp add: cells_at_def)
    then have "merge_cells mb mo mt = (\<Union>c \<in> set ?cs. set (cells_of c))"
      unfolding merge_cells_def cs(2) by (fastforce simp: cells_of_def)
    then show ?thesis by simp
  qed
  have eff: "fold apply_to_map ?puts ?m = merged_map mb mo mt" by (rule puts_effect [OF d cs(2)])
  show "gensures (gbind (gfold (refine_conflict cmap) ?cs ([], cells)) (\<lambda>(puts, cells).
         if puts = [] then Some (Inr (mo_root out, cells, s'))
         else gbind (lift (map_err GProlly (apply_batch S s' (mo_root out) puts))) (\<lambda>(root, s).
                Some (Inr (root, cells, s))))) (\<lambda>(root, cells', s').
    grows S s s' \<and> root_params root = mf_chunk_params base \<and> is_map S addr s' root (merged_map mb mo mt) \<and>
    (\<exists>new. cells' = cells @ new \<and> set new = merge_cells mb mo mt))"
  proof (cases "?puts = []")
    case True
    then have "?m = merged_map mb mo mt" using eff by (simp only: fold_simps id_apply)
    then show ?thesis using True g r new by (simp add: refine_all [OF st])
  next
    case False
    have "length ?puts \<le> card (dom mo)" by (rule puts_bound [OF d fin(1)]) (auto simp: cs(2))
    moreover have "card (dom ?m) \<le> card (dom mo \<union> dom mt)" using dom_merged(2) fin by (intro card_mono) auto
    then have "card (dom ?m) \<le> card (dom mo) + card (dom mt)" using card_Un_le [of "dom mo" "dom mt"] by linarith
    ultimately have "fits (length ?puts) ?m" using fit by (simp add: fits_def)
    from update_map_ok [OF assms(1) r(2) this, unfolded eff] show ?thesis
      using False g r(1) new by (auto simp: refine_all [OF st] elim!: gensures_gbind intro: grows_trans)
  qed
qed

end

section \<open>The reverse edges\<close>

lemma encode_key_total: "list_all encodable vs \<Longrightarrow> \<exists>x. encode_key vs = Inr x"
proof -
  have "\<exists>x. write_elements out vs 0 = Inr x" if "list_all encodable vs" for out
    using that
  proof (induction vs arbitrary: out)
    case (Cons v vs)
    then obtain y where "write_element [] v 0 = Inr y" by (cases "write_element [] v 0") (auto simp: encodable_def)
    then have "\<exists>z. write_element out v 0 = Inr z" using write_append(1) [of out "[]" v 0] by auto
    with Cons show ?case by auto
  qed simp
  then show "list_all encodable vs \<Longrightarrow> \<exists>x. encode_key vs = Inr x" by (simp add: encode_key_def encode_key_into_def)
qed

text \<open>An edge key that decodes has a reverse form, and its endpoints have keys.\<close>

lemma decoded_edge_encodes:
  assumes "decode_fwd k = Inr e"
  shows "\<exists>x. encode_rev e = Inr x" "\<exists>x. node_key_encode (ek_src e) = Inr x" "\<exists>x. node_key_encode (ek_dst e) = Inr x"
proof -
  have "list_all encodable (edge_tuple e (ek_src e) (ek_dst e))"
    using decoded_edge(2) [OF assms] encode_key_concat [of "edge_tuple e (ek_src e) (ek_dst e)" k]
    by (simp add: encode_fwd_def encode_tuple_def map_err_Inr_iff)
  then show "\<exists>x. encode_rev e = Inr x" "\<exists>x. node_key_encode (ek_src e) = Inr x" "\<exists>x. node_key_encode (ek_dst e) = Inr x"
    using encode_key_total [of "edge_tuple e (ek_dst e) (ek_src e)"] encode_key_total [of "[node_key_to_value (ek_src e)]"]
      encode_key_total [of "[node_key_to_value (ek_dst e)]"]
    by (auto simp: encode_rev_def encode_tuple_def edge_tuple_def node_key_encode_def)
qed

definition edge_map :: "(bytes \<rightharpoonup> bytes) \<Rightarrow> bool" where
  "edge_map m \<longleftrightarrow> (\<forall>k v. m k = Some v \<longrightarrow> stored_edge_bytes v \<and> (\<exists>e. decode_fwd k = Inr e))"

lemma reverse_all:
  "\<forall>kv \<in> set kvs. \<exists>e. decode_fwd (fst kv) = Inr e \<Longrightarrow> gfold reverse_edge kvs ops = Some (Inr (ops @ build_ops rev_entry kvs))"
proof (induction kvs arbitrary: ops)
  case (Cons kv kvs)
  then obtain e where e: "decode_fwd (fst kv) = Inr e" by auto
  then obtain x where x: "encode_rev e = Inr x" using decoded_edge_encodes(1) by blast
  with e have "rev_entry (fst kv) (snd kv) = Some x" by (simp add: rev_entry_def)
  with Cons e x show ?case by (cases kv) (simp add: reverse_edge_def build_ops_def)
qed (simp add: build_ops_def)

lemma rebuild_reverse_ok:
  assumes "chunk_store S addr" "is_map S addr s r m" "edge_map m" "card (dom m) \<le> 2 ^ 64"
  shows "gensures (rebuild_reverse S s r params) (\<lambda>(r', s').
    grows S s s' \<and> root_params r' = params \<and> is_map S addr s' r' (derived rev_entry m))"
proof -
  from assms(2) obtain kvs where k: "canon_root S addr s kvs r" "m = map_of kvs" by (auto simp: is_map_def)
  note so = canon_root_sorted [OF k(1)]
  have "length kvs \<le> 2 ^ 64" using assms(4) card_dom_sorted [OF so] k(2) by simp
  then have len: "length (build_ops rev_entry kvs) \<le> 2 ^ 64" using length_build_ops [of rev_entry kvs] by linarith
  have "\<forall>kv \<in> set kvs. \<exists>e. decode_fwd (fst kv) = Inr e"
    using assms(3) so by (auto simp: edge_map_def k(2) strict_sorted_iff)
  then have "for_scan S s r reverse_edge [] = Some (Inr (build_ops rev_entry kvs))"
    using reverse_all by (simp add: for_scan_ok [OF canon_intact [OF k(1)]])
  moreover have "fold apply_to_map (build_ops rev_entry kvs) Map.empty = derived rev_entry m"
    using reverse_edges.derived_build [of kvs] so by (simp add: k(2) strict_sorted_iff)
  ultimately show ?thesis using fresh_map_ok [OF assms(1) len, of s params] by (simp add: rebuild_reverse_def)
qed

section \<open>The schema of a merge\<close>

definition schema_map :: "(bytes \<rightharpoonup> bytes) \<Rightarrow> bool" where
  "schema_map m \<longleftrightarrow> (\<forall>k v. m k = Some v \<longrightarrow> (\<exists>e. schema_decode k v = Inr e))"

lemma schema_map_rows: "schema_map (map_of rows) \<Longrightarrow> distinct (map fst rows) \<Longrightarrow> schema_rows rows"
  by (auto simp: schema_map_def schema_rows_def)

lemma merged_schema: "schema_map mb \<Longrightarrow> schema_map mo \<Longrightarrow> schema_map mt \<Longrightarrow> schema_map (\<lambda>k. merged_value (mb k) (mo k) (mt k))"
  by (auto simp: schema_map_def merged_value_def split: if_splits)

lemma rows_scan:
  assumes "schema_rows rows"
  shows "gfold (\<lambda>kv out. lift (rbind (map_err GSchema (schema_decode (fst kv) (snd kv))) (\<lambda>e. Inr (step e out)))) rows acc =
    Some (Inr (fold (step \<circ> row_entry) rows acc))"
  using assms
proof (induction rows arbitrary: acc)
  case (Cons row rows)
  then have "schema_decode (fst row) (snd row) = Inr (row_entry row)" "schema_rows rows"
    using row_decodes [OF Cons.prems, of row] by (simp_all add: schema_rows_def)
  then show ?case using Cons.IH by simp
qed simp

lemma schema_rows_of:
  assumes "is_map S addr s r m" "schema_map m"
  obtains rows where "sorted_wrt (<) (map fst rows)" "m = map_of rows" "schema_rows rows" "intact S s rows r"
proof -
  from assms(1) obtain rows where k: "canon_root S addr s rows r" "m = map_of rows" by (auto simp: is_map_def)
  note so = canon_root_sorted [OF k(1)]
  have "schema_rows rows" using schema_map_rows assms(2) so by (simp add: k(2) strict_sorted_iff)
  then show ?thesis by (rule that [OF so k(2) _ canon_intact [OF k(1)]])
qed

lemma schema_scan:
  assumes "intact S s rows r" "schema_rows rows"
  shows "for_scan S s r (\<lambda>kv out. lift (rbind (map_err GSchema (schema_decode (fst kv) (snd kv))) (\<lambda>e. Inr (step e out)))) acc =
      Some (Inr (fold (step \<circ> row_entry) rows acc))"
  by (simp add: for_scan_ok [OF assms(1)] rows_scan [OF assms(2)])

lemma fold_snoc: "fold ((\<lambda>e out. out @ [e]) \<circ> f) xs acc = acc @ map f xs"
  by (induction xs arbitrary: acc) simp_all

text \<open>The index declarations of a schema: one per name, each valid.\<close>

fun index_decl :: "schema_entry \<Rightarrow> (bytes \<times> index_def) list" where
  "index_decl (SIndex n d) = [(n, d)]"
| "index_decl _ = []"

lemma index_decl_mem: "(n, d) \<in> set (index_decl e) \<longleftrightarrow> e = SIndex n d"
  by (cases e) auto

lemma schema_index_defs:
  "fst (fold schema_index_step es acc) = fst acc @ concat (map index_decl es)"
proof (induction es arbitrary: acc)
  case (Cons e es)
  then show ?case by (cases e; cases acc) simp_all
qed simp

lemma declared_indexes:
  assumes "schema_rows rows" "sorted_wrt (<) (map fst rows)" "schema_index_info (map row_entry rows) = (defs, lk)"
  shows "distinct (map fst defs)" "\<forall>(name, def) \<in> set defs. index_def_ok def"
proof -
  have defs: "defs = concat (map (index_decl \<circ> row_entry) rows)"
    using assms(3) schema_index_defs [of "map row_entry rows" "([], [])"] by (simp add: schema_index_info_def)
  have strict: "schema_map_key (row_entry row) = Some (fst row) \<and> (case row_entry row of
       SIndex _ d \<Rightarrow> index_def_new (id_label d) (id_properties d) = Inr d \<and> utf8_valid (id_label d) \<and> list_all utf8_valid (id_properties d)
     | _ \<Rightarrow> True)" if "row \<in> set rows" for row
    using schema_decode_strict [OF row_decodes [OF assms(1) that]] by (auto split: schema_entry.splits)
  show "\<forall>(name, def) \<in> set defs. index_def_ok def"
  proof clarify
    fix name def
    assume "(name, def) \<in> set defs"
    then obtain row where "row \<in> set rows" "row_entry row = SIndex name def" by (auto simp: defs index_decl_mem)
    with strict [of row] show "index_def_ok def" by (simp add: index_def_ok_def)
  qed
  have one: "fst a = fst b" if "a \<in> set rows" "b \<in> set rows" "row_entry a = SIndex n d" "row_entry b = SIndex n d'" for a b n d d'
    using strict [OF that(1)] strict [OF that(2)] that(3,4) by simp
  have "distinct (map fst (concat (map (index_decl \<circ> row_entry) rs)))" if "set rs \<subseteq> set rows" "distinct (map fst rs)" for rs
    using that
  proof (induction rs)
    case (Cons r rs)
    have "n \<notin> fst ` set (concat (map (index_decl \<circ> row_entry) rs))" if "row_entry r = SIndex n d" for n d
    proof
      assume "n \<in> fst ` set (concat (map (index_decl \<circ> row_entry) rs))"
      then obtain b d' where b: "b \<in> set rs" "row_entry b = SIndex n d'"
        by (auto simp: index_decl_mem)
      then have "fst r = fst b" using one [OF _ _ that b(2)] Cons.prems(1) by auto
      then show False using Cons.prems(2) b(1) by auto
    qed
    moreover have "distinct (map fst (concat (map (index_decl \<circ> row_entry) rs)))"
      by (rule Cons.IH) (use Cons.prems in auto)
    ultimately show ?case by (cases "row_entry r") (simp_all add: comp_def)
  qed simp
  from this [of rows] assms(2) show "distinct (map fst defs)" by (simp add: defs strict_sorted_iff)
qed

section \<open>Graphs under manifests\<close>

text \<open>The primary maps a manifest stands for, and the maps derived from them.\<close>

definition graph_at ::
  "'s store_ops \<Rightarrow> (bytes \<Rightarrow> hash) \<Rightarrow> 's \<Rightarrow> chunk_params \<Rightarrow> manifest \<Rightarrow>
     (bytes \<rightharpoonup> bytes) \<Rightarrow> (bytes \<rightharpoonup> bytes) \<Rightarrow> (bytes \<rightharpoonup> bytes) \<Rightarrow> bool" where
  "graph_at S addr s params m gs gn ge \<longleftrightarrow> mf_chunk_params m = params \<and>
     holds_map S addr s params (mf_schema m) gs \<and> holds_map S addr s params (mf_nodes m) gn \<and>
     holds_map S addr s params (mf_edges_fwd m) ge \<and> schema_map gs \<and> node_map gn \<and> edge_map ge"

definition derived_at ::
  "'s store_ops \<Rightarrow> (bytes \<Rightarrow> hash) \<Rightarrow> 's \<Rightarrow> manifest \<Rightarrow>
     (bytes \<rightharpoonup> bytes) \<Rightarrow> (bytes \<rightharpoonup> bytes) \<Rightarrow> (bytes \<rightharpoonup> bytes) \<Rightarrow> bool" where
  "derived_at S addr s m gs gn ge \<longleftrightarrow>
     holds_map S addr s (mf_chunk_params m) (mf_edges_rev m) (derived rev_entry ge) \<and>
     (\<exists>rows. sorted_wrt (<) (map fst rows) \<and> gs = map_of rows \<and>
        (let (defs, lk) = schema_index_info (map row_entry rows)
         in \<forall>(name, def) \<in> set defs. \<exists>mr. map_of (mf_indexes m) name = Some mr \<and>
              holds_map S addr s (mf_chunk_params m) mr (derived (index_of def lk) gn)))"

lemma graph_at_grows: "graph_at S addr s params m gs gn ge \<Longrightarrow> grows S s s' \<Longrightarrow> graph_at S addr s' params m gs gn ge"
  by (auto simp: graph_at_def intro: holds_map_grows)

lemma derived_at_grows: "derived_at S addr s m gs gn ge \<Longrightarrow> grows S s s' \<Longrightarrow> derived_at S addr s' m gs gn ge"
  unfolding derived_at_def Let_def case_prod_unfold by (blast intro: holds_map_grows)

section \<open>The merge up to its validation\<close>

definition merge_result :: "manifest_merge \<Rightarrow> manifest" where
  "merge_result out = (case out of Clean m \<Rightarrow> m | Conflicts m _ \<Rightarrow> m)"

lemma node_map_stored: "node_map m \<longleftrightarrow> node_merger.stored_map m \<and> (\<forall>k \<in> dom m. \<exists>nk. node_key_decode k = Inr nk)"
  by (fastforce simp: node_map_def node_merger.stored_map_def stored_node_bytes_def)

lemma edge_map_stored: "edge_map m \<longleftrightarrow> edge_merger.stored_map m \<and> (\<forall>k \<in> dom m. \<exists>e. decode_fwd k = Inr e)"
  by (fastforce simp: edge_map_def edge_merger.stored_map_def)

lemma merged_node_map:
  assumes "node_map mb" "node_map mo" "node_map mt" "\<forall>k v. node_merger.merged_map mb mo mt k = Some v \<longrightarrow> length v < 2 ^ 63"
  shows "node_map (node_merger.merged_map mb mo mt)"
  using node_merger.merged_stored [OF _ _ _ assms(4)] node_merger.dom_merged(1) [of mb mo mt] assms(1-3)
  unfolding node_map_stored by blast

lemma merged_edge_map:
  assumes "edge_map mb" "edge_map mo" "edge_map mt" "\<forall>k v. edge_merger.merged_map mb mo mt k = Some v \<longrightarrow> length v < 2 ^ 63"
  shows "edge_map (edge_merger.merged_map mb mo mt)"
  using edge_merger.merged_stored [OF _ _ _ assms(4)] edge_merger.dom_merged(1) [of mb mo mt] assms(1-3)
  unfolding edge_map_stored by blast

text \<open>The derived maps of the merged manifest.\<close>

lemma merge_derived:
  assumes "chunk_store S addr" "is_map S addr s schema gs" "is_map S addr s nodes gn" "is_map S addr s edges ge"
    and "root_params schema = params" "root_params nodes = params" "root_params edges = params"
    and "schema_map gs" "node_map gn" "edge_map ge" "card (dom gn) \<le> 2 ^ 64" "card (dom ge) \<le> 2 ^ 64"
  shows "gensures (gbind (rebuild_reverse S s edges params) (\<lambda>(edges_rev, s).
      let m = \<lparr>mf_chunk_params = params, mf_schema = map_root_from_root schema, mf_nodes = map_root_from_root nodes,
               mf_edges_fwd = map_root_from_root edges, mf_edges_rev = map_root_from_root edges_rev,
               mf_indexes = [], mf_conflicts = None\<rparr>
      in gbind (schema_entries S s schema) (\<lambda>entries.
         gbind (rebuild_all S s m entries) (\<lambda>(indexes, s).
           Some (Inr (m\<lparr>mf_indexes := indexes\<rparr>, s)))))) (\<lambda>(m, s').
    grows S s s' \<and> graph_at S addr s' params m gs gn ge \<and> derived_at S addr s' m gs gn ge)"
  unfolding Let_def
proof (rule gensures_gbind2 [OF rebuild_reverse_ok [OF assms(1,4,10,12)]])
  fix edges_rev s1
  assume "grows S s s1 \<and> root_params edges_rev = params \<and> is_map S addr s1 edges_rev (derived rev_entry ge)"
  then have g1: "grows S s s1" and rp: "root_params edges_rev = params" and rev: "is_map S addr s1 edges_rev (derived rev_entry ge)"
    by blast+
  let ?m = "\<lparr>mf_chunk_params = params, mf_schema = map_root_from_root schema, mf_nodes = map_root_from_root nodes,
     mf_edges_fwd = map_root_from_root edges, mf_edges_rev = map_root_from_root edges_rev, mf_indexes = [], mf_conflicts = None\<rparr>"
  note maps = assms(2-4) [THEN is_map_grows, OF g1]
  have holds: "holds_map S addr s1 params (mf_schema ?m) gs" "holds_map S addr s1 params (mf_nodes ?m) gn"
    "holds_map S addr s1 params (mf_edges_fwd ?m) ge" "holds_map S addr s1 params (mf_edges_rev ?m) (derived rev_entry ge)"
    using maps [THEN holds_map_from_root] holds_map_from_root [OF rev] assms(5-7) rp by simp_all
  obtain rows where rows: "sorted_wrt (<) (map fst rows)" "gs = map_of rows" "schema_rows rows" "intact S s1 rows schema"
    by (rule schema_rows_of [OF maps(1) assms(8)])
  have scan: "schema_entries S s1 schema = Some (Inr (map row_entry rows))"
    using schema_scan [OF rows(4,3), of "\<lambda>e out. out @ [e]"] by (simp add: schema_entries_def fold_snoc)
  obtain defs lk where info: "schema_index_info (map row_entry rows) = (defs, lk)" by (cases "schema_index_info (map row_entry rows)")
  note ix = rebuild_all_ok [OF assms(1) _ assms(9) info declared_indexes [OF rows(3,1) info] assms(11), where s = s1 and m = ?m]
  have "gensures (rebuild_all S s1 ?m (map row_entry rows)) (\<lambda>(out, s'). grows S s1 s' \<and> bt_ok out \<and>
      (\<forall>(name, def) \<in> set defs. \<exists>mr. map_of out name = Some mr \<and> holds_map S addr s' params mr (derived (index_of def lk) gn)))"
    by (rule gensures_mono [OF ix]) (use holds(2) in auto)
  then have "gensures (gbind (rebuild_all S s1 ?m (map row_entry rows)) (\<lambda>(indexes, s).
        Some (Inr (?m\<lparr>mf_indexes := indexes\<rparr>, s)))) (\<lambda>(m, s').
      grows S s s' \<and> graph_at S addr s' params m gs gn ge \<and> derived_at S addr s' m gs gn ge)"
  proof (rule gensures_gbind2)
    fix out s2
    assume "grows S s1 s2 \<and> bt_ok out \<and> (\<forall>(name, def) \<in> set defs. \<exists>mr. map_of out name = Some mr \<and>
        holds_map S addr s2 params mr (derived (index_of def lk) gn))"
    then have g2: "grows S s1 s2" and out: "\<forall>(name, def) \<in> set defs. \<exists>mr. map_of out name = Some mr \<and>
        holds_map S addr s2 params mr (derived (index_of def lk) gn)" by blast+
    show "gensures (case (out, s2) of (indexes, s) \<Rightarrow> Some (Inr (?m\<lparr>mf_indexes := indexes\<rparr>, s))) (\<lambda>(m, s').
        grows S s s' \<and> graph_at S addr s' params m gs gn ge \<and> derived_at S addr s' m gs gn ge)"
      using grows_trans [OF g1 g2] holds [THEN holds_map_grows, OF g2] assms(8-10) out rows info
      by (auto simp: graph_at_def derived_at_def intro!: exI [of _ rows])
  qed
  then show "gensures (case (edges_rev, s1) of (edges_rev, s) \<Rightarrow>
      gbind (schema_entries S s schema) (\<lambda>entries. gbind (rebuild_all S s
        \<lparr>mf_chunk_params = params, mf_schema = map_root_from_root schema, mf_nodes = map_root_from_root nodes,
               mf_edges_fwd = map_root_from_root edges, mf_edges_rev = map_root_from_root edges_rev,
               mf_indexes = [], mf_conflicts = None\<rparr> entries) (\<lambda>(indexes, s).
           Some (Inr (\<lparr>mf_chunk_params = params, mf_schema = map_root_from_root schema, mf_nodes = map_root_from_root nodes,
               mf_edges_fwd = map_root_from_root edges, mf_edges_rev = map_root_from_root edges_rev,
               mf_indexes = [], mf_conflicts = None\<rparr>\<lparr>mf_indexes := indexes\<rparr>, s))))) (\<lambda>(m, s').
      grows S s s' \<and> graph_at S addr s' params m gs gn ge \<and> derived_at S addr s' m gs gn ge)"
    unfolding prod.case scan gbind_simps .
qed

definition finish_merge ::
  "'s store_ops \<Rightarrow> manifest \<Rightarrow> manifest \<Rightarrow> manifest \<Rightarrow> cell_conflict list \<Rightarrow> manifest \<times> 's \<Rightarrow> (manifest_merge \<times> 's) run" where
  "finish_merge S base ours theirs cells = (\<lambda>(m, s).
     if cells \<noteq> [] then Some (Inr (Conflicts m (map MCell cells), s))
     else gbind (validate_merged S s base ours theirs m) (\<lambda>violations.
       if violations \<noteq> [] then Some (Inr (Conflicts m (map MGraph violations), s)) else Some (Inr (Clean m, s))))"

lemma merge_manifests_split:
  "merge_manifests S s base ours theirs =
     gbind (merge_one S s CSchema mf_schema base ours theirs []) (\<lambda>(schema, cells, s).
     gbind (merge_one S s CNodes mf_nodes base ours theirs cells) (\<lambda>(nodes, cells, s).
     gbind (merge_one S s CEdges mf_edges_fwd base ours theirs cells) (\<lambda>(edges, cells, s).
     gbind (gbind (rebuild_reverse S s edges (mf_chunk_params base)) (\<lambda>(edges_rev, s).
      let m = \<lparr>mf_chunk_params = mf_chunk_params base, mf_schema = map_root_from_root schema, mf_nodes = map_root_from_root nodes,
               mf_edges_fwd = map_root_from_root edges, mf_edges_rev = map_root_from_root edges_rev,
               mf_indexes = [], mf_conflicts = None\<rparr>
      in gbind (schema_entries S s schema) (\<lambda>entries.
         gbind (rebuild_all S s m entries) (\<lambda>(indexes, s).
           Some (Inr (m\<lparr>mf_indexes := indexes\<rparr>, s))))))
       (finish_merge S base ours theirs cells))))"
  by (simp add: merge_manifests_def finish_merge_def Let_def case_prod_unfold gbind_assoc [symmetric] cong: if_cong)

lemma gensures_gbind3:
  "gensures m (\<lambda>(x, y, z). R x y z) \<Longrightarrow> (\<And>x y z. R x y z \<Longrightarrow> gensures (f (x, y, z)) Q) \<Longrightarrow> gensures (gbind m f) Q"
  by (erule gensures_gbind) auto

lemma finish_merge_ok:
  assumes "gensures (validate_merged S s base ours theirs m) V"
  shows "gensures (finish_merge S base ours theirs cells (m, s)) (\<lambda>(out, s'). s' = s \<and> merge_result out = m \<and>
    (case out of
       Clean _ \<Rightarrow> cells = [] \<and> V []
     | Conflicts _ cs \<Rightarrow> if cells \<noteq> [] then cs = map MCell cells else (\<exists>vs. vs \<noteq> [] \<and> cs = map MGraph vs \<and> V vs)))"
  using assms by (auto simp: finish_merge_def merge_result_def elim!: gensures_gbind)

lemma card_merged:
  assumes "holds_map S addr s params ro mo" "holds_map S addr s params rt mt" "dom m \<subseteq> dom mo \<union> dom mt"
    and "3 * (card (dom mb) + card (dom mo) + card (dom mt)) \<le> 2 ^ 64"
  shows "card (dom m) \<le> 2 ^ 64"
proof -
  have "finite (dom mo)" "finite (dom mt)" using assms(1,2) by (auto elim!: holds_map_open simp: finite_dom_map_of)
  then have "card (dom m) \<le> card (dom mo \<union> dom mt)" using assms(3) by (intro card_mono) auto
  then show ?thesis using card_Un_le [of "dom mo" "dom mt"] assms(4) by simp
qed

text \<open>The three versions of a graph whose merge fits: at most a third of \<open>2 ^ 64\<close> entries in each kind of
  map, and merged records within the address space.\<close>

definition mergeable ::
  "(bytes \<rightharpoonup> bytes) \<times> (bytes \<rightharpoonup> bytes) \<times> (bytes \<rightharpoonup> bytes) \<Rightarrow> (bytes \<rightharpoonup> bytes) \<times> (bytes \<rightharpoonup> bytes) \<times> (bytes \<rightharpoonup> bytes) \<Rightarrow>
     (bytes \<rightharpoonup> bytes) \<times> (bytes \<rightharpoonup> bytes) \<times> (bytes \<rightharpoonup> bytes) \<Rightarrow> bool" where
  "mergeable = (\<lambda>(bs, bn, be) (os, on', oe) (ts, tn, te).
     3 * (card (dom bs) + card (dom os) + card (dom ts)) \<le> 2 ^ 64 \<and>
     3 * (card (dom bn) + card (dom on') + card (dom tn)) \<le> 2 ^ 64 \<and>
     3 * (card (dom be) + card (dom oe) + card (dom te)) \<le> 2 ^ 64 \<and>
     (\<forall>k v. cell_value merge_node_bytes (bn k) (on' k) (tn k) = Some v \<longrightarrow> length v < 2 ^ 63) \<and>
     (\<forall>k v. cell_value merge_edge_bytes (be k) (oe k) (te k) = Some v \<longrightarrow> length v < 2 ^ 63))"

lemma merge_primary_ok:
  assumes S: "chunk_store S addr" and b: "graph_at S addr s params base bs bn be" and o: "graph_at S addr s params ours os on' oe"
    and t: "graph_at S addr s params theirs ts tn te" and fit: "mergeable (bs, bn, be) (os, on', oe) (ts, tn, te)"
    and K: "\<And>schema nodes edges cells s'. grows S s s' \<Longrightarrow> root_params schema = params \<Longrightarrow> root_params nodes = params \<Longrightarrow>
      root_params edges = params \<Longrightarrow> is_map S addr s' schema (\<lambda>k. merged_value (bs k) (os k) (ts k)) \<Longrightarrow>
      is_map S addr s' nodes (node_merger.merged_map bn on' tn) \<Longrightarrow> is_map S addr s' edges (edge_merger.merged_map be oe te) \<Longrightarrow>
      set cells = schema_cells bs os ts \<union> node_merger.merge_cells bn on' tn \<union> edge_merger.merge_cells be oe te \<Longrightarrow>
      gensures (K schema nodes edges cells s') Q"
  shows "gensures (gbind (merge_one S s CSchema mf_schema base ours theirs []) (\<lambda>(schema, cells, s).
     gbind (merge_one S s CNodes mf_nodes base ours theirs cells) (\<lambda>(nodes, cells, s).
     gbind (merge_one S s CEdges mf_edges_fwd base ours theirs cells) (\<lambda>(edges, cells, s). K schema nodes edges cells s)))) Q"
proof (rule gensures_gbind)
  have p: "mf_chunk_params base = params" using b by (simp add: graph_at_def)
  note at = b [unfolded graph_at_def node_map_stored edge_map_stored] o [unfolded graph_at_def node_map_stored edge_map_stored]
    t [unfolded graph_at_def node_map_stored edge_map_stored]
  have fits: "3 * (card (dom bs) + card (dom os) + card (dom ts)) \<le> 2 ^ 64" "3 * (card (dom bn) + card (dom on') + card (dom tn)) \<le> 2 ^ 64"
    "3 * (card (dom be) + card (dom oe) + card (dom te)) \<le> 2 ^ 64" using fit unfolding mergeable_def by auto
  show "gensures (merge_one S s CSchema mf_schema base ours theirs []) (\<lambda>(root, cells', s').
      grows S s s' \<and> root_params root = mf_chunk_params base \<and> is_map S addr s' root (\<lambda>k. merged_value (bs k) (os k) (ts k)) \<and>
      (\<exists>new. cells' = [] @ new \<and> set new = schema_cells bs os ts))"
    by (rule merge_schema_ok [OF S _ _ _ fits(1)]) (use at p in auto)
  fix x1
  assume "case x1 of (root, cells', s') \<Rightarrow>
      grows S s s' \<and> root_params root = mf_chunk_params base \<and> is_map S addr s' root (\<lambda>k. merged_value (bs k) (os k) (ts k)) \<and>
      (\<exists>new. cells' = [] @ new \<and> set new = schema_cells bs os ts)"
  then obtain schema c1 s1 where x1: "x1 = (schema, c1, s1)" "grows S s s1" "root_params schema = params"
    "is_map S addr s1 schema (\<lambda>k. merged_value (bs k) (os k) (ts k))" "set c1 = schema_cells bs os ts" using p by auto
  have n: "gensures (merge_one S s1 CNodes mf_nodes base ours theirs c1) (\<lambda>(root, cells', s').
      grows S s1 s' \<and> root_params root = mf_chunk_params base \<and> is_map S addr s' root (node_merger.merged_map bn on' tn) \<and>
      (\<exists>new. cells' = c1 @ new \<and> set new = node_merger.merge_cells bn on' tn))"
    by (rule node_merger.merge_one_ok [OF S _ _ _ _ _ _ fits(2)]) (use at p in \<open>auto intro: holds_map_grows [OF _ x1(2)]\<close>)
  have e: "gensures (merge_one S s2 CEdges mf_edges_fwd base ours theirs c2) (\<lambda>(root, cells', s').
      grows S s2 s' \<and> root_params root = mf_chunk_params base \<and> is_map S addr s' root (edge_merger.merged_map be oe te) \<and>
      (\<exists>new. cells' = c2 @ new \<and> set new = edge_merger.merge_cells be oe te))" if "grows S s s2" for s2 c2
    by (rule edge_merger.merge_one_ok [OF S _ _ _ _ _ _ fits(3)]) (use at p in \<open>auto intro: holds_map_grows [OF _ that]\<close>)
  have "gensures (gbind (merge_one S s1 CNodes mf_nodes base ours theirs c1) (\<lambda>(nodes, cells, s).
     gbind (merge_one S s CEdges mf_edges_fwd base ours theirs cells) (\<lambda>(edges, cells, s). K schema nodes edges cells s))) Q"
  proof (rule gensures_gbind [OF n], clarsimp)
    fix nodes s2 new
    assume g2: "grows S s1 s2" and nodes: "root_params nodes = mf_chunk_params base" "is_map S addr s2 nodes (node_merger.merged_map bn on' tn)"
      and new: "set new = node_merger.merge_cells bn on' tn"
    note g = grows_trans [OF x1(2) g2]
    show "gensures (gbind (merge_one S s2 CEdges mf_edges_fwd base ours theirs (c1 @ new)) (\<lambda>(edges, cells, s). K schema nodes edges cells s)) Q"
    proof (rule gensures_gbind [OF e [OF g]], clarsimp)
      fix edges s3 new'
      assume g3: "grows S s2 s3" and edges: "root_params edges = mf_chunk_params base" "is_map S addr s3 edges (edge_merger.merged_map be oe te)"
        and new': "set new' = edge_merger.merge_cells be oe te"
      show "gensures (K schema nodes edges (c1 @ new @ new') s3) Q"
        by (rule K) (use grows_trans [OF g g3] x1 nodes edges new new' p
          is_map_grows [OF x1(4) grows_trans [OF g2 g3]] is_map_grows [OF nodes(2) g3] in auto)
    qed
  qed
  then show "gensures (case x1 of (schema, cells, s) \<Rightarrow> gbind (merge_one S s CNodes mf_nodes base ours theirs cells) (\<lambda>(nodes, cells, s).
     gbind (merge_one S s CEdges mf_edges_fwd base ours theirs cells) (\<lambda>(edges, cells, s). K schema nodes edges cells s))) Q"
    by (simp add: x1(1))
qed

lemma merge_manifests_ok:
  fixes bs bn be os on' oe ts tn te :: "bytes \<rightharpoonup> bytes"
  defines "GS \<equiv> \<lambda>k. merged_value (bs k) (os k) (ts k)" and "GN \<equiv> node_merger.merged_map bn on' tn"
    and "GE \<equiv> edge_merger.merged_map be oe te"
    and "C \<equiv> schema_cells bs os ts \<union> node_merger.merge_cells bn on' tn \<union> edge_merger.merge_cells be oe te"
  assumes S: "chunk_store S addr" and b: "graph_at S addr s params base bs bn be" and o: "graph_at S addr s params ours os on' oe"
    and t: "graph_at S addr s params theirs ts tn te" and fit: "mergeable (bs, bn, be) (os, on', oe) (ts, tn, te)"
    and V: "\<And>m s'. grows S s s' \<Longrightarrow> graph_at S addr s' params m GS GN GE \<Longrightarrow> gensures (validate_merged S s' base ours theirs m) (V m)"
  shows "gensures (merge_manifests S s base ours theirs) (\<lambda>(out, s').
    grows S s s' \<and> graph_at S addr s' params (merge_result out) GS GN GE \<and> derived_at S addr s' (merge_result out) GS GN GE \<and>
    (case out of
       Clean m \<Rightarrow> C = {} \<and> V m []
     | Conflicts m cs \<Rightarrow> if C \<noteq> {} then set cs = MCell ` C else (\<exists>vs. vs \<noteq> [] \<and> cs = map MGraph vs \<and> V m vs)))"
  unfolding merge_manifests_split
proof (rule merge_primary_ok [OF S b o t fit])
  fix schema nodes edges cells s1
  assume g: "grows S s s1" and r: "root_params schema = params" "root_params nodes = params" "root_params edges = params"
    and m: "is_map S addr s1 schema (\<lambda>k. merged_value (bs k) (os k) (ts k))" "is_map S addr s1 nodes (node_merger.merged_map bn on' tn)"
      "is_map S addr s1 edges (edge_merger.merged_map be oe te)"
    and cells: "set cells = schema_cells bs os ts \<union> node_merger.merge_cells bn on' tn \<union> edge_merger.merge_cells be oe te"
  have p: "mf_chunk_params base = params" using b by (simp add: graph_at_def)
  have gs: "schema_map GS" using b o t unfolding GS_def graph_at_def by (blast intro: merged_schema)
  have gn: "node_map GN" unfolding GN_def
    by (rule merged_node_map) (use b o t fit in \<open>simp_all add: graph_at_def mergeable_def node_merger.merged_map_def\<close>)
  have ge: "edge_map GE" unfolding GE_def
    by (rule merged_edge_map) (use b o t fit in \<open>simp_all add: graph_at_def mergeable_def edge_merger.merged_map_def\<close>)
  have "card (dom GN) \<le> 2 ^ 64" unfolding GN_def
    by (rule card_merged [where mb = bn, OF _ _ node_merger.dom_merged(1)]) (use o t fit in \<open>auto simp: graph_at_def mergeable_def\<close>)
  moreover have "card (dom GE) \<le> 2 ^ 64" unfolding GE_def
    by (rule card_merged [where mb = be, OF _ _ edge_merger.dom_merged(1)]) (use o t fit in \<open>auto simp: graph_at_def mergeable_def\<close>)
  ultimately have card: "card (dom GN) \<le> 2 ^ 64" "card (dom GE) \<le> 2 ^ 64" .
  note d = merge_derived [OF S m [folded GS_def GN_def GE_def] r gs gn ge card]
  show "gensures (gbind (gbind (rebuild_reverse S s1 edges (mf_chunk_params base)) (\<lambda>(edges_rev, s).
      let m = \<lparr>mf_chunk_params = mf_chunk_params base, mf_schema = map_root_from_root schema, mf_nodes = map_root_from_root nodes,
               mf_edges_fwd = map_root_from_root edges, mf_edges_rev = map_root_from_root edges_rev,
               mf_indexes = [], mf_conflicts = None\<rparr>
      in gbind (schema_entries S s schema) (\<lambda>entries.
         gbind (rebuild_all S s m entries) (\<lambda>(indexes, s).
           Some (Inr (m\<lparr>mf_indexes := indexes\<rparr>, s))))))
       (finish_merge S base ours theirs cells)) (\<lambda>(out, s').
    grows S s s' \<and> graph_at S addr s' params (merge_result out) GS GN GE \<and> derived_at S addr s' (merge_result out) GS GN GE \<and>
    (case out of
       Clean m \<Rightarrow> C = {} \<and> V m []
     | Conflicts m cs \<Rightarrow> if C \<noteq> {} then set cs = MCell ` C else (\<exists>vs. vs \<noteq> [] \<and> cs = map MGraph vs \<and> V m vs)))"
    unfolding p
  proof (rule gensures_gbind2 [OF d])
    fix m s2
    assume a: "grows S s1 s2 \<and> graph_at S addr s2 params m GS GN GE \<and> derived_at S addr s2 m GS GN GE"
    then have g2: "grows S s s2" using grows_trans [OF g] by blast
    have C: "cells = [] \<longleftrightarrow> C = {}" "set (map MCell cells) = MCell ` C" using cells by (auto simp: C_def)
    from finish_merge_ok [OF V [OF g2], of m cells] a
    show "gensures (finish_merge S base ours theirs cells (m, s2)) (\<lambda>(out, s').
      grows S s s' \<and> graph_at S addr s' params (merge_result out) GS GN GE \<and> derived_at S addr s' (merge_result out) GS GN GE \<and>
      (case out of
         Clean m \<Rightarrow> C = {} \<and> V m []
       | Conflicts m cs \<Rightarrow> if C \<noteq> {} then set cs = MCell ` C else (\<exists>vs. vs \<noteq> [] \<and> cs = map MGraph vs \<and> V m vs)))"
      using g2 C by (auto elim!: gensures_mono simp: merge_result_def split: manifest_merge.splits if_splits)
  qed
qed

end
