(* ===== verification/Merge_Validation.thy ===== *)
theory Merge_Validation
  imports Graph_Merge
begin

text \<open>
  The validation of a merge (\<^verbatim>\<open>validate_merged\<close>) over the graphs it is given: it returns, and what it reports is
  what the merge broke.
\<close>

section \<open>Changes\<close>

lemma diff_loop_ok:
  "\<forall>n. diff_take S s n d = map Inr (take n es) \<Longrightarrow> diff_loop S s body d acc = gfold body es acc"
proof (induction es arbitrary: d acc)
  case Nil
  have "diff_take S s (Suc 0) d = []" using Nil [rule_format, of "Suc 0"] by (simp only: list.map take_Nil)
  then obtain d' where "diff_next S s d = (None, d')" by (auto split: prod.splits option.splits)
  then show ?case by (subst diff_loop.simps) simp
next
  case (Cons e es)
  have "diff_take S s (Suc 0) d = [Inr e]"
    using Cons.prems [rule_format, of "Suc 0"] by (simp only: list.map take_Suc_Cons take_0)
  then obtain d' where n: "diff_next S s d = (Some (Inr e), d')" by (auto split: prod.splits option.splits)
  have "diff_take S s m d' = map Inr (take m es)" for m using Cons.prems [rule_format, of "Suc m"] n by simp
  with Cons.IH n show ?case by (subst diff_loop.simps) (auto simp: gbind_def split: option.splits sum.splits)
qed

lemma for_diff_ok:
  assumes "intact S s kvs a" "intact S s kvs' b"
  shows "for_diff S s a b body acc = gfold body (diff_list kvs kvs') acc"
  using diff_ok [OF assms] diff_loop_ok by (fastforce simp: for_diff_def)

lemma diff_keys:
  assumes "sorted_wrt (<) (map fst kvs)" "sorted_wrt (<) (map fst kvs')"
  shows "{de_key e | e. e \<in> set (diff_list kvs kvs') \<and> P (de_before e) (de_after e)} =
    {k. map_of kvs k \<noteq> map_of kvs' k \<and> P (map_of kvs k) (map_of kvs' k)}"
proof (intro set_eqI iffI)
  fix k
  assume "k \<in> {k. map_of kvs k \<noteq> map_of kvs' k \<and> P (map_of kvs k) (map_of kvs' k)}"
  then show "k \<in> {de_key e | e. e \<in> set (diff_list kvs kvs') \<and> P (de_before e) (de_after e)}"
    using diff_list_iff [OF assms, of "\<lparr>de_key = k, de_before = map_of kvs k, de_after = map_of kvs' k\<rparr>"]
    by (auto intro!: exI [of _ "\<lparr>de_key = k, de_before = map_of kvs k, de_after = map_of kvs' k\<rparr>"])
qed (auto simp: diff_list_iff [OF assms])

lemma node_changes:
  assumes "sorted_wrt (<) (map fst kvs)" "sorted_wrt (<) (map fst kvs')"
  shows "fold node_change (diff_list kvs kvs') ({}, {}) =
    ({k. map_of kvs k \<noteq> None \<and> map_of kvs' k = None}, {k. map_of kvs' k \<noteq> None \<and> map_of kvs k \<noteq> map_of kvs' k})"
proof -
  have "fold node_change es (D, C) = (D \<union> {de_key e | e. e \<in> set es \<and> de_before e \<noteq> None \<and> de_after e = None},
      C \<union> {de_key e | e. e \<in> set es \<and> de_after e \<noteq> None})" for es D C
    by (induction es arbitrary: D C) (auto simp: node_change_def split: option.splits)
  then show ?thesis
    using diff_keys [OF assms, of "\<lambda>b a. b \<noteq> None \<and> a = None"] diff_keys [OF assms, of "\<lambda>b a. a \<noteq> None"] by auto
qed

lemma edge_changes:
  assumes "sorted_wrt (<) (map fst kvs)" "sorted_wrt (<) (map fst kvs')"
  shows "fold edge_change (diff_list kvs kvs') ({}, {}) =
    ({k. map_of kvs' k \<noteq> None \<and> map_of kvs k = None}, {k. map_of kvs' k \<noteq> None \<and> map_of kvs k \<noteq> map_of kvs' k})"
proof -
  have "fold edge_change es (A, C) = (A \<union> {de_key e | e. e \<in> set es \<and> de_before e = None \<and> de_after e \<noteq> None},
      C \<union> {de_key e | e. e \<in> set es \<and> de_after e \<noteq> None})" for es A C
    by (induction es arbitrary: A C) (auto simp: edge_change_def)
  then show ?thesis
    using diff_keys [OF assms, of "\<lambda>b a. b = None \<and> a \<noteq> None"] diff_keys [OF assms, of "\<lambda>b a. a \<noteq> None"] by auto
qed

section \<open>Declarations\<close>

text \<open>The declarations of a schema map, by name.\<close>

definition declares :: "(bytes \<rightharpoonup> bytes) \<Rightarrow> schema_entry \<Rightarrow> bool" where
  "declares gs e \<longleftrightarrow> (\<exists>k v. gs k = Some v \<and> schema_decode k v = Inr e)"

lemma named_entries:
  assumes "bt_ok out" "\<forall>a \<in> set rs. \<forall>b \<in> set rs. \<forall>n d d'. pick a = Some (n, d) \<longrightarrow> pick b = Some (n, d') \<longrightarrow> d = d'"
  defines "step \<equiv> \<lambda>e out. case pick e of Some (n, d) \<Rightarrow> bt_insert n d out | None \<Rightarrow> out"
  shows "bt_ok (fold step rs out) \<and> (map_of (fold step rs out) n = Some d \<longleftrightarrow>
    (\<exists>a \<in> set rs. pick a = Some (n, d)) \<or> ((\<forall>a \<in> set rs. \<forall>d. pick a \<noteq> Some (n, d)) \<and> map_of out n = Some d))"
  using assms(2)
proof (induction rs arbitrary: n d rule: rev_induct)
  case Nil
  show ?case using assms(1) by simp
next
  case (snoc a rs)
  have pre: "\<forall>a \<in> set rs. \<forall>b \<in> set rs. \<forall>n d d'. pick a = Some (n, d) \<longrightarrow> pick b = Some (n, d') \<longrightarrow> d = d'"
    using snoc.prems unfolding set_append by blast
  note IH = snoc.IH [OF pre, THEN conjunct1] snoc.IH [OF pre, THEN conjunct2]
  show ?case
  proof (cases "pick a")
    case None
    then have "fold step (rs @ [a]) out = fold step rs out" by (simp add: step_def)
    then show ?thesis using IH None by simp
  next
    case (Some p)
    obtain n' d' where p: "p = (n', d')" by (cases p)
    have f: "fold step (rs @ [a]) out = bt_insert n' d' (fold step rs out)" by (simp add: step_def Some p)
    have "d'' = d'" if "b \<in> set rs" "pick b = Some (n', d'')" for b d'' using snoc.prems that Some p by fastforce
    then show ?thesis unfolding f using IH Some p by (auto split: if_splits)
  qed
qed

lemma rows_by_name:
  assumes "schema_rows rows" "sorted_wrt (<) (map fst rows)" "a \<in> set rows" "b \<in> set rows"
    and "schema_map_key (row_entry a) = schema_map_key (row_entry b)"
  shows "a = b"
proof -
  have "schema_map_key (row_entry x) = Some (fst x)" if "x \<in> set rows" for x
    using schema_decode_strict [OF row_decodes [OF assms(1) that]] by blast
  then have "fst a = fst b" using assms(3-5) by simp
  then show ?thesis using assms(2-4) by (metis eq_key_imp_eq_value prod.collapse strict_sorted_iff)
qed

lemma declares_rows:
  assumes "schema_rows rows" "sorted_wrt (<) (map fst rows)"
  shows "declares (map_of rows) e \<longleftrightarrow> (\<exists>row \<in> set rows. row_entry row = e)"
proof -
  have "map_of rows k = Some v \<longleftrightarrow> (k, v) \<in> set rows" for k v using assms(2) by (simp add: strict_sorted_iff)
  then show ?thesis using row_decodes [OF assms(1)] by (fastforce simp: declares_def)
qed

lemma named_defs:
  fixes pick :: "schema_entry \<Rightarrow> (bytes \<times> 'd) option"
  assumes "is_map S addr s r gs" "schema_map gs"
    and pick: "\<And>e n d. pick e = Some (n, d) \<longleftrightarrow> e = mk n d"
    and key: "\<And>n d d'. schema_map_key (mk n d) = schema_map_key (mk n d')"
  defines "step \<equiv> \<lambda>e out. case pick e of Some (n, d) \<Rightarrow> bt_insert n d out | None \<Rightarrow> out"
  obtains ls where "for_scan S s r (\<lambda>kv out. lift (rbind (map_err GSchema (schema_decode (fst kv) (snd kv))) (\<lambda>e. Inr (step e out)))) [] = Some (Inr ls)"
    "bt_ok ls" "\<And>l def. map_of ls l = Some def \<longleftrightarrow> declares gs (mk l def)"
proof -
  obtain rows where rows: "sorted_wrt (<) (map fst rows)" "gs = map_of rows" "schema_rows rows" "intact S s rows r"
    by (rule schema_rows_of [OF assms(1,2)])
  let ?ls = "fold step (map row_entry rows) []"
  have one: "d = d'" if "a \<in> set rows" "b \<in> set rows" "row_entry a = mk n d" "row_entry b = mk n d'" for a b n d d'
  proof -
    have "a = b" using rows_by_name [OF rows(3,1) that(1,2)] that(3,4) key by simp
    then have "mk n d = mk n d'" using that(3,4) by simp
    then show ?thesis using pick [of "mk n d" n d] pick [of "mk n d" n d'] by simp
  qed
  have "\<forall>a \<in> set (map row_entry rows). \<forall>b \<in> set (map row_entry rows). \<forall>n d d'. pick a = Some (n, d) \<longrightarrow> pick b = Some (n, d') \<longrightarrow> d = d'"
    using one unfolding pick by auto
  note ne = named_entries [OF bt_ok_Nil this, folded step_def]
  then have ok: "bt_ok ?ls" by blast
  from ne have "map_of ?ls l = Some def \<longleftrightarrow> (\<exists>a \<in> set rows. row_entry a = mk l def)" for l def unfolding pick by (simp add: image_iff eq_commute [of "mk l def"])
  then have "map_of ?ls l = Some def \<longleftrightarrow> declares gs (mk l def)" for l def
    using declares_rows [OF rows(3,1)] by (simp add: rows(2))
  then show ?thesis by (rule that [OF _ ok, rotated]) (simp add: schema_scan [OF rows(4,3)] fold_map)
qed

definition pick_label :: "schema_entry \<Rightarrow> (bytes \<times> label_def) option" where
  "pick_label e = (case e of SLabel n d \<Rightarrow> Some (n, d) | _ \<Rightarrow> None)"

definition pick_rel_type :: "schema_entry \<Rightarrow> (bytes \<times> rel_type_def) option" where
  "pick_rel_type e = (case e of SRelType n d \<Rightarrow> Some (n, d) | _ \<Rightarrow> None)"

lemma label_defs_ok:
  assumes "is_map S addr s r gs" "schema_map gs"
  obtains ls where "label_defs S s r = Some (Inr ls)" "bt_ok ls" "\<And>l def. map_of ls l = Some def \<longleftrightarrow> declares gs (SLabel l def)"
proof -
  have step: "(case e of SLabel name def \<Rightarrow> bt_insert name def out | _ \<Rightarrow> out) =
      (case pick_label e of Some (n, d) \<Rightarrow> bt_insert n d out | None \<Rightarrow> out)" for e out
    by (cases e) (simp_all add: pick_label_def)
  show ?thesis
    by (rule named_defs [OF assms, of pick_label SLabel]) (auto simp: label_defs_def step pick_label_def split: schema_entry.splits intro: that)
qed

lemma rel_type_defs_ok:
  assumes "is_map S addr s r gs" "schema_map gs"
  obtains ls where "rel_type_defs S s r = Some (Inr ls)" "bt_ok ls" "\<And>l def. map_of ls l = Some def \<longleftrightarrow> declares gs (SRelType l def)"
proof -
  have step: "(case e of SRelType name def \<Rightarrow> bt_insert name def out | _ \<Rightarrow> out) =
      (case pick_rel_type e of Some (n, d) \<Rightarrow> bt_insert n d out | None \<Rightarrow> out)" for e out
    by (cases e) (simp_all add: pick_rel_type_def)
  show ?thesis
    by (rule named_defs [OF assms, of pick_rel_type SRelType]) (auto simp: rel_type_defs_def step pick_rel_type_def split: schema_entry.splits intro: that)
qed

section \<open>What a graph breaks\<close>

text \<open>A graph as the contents of its three primary maps: schema, nodes, forward edges.\<close>

type_synonym graph = "(bytes \<rightharpoonup> bytes) \<times> (bytes \<rightharpoonup> bytes) \<times> (bytes \<rightharpoonup> bytes)"

definition node_at :: "(bytes \<rightharpoonup> bytes) \<Rightarrow> bytes \<Rightarrow> node_key \<Rightarrow> node_record \<Rightarrow> bool" where
  "node_at gn n key rec \<longleftrightarrow> (\<exists>v. gn n = Some v \<and> node_key_decode n = Inr key \<and> node_record_decode v = Inr rec)"

definition edge_at :: "(bytes \<rightharpoonup> bytes) \<Rightarrow> bytes \<Rightarrow> edge_key \<Rightarrow> edge_record \<Rightarrow> bool" where
  "edge_at ge k edge rec \<longleftrightarrow> (\<exists>v. ge k = Some v \<and> decode_fwd k = Inr edge \<and> edge_record_decode v = Inr rec)"

definition endpoint_of :: "endpoint \<Rightarrow> edge_key \<Rightarrow> node_key" where
  "endpoint_of role edge = (case role of Src \<Rightarrow> ek_src edge | Dst \<Rightarrow> ek_dst edge)"

definition sharers :: "(bytes \<rightharpoonup> bytes) \<Rightarrow> bytes \<Rightarrow> bytes \<Rightarrow> bytes \<Rightarrow> bytes set" where
  "sharers gn l p x = {n. \<exists>key rec v. node_at gn n key rec \<and> nk_label key = l \<and>
     map_of (nr_properties rec) p = Some v \<and> encode_value v = Inr x}"

text \<open>The breaches of one graph.\<close>

definition breaches :: "graph \<Rightarrow> graph_violation \<Rightarrow> bool" where
  "breaches = (\<lambda>(gs, gn, ge) vio. case vio of
     DanglingEdge k n role \<Rightarrow>
       k \<in> dom ge \<and> (\<exists>edge. decode_fwd k = Inr edge \<and> node_key_encode (endpoint_of role edge) = Inr n) \<and> gn n = None
   | MissingRequired n p \<Rightarrow> (\<exists>key rec def. node_at gn n key rec \<and> declares gs (SLabel (nk_label key) def) \<and>
       p \<in> set (ld_exists def) \<and> \<not> present rec def p)
   | WrongType n p declared actual \<Rightarrow> (\<exists>key rec def. node_at gn n key rec \<and> declares gs (SLabel (nk_label key) def) \<and>
       (p, declared, actual) \<in> set (type_violations key rec def))
   | EdgeWrongType k p declared actual \<Rightarrow> (\<exists>edge rec def. edge_at ge k edge rec \<and> declares gs (SRelType (ek_rtype edge) def) \<and>
       (p, declared, actual) \<in> set (rel_type_violations edge rec def))
   | UniqueViolation l p x ns \<Rightarrow> (\<exists>def. declares gs (SLabel l def) \<and> p \<in> set (ld_unique def)) \<and>
       ns = sorted_list_of_set (sharers gn l p x) \<and> 2 \<le> length ns
   | StaleDiscriminator _ _ _ \<Rightarrow> False)"

text \<open>The breaches a merge answers for: it touched what breaks, or it declares what is broken.\<close>

definition blamed :: "graph \<Rightarrow> graph \<Rightarrow> graph_violation \<Rightarrow> bool" where
  "blamed = (\<lambda>(bs, bn, be) (gs, gn, ge) vio. case vio of
     DanglingEdge k n _ \<Rightarrow> be k = None \<or> bn n \<noteq> None
   | MissingRequired n p \<Rightarrow> bn n \<noteq> gn n \<or>
       \<not> (\<exists>key def. node_key_decode n = Inr key \<and> declares bs (SLabel (nk_label key) def) \<and> p \<in> set (ld_exists def))
   | WrongType n p declared _ \<Rightarrow> bn n \<noteq> gn n \<or>
       \<not> (\<exists>key def. node_key_decode n = Inr key \<and> declares bs (SLabel (nk_label key) def) \<and> map_of (ld_types def) p = Some declared)
   | EdgeWrongType k p declared _ \<Rightarrow> be k \<noteq> ge k \<or>
       \<not> (\<exists>edge def. decode_fwd k = Inr edge \<and> declares bs (SRelType (ek_rtype edge) def) \<and> map_of (rd_types def) p = Some declared)
   | UniqueViolation l p _ ns \<Rightarrow> (\<exists>n \<in> set ns. bn n \<noteq> gn n) \<or>
       \<not> (\<exists>def. declares bs (SLabel l def) \<and> p \<in> set (ld_unique def))
   | StaleDiscriminator _ _ _ \<Rightarrow> False)"

text \<open>The discriminator a schema declares for a relationship type, and the merged edges a side wrote under
  another one.\<close>

definition declared_disc :: "(bytes \<rightharpoonup> bytes) \<Rightarrow> bytes \<Rightarrow> bytes option \<Rightarrow> bool" where
  "declared_disc gs rtype disc \<longleftrightarrow> (\<exists>def. declares gs (SRelType rtype def) \<and> disc = rd_discriminator def) \<or>
     (\<not> (\<exists>def. declares gs (SRelType rtype def)) \<and> disc = None)"

definition stale_on :: "graph \<Rightarrow> graph \<Rightarrow> bytes \<Rightarrow> bytes option \<Rightarrow> bytes option \<Rightarrow> bool" where
  "stale_on = (\<lambda>(ss, _, se) (gs, _, ge) k declared minted. k \<in> dom se \<and> k \<in> dom ge \<and>
     (\<exists>edge. decode_fwd k = Inr edge \<and> declared_disc gs (ek_rtype edge) declared \<and> declared_disc ss (ek_rtype edge) minted) \<and>
     minted \<noteq> declared)"

definition introduced :: "graph \<Rightarrow> graph \<Rightarrow> graph \<Rightarrow> graph \<Rightarrow> graph_violation \<Rightarrow> bool" where
  "introduced base ours theirs merged_graph vio = (case vio of
     StaleDiscriminator k declared minted \<Rightarrow> stale_on ours merged_graph k declared minted \<or>
       (stale_on theirs merged_graph k declared minted \<and> \<not> (\<exists>d m. stale_on ours merged_graph k d m))
   | _ \<Rightarrow> breaches merged_graph vio \<and> blamed base merged_graph vio)"

section \<open>The stages of the validation\<close>

lemma gfold_outputs:
  "(\<And>x acc. x \<in> set xs \<Longrightarrow> body x acc = Some (Inr (acc @ out x))) \<Longrightarrow> gfold body xs acc = Some (Inr (acc @ concat (map out xs)))"
  by (induction xs arbitrary: acc) simp_all

lemma rfold_outputs:
  "(\<And>x acc. x \<in> set xs \<Longrightarrow> body x acc = Inr (acc @ out x)) \<Longrightarrow> rfold body xs acc = Inr (acc @ concat (map out xs))"
  by (induction xs arbitrary: acc) simp_all

definition dangling :: "(bytes \<rightharpoonup> bytes) \<Rightarrow> bytes set \<Rightarrow> bytes set \<Rightarrow> bytes \<times> bytes \<Rightarrow> graph_violation list" where
  "dangling gn deleted fresh kv = concat (map (\<lambda>role.
     let n = projr (node_key_encode (endpoint_of role (projr (decode_fwd (fst kv)))))
     in if gn n = None \<and> (fst kv \<in> fresh \<or> n \<in> deleted) then [DanglingEdge (fst kv) n role] else []) [Src, Dst])"

lemma endpoints_stage:
  assumes "is_map S addr s r gn" "decode_fwd (fst kv) = Inr edge"
  shows "check_endpoints S s r deleted fresh kv acc = Some (Inr (acc @ dangling gn deleted fresh kv))"
proof -
  obtain x y where xy: "node_key_encode (ek_src edge) = Inr x" "node_key_encode (ek_dst edge) = Inr y"
    using decoded_edge_encodes(2,3) [OF assms(2)] by blast
  have "prolly_get S s r n = Inr (gn n)" for n using assms(1) by (rule prolly_get_map)
  then show ?thesis by (simp add: check_endpoints_def check_endpoint_def dangling_def endpoint_of_def Let_def assms(2) xy)
qed

lemma ex_endpoint: "(\<exists>role. P role) \<longleftrightarrow> P Src \<or> P Dst"
  by (metis endpoint.exhaust)

lemma in_dangling:
  assumes "edge_map ge" "kv \<in> set kvs" "ge = map_of kvs" "distinct (map fst kvs)"
  shows "vio \<in> set (dangling gn deleted fresh kv) \<longleftrightarrow> (\<exists>n role edge. vio = DanglingEdge (fst kv) n role \<and> decode_fwd (fst kv) = Inr edge \<and>
    node_key_encode (endpoint_of role edge) = Inr n \<and> gn n = None \<and> (fst kv \<in> fresh \<or> n \<in> deleted))"
proof -
  obtain edge where e: "decode_fwd (fst kv) = Inr edge" using assms by (cases kv) (auto simp: edge_map_def)
  then obtain x y where "node_key_encode (ek_src edge) = Inr x" "node_key_encode (ek_dst edge) = Inr y"
    using decoded_edge_encodes(2,3) by blast
  with e show ?thesis
    by (auto simp: dangling_def endpoint_of_def Let_def ex_endpoint)
qed

lemma in_dangling_stage:
  assumes "edge_map ge" "sorted_wrt (<) (map fst kvs)" "ge = map_of kvs"
  shows "vio \<in> set (concat (map (dangling gn {k. bn k \<noteq> None \<and> gn k = None} {k. ge k \<noteq> None \<and> be k = None}) kvs)) \<longleftrightarrow>
    (\<exists>k n role. vio = DanglingEdge k n role) \<and> breaches (gs, gn, ge) vio \<and> blamed (bs, bn, be) (gs, gn, ge) vio"
proof -
  have d: "distinct (map fst kvs)" using assms(2) by (simp add: strict_sorted_iff)
  have "vio \<in> set (dangling gn {k. bn k \<noteq> None \<and> gn k = None} {k. ge k \<noteq> None \<and> be k = None} kv) \<longleftrightarrow>
    (\<exists>n role edge. vio = DanglingEdge (fst kv) n role \<and> decode_fwd (fst kv) = Inr edge \<and>
      node_key_encode (endpoint_of role edge) = Inr n \<and> gn n = None \<and> (be (fst kv) = None \<or> bn n \<noteq> None))" if "kv \<in> set kvs" for kv
  proof -
    have "ge (fst kv) \<noteq> None" using that by (simp add: assms(3) map_of_eq_None_iff)
    then show ?thesis unfolding in_dangling [OF assms(1) that assms(3) d] by blast
  qed
  then have "vio \<in> set (concat (map (dangling gn {k. bn k \<noteq> None \<and> gn k = None} {k. ge k \<noteq> None \<and> be k = None}) kvs)) \<longleftrightarrow>
    (\<exists>kv \<in> set kvs. \<exists>n role edge. vio = DanglingEdge (fst kv) n role \<and> decode_fwd (fst kv) = Inr edge \<and>
      node_key_encode (endpoint_of role edge) = Inr n \<and> gn n = None \<and> (be (fst kv) = None \<or> bn n \<noteq> None))" by simp
  also have "\<dots> \<longleftrightarrow> (\<exists>k \<in> dom ge. \<exists>n role edge. vio = DanglingEdge k n role \<and> decode_fwd k = Inr edge \<and>
      node_key_encode (endpoint_of role edge) = Inr n \<and> gn n = None \<and> (be k = None \<or> bn n \<noteq> None))"
    unfolding assms(3) dom_map_of_conv_image_fst bex_simps ..
  finally show ?thesis
    unfolding breaches_def blamed_def prod.case by (cases vio) auto
qed

text \<open>The nodes of a map that decodes.\<close>

lemma node_entry_at:
  assumes "decodes kvs" "kv \<in> set kvs"
  obtains key rec where "node_entry kv = (fst kv, key, rec)" "node_key_decode (fst kv) = Inr key" "node_key_encode key = Inr (fst kv)"
    "node_record_decode (snd kv) = Inr rec" "stored_properties (nr_properties rec)"
proof -
  obtain k v where kv: "kv = (k, v)" by (cases kv)
  then obtain key rec where d: "length v < 2 ^ 63" "node_key_decode k = Inr key" "node_record_decode v = Inr rec"
    using assms by (auto simp: decodes_def)
  show ?thesis
    by (rule that [of key rec]) (use d decoded_node(2) [OF d(2)] node_record_decode_stored(1) [OF d(3,1)] in \<open>simp_all add: kv node_entry_def\<close>)
qed

lemma push_nodes:
  assumes "decodes kvs"
  shows "gfold push_node kvs [] = Some (Inr (map (snd \<circ> node_entry) kvs))"
proof -
  have "push_node kv acc = Some (Inr (acc @ [snd (node_entry kv)]))" if "kv \<in> set kvs" for kv acc
    by (rule node_entry_at [OF assms that]) (simp add: push_node_def)
  from gfold_outputs [of kvs push_node "\<lambda>kv. [snd (node_entry kv)]" "[]", OF this] show ?thesis by (simp add: comp_def)
qed

definition lacking ::
  "(bytes, label_def) btree_map \<Rightarrow> (bytes, label_def) btree_map \<Rightarrow> bytes set \<Rightarrow> bytes \<times> node_key \<times> node_record \<Rightarrow> graph_violation list" where
  "lacking labels base_labels changed = (\<lambda>(n, key, rec). case map_of labels (nk_label key) of None \<Rightarrow> []
     | Some def \<Rightarrow> map (MissingRequired n) (filter (\<lambda>p. \<not> present rec def p \<and>
         (n \<in> changed \<or> (case map_of base_labels (nk_label key) of None \<Rightarrow> True | Some b \<Rightarrow> p \<notin> set (ld_exists b)))) (ld_exists def)))"

definition mistyped ::
  "(bytes, label_def) btree_map \<Rightarrow> (bytes, label_def) btree_map \<Rightarrow> bytes set \<Rightarrow> bytes \<times> node_key \<times> node_record \<Rightarrow> graph_violation list" where
  "mistyped labels base_labels changed = (\<lambda>(n, key, rec). case map_of labels (nk_label key) of None \<Rightarrow> []
     | Some def \<Rightarrow> map (\<lambda>(p, declared, actual). WrongType n p declared actual) (filter (\<lambda>(p, declared, _).
         n \<in> changed \<or> (case map_of base_labels (nk_label key) of None \<Rightarrow> True | Some b \<Rightarrow> map_of (ld_types b) p \<noteq> Some declared))
         (type_violations key rec def)))"

lemma rfold_coded:
  assumes "\<forall>n \<in> set ns. node_key_encode (fst (snd n)) = Inr (fst n)"
    and "\<And>n key rec acc. node_key_encode key = Inr n \<Longrightarrow> body (key, rec) acc = Inr (acc @ out (n, key, rec))"
  shows "rfold body (map snd ns) acc = Inr (acc @ concat (map out ns))"
  using assms(1)
proof (induction ns arbitrary: acc)
  case (Cons n ns)
  obtain k key rec where n: "n = (k, key, rec)" by (cases n)
  with Cons.prems have "node_key_encode key = Inr k" by simp
  from assms(2) [OF this] Cons show ?case by (simp add: n)
qed simp

lemma node_stages:
  assumes "decodes kvs"
  shows "rfold (merge_existence labels base_labels changed) (map (snd \<circ> node_entry) kvs) acc =
      Inr (acc @ concat (map (lacking labels base_labels changed) (map node_entry kvs)))"
    "rfold (merge_types labels base_labels changed) (map (snd \<circ> node_entry) kvs) acc =
      Inr (acc @ concat (map (mistyped labels base_labels changed) (map node_entry kvs)))"
proof -
  have "node_key_encode (fst (snd (node_entry kv))) = Inr (fst (node_entry kv))" if "kv \<in> set kvs" for kv
    using that by (rule node_entry_at [OF assms]) simp
  then have gen: "rfold body (map (snd \<circ> node_entry) kvs) acc = Inr (acc @ concat (map out (map node_entry kvs)))"
    if "\<And>n key rec acc. node_key_encode key = Inr n \<Longrightarrow> body (key, rec) acc = Inr (acc @ out (n, key, rec))" for body out acc
    using rfold_coded [of "map node_entry kvs" body out acc, OF _ that] by simp
  show "rfold (merge_existence labels base_labels changed) (map (snd \<circ> node_entry) kvs) acc =
      Inr (acc @ concat (map (lacking labels base_labels changed) (map node_entry kvs)))"
    by (rule gen) (auto simp: merge_existence_def lacking_def split: option.splits)
  show "rfold (merge_types labels base_labels changed) (map (snd \<circ> node_entry) kvs) acc =
      Inr (acc @ concat (map (mistyped labels base_labels changed) (map node_entry kvs)))"
    by (rule gen) (auto simp: merge_types_def mistyped_def split: option.splits)
qed

lemma none_or: "(case x of None \<Rightarrow> True | Some b \<Rightarrow> \<not> P b) \<longleftrightarrow> \<not> (\<exists>b. x = Some b \<and> P b)"
  "(case x of None \<Rightarrow> [] | Some d \<Rightarrow> f d) = ys \<longleftrightarrow> (x = None \<and> ys = []) \<or> (\<exists>d. x = Some d \<and> f d = ys)"
  "a \<in> set (case x of None \<Rightarrow> [] | Some d \<Rightarrow> g d) \<longleftrightarrow> (\<exists>d. x = Some d \<and> a \<in> set (g d))"
  by (auto split: option.splits)

lemma node_at_entry:
  assumes "decodes kvs" "sorted_wrt (<) (map fst kvs)"
  shows "(n, key, rec) \<in> set (map node_entry kvs) \<longleftrightarrow> node_at (map_of kvs) n key rec"
proof -
  have m: "map_of kvs k = Some v \<longleftrightarrow> (k, v) \<in> set kvs" for k v using assms(2) by (simp add: strict_sorted_iff)
  show ?thesis
  proof
    assume "(n, key, rec) \<in> set (map node_entry kvs)"
    then obtain kv where kv: "kv \<in> set kvs" "node_entry kv = (n, key, rec)" by auto
    obtain k v where k: "kv = (k, v)" by fastforce
    obtain key' rec' where "node_entry kv = (k, key', rec')" "node_key_decode k = Inr key'" "node_record_decode v = Inr rec'"
      using node_entry_at [OF assms(1) kv(1)] unfolding k fst_conv snd_conv by blast
    with kv k show "node_at (map_of kvs) n key rec" by (auto simp: node_at_def m)
  next
    assume "node_at (map_of kvs) n key rec"
    then obtain v where "(n, v) \<in> set kvs" "node_key_decode n = Inr key" "node_record_decode v = Inr rec" by (auto simp: node_at_def m)
    then show "(n, key, rec) \<in> set (map node_entry kvs)" by (auto simp: node_entry_def intro!: image_eqI [of _ _ "(n, v)"])
  qed
qed

lemma node_at_key: "node_at gn n key rec \<Longrightarrow> node_key_decode n = Inr key \<and> gn n \<noteq> None"
  by (auto simp: node_at_def)

lemma in_node_stages:
  assumes "decodes kvs" "sorted_wrt (<) (map fst kvs)" "gn = map_of kvs"
    and L: "\<And>l d. map_of labels l = Some d \<longleftrightarrow> declares gs (SLabel l d)" and B: "\<And>l d. map_of base_labels l = Some d \<longleftrightarrow> declares bs (SLabel l d)"
    and C: "changed = {k. gn k \<noteq> None \<and> bn k \<noteq> gn k}"
  shows "vio \<in> set (concat (map (lacking labels base_labels changed) (map node_entry kvs))) \<longleftrightarrow>
      (\<exists>n p. vio = MissingRequired n p) \<and> breaches (gs, gn, ge) vio \<and> blamed (bs, bn, be) (gs, gn, ge) vio"
    "vio \<in> set (concat (map (mistyped labels base_labels changed) (map node_entry kvs))) \<longleftrightarrow>
      (\<exists>n p d a. vio = WrongType n p d a) \<and> breaches (gs, gn, ge) vio \<and> blamed (bs, bn, be) (gs, gn, ge) vio"
proof -
  have all: "vio \<in> set (concat (map f (map node_entry kvs))) \<longleftrightarrow> (\<exists>n key rec. node_at gn n key rec \<and> vio \<in> set (f (n, key, rec)))" for f
    unfolding assms(3) node_at_entry [OF assms(1,2), symmetric] set_concat set_map [of f]
    by (simp only: image_image UN_iff Bex_def split_paired_Ex)
  have bm: "blamed (bs, bn, be) (gs, gn, ge) (MissingRequired n p) \<longleftrightarrow>
      n \<in> changed \<or> \<not> (\<exists>b. declares bs (SLabel (nk_label key) b) \<and> p \<in> set (ld_exists b))"
    and bw: "blamed (bs, bn, be) (gs, gn, ge) (WrongType n p d a) \<longleftrightarrow>
      n \<in> changed \<or> \<not> (\<exists>b. declares bs (SLabel (nk_label key) b) \<and> map_of (ld_types b) p = Some d)"
    if "node_at gn n key rec" for n key rec p d a
    using node_at_key [OF that] by (simp_all add: blamed_def C)
  have "vio \<in> set (lacking labels base_labels changed (n, key, rec)) \<longleftrightarrow> (\<exists>p def. vio = MissingRequired n p \<and>
      declares gs (SLabel (nk_label key) def) \<and> p \<in> set (ld_exists def) \<and> \<not> present rec def p \<and> blamed (bs, bn, be) (gs, gn, ge) vio)"
    if "node_at gn n key rec" for n key rec
    unfolding lacking_def prod.case none_or L B using bm [OF that] by auto
  then show "vio \<in> set (concat (map (lacking labels base_labels changed) (map node_entry kvs))) \<longleftrightarrow>
      (\<exists>n p. vio = MissingRequired n p) \<and> breaches (gs, gn, ge) vio \<and> blamed (bs, bn, be) (gs, gn, ge) vio"
    unfolding all breaches_def prod.case by (cases vio) (simp_all, blast)
  have "vio \<in> set (mistyped labels base_labels changed (n, key, rec)) \<longleftrightarrow> (\<exists>p d a def. vio = WrongType n p d a \<and>
      declares gs (SLabel (nk_label key) def) \<and> (p, d, a) \<in> set (type_violations key rec def) \<and> blamed (bs, bn, be) (gs, gn, ge) vio)"
    if "node_at gn n key rec" for n key rec
    unfolding mistyped_def prod.case none_or L B using bw [OF that] by (auto simp: image_iff)
  then show "vio \<in> set (concat (map (mistyped labels base_labels changed) (map node_entry kvs))) \<longleftrightarrow>
      (\<exists>n p d a. vio = WrongType n p d a) \<and> breaches (gs, gn, ge) vio \<and> blamed (bs, bn, be) (gs, gn, ge) vio"
    unfolding all breaches_def prod.case by (cases vio) (simp_all, blast)
qed

definition edge_entry :: "bytes \<times> bytes \<Rightarrow> bytes \<times> edge_key \<times> edge_record" where
  "edge_entry kv = (fst kv, projr (decode_fwd (fst kv)), projr (edge_record_decode (snd kv)))"

lemma edge_entry_at:
  assumes "edge_map (map_of kvs)" "sorted_wrt (<) (map fst kvs)" "kv \<in> set kvs"
  obtains edge rec where "decode_fwd (fst kv) = Inr edge" "edge_record_decode (snd kv) = Inr rec" "edge_entry kv = (fst kv, edge, rec)"
proof -
  obtain k v where kv: "kv = (k, v)" by fastforce
  with assms have m: "map_of kvs k = Some v" by (simp add: strict_sorted_iff)
  then obtain edge where "decode_fwd k = Inr edge" using assms(1) by (auto simp: edge_map_def)
  moreover from m obtain rec where "edge_record_decode v = Inr rec" using assms(1) by (auto simp: edge_map_def stored_edge_bytes_def)
  ultimately show ?thesis by (intro that [of edge rec]) (simp_all add: kv edge_entry_def)
qed

lemma edge_at_entry:
  assumes "edge_map (map_of kvs)" "sorted_wrt (<) (map fst kvs)"
  shows "(k, edge, rec) \<in> set (map edge_entry kvs) \<longleftrightarrow> edge_at (map_of kvs) k edge rec"
proof -
  have m: "map_of kvs k = Some v \<longleftrightarrow> (k, v) \<in> set kvs" for k v using assms(2) by (simp add: strict_sorted_iff)
  show ?thesis
  proof
    assume "(k, edge, rec) \<in> set (map edge_entry kvs)"
    then obtain kv where kv: "kv \<in> set kvs" "edge_entry kv = (k, edge, rec)" by auto
    obtain k' v where k: "kv = (k', v)" by fastforce
    obtain edge' rec' where "edge_entry kv = (k', edge', rec')" "decode_fwd k' = Inr edge'" "edge_record_decode v = Inr rec'"
      using edge_entry_at [OF assms kv(1)] unfolding k fst_conv snd_conv by blast
    with kv k show "edge_at (map_of kvs) k edge rec" by (auto simp: edge_at_def m)
  next
    assume "edge_at (map_of kvs) k edge rec"
    then obtain v where "(k, v) \<in> set kvs" "decode_fwd k = Inr edge" "edge_record_decode v = Inr rec" by (auto simp: edge_at_def m)
    then show "(k, edge, rec) \<in> set (map edge_entry kvs)" by (auto simp: edge_entry_def intro!: image_eqI [of _ _ "(k, v)"])
  qed
qed

definition edge_mistyped ::
  "(bytes, rel_type_def) btree_map \<Rightarrow> (bytes, rel_type_def) btree_map \<Rightarrow> bytes set \<Rightarrow> bytes \<times> edge_key \<times> edge_record \<Rightarrow>
     graph_violation list" where
  "edge_mistyped rel_types base_rel_types changed = (\<lambda>(k, edge, rec). case map_of rel_types (ek_rtype edge) of None \<Rightarrow> []
     | Some def \<Rightarrow> map (\<lambda>(p, declared, actual). EdgeWrongType k p declared actual) (filter (\<lambda>(p, declared, _).
         k \<in> changed \<or> (case map_of base_rel_types (ek_rtype edge) of None \<Rightarrow> True | Some b \<Rightarrow> map_of (rd_types b) p \<noteq> Some declared))
         (rel_type_violations edge rec def)))"

lemma edge_types_stage:
  assumes "edge_map (map_of kvs)" "sorted_wrt (<) (map fst kvs)" "intact S s kvs r"
  shows "(if \<exists>(_, def) \<in> set rel_types. rd_types def \<noteq> []
      then for_scan S s r (merge_edge_types rel_types base_rel_types changed) acc else Some (Inr acc)) =
    Some (Inr (acc @ concat (map (edge_mistyped rel_types base_rel_types changed) (map edge_entry kvs))))"
proof (cases "\<exists>(_, def) \<in> set rel_types. rd_types def \<noteq> []")
  case True
  have "merge_edge_types rel_types base_rel_types changed kv acc =
      Some (Inr (acc @ edge_mistyped rel_types base_rel_types changed (edge_entry kv)))" if "kv \<in> set kvs" for kv acc
    by (rule edge_entry_at [OF assms(1,2) that]) (auto simp: merge_edge_types_def edge_mistyped_def split: option.splits)
  from gfold_outputs [OF this] True show ?thesis by (simp add: for_scan_ok [OF assms(3)] comp_def)
next
  case False
  then have none: "rel_type_violations edge rec def = []" if "map_of rel_types l = Some def" for l edge rec def
    using that by (fastforce simp: rel_type_violations_def dest: map_of_SomeD)
  have "edge_mistyped rel_types base_rel_types changed n = []" for n
    using none by (cases n) (auto simp: edge_mistyped_def split: option.splits)
  then show ?thesis using False by simp
qed

lemma in_edge_stage:
  assumes "edge_map ge" "sorted_wrt (<) (map fst kvs)" "ge = map_of kvs"
    and L: "\<And>l d. map_of rel_types l = Some d \<longleftrightarrow> declares gs (SRelType l d)"
    and B: "\<And>l d. map_of base_rel_types l = Some d \<longleftrightarrow> declares bs (SRelType l d)"
    and C: "changed = {k. ge k \<noteq> None \<and> be k \<noteq> ge k}"
  shows "vio \<in> set (concat (map (edge_mistyped rel_types base_rel_types changed) (map edge_entry kvs))) \<longleftrightarrow>
      (\<exists>k p d a. vio = EdgeWrongType k p d a) \<and> breaches (gs, gn, ge) vio \<and> blamed (bs, bn, be) (gs, gn, ge) vio"
proof -
  have all: "vio \<in> set (concat (map f (map edge_entry kvs))) \<longleftrightarrow> (\<exists>k edge rec. edge_at ge k edge rec \<and> vio \<in> set (f (k, edge, rec)))" for f
    unfolding assms(3) edge_at_entry [OF assms(1) [unfolded assms(3)] assms(2), symmetric] set_concat set_map [of f]
    by (simp only: image_image UN_iff Bex_def split_paired_Ex)
  have bw: "blamed (bs, bn, be) (gs, gn, ge) (EdgeWrongType k p d a) \<longleftrightarrow>
      k \<in> changed \<or> \<not> (\<exists>b. declares bs (SRelType (ek_rtype edge) b) \<and> map_of (rd_types b) p = Some d)"
    if "edge_at ge k edge rec" for k edge rec p d a
    using that by (auto simp: blamed_def C edge_at_def)
  have "vio \<in> set (edge_mistyped rel_types base_rel_types changed (k, edge, rec)) \<longleftrightarrow> (\<exists>p d a def. vio = EdgeWrongType k p d a \<and>
      declares gs (SRelType (ek_rtype edge) def) \<and> (p, d, a) \<in> set (rel_type_violations edge rec def) \<and> blamed (bs, bn, be) (gs, gn, ge) vio)"
    if "edge_at ge k edge rec" for k edge rec
    unfolding edge_mistyped_def prod.case none_or L B using bw [OF that] by (auto simp: image_iff)
  then show ?thesis
    unfolding all breaches_def prod.case by (cases vio) (simp_all, blast)
qed

text \<open>Stale discriminators.\<close>

lemma fold_overrides:
  "distinct (map fst es) \<Longrightarrow> bt_ok acc \<Longrightarrow>
     bt_ok (fold (\<lambda>(n, x) d. if P n x then bt_insert n (f x) d else d) es acc) \<and>
     map_of (fold (\<lambda>(n, x) d. if P n x then bt_insert n (f x) d else d) es acc) n =
       (case map_of es n of Some x \<Rightarrow> if P n x then Some (f x) else map_of acc n | None \<Rightarrow> map_of acc n)"
proof (induction es arbitrary: acc)
  case (Cons e es)
  obtain n' x where e: "e = (n', x)" by fastforce
  with Cons.prems have "map_of es n' = None" by (auto simp: map_of_eq_None_iff)
  with Cons e show ?case by (auto split: option.splits)
qed simp

lemma disagreeing:
  assumes "bt_ok rel_types" "bt_ok side"
  shows "map_of (disagreeing_types rel_types side) n =
    (if disc_of side n \<noteq> disc_of rel_types n then Some (disc_of side n) else None)"
proof -
  have d: "distinct (map fst rel_types)" "distinct (map fst side)" using assms by (simp_all add: bt_ok_def strict_sorted_iff)
  note one = fold_overrides [OF d(2) bt_ok_Nil, of "\<lambda>n x. rd_discriminator x \<noteq> disc_of rel_types n" rd_discriminator]
  note two = fold_overrides [OF d(1), of _ "\<lambda>n x. map_of side n = None \<and> disc_of rel_types n \<noteq> None" "\<lambda>_. None" n]
  show ?thesis
    unfolding disagreeing_types_def Let_def
    using one [of n] two [OF one [THEN conjunct1]]
    by (auto simp: disc_of_def split: option.splits Option.bind_splits)
qed

definition stale_of ::
  "(bytes, rel_type_def) btree_map \<Rightarrow> (bytes, rel_type_def) btree_map \<Rightarrow> (bytes \<rightharpoonup> bytes) \<Rightarrow> bytes \<Rightarrow> graph_violation option" where
  "stale_of rel_types side ge k = (let rtype = ek_rtype (projr (decode_fwd k))
     in if ge k \<noteq> None \<and> disc_of side rtype \<noteq> disc_of rel_types rtype
        then Some (StaleDiscriminator k (disc_of rel_types rtype) (disc_of side rtype)) else None)"

definition stale_step ::
  "(bytes \<Rightarrow> graph_violation option) \<Rightarrow> bytes \<times> bytes \<Rightarrow> (bytes, graph_violation) btree_map \<Rightarrow> (bytes, graph_violation) btree_map" where
  "stale_step f kv stale = (if map_of stale (fst kv) \<noteq> None then stale
     else (case f (fst kv) of None \<Rightarrow> stale | Some vio \<Rightarrow> bt_insert (fst kv) vio stale))"

lemma stale_steps:
  "bt_ok stale \<Longrightarrow> bt_ok (fold (stale_step f) kvs stale) \<and> map_of (fold (stale_step f) kvs stale) k =
     (case map_of stale k of Some vio \<Rightarrow> Some vio | None \<Rightarrow> if k \<in> fst ` set kvs then f k else None)"
proof (induction kvs arbitrary: stale)
  case (Cons kv kvs)
  have "bt_ok (stale_step f kv stale)" using Cons.prems by (auto simp: stale_step_def split: option.splits)
  from Cons.IH [OF this] Cons.prems show ?case
    by (auto simp: stale_step_def split: option.splits if_splits)
qed (auto split: option.splits)

lemma gfold_steps: "(\<And>x acc. x \<in> set xs \<Longrightarrow> body x acc = Some (Inr (step x acc))) \<Longrightarrow> gfold body xs acc = Some (Inr (fold step xs acc))"
  by (induction xs arbitrary: acc) simp_all

lemma stale_side_ok:
  assumes "is_map S addr s merged_edges ge" "bt_ok rel_types" "bt_ok stale"
    and side: "graph_at S addr s params side ss sn se"
  obtains side_types stale' where "stale_side S s rel_types merged_edges side stale = Some (Inr stale')"
    "bt_ok stale'" "\<And>l def. map_of side_types l = Some def \<longleftrightarrow> declares ss (SRelType l def)"
    "\<And>k. map_of stale' k = (case map_of stale k of Some vio \<Rightarrow> Some vio | None \<Rightarrow> if k \<in> dom se then stale_of rel_types side_types ge k else None)"
proof -
  have p: "mf_chunk_params side = params" and gm: "schema_map ss" "edge_map se" using side by (simp_all add: graph_at_def)
  have at: "holds_map S addr s params (mf_schema side) ss" "holds_map S addr s params (mf_edges_fwd side) se" using side by (simp_all add: graph_at_def)
  obtain schema where schema: "map_root_to_root (mf_schema side) params = Inr schema" "is_map S addr s schema ss"
    using at(1) by (rule holds_map_open)
  obtain edges kvs where edges: "map_root_to_root (mf_edges_fwd side) params = Inr edges" "intact S s kvs edges" "se = map_of kvs"
    using at(2) by (rule holds_map_open)
  note so = intact_sorted [OF edges(2)]
  obtain side_types where types: "rel_type_defs S s schema = Some (Inr side_types)" "bt_ok side_types"
    "\<And>l def. map_of side_types l = Some def \<longleftrightarrow> declares ss (SRelType l def)" by (rule rel_type_defs_ok [OF schema(2) gm(1)]) blast
  note dis = disagreeing [OF assms(2) types(2)]
  let ?f = "stale_of rel_types side_types ge" and ?d = "disagreeing_types rel_types side_types"
  have step: "stale_edge S s rel_types merged_edges ?d kv acc = Some (Inr (stale_step ?f kv acc))" if "kv \<in> set kvs" for kv acc
    by (rule edge_entry_at [OF gm(2) [unfolded edges(3)] so that])
      (auto simp: stale_edge_def stale_step_def stale_of_def Let_def dis prolly_get_map [OF assms(1)])
  have "stale_side S s rel_types merged_edges side stale = Some (Inr (fold (stale_step ?f) kvs stale))"
  proof (cases "?d = []")
    case True
    have "?f k = None" for k using dis [of "ek_rtype (projr (decode_fwd k))"] True by (simp add: stale_of_def split: if_splits)
    then have "stale_step ?f kv acc = acc" for kv acc by (simp add: stale_step_def)
    then have "fold (stale_step ?f) kvs stale = stale" by (induction kvs) simp_all
    then show ?thesis using True by (simp add: stale_side_def p schema(1) types(1) Let_def)
  next
    case False
    then show ?thesis
      using gfold_steps [OF step] by (simp add: stale_side_def p schema(1) types(1) edges(1) Let_def for_scan_ok [OF edges(2)])
  qed
  moreover have "k \<in> fst ` set kvs \<longleftrightarrow> k \<in> dom se" for k by (simp add: edges(3) dom_map_of_conv_image_fst)
  ultimately show ?thesis
    using stale_steps [OF assms(3), of ?f kvs] types(3) by (intro that [of "fold (stale_step ?f) kvs stale" side_types]) auto
qed

lemma disc_of_declared:
  assumes "\<And>l def. map_of rel_types l = Some def \<longleftrightarrow> declares gs (SRelType l def)"
  shows "declared_disc gs rtype disc \<longleftrightarrow> disc = disc_of rel_types rtype"
  by (cases "map_of rel_types rtype") (auto simp: declared_disc_def disc_of_def assms [symmetric])

lemma stale_of_iff:
  assumes "\<And>l def. map_of rel_types l = Some def \<longleftrightarrow> declares gs (SRelType l def)"
    and "\<And>l def. map_of side_types l = Some def \<longleftrightarrow> declares ss (SRelType l def)" and "edge_map se"
  shows "k \<in> dom se \<and> stale_of rel_types side_types ge k = Some vio \<longleftrightarrow>
    (\<exists>d m. vio = StaleDiscriminator k d m \<and> stale_on (ss, sn, se) (gs, gn, ge) k d m)"
proof (cases "k \<in> dom se")
  case True
  then obtain edge where "decode_fwd k = Inr edge" using assms(3) by (auto simp: edge_map_def)
  then show ?thesis
    using True by (auto simp: stale_of_def stale_on_def Let_def disc_of_declared [OF assms(1)] disc_of_declared [OF assms(2)])
qed (simp add: stale_on_def)

lemma stale_stage:
  assumes merged_edges: "is_map S addr s merged_edges ge" "bt_ok rel_types"
    and types: "\<And>l def. map_of rel_types l = Some def \<longleftrightarrow> declares gs (SRelType l def)"
    and o: "graph_at S addr s params ours os on' oe" and t: "graph_at S addr s params theirs ts tn te"
  obtains out where "\<And>violations. stale_discriminators S s rel_types ours theirs merged_edges violations = Some (Inr (violations @ out))"
    "\<And>vio. vio \<in> set out \<longleftrightarrow> (\<exists>k d m. vio = StaleDiscriminator k d m) \<and> introduced base (os, on', oe) (ts, tn, te) (gs, gn, ge) vio"
proof -
  have em: "edge_map oe" "edge_map te" using o t by (simp_all add: graph_at_def)
  obtain ot s1 where s1: "stale_side S s rel_types merged_edges ours [] = Some (Inr s1)" "bt_ok s1"
    "\<And>l def. map_of ot l = Some def \<longleftrightarrow> declares os (SRelType l def)"
    "\<And>k. map_of s1 k = (if k \<in> dom oe then stale_of rel_types ot ge k else None)"
    by (rule stale_side_ok [OF merged_edges bt_ok_Nil o]) (rule that, simp_all only: map_of.simps option.case)
  obtain tt s2 where s2: "stale_side S s rel_types merged_edges theirs s1 = Some (Inr s2)" "bt_ok s2"
    "\<And>l def. map_of tt l = Some def \<longleftrightarrow> declares ts (SRelType l def)"
    "\<And>k. map_of s2 k = (case map_of s1 k of Some vio \<Rightarrow> Some vio | None \<Rightarrow> if k \<in> dom te then stale_of rel_types tt ge k else None)"
    by (rule stale_side_ok [OF merged_edges s1(2) t]) (rule that)
  have s1_iff: "map_of s1 k = Some vio \<longleftrightarrow> (\<exists>d m. vio = StaleDiscriminator k d m \<and> stale_on (os, on', oe) (gs, gn, ge) k d m)" for k vio
    unfolding stale_of_iff [OF types s1(3) em(1), of k ge vio on' gn, symmetric] by (simp add: s1(4))
  have "map_of s2 k = Some vio \<longleftrightarrow> map_of s1 k = Some vio \<or>
      (map_of s1 k = None \<and> (\<exists>d m. vio = StaleDiscriminator k d m \<and> stale_on (ts, tn, te) (gs, gn, ge) k d m))" for k vio
    using stale_of_iff [OF types s2(3) em(2), of k ge vio tn gn] by (auto simp: s2(4) split: option.splits if_splits)
  moreover have "map_of s1 k = None \<longleftrightarrow> \<not> (\<exists>d m. stale_on (os, on', oe) (gs, gn, ge) k d m)" for k
    using s1_iff [of k] by (metis not_None_eq)
  ultimately have s2_iff: "map_of s2 k = Some vio \<longleftrightarrow> (\<exists>d m. vio = StaleDiscriminator k d m \<and>
      introduced base (os, on', oe) (ts, tn, te) (gs, gn, ge) vio)" for k vio
    by (auto simp: s1_iff introduced_def)
  have "vio \<in> set (map snd s2) \<longleftrightarrow> (\<exists>k. map_of s2 k = Some vio)" for vio
    using s2(2) by (force simp: bt_ok_def strict_sorted_iff)
  then show ?thesis
    by (intro that [of "map snd s2"]) (auto simp: stale_discriminators_def s1(1) s2(1) s2_iff)
qed

text \<open>UNIQUE.\<close>

definition keys_of :: "unique_groups \<Rightarrow> key_groups" where
  "keys_of groups = map (map_prod id (map fst \<circ> snd)) groups"

lemma keys_of_simps [simp]:
  "keys_of [] = []" "map_of (keys_of groups) g = map_option (map fst \<circ> snd) (map_of groups g)"
  "keys_of (bt_insert g vms groups) = bt_insert g (map fst (snd vms)) (keys_of groups)"
  by (induction groups) (auto simp: keys_of_def bt_insert_map)

lemma group_keys_eq:
  assumes "node_key_encode key = Inr n"
  shows "group_keys key ps us (keys_of groups) =
    map_sum id keys_of (group_values (\<lambda>p x. (nk_label key, p, x)) (n, key) ps us groups)"
proof (induction us arbitrary: groups)
  case (Cons p us)
  have "keys_of (group_push (nk_label key, p, x) v (n, key) groups) =
      bt_insert (nk_label key, p, x) ((case map_of (keys_of groups) (nk_label key, p, x) of None \<Rightarrow> [] | Some ms \<Rightarrow> ms) @ [n]) (keys_of groups)"
    for x v by (auto simp: group_push_def split: option.splits)
  note push = this [symmetric]
  show ?case
  proof (cases "map_of ps p")
    case (Some v)
    then show ?thesis
      by (cases "encode_value v") (simp_all add: assms Let_def push [of _ v] Cons.IH del: keys_of_simps)
  qed (simp add: Cons.IH)
qed simp

lemma group_merged_eq:
  "\<forall>n \<in> set ns. node_key_encode (fst (snd n)) = Inr (fst n) \<Longrightarrow>
     rfold (group_merged labels) (map snd ns) (keys_of groups) = map_sum id keys_of (rfold (group_node labels) ns groups)"
proof (induction ns arbitrary: groups)
  case (Cons x ns)
  obtain n key rec where x: "x = (n, key, rec)" by (cases x)
  with Cons.prems have "node_key_encode key = Inr n" by simp
  then have "group_merged labels (snd x) (keys_of groups) = map_sum id keys_of (group_node labels x groups)"
    by (simp add: x group_merged_def group_node_def group_keys_eq split: option.splits)
  with Cons show ?case by (cases "group_node labels x groups") simp_all
qed simp

lemma merged_groups:
  assumes "decodes kvs" "sorted_wrt (<) (map fst kvs)" "\<And>l d. map_of labels l = Some d \<Longrightarrow> distinct (ld_unique d)"
  obtains groups where "rfold (group_merged labels) (map (snd \<circ> node_entry) kvs) [] = Inr groups" "bt_ok groups"
    "\<And>l p x ns. map_of groups (l, p, x) = Some ns \<longleftrightarrow> ns \<noteq> [] \<and> ns = sorted_list_of_set (sharers (map_of kvs) l p x) \<and>
      (\<exists>def. map_of labels l = Some def \<and> p \<in> set (ld_unique def))"
proof -
  let ?ns = "map node_entry kvs"
  define G where "G = fold push (concat (map (node_contribs labels) ?ns)) []"
  have "node_key_encode (fst (snd (node_entry kv))) = Inr (fst (node_entry kv))" if "kv \<in> set kvs" for kv
    using that by (rule node_entry_at [OF assms(1)]) simp
  then have "\<forall>n \<in> set ?ns. node_key_encode (fst (snd n)) = Inr (fst n)" by simp
  from group_merged_eq [OF this, of labels "[]"]
  have run: "rfold (group_merged labels) (map (snd \<circ> node_entry) kvs) [] = Inr (keys_of G)"
    using group_nodes_eq [OF decodes_encodable [OF assms(1)], of labels "[]"] by (simp add: G_def)
  have G: "bt_ok G" "map_of G g = group_of g (concat (map (node_contribs labels) ?ns))" for g
    using groups_ok [of "concat (map (node_contribs labels) ?ns)"] unfolding G_def by simp_all
  have ok: "bt_ok (keys_of G)" using G(1) by (simp add: bt_ok_def keys_of_def)
  have share: "map fst (sharing l p x ?ns) = sorted_list_of_set (sharers (map_of kvs) l p x)" for l p x
  proof (rule sorted_list_of_set.idem_if_sorted_distinct [symmetric, THEN trans])
    have st: "sorted_wrt (<) (map fst ?ns)" using assms(2) by (simp add: node_entry_def comp_def)
    then have "sorted_wrt (<) (map fst (sharing l p x ?ns))" by (simp add: sharing_def sorted_wrt_map sorted_wrt_filter)
    then show "sorted (map fst (sharing l p x ?ns))" "distinct (map fst (sharing l p x ?ns))" by (simp_all add: strict_sorted_iff)
    have "n \<in> set (map fst (sharing l p x ?ns)) \<longleftrightarrow> n \<in> sharers (map_of kvs) l p x" for n
      unfolding sharers_def node_at_entry [OF assms(1,2), symmetric] set_map [of fst] sharing_def set_filter
      by (simp only: image_iff mem_Collect_eq Bex_def split_paired_Ex prod.case fst_conv) blast
    then show "sorted_list_of_set (set (map fst (sharing l p x ?ns))) = sorted_list_of_set (sharers (map_of kvs) l p x)"
      by (intro arg_cong [of _ _ sorted_list_of_set]) blast
  qed
  have none: "hits labels (l, p, x) ?ns = []" if "map_of labels l = None" for l p x
    using that by (auto simp: hits_def filter_empty_conv node_contribs_def contribs_def split: option.splits)
  have "hits labels (l, p, x) ?ns = (case map_of labels l of Some def \<Rightarrow> if p \<in> set (ld_unique def)
      then map (\<lambda>(b, k, r). (b, k, the (map_of (nr_properties r) p))) (sharing l p x ?ns) else [] | None \<Rightarrow> [])" for l p x
    using hits_sharing [OF decodes_encodable [OF assms(1)] _ assms(3), of labels l _ l] none by (cases "map_of labels l") auto
  then have "map_of (keys_of G) (l, p, x) = (case map_of labels l of Some def \<Rightarrow>
      (if p \<in> set (ld_unique def) \<and> sharing l p x ?ns \<noteq> [] then Some (map fst (sharing l p x ?ns)) else None) | None \<Rightarrow> None)" for l p x
    by (simp add: G(2) group_of_hits case_prod_unfold comp_def del: map_map split: option.split) (simp add: comp_def)
  then have "map_of (keys_of G) (l, p, x) = Some ns \<longleftrightarrow> ns \<noteq> [] \<and> ns = map fst (sharing l p x ?ns) \<and>
      (\<exists>def. map_of labels l = Some def \<and> p \<in> set (ld_unique def))" for l p x ns
    by (auto split: option.splits)
  then show ?thesis by (intro that [OF run ok]) (simp add: share)
qed

lemma in_unique_stage:
  assumes "bt_ok groups" "\<And>l p x ns. map_of groups (l, p, x) = Some ns \<longleftrightarrow> ns \<noteq> [] \<and> ns = sorted_list_of_set (sharers gn l p x) \<and>
      (\<exists>def. map_of labels l = Some def \<and> p \<in> set (ld_unique def))" "finite (dom gn)"
    and L: "\<And>l d. map_of labels l = Some d \<longleftrightarrow> declares gs (SLabel l d)" and B: "\<And>l d. map_of base_labels l = Some d \<longleftrightarrow> declares bs (SLabel l d)"
    and C: "changed = {k. gn k \<noteq> None \<and> bn k \<noteq> gn k}"
  shows "vio \<in> set (merge_unique base_labels changed groups) \<longleftrightarrow>
      (\<exists>l p x ns. vio = UniqueViolation l p x ns) \<and> breaches (gs, gn, ge) vio \<and> blamed (bs, bn, be) (gs, gn, ge) vio"
proof -
  have sub: "sharers gn l p x \<subseteq> dom gn" for l p x by (auto simp: sharers_def node_at_def)
  then have touched: "(\<exists>n \<in> set (sorted_list_of_set (sharers gn l p x)). n \<in> changed) \<longleftrightarrow>
      (\<exists>n \<in> set (sorted_list_of_set (sharers gn l p x)). bn n \<noteq> gn n)" for l p x
    using finite_subset [OF sub assms(3)] unfolding C by (fastforce simp: domIff)
  have "(g, ns) \<in> set groups \<longleftrightarrow> map_of groups g = Some ns" for g ns using assms(1) by (simp add: bt_ok_def strict_sorted_iff)
  then have "vio \<in> set (merge_unique base_labels changed groups) \<longleftrightarrow> (\<exists>l p x ns. vio = UniqueViolation l p x ns \<and>
      map_of groups (l, p, x) = Some ns \<and> 2 \<le> length ns \<and>
      (\<not> (\<exists>b. declares bs (SLabel l b) \<and> p \<in> set (ld_unique b)) \<or> (\<exists>n \<in> set ns. n \<in> changed)))"
    unfolding merge_unique_def none_or(1) B by (auto simp: image_iff not_less) 
  then show ?thesis
    unfolding assms(2) L breaches_def blamed_def prod.case using touched by (cases vio) auto
qed

lemma schema_labels_unique:
  assumes "schema_map gs" "declares gs (SLabel l def)"
  shows "distinct (ld_unique def)"
proof -
  obtain k v where "schema_decode k v = Inr (SLabel l def)" using assms(2) by (auto simp: declares_def)
  from schema_decode_strict [OF this] have "canon_ascending (ld_unique def)" by (auto dest: built_canonical(1))
  then show ?thesis by (simp add: canon_ascending_distinct)
qed

lemma holds_map_opened:
  assumes "holds_map S addr s params mr m"
  obtains r kvs where "map_root_to_root mr params = Inr r" "is_map S addr s r m" "intact S s kvs r" "m = map_of kvs" "sorted_wrt (<) (map fst kvs)"
  using assms by (rule holds_map_open) (blast intro: that intact_sorted)

lemma validate_merged_exact:
  assumes b: "graph_at S addr s params base bs bn be" and o: "graph_at S addr s params ours os on' oe"
    and t: "graph_at S addr s params theirs ts tn te" and m: "graph_at S addr s params merged_mf gs gn ge"
  obtains vs where "validate_merged S s base ours theirs merged_mf = Some (Inr vs)"
    "\<And>vio. vio \<in> set vs \<longleftrightarrow> introduced (bs, bn, be) (os, on', oe) (ts, tn, te) (gs, gn, ge) vio"
proof -
  note at = b [unfolded graph_at_def] m [unfolded graph_at_def]
  obtain rbn bkn where bn: "map_root_to_root (mf_nodes base) params = Inr rbn" "intact S s bkn rbn" "bn = map_of bkn" "sorted_wrt (<) (map fst bkn)"
    using at by (blast elim: holds_map_opened)
  obtain rn kn where n: "map_root_to_root (mf_nodes merged_mf) params = Inr rn" "is_map S addr s rn gn" "intact S s kn rn" "gn = map_of kn" "sorted_wrt (<) (map fst kn)"
    using at by (blast elim: holds_map_opened)
  obtain rbe bke where be: "map_root_to_root (mf_edges_fwd base) params = Inr rbe" "intact S s bke rbe" "be = map_of bke" "sorted_wrt (<) (map fst bke)"
    using at by (blast elim: holds_map_opened)
  obtain re ke where e: "map_root_to_root (mf_edges_fwd merged_mf) params = Inr re" "is_map S addr s re ge" "intact S s ke re" "ge = map_of ke" "sorted_wrt (<) (map fst ke)"
    using at by (blast elim: holds_map_opened)
  obtain rs where sc: "map_root_to_root (mf_schema merged_mf) params = Inr rs" "is_map S addr s rs gs"
    using at by (blast elim: holds_map_opened)
  obtain rbs where bsc: "map_root_to_root (mf_schema base) params = Inr rbs" "is_map S addr s rbs bs"
    using at by (blast elim: holds_map_opened)
  have maps: "mf_chunk_params merged_mf = params" "schema_map gs" "schema_map bs" "node_map gn" "edge_map ge" using at by auto
  obtain labels where L: "label_defs S s rs = Some (Inr labels)" "\<And>l d. map_of labels l = Some d \<longleftrightarrow> declares gs (SLabel l d)"
    by (rule label_defs_ok [OF sc(2) maps(2)]) (rule that)
  obtain base_labels where BL: "label_defs S s rbs = Some (Inr base_labels)" "\<And>l d. map_of base_labels l = Some d \<longleftrightarrow> declares bs (SLabel l d)"
    by (rule label_defs_ok [OF bsc(2) maps(3)]) (rule that)
  obtain rel_types where R: "rel_type_defs S s rs = Some (Inr rel_types)" "bt_ok rel_types" "\<And>l d. map_of rel_types l = Some d \<longleftrightarrow> declares gs (SRelType l d)"
    by (rule rel_type_defs_ok [OF sc(2) maps(2)]) (rule that)
  obtain base_rel_types where BR: "rel_type_defs S s rbs = Some (Inr base_rel_types)" "\<And>l d. map_of base_rel_types l = Some d \<longleftrightarrow> declares bs (SRelType l d)"
    by (rule rel_type_defs_ok [OF bsc(2) maps(3)]) (rule that)
  let ?D = "{k. bn k \<noteq> None \<and> gn k = None}" and ?C = "{k. gn k \<noteq> None \<and> bn k \<noteq> gn k}"
  let ?A = "{k. ge k \<noteq> None \<and> be k = None}" and ?E = "{k. ge k \<noteq> None \<and> be k \<noteq> ge k}"
  have nodes: "for_diff S s rbn rn (\<lambda>entry acc. Some (Inr (node_change entry acc))) ({}, {}) = Some (Inr (?D, ?C))"
    unfolding for_diff_ok [OF bn(2) n(3)] gfold_steps [OF refl] bn(3) n(4) node_changes [OF bn(4) n(5)] ..
  have edges: "for_diff S s rbe re (\<lambda>entry acc. Some (Inr (edge_change entry acc))) ({}, {}) = Some (Inr (?A, ?E))"
    unfolding for_diff_ok [OF be(2) e(3)] gfold_steps [OF refl] be(3) e(4) edge_changes [OF be(4) e(5)] ..
  have dn: "decodes kn" using node_map_decodes maps(4) n(5) by (simp add: n(4) strict_sorted_iff)
  have em: "edge_map (map_of ke)" using maps(5) by (simp add: e(4))
  let ?v1 = "concat (map (dangling gn ?D ?A) ke)"
  have "check_endpoints S s rn ?D ?A kv acc = Some (Inr (acc @ dangling gn ?D ?A kv))" if "kv \<in> set ke" for kv acc
    by (rule edge_entry_at [OF em e(5) that]) (rule endpoints_stage [OF n(2)])
  then have ends: "for_scan S s re (check_endpoints S s rn ?D ?A) [] = Some (Inr ?v1)"
    using gfold_outputs [of ke "check_endpoints S s rn ?D ?A" "dangling gn ?D ?A" "[]"] by (simp add: for_scan_ok [OF e(3)])
  let ?v2 = "concat (map (lacking labels base_labels ?C) (map node_entry kn))"
  let ?v3 = "concat (map (mistyped labels base_labels ?C) (map node_entry kn))"
  let ?v4 = "concat (map (edge_mistyped rel_types base_rel_types ?E) (map edge_entry ke))"
  obtain v5 where v5: "\<And>violations. stale_discriminators S s rel_types ours theirs re violations = Some (Inr (violations @ v5))"
    "\<And>vio. vio \<in> set v5 \<longleftrightarrow> (\<exists>k d m. vio = StaleDiscriminator k d m) \<and> introduced (bs, bn, be) (os, on', oe) (ts, tn, te) (gs, gn, ge) vio"
    by (rule stale_stage [OF e(2) R(2,3) o t]) (rule that)
  obtain groups where groups: "rfold (group_merged labels) (map (snd \<circ> node_entry) kn) [] = Inr groups" "bt_ok groups"
    "\<And>l p x ns. map_of groups (l, p, x) = Some ns \<longleftrightarrow> ns \<noteq> [] \<and> ns = sorted_list_of_set (sharers gn l p x) \<and>
      (\<exists>def. map_of labels l = Some def \<and> p \<in> set (ld_unique def))"
    using merged_groups [OF dn n(5), of labels] schema_labels_unique [OF maps(2)] unfolding n(4) L(2) by blast
  have fin: "finite (dom gn)" by (simp add: n(4) finite_dom_map_of)
  let ?v6 = "merge_unique base_labels ?C groups"
  have run: "validate_merged S s base ours theirs merged_mf = Some (Inr (?v1 @ ?v2 @ ?v3 @ ?v4 @ v5 @ ?v6))"
    by (simp only: validate_merged_def maps(1) Let_def bn(1) n(1) be(1) e(1) map_err_simps gbind_simps nodes edges prod.case ends sc(1) bsc(1)
        L(1) BL(1) for_scan_ok [OF n(3)] push_nodes [OF dn] node_stages [OF dn] R(1) BR(1) edge_types_stage [OF em e(5,3)] v5(1) groups(1) append_assoc)
  let ?new = "\<lambda>vio. breaches (gs, gn, ge) vio \<and> blamed (bs, bn, be) (gs, gn, ge) vio"
  have "vio \<in> set ?v1 \<longleftrightarrow> (\<exists>k n role. vio = DanglingEdge k n role) \<and> ?new vio" for vio by (rule in_dangling_stage [OF maps(5) e(5,4)])
  moreover have "vio \<in> set ?v2 \<longleftrightarrow> (\<exists>n p. vio = MissingRequired n p) \<and> ?new vio"
    and "vio \<in> set ?v3 \<longleftrightarrow> (\<exists>n p d a. vio = WrongType n p d a) \<and> ?new vio" for vio
    by (rule in_node_stages [OF dn n(5,4) L(2) BL(2) refl])+
  moreover have "vio \<in> set ?v4 \<longleftrightarrow> (\<exists>k p d a. vio = EdgeWrongType k p d a) \<and> ?new vio" for vio
    by (rule in_edge_stage [OF maps(5) e(5,4) R(3) BR(2) refl])
  moreover have "vio \<in> set ?v6 \<longleftrightarrow> (\<exists>l p x ns. vio = UniqueViolation l p x ns) \<and> ?new vio" for vio
    by (rule in_unique_stage [OF groups(2,3) fin L(2) BL(2) refl])
  ultimately have "vio \<in> set (?v1 @ ?v2 @ ?v3 @ ?v4 @ v5 @ ?v6) \<longleftrightarrow>
      introduced (bs, bn, be) (os, on', oe) (ts, tn, te) (gs, gn, ge) vio" for vio
    unfolding set_append Un_iff v5(2) by (cases vio) (simp_all add: introduced_def)
  with run show ?thesis by (rule that)
qed

end
