(* ===== verification/Clean_Merge.thy ===== *)
theory Clean_Merge
  imports Merge_Validation
begin

text \<open>
  The merge of manifests over the graphs they stand for: its result is the merged graph, its conflicts are
  exact, and a clean merge keeps a sound graph sound.
\<close>

section \<open>Merged graphs\<close>

definition holds_graph :: "'s store_ops \<Rightarrow> (bytes \<Rightarrow> hash) \<Rightarrow> 's \<Rightarrow> chunk_params \<Rightarrow> manifest \<Rightarrow> graph \<Rightarrow> bool" where
  "holds_graph S addr s params m = (\<lambda>(gs, gn, ge). graph_at S addr s params m gs gn ge)"

definition holds_derived :: "'s store_ops \<Rightarrow> (bytes \<Rightarrow> hash) \<Rightarrow> 's \<Rightarrow> manifest \<Rightarrow> graph \<Rightarrow> bool" where
  "holds_derived S addr s m = (\<lambda>(gs, gn, ge). derived_at S addr s m gs gn ge)"

text \<open>The merged graph: schema rows by key, nodes and edges changed on both sides record by record.\<close>

definition merged_graph :: "graph \<Rightarrow> graph \<Rightarrow> graph \<Rightarrow> graph" where
  "merged_graph = (\<lambda>(bs, bn, be) (os, on', oe) (ts, tn, te).
     (\<lambda>k. merged_value (bs k) (os k) (ts k),
      \<lambda>k. cell_value merge_node_bytes (bn k) (on' k) (tn k),
      \<lambda>k. cell_value merge_edge_bytes (be k) (oe k) (te k)))"

definition merge_clashes :: "graph \<Rightarrow> graph \<Rightarrow> graph \<Rightarrow> cell_conflict set" where
  "merge_clashes = (\<lambda>(bs, bn, be) (os, on', oe) (ts, tn, te).
     {whole_conflict CSchema \<lparr>cf_key = k, cf_base = bs k, cf_ours = os k, cf_theirs = ts k\<rparr> | k. clashes (bs k) (os k) (ts k)} \<union>
     {c. \<exists>k. c \<in> set (cells_at merge_node_bytes CNodes k (bn k) (on' k) (tn k))} \<union>
     {c. \<exists>k. c \<in> set (cells_at merge_edge_bytes CEdges k (be k) (oe k) (te k))})"

lemma merge_graphs:
  assumes "chunk_store S addr" "holds_graph S addr s params base B" "holds_graph S addr s params ours O'"
    "holds_graph S addr s params theirs T" "mergeable B O' T"
  shows "gensures (merge_manifests S s base ours theirs) (\<lambda>(out, s').
    grows S s s' \<and> holds_graph S addr s' params (merge_result out) (merged_graph B O' T) \<and>
    holds_derived S addr s' (merge_result out) (merged_graph B O' T) \<and>
    (case out of
       Clean m \<Rightarrow> merge_clashes B O' T = {} \<and> (\<forall>vio. \<not> introduced B O' T (merged_graph B O' T) vio)
     | Conflicts m cs \<Rightarrow> set cs = (if merge_clashes B O' T \<noteq> {} then MCell ` merge_clashes B O' T
         else MGraph ` {vio. introduced B O' T (merged_graph B O' T) vio}) \<and> cs \<noteq> []))"
proof -
  obtain bs bn be where B: "B = (bs, bn, be)" by (cases B)
  obtain os on' oe where O': "O' = (os, on', oe)" by (cases O')
  obtain ts tn te where T: "T = (ts, tn, te)" by (cases T)
  note at = assms(2-4) [unfolded B O' T holds_graph_def prod.case]
  let ?GS = "\<lambda>k. merged_value (bs k) (os k) (ts k)" and ?GN = "node_merger.merged_map bn on' tn" and ?GE = "edge_merger.merged_map be oe te"
  have M: "merged_graph B O' T = (?GS, ?GN, ?GE)"
    by (simp add: merged_graph_def B O' T node_merger.merged_map_def edge_merger.merged_map_def)
  have C: "merge_clashes B O' T = schema_cells bs os ts \<union> node_merger.merge_cells bn on' tn \<union> edge_merger.merge_cells be oe te"
    by (simp add: merge_clashes_def B O' T schema_cells_def node_merger.merge_cells_def edge_merger.merge_cells_def)
  have V: "gensures (validate_merged S s' base ours theirs m)
      (\<lambda>vs. set vs = {vio. introduced B O' T (merged_graph B O' T) vio})" if "grows S s s'" "graph_at S addr s' params m ?GS ?GN ?GE" for m s'
    by (rule validate_merged_exact [OF at [THEN graph_at_grows, OF that(1)] that(2)]) (auto simp: B O' T M [unfolded B O' T])
  note merge_manifests_ok [OF assms(1) at assms(5) [unfolded B O' T], where V = "\<lambda>_ vs. set vs = {vio. introduced B O' T (merged_graph B O' T) vio}", OF V]
  then show ?thesis
    by (rule gensures_mono) (auto simp: M C holds_graph_def holds_derived_def split: manifest_merge.splits if_splits)
qed

text \<open>Declarations over data that stays keep what places the data: the key properties of a label, the
  discriminator of a relationship type.\<close>

definition keeps_identity :: "graph \<Rightarrow> graph \<Rightarrow> bool" where
  "keeps_identity = (\<lambda>(bs, bn, be) (gs, gn, ge).
     (\<forall>n key. gn n \<noteq> None \<and> bn n = gn n \<and> node_key_decode n = Inr key \<longrightarrow>
        (\<forall>d d'. declares bs (SLabel (nk_label key) d) \<and> declares gs (SLabel (nk_label key) d') \<longrightarrow> ld_key d = ld_key d')) \<and>
     (\<forall>k edge. ge k \<noteq> None \<and> be k = ge k \<and> decode_fwd k = Inr edge \<longrightarrow>
        (\<forall>d d'. declares bs (SRelType (ek_rtype edge) d) \<and> declares gs (SRelType (ek_rtype edge) d') \<longrightarrow>
           rd_discriminator d = rd_discriminator d')))"

lemma kept:
  assumes "keeps_identity (bs, bn, be) (gs, gn, ge)"
  shows "node_at gn n key rec \<Longrightarrow> bn n = gn n \<Longrightarrow> declares bs (SLabel (nk_label key) d) \<Longrightarrow>
      declares gs (SLabel (nk_label key) d') \<Longrightarrow> ld_key d = ld_key d'"
    "edge_at ge k edge er \<Longrightarrow> be k = ge k \<Longrightarrow> declares bs (SRelType (ek_rtype edge) e) \<Longrightarrow>
      declares gs (SRelType (ek_rtype edge) e') \<Longrightarrow> rd_discriminator e = rd_discriminator e'"
  using assms unfolding keeps_identity_def prod.case node_at_def edge_at_def by blast+

lemma rel_type_violations_mem:
  "(p, t, a) \<in> set (rel_type_violations edge rec def) \<longleftrightarrow> (p, t) \<in> set (rd_types def) \<and>
     (p, t, a) \<in> set (first_breach p t ((case map_of (er_properties rec) p of Some v \<Rightarrow> [v] | None \<Rightarrow> []) @
        (if rd_discriminator def = Some p then [ek_disc edge] else [])))"
proof -
  have "(p, t, a) \<in> set (first_breach p' t' vs) \<Longrightarrow> p' = p \<and> t' = t" for p' t' vs
    by (induction vs) (auto simp: type_breach_def split: option.splits if_splits)
  then have "(p, t, a) \<in> set (rel_type_violation edge rec def (p', t')) \<Longrightarrow> p' = p \<and> t' = t" for p' t'
    unfolding rel_type_violation_def prod.case .
  then have "(p, t, a) \<in> set (rel_type_violations edge rec def) \<longleftrightarrow>
      (p, t) \<in> set (rd_types def) \<and> (p, t, a) \<in> set (rel_type_violation edge rec def (p, t))"
    by (cases "rd_types def = []") (auto simp: rel_type_violations_def)
  then show ?thesis by (simp add: rel_type_violation_def)
qed

lemma inherited_breach:
  assumes "breaches (gs, gn, ge) vio" "\<not> blamed (bs, bn, be) (gs, gn, ge) vio" "keeps_identity (bs, bn, be) (gs, gn, ge)" "finite (dom bn)"
  shows "\<exists>vio. breaches (bs, bn, be) vio"
proof (cases vio)
  case (DanglingEdge k n role)
  then show ?thesis using assms(1,2) by (auto simp: breaches_def blamed_def intro!: exI [of _ "DanglingEdge k n role"])
next
  case (MissingRequired n p)
  then obtain key rec def def' where "node_at gn n key rec" "bn n = gn n" "declares gs (SLabel (nk_label key) def)" "\<not> present rec def p"
    "declares bs (SLabel (nk_label key) def')" "p \<in> set (ld_exists def')"
    using assms(1,2) by (auto simp: breaches_def blamed_def node_at_def)
  moreover from this have "ld_key def' = ld_key def" using kept(1) [OF assms(3)] by blast
  ultimately have "breaches (bs, bn, be) (MissingRequired n p)"
    by (auto simp: breaches_def node_at_def present_def intro!: exI [of _ def'])
  then show ?thesis ..
next
  case (WrongType n p t a)
  then obtain key rec def def' where "node_at gn n key rec" "bn n = gn n" "declares gs (SLabel (nk_label key) def)"
    "(p, t, a) \<in> set (type_violations key rec def)" "declares bs (SLabel (nk_label key) def')" "map_of (ld_types def') p = Some t"
    using assms(1,2) by (auto simp: breaches_def blamed_def node_at_def)
  moreover from this have "ld_key def' = ld_key def" using kept(1) [OF assms(3)] by blast
  ultimately have "breaches (bs, bn, be) (WrongType n p t a)"
    by (auto simp: breaches_def node_at_def type_violations_mem typed_value_def dest!: map_of_SomeD intro!: exI [of _ def'])
  then show ?thesis ..
next
  case (EdgeWrongType k p t a)
  then obtain edge rec def def' where "edge_at ge k edge rec" "be k = ge k" "declares gs (SRelType (ek_rtype edge) def)"
    "(p, t, a) \<in> set (rel_type_violations edge rec def)" "declares bs (SRelType (ek_rtype edge) def')" "map_of (rd_types def') p = Some t"
    using assms(1,2) by (auto simp: breaches_def blamed_def edge_at_def)
  moreover from this have "rd_discriminator def' = rd_discriminator def" using kept(2) [OF assms(3)] by blast
  ultimately have "breaches (bs, bn, be) (EdgeWrongType k p t a)"
    by (auto simp: breaches_def edge_at_def rel_type_violations_mem dest!: map_of_SomeD intro!: exI [of _ def'])
  then show ?thesis ..
next
  case (UniqueViolation l p x ns)
  then have ns: "ns = sorted_list_of_set (sharers gn l p x)" "2 \<le> length ns" "\<forall>n \<in> set ns. bn n = gn n"
    and def: "\<exists>def. declares bs (SLabel l def) \<and> p \<in> set (ld_unique def)" using assms(1,2) by (auto simp: breaches_def blamed_def)
  have "finite (sharers gn l p x)" using ns(1,2) by (cases "finite (sharers gn l p x)") auto
  then have "sharers gn l p x \<subseteq> sharers bn l p x" using ns(1,3) by (auto simp: sharers_def node_at_def)
  moreover have "finite (sharers bn l p x)" by (rule finite_subset [OF _ assms(4)]) (auto simp: sharers_def node_at_def)
  ultimately have "card (sharers gn l p x) \<le> card (sharers bn l p x)" by (intro card_mono)
  then have "breaches (bs, bn, be) (UniqueViolation l p x (sorted_list_of_set (sharers bn l p x)))"
    using ns(1,2) def by (simp add: breaches_def)
  then show ?thesis ..
qed (use assms(1) in \<open>simp add: breaches_def\<close>)

lemma clean_merge_inherits:
  assumes "holds_graph S addr s params base B" "keeps_identity B M" "\<And>vio. \<not> breaches B vio" "\<And>vio. \<not> introduced B O' T M vio"
  shows "\<not> breaches M vio"
proof
  assume b: "breaches M vio"
  obtain bs bn be where B: "B = (bs, bn, be)" by (cases B)
  obtain gs gn ge where M: "M = (gs, gn, ge)" by (cases M)
  have "finite (dom bn)" using assms(1) by (auto simp: B holds_graph_def graph_at_def elim!: holds_map_opened simp: finite_dom_map_of)
  moreover have "\<not> blamed B M vio"
    using assms(4) [of vio] b by (cases vio) (auto simp: introduced_def breaches_def M)
  ultimately show False using inherited_breach [of gs gn ge vio bs bn be] b assms(2,3) by (auto simp: B M)
qed

section \<open>What a clean merge leaves alone\<close>

text \<open>A clean merge leaves a record as the base has it only when both sides did.\<close>

lemma unmerged: "merged_value b o' t = b \<Longrightarrow> \<not> clashes b o' t \<Longrightarrow> o' = b \<and> t = b"
  by (auto simp: merged_value_def clashes_def split: if_splits)

lemma unmerged_properties:
  assumes "stored_props b" "stored_props o'" "stored_props t" "merge_properties b o' t = Inr (ps, [])" "ps = b"
  shows "o' = b \<and> t = b"
proof -
  have st: "stored_properties b" "stored_properties o'" "stored_properties t" using assms(1-3) by (simp_all add: stored_props_def)
  have ok: "bt_ok b" "bt_ok o'" "bt_ok t" using assms(1-3) by (simp_all add: stored_props_map)
  obtain ps' cs where m: "merge_properties b o' t = Inr (ps', cs)" "map_of ps' = (\<lambda>n. merged_value (map_of b n) (map_of o' n) (map_of t n))"
    and cs: "cs = map (\<lambda>n. \<lparr>pc_property = n, pc_base = map_of b n, pc_ours = map_of o' n, pc_theirs = map_of t n\<rparr>)
      (filter (\<lambda>n. clashes (map_of b n) (map_of o' n) (map_of t n)) (btree_set (map fst b @ map fst o' @ map fst t)))"
    using merge_properties_stored [OF st] by blast
  have "\<not> clashes (map_of b n) (map_of o' n) (map_of t n)" for n
  proof
    assume c: "clashes (map_of b n) (map_of o' n) (map_of t n)"
    then have "n \<in> set (btree_set (map fst b @ map fst o' @ map fst t))"
      by (auto simp: map_of_eq_None_iff [THEN iffD2] clashes_def)
    then show False using c cs m(1) assms(4) by (auto simp: filter_empty_conv)
  qed
  then have "map_of o' n = map_of b n \<and> map_of t n = map_of b n" for n
    using unmerged [of "map_of b n" "map_of o' n" "map_of t n"] m assms(4,5) by (auto simp: fun_eq_iff)
  then show ?thesis using ok by (auto intro!: bt_eqI)
qed

lemma unmerged_node:
  assumes "stored_node b" "stored_node o'" "stored_node t" "merge_node_record b o' t = Inr (b, [])"
  shows "o' = b \<and> t = b"
proof -
  from assms(4) obtain ps where ps: "merge_properties (nr_properties b) (nr_properties o') (nr_properties t) = Inr (ps, [])"
    and b: "b = node_record_new (merge_labels (nr_labels b) (nr_labels o') (nr_labels t)) ps"
    by (auto simp: merge_node_record_def rbind_Inr_iff)
  have p: "nr_properties b = ps" using arg_cong [OF b, of nr_properties] by (simp add: node_record_new_def)
  have "set (nr_labels b) = set (normalise_strings (merge_labels (nr_labels b) (nr_labels o') (nr_labels t)))"
    using arg_cong [OF b, of nr_labels] by (simp add: node_record_new_def)
  then have l: "set (nr_labels b) = set (merge_labels (nr_labels b) (nr_labels o') (nr_labels t))" by (simp add: normalise_strings_spec)
  have "nr_properties o' = nr_properties b \<and> nr_properties t = nr_properties b"
    by (rule unmerged_properties [OF _ _ _ ps]) (use assms(1-3) p in \<open>simp_all add: stored_node_def\<close>)
  moreover have "set (nr_labels o') = set (nr_labels b) \<and> set (nr_labels t) = set (nr_labels b)"
    using l unfolding set_eq_iff merge_labels_set by metis
  then have "nr_labels o' = nr_labels b \<and> nr_labels t = nr_labels b"
    using assms(1-3) canon_ascending_unique [of id "nr_labels o'" "nr_labels b"] canon_ascending_unique [of id "nr_labels t" "nr_labels b"]
    by (simp add: stored_node_def)
  ultimately show ?thesis by (simp add: node_record.equality)
qed

lemma unmerged_edge:
  assumes "stored_props (er_properties b)" "stored_props (er_properties o')" "stored_props (er_properties t)"
    "merge_edge_record b o' t = Inr (b, [])"
  shows "o' = b \<and> t = b"
proof -
  from assms(4) obtain ps where ps: "merge_properties (er_properties b) (er_properties o') (er_properties t) = Inr (ps, [])" "ps = er_properties b"
    by (auto simp: merge_edge_record_def rbind_Inr_iff)
  from unmerged_properties [OF assms(1-3) ps] show ?thesis by (simp add: edge_record.equality)
qed

lemma unmerged_cell:
  assumes "cell_value f b o' t = b" "b \<noteq> None" "cells_at f cmap k b o' t = []"
    and one: "\<And>x y z. b = Some x \<Longrightarrow> o' = Some y \<Longrightarrow> t = Some z \<Longrightarrow> fst (projr (f b y z)) = x \<Longrightarrow> snd (projr (f b y z)) = [] \<Longrightarrow> y = x \<and> z = x"
  shows "o' = b \<and> t = b"
proof (cases "clashes b o' t")
  case True
  obtain x where x: "b = Some x" using assms(2) by auto
  show ?thesis
  proof (cases o'; cases t)
    fix y z assume yz: "o' = Some y" "t = Some z"
    then have "fst (projr (f b y z)) = x" "snd (projr (f b y z)) = []"
      using assms(1,3) True x by (auto simp: cell_value_def cells_at_def)
    then show ?thesis using one [OF x yz] x yz by simp
  qed (use assms(3) True in \<open>auto simp: cells_at_def\<close>)
next
  case False
  then show ?thesis using assms(1) unmerged [of b o' t] by (auto simp: cell_value_def split: option.splits)
qed

lemma unmerged_node_cell:
  assumes "cell_value merge_node_bytes b o' t = b" "b \<noteq> None" "cells_at merge_node_bytes cmap k b o' t = []"
    and st: "pred_option stored_node_bytes b" "pred_option stored_node_bytes o'" "pred_option stored_node_bytes t"
  shows "o' = b \<and> t = b"
proof (rule unmerged_cell [OF assms(1-3)])
  fix x y z
  assume eq: "b = Some x" "o' = Some y" "t = Some z" and f: "fst (projr (merge_node_bytes b y z)) = x" "snd (projr (merge_node_bytes b y z)) = []"
  obtain rx ry rz where d: "node_record_decode x = Inr rx" "node_record_decode y = Inr ry" "node_record_decode z = Inr rz"
    and len: "length x < 2 ^ 63" "length y < 2 ^ 63" "length z < 2 ^ 63" using st eq by (auto simp: stored_node_bytes_def)
  note s = decoded_stored(1) [OF d(1) len(1)] decoded_stored(1) [OF d(2) len(2)] decoded_stored(1) [OF d(3) len(3)]
  obtain nr cs where m: "merge_node_record rx ry rz = Inr (nr, cs)" "stored_node nr" using merge_node_stored [OF s] by blast
  obtain v where v: "node_record_encode nr = Inr v" "length v < 2 ^ 63 \<longrightarrow> node_record_decode v = Inr nr" using stored_node_encode [OF m(2)] by blast
  have "v = x" "cs = []" using f eq d m(1) v(1) by (simp_all add: merge_node_bytes_def)
  then have "nr = rx" using v(2) len(1) d(1) by simp
  with m(1) \<open>cs = []\<close> have "ry = rx \<and> rz = rx" using unmerged_node [OF s] by simp
  then show "y = x \<and> z = x" using d [THEN node_record_strict(1)] by simp
qed

lemma unmerged_edge_cell:
  assumes "cell_value merge_edge_bytes b o' t = b" "b \<noteq> None" "cells_at merge_edge_bytes cmap k b o' t = []"
    and st: "pred_option stored_edge_bytes b" "pred_option stored_edge_bytes o'" "pred_option stored_edge_bytes t"
  shows "o' = b \<and> t = b"
proof (rule unmerged_cell [OF assms(1-3)])
  fix x y z
  assume eq: "b = Some x" "o' = Some y" "t = Some z" and f: "fst (projr (merge_edge_bytes b y z)) = x" "snd (projr (merge_edge_bytes b y z)) = []"
  obtain rx ry rz where d: "edge_record_decode x = Inr rx" "edge_record_decode y = Inr ry" "edge_record_decode z = Inr rz"
    and len: "length x < 2 ^ 63" "length y < 2 ^ 63" "length z < 2 ^ 63" using st eq by (auto simp: stored_edge_bytes_def)
  note s = decoded_stored(2) [OF d(1) len(1)] decoded_stored(2) [OF d(2) len(2)] decoded_stored(2) [OF d(3) len(3)]
  obtain er cs where m: "merge_edge_record rx ry rz = Inr (er, cs)" "stored_props (er_properties er)" using merge_edge_stored [OF s] by blast
  obtain v where v: "edge_record_encode er = Inr v" "length v < 2 ^ 63 \<longrightarrow> edge_record_decode v = Inr er" using stored_edge_encode [OF m(2)] by blast
  have "v = x" "cs = []" using f eq d m(1) v(1) by (simp_all add: merge_edge_bytes_def)
  then have "er = rx" using v(2) len(1) d(1) by simp
  with m(1) \<open>cs = []\<close> have "ry = rx \<and> rz = rx" using unmerged_edge [OF s] by simp
  then show "y = x \<and> z = x" using d [THEN edge_record_strict] by simp
qed

lemma merged_declares: "declares (\<lambda>k. merged_value (bs k) (os k) (ts k)) e \<Longrightarrow> declares os e \<or> declares ts e"
  by (auto simp: declares_def merged_value_def split: if_splits)

lemma merge_keeps_identity:
  assumes "holds_graph S addr s params base B" "holds_graph S addr s params ours O'" "holds_graph S addr s params theirs T"
    and "keeps_identity B O'" "keeps_identity B T" "merge_clashes B O' T = {}"
  shows "keeps_identity B (merged_graph B O' T)"
proof -
  obtain bs bn be where B: "B = (bs, bn, be)" by (cases B)
  obtain os on' oe where O': "O' = (os, on', oe)" by (cases O')
  obtain ts tn te where T: "T = (ts, tn, te)" by (cases T)
  have st: "pred_option stored_node_bytes (bn k)" "pred_option stored_node_bytes (on' k)" "pred_option stored_node_bytes (tn k)"
    "pred_option stored_edge_bytes (be k)" "pred_option stored_edge_bytes (oe k)" "pred_option stored_edge_bytes (te k)" for k
    using assms(1-3) unfolding B O' T holds_graph_def prod.case graph_at_def node_map_def edge_map_def stored_node_bytes_def
    by (auto simp: pred_option_def Option.these_def split: option.splits)
  have nil: "cells_at merge_node_bytes CNodes k (bn k) (on' k) (tn k) = []" "cells_at merge_edge_bytes CEdges k (be k) (oe k) (te k) = []" for k
    using assms(6) unfolding B O' T merge_clashes_def prod.case by (auto intro: list.set_cases simp: set_eq_iff) (metis list.set_intros(1) neq_Nil_conv)+
  note n = unmerged_node_cell [OF _ _ nil(1) st(1-3)] and e = unmerged_edge_cell [OF _ _ nil(2) st(4-6)]
  show ?thesis
    unfolding B O' T merged_graph_def keeps_identity_def prod.case
  proof (intro conjI allI impI; elim conjE)
    fix k key d d'
    assume k: "cell_value merge_node_bytes (bn k) (on' k) (tn k) \<noteq> None" "bn k = cell_value merge_node_bytes (bn k) (on' k) (tn k)"
      "node_key_decode k = Inr key" and d: "declares bs (SLabel (nk_label key) d)"
      "declares (\<lambda>k. merged_value (bs k) (os k) (ts k)) (SLabel (nk_label key) d')"
    have "on' k = bn k" "tn k = bn k" "bn k \<noteq> None" using n [OF k(2) [symmetric]] k(1,2) by auto
    then show "ld_key d = ld_key d'"
      using merged_declares [OF d(2)] d(1) k(3) assms(4,5) unfolding B O' T keeps_identity_def prod.case by metis
  next
    fix k edge d d'
    assume k: "cell_value merge_edge_bytes (be k) (oe k) (te k) \<noteq> None" "be k = cell_value merge_edge_bytes (be k) (oe k) (te k)"
      "decode_fwd k = Inr edge" and d: "declares bs (SRelType (ek_rtype edge) d)"
      "declares (\<lambda>k. merged_value (bs k) (os k) (ts k)) (SRelType (ek_rtype edge) d')"
    have "oe k = be k" "te k = be k" "be k \<noteq> None" using e [OF k(2) [symmetric]] k(1,2) by auto
    then show "rd_discriminator d = rd_discriminator d'"
      using merged_declares [OF d(2)] d(1) k(3) assms(4,5) unfolding B O' T keeps_identity_def prod.case by metis
  qed
qed

section \<open>Properties\<close>


text \<open>The empty graph beside the sample of one node.\<close>

definition blank_manifest :: manifest where
  "blank_manifest = sample_manifest\<lparr>mf_nodes := map_root_from_root empty_root\<rparr>"

definition blank_graph :: graph where "blank_graph = (Map.empty, Map.empty, Map.empty)"

definition sample_graph :: graph where "sample_graph = (Map.empty, [sample_key \<mapsto> sample_node], Map.empty)"

lemma sample_graphs:
  "holds_graph (mem_store 1000) mem_digest sample_objs tiny blank_manifest blank_graph"
  "holds_graph (mem_store 1000) mem_digest sample_objs tiny sample_manifest sample_graph"
  "mergeable blank_graph sample_graph blank_graph"
  "merged_graph blank_graph sample_graph blank_graph = sample_graph"
proof -
  have "node_map [sample_key \<mapsto> sample_node]" by (auto simp: node_map_def sample_decodes) (simp add: sample_node_def)
  then show "holds_graph (mem_store 1000) mem_digest sample_objs tiny sample_manifest sample_graph"
    using sample_maps [THEN holds_map_from_root]
    by (auto simp: holds_graph_def sample_graph_def graph_at_def sample_manifest_def node_root_def empty_root_def schema_map_def edge_map_def)
  show "holds_graph (mem_store 1000) mem_digest sample_objs tiny blank_manifest blank_graph"
    using sample_maps(1) [THEN holds_map_from_root]
    by (auto simp: holds_graph_def blank_graph_def graph_at_def blank_manifest_def sample_manifest_def empty_root_def schema_map_def edge_map_def node_map_def)
  show "merged_graph blank_graph sample_graph blank_graph = sample_graph"
    by (auto simp: merged_graph_def blank_graph_def sample_graph_def cell_value_def merged_value_def clashes_def fun_eq_iff)
  show "mergeable blank_graph sample_graph blank_graph"
    by (auto simp: mergeable_def blank_graph_def sample_graph_def cell_value_def merged_value_def clashes_def sample_node_def split: if_splits)
qed

lemma undeclared_unbroken: "\<not> breaches (Map.empty, gn, Map.empty) vio"
  by (cases vio) (auto simp: breaches_def declares_def)

lemma sample_unclashed: "merge_clashes blank_graph sample_graph blank_graph = {}"
  by (auto simp: merge_clashes_def blank_graph_def sample_graph_def cells_at_def clashes_def)

lemma sample_unbroken: "introduced B O' T sample_graph = (\<lambda>vio. False)"
proof (rule ext)
  fix vio
  show "introduced B O' T sample_graph vio = False"
    using undeclared_unbroken [of "[sample_key \<mapsto> sample_node]" vio]
    by (cases vio) (auto simp: introduced_def stale_on_def sample_graph_def split: prod.splits)
qed




end
