(* ===== verification/Snapshot.thy ===== *)
theory Snapshot
  imports Clean_Merge Prolly_Walk
begin

text \<open>
  Reads of one graph version: \<^verbatim>\<open>Snapshot\<close> in \<^verbatim>\<open>crates/acetone-graph/src/repo.rs\<close> and the classified difference of
  two versions in \<^verbatim>\<open>crates/acetone-graph/src/diff.rs\<close>. A snapshot is its manifest.
\<close>

section \<open>Lookups and full scans\<close>

definition snapshot_root :: "manifest \<Rightarrow> map_root \<Rightarrow> graph_error + root" where
  "snapshot_root m mr = map_err GProlly (map_root_to_root mr (mf_chunk_params m))"

definition snapshot_count :: "'s store_ops \<Rightarrow> 's \<Rightarrow> manifest \<Rightarrow> map_root \<Rightarrow> nat run" where
  "snapshot_count S s m mr =
     gbind (lift (snapshot_root m mr)) (\<lambda>root. for_scan S s root (\<lambda>_ n. Some (Inr (n + 1))) 0)"

definition node_count :: "'s store_ops \<Rightarrow> 's \<Rightarrow> manifest \<Rightarrow> nat run" where
  "node_count S s m = snapshot_count S s m (mf_nodes m)"

definition edge_count :: "'s store_ops \<Rightarrow> 's \<Rightarrow> manifest \<Rightarrow> nat run" where
  "edge_count S s m = snapshot_count S s m (mf_edges_fwd m)"

definition schema_entry_count :: "'s store_ops \<Rightarrow> 's \<Rightarrow> manifest \<Rightarrow> nat run" where
  "schema_entry_count S s m = snapshot_count S s m (mf_schema m)"

definition get_node :: "'s store_ops \<Rightarrow> 's \<Rightarrow> manifest \<Rightarrow> node_key \<Rightarrow> graph_error + node_record option" where
  "get_node S s m key =
     rbind (snapshot_root m (mf_nodes m)) (\<lambda>root.
     rbind (map_err GGraphKey (node_key_encode key)) (\<lambda>enc.
     rbind (map_err GProlly (prolly_get S s root enc)) (\<lambda>found. case found of
         None \<Rightarrow> Inr None
       | Some bs \<Rightarrow> rbind (map_err GRecordDecode (node_record_decode bs)) (\<lambda>rec. Inr (Some rec)))))"

definition snapshot_nodes :: "'s store_ops \<Rightarrow> 's \<Rightarrow> manifest \<Rightarrow> (node_key \<times> node_record) list run" where
  "snapshot_nodes S s m =
     gbind (lift (snapshot_root m (mf_nodes m))) (\<lambda>root. for_scan S s root push_node [])"

definition push_edge :: "bytes \<times> bytes \<Rightarrow> (edge_key \<times> edge_record) list \<Rightarrow> (edge_key \<times> edge_record) list run" where
  "push_edge kv out =
     gbind (lift (map_err GGraphKey (decode_fwd (fst kv)))) (\<lambda>edge.
     gbind (lift (map_err GRecordDecode (edge_record_decode (snd kv)))) (\<lambda>rec.
       Some (Inr (out @ [(edge, rec)]))))"

definition snapshot_edges :: "'s store_ops \<Rightarrow> 's \<Rightarrow> manifest \<Rightarrow> (edge_key \<times> edge_record) list run" where
  "snapshot_edges S s m =
     gbind (lift (snapshot_root m (mf_edges_fwd m))) (\<lambda>root. for_scan S s root push_edge [])"

definition reverse_edge_keys :: "'s store_ops \<Rightarrow> 's \<Rightarrow> manifest \<Rightarrow> edge_key list run" where
  "reverse_edge_keys S s m =
     gbind (lift (snapshot_root m (mf_edges_rev m))) (\<lambda>root.
     for_scan S s root (\<lambda>kv out. lift (rbind (map_err GGraphKey (decode_rev (fst kv))) (\<lambda>edge. Inr (out @ [edge])))) [])"

section \<open>Incident edges\<close>

text \<open>\<^const>\<open>None\<close> is the panic of \<^verbatim>\<open>expect("set when reversed")\<close>.\<close>

definition incident_edge ::
  "'s store_ops \<Rightarrow> 's \<Rightarrow> bool \<Rightarrow> root option \<Rightarrow> bytes \<times> bytes \<Rightarrow> (edge_key \<times> edge_record) list \<Rightarrow> (edge_key \<times> edge_record) list run" where
  "incident_edge S s reversed fwd_root kv out =
     (if reversed then
        gbind (lift (map_err GGraphKey (decode_rev (fst kv)))) (\<lambda>edge. case fwd_root of
            None \<Rightarrow> None
          | Some root \<Rightarrow>
              gbind (lift (map_err GGraphKey (encode_fwd edge))) (\<lambda>fwd.
              gbind (lift (map_err GProlly (prolly_get S s root fwd))) (\<lambda>found. case found of
                  None \<Rightarrow> Some (Inl (GInconsistentReverseEdge (ek_src edge)))
                | Some bs \<Rightarrow>
                    gbind (lift (map_err GRecordDecode (edge_record_decode bs))) (\<lambda>rec.
                      Some (Inr (out @ [(edge, rec)]))))))
      else push_edge kv out)"

definition incident ::
  "'s store_ops \<Rightarrow> 's \<Rightarrow> manifest \<Rightarrow> map_root \<Rightarrow> node_key \<Rightarrow> bool \<Rightarrow> (edge_key \<times> edge_record) list run" where
  "incident S s m mr node reversed =
     gbind (lift (map_err GGraphKey (edge_endpoint_prefix node))) (\<lambda>p.
     gbind (lift (snapshot_root m mr)) (\<lambda>root.
     gbind (if reversed then gbind (lift (snapshot_root m (mf_edges_fwd m))) (\<lambda>fwd. Some (Inr (Some fwd)))
            else Some (Inr None)) (\<lambda>fwd_root.
     gbind (lift (map_err GProlly (scan S s root (Included p) Unbounded))) (\<lambda>sc.
       prefix_loop S s p (incident_edge S s reversed fwd_root) sc []))))"

definition out_edges :: "'s store_ops \<Rightarrow> 's \<Rightarrow> manifest \<Rightarrow> node_key \<Rightarrow> (edge_key \<times> edge_record) list run" where
  "out_edges S s m node = incident S s m (mf_edges_fwd m) node False"

definition in_edges :: "'s store_ops \<Rightarrow> 's \<Rightarrow> manifest \<Rightarrow> node_key \<Rightarrow> (edge_key \<times> edge_record) list run" where
  "in_edges S s m node = incident S s m (mf_edges_rev m) node True"

section \<open>Index reads\<close>

definition index_entries :: "'s store_ops \<Rightarrow> 's \<Rightarrow> manifest \<Rightarrow> bytes \<Rightarrow> index_entry list run" where
  "index_entries S s m name = (case map_of (mf_indexes m) name of
       None \<Rightarrow> Some (Inr [])
     | Some mr \<Rightarrow>
         gbind (lift (snapshot_root m mr)) (\<lambda>root.
         for_scan S s root (\<lambda>kv out. lift (rbind (map_err GGraphKey (index_entry_decode (fst kv))) (\<lambda>ie. Inr (out @ [ie])))) []))"

text \<open>A loop that stops at a key past the prefix, and once it holds more than \<open>cap\<close> nodes.\<close>

partial_function (option) capped_loop ::
  "'s store_ops \<Rightarrow> 's \<Rightarrow> (bytes \<Rightarrow> bool) \<Rightarrow> nat \<Rightarrow> scan_state \<Rightarrow> node_key list \<Rightarrow> node_key list run" where
  "capped_loop S s inside cap sc out = (case scan_next S s sc of
       (None, _) \<Rightarrow> Some (Inr out)
     | (Some (Inl e), _) \<Rightarrow> Some (Inl (GProlly e))
     | (Some (Inr kv), sc) \<Rightarrow>
         (if \<not> inside (fst kv) then Some (Inr out)
          else (case map_err GGraphKey (index_entry_decode (fst kv)) of
              Inl e \<Rightarrow> Some (Inl e)
            | Inr ie \<Rightarrow>
                let out = out @ [ie_node ie]
                in if length out > cap then Some (Inr out) else capped_loop S s inside cap sc out)))"

definition index_scan_capped :: "'s store_ops \<Rightarrow> 's \<Rightarrow> manifest \<Rightarrow> bytes \<Rightarrow> bytes \<Rightarrow> nat \<Rightarrow> node_key list option run" where
  "index_scan_capped S s m name p cap = (case map_of (mf_indexes m) name of
       None \<Rightarrow> Some (Inr None)
     | Some mr \<Rightarrow>
         gbind (lift (snapshot_root m mr)) (\<lambda>root.
         gbind (lift (map_err GProlly (scan S s root (Included p) Unbounded))) (\<lambda>sc.
         gbind (capped_loop S s (prefix p) cap sc []) (\<lambda>out. Some (Inr (Some out))))))"

definition index_scan :: "'s store_ops \<Rightarrow> 's \<Rightarrow> manifest \<Rightarrow> bytes \<Rightarrow> bytes \<Rightarrow> node_key list option run" where
  "index_scan S s m name p = index_scan_capped S s m name p (2 ^ 64 - 1)"

definition bound_bytes :: "bound \<Rightarrow> bytes option" where
  "bound_bytes b = (case b of Included x \<Rightarrow> Some x | Excluded x \<Rightarrow> Some x | Unbounded \<Rightarrow> None)"

definition index_range :: "'s store_ops \<Rightarrow> 's \<Rightarrow> manifest \<Rightarrow> bytes \<Rightarrow> bound \<Rightarrow> bound \<Rightarrow> nat \<Rightarrow> node_key list option run" where
  "index_range S s m name lower upper cap = (case map_of (mf_indexes m) name of
       None \<Rightarrow> Some (Inr None)
     | Some mr \<Rightarrow>
         if (case (bound_bytes lower, bound_bytes upper) of (Some start, Some stop) \<Rightarrow> stop < start | _ \<Rightarrow> False)
         then Some (Inr (Some []))
         else gbind (lift (snapshot_root m mr)) (\<lambda>root.
              gbind (lift (map_err GProlly (scan S s root lower upper))) (\<lambda>sc.
              gbind (capped_loop S s (\<lambda>_. True) cap sc []) (\<lambda>out. Some (Inr (Some out))))))"

section \<open>The difference of two versions\<close>

datatype change_kind = Added | Removed | Modified

fun change_label :: "change_kind \<Rightarrow> string" where
  "change_label Added = ''_Added''"
| "change_label Removed = ''_Removed''"
| "change_label Modified = ''_Modified''"

record node_change_record =
  nc_kind :: change_kind
  nc_key :: node_key
  nc_before :: "node_record option"
  nc_after :: "node_record option"

record edge_change_record =
  ec_kind :: change_kind
  ec_key :: edge_key
  ec_before :: "edge_record option"
  ec_after :: "edge_record option"

record graph_diff =
  gd_nodes :: "node_change_record list"
  gd_edges :: "edge_change_record list"

definition graph_diff_is_empty :: "graph_diff \<Rightarrow> bool" where
  "graph_diff_is_empty d \<longleftrightarrow> gd_nodes d = [] \<and> gd_edges d = []"

text \<open>\<^const>\<open>None\<close> is the panic of \<^verbatim>\<open>unreachable!\<close>.\<close>

fun classify :: "bool \<Rightarrow> bool \<Rightarrow> change_kind option" where
  "classify False True = Some Added"
| "classify True False = Some Removed"
| "classify True True = Some Modified"
| "classify False False = None"

definition decode_side :: "(bytes \<Rightarrow> record_decode_error + 'r) \<Rightarrow> bytes option \<Rightarrow> graph_error + 'r option" where
  "decode_side dec side = (case side of
       None \<Rightarrow> Inr None
     | Some bs \<Rightarrow> rbind (map_err GRecordDecode (dec bs)) (\<lambda>rec. Inr (Some rec)))"

definition diff_node :: "diff_entry \<Rightarrow> node_change_record list \<Rightarrow> node_change_record list run" where
  "diff_node entry out =
     gbind (lift (decode_side node_record_decode (de_before entry))) (\<lambda>before.
     gbind (lift (decode_side node_record_decode (de_after entry))) (\<lambda>after.
     case classify (before \<noteq> None) (after \<noteq> None) of
       None \<Rightarrow> None
     | Some kind \<Rightarrow> gbind (lift (map_err GGraphKey (node_key_decode (de_key entry)))) (\<lambda>key.
         Some (Inr (out @ [\<lparr>nc_kind = kind, nc_key = key, nc_before = before, nc_after = after\<rparr>])))))"

definition diff_edge :: "diff_entry \<Rightarrow> edge_change_record list \<Rightarrow> edge_change_record list run" where
  "diff_edge entry out =
     gbind (lift (decode_side edge_record_decode (de_before entry))) (\<lambda>before.
     gbind (lift (decode_side edge_record_decode (de_after entry))) (\<lambda>after.
     case classify (before \<noteq> None) (after \<noteq> None) of
       None \<Rightarrow> None
     | Some kind \<Rightarrow> gbind (lift (map_err GGraphKey (decode_fwd (de_key entry)))) (\<lambda>key.
         Some (Inr (out @ [\<lparr>ec_kind = kind, ec_key = key, ec_before = before, ec_after = after\<rparr>])))))"

definition snapshot_diff :: "'s store_ops \<Rightarrow> 's \<Rightarrow> manifest \<Rightarrow> manifest \<Rightarrow> graph_diff run" where
  "snapshot_diff S s m to =
     gbind (lift (snapshot_root m (mf_nodes m))) (\<lambda>a.
     gbind (lift (snapshot_root to (mf_nodes to))) (\<lambda>b.
     gbind (for_diff S s a b diff_node []) (\<lambda>nodes.
     gbind (lift (snapshot_root m (mf_edges_fwd m))) (\<lambda>a.
     gbind (lift (snapshot_root to (mf_edges_fwd to))) (\<lambda>b.
     gbind (for_diff S s a b diff_edge []) (\<lambda>edges.
       Some (Inr \<lparr>gd_nodes = nodes, gd_edges = edges\<rparr>)))))))"

section \<open>What scans of a prefix collect\<close>

lemma prefix_scan_ok:
  assumes "intact S s kvs r"
  shows "gbind (lift (map_err GProlly (scan S s r (Included p) Unbounded))) (\<lambda>sc. prefix_loop S s p body sc acc) =
    gfold body (filter (\<lambda>kv. prefix p (fst kv)) kvs) acc"
proof -
  obtain sc where sc: "scan S s r (Included p) Unbounded = Inr sc"
    "\<forall>n. scan_take S s n sc = map Inr (take n (filter (\<lambda>kv. p \<le> fst kv) kvs))"
    using seek_ok [OF assms, of "Included p" Unbounded Forward] by (auto simp: scan_def)
  then show ?thesis
    using prefix_loop_ok [OF sc(2), of p body acc] prefix_from [OF intact_sorted [OF assms], of p] by simp
qed

lemma snapshot_root_ok: "map_root_to_root mr (mf_chunk_params m) = Inr r \<Longrightarrow> snapshot_root m mr = Inr r"
  by (simp add: snapshot_root_def)

text \<open>The pairs a body appends, one for each entry, inherit the order of the entries.\<close>

lemma gfold_collect:
  "(\<And>x acc. x \<in> set xs \<Longrightarrow> body x acc = Some (Inr (acc @ [out x]))) \<Longrightarrow> gfold body xs acc = Some (Inr (acc @ map out xs))"
  using gfold_outputs [of xs body "\<lambda>x. [out x]" acc] by simp

lemma sorted_map_filter: "sorted_wrt R (map f xs) \<Longrightarrow> sorted_wrt R (map f (filter P xs))"
  by (induction xs) auto

definition edge_of_pair :: "bytes \<times> bytes \<Rightarrow> edge_key \<times> edge_record" where
  "edge_of_pair kv = snd (edge_entry kv)"

text \<open>The edges of a list in the order of their keys in a map.\<close>

definition in_key_order :: "('k \<Rightarrow> graph_key_error + bytes) \<Rightarrow> 'k list \<Rightarrow> bool" where
  "in_key_order enc ks \<longleftrightarrow> sorted_wrt (\<lambda>a b. projr (enc a) < projr (enc b)) ks"

lemma in_key_order_distinct: "in_key_order enc ks \<Longrightarrow> distinct ks"
  unfolding in_key_order_def by (induction ks) auto

lemma in_key_order_map:
  assumes "sorted_wrt (<) (map f xs)" "\<And>x. x \<in> set xs \<Longrightarrow> enc (g x) = Inr (f x)"
  shows "in_key_order enc (map g xs)"
  using assms unfolding in_key_order_def by (induction xs) auto

lemma pairs_of_entries: "edge_of_pair ` set kvs = {(e, rec). \<exists>k. (k, e, rec) \<in> set (map edge_entry kvs)}"
proof -
  have "edge_of_pair ` set kvs = snd ` set (map edge_entry kvs)" by (simp add: edge_of_pair_def [abs_def] image_image)
  also have "snd ` A = {(e, rec). \<exists>k. (k, e, rec) \<in> A}" for A :: "(bytes \<times> edge_key \<times> edge_record) set" by force
  finally show ?thesis .
qed

lemma out_edges_ok:
  assumes "graph_at S addr s params m gs gn ge" "node_key_ok n" "edge_endpoint_prefix n = Inr p"
  shows "\<exists>es. out_edges S s m n = Some (Inr es) \<and> in_key_order encode_fwd (map fst es) \<and>
    set es = {(e, rec). (\<exists>k. edge_at ge k e rec) \<and> ek_src e = norm_node n}"
proof -
  have pm: "mf_chunk_params m = params" and em: "edge_map ge" and h: "holds_map S addr s params (mf_edges_fwd m) ge"
    using assms(1) by (simp_all add: graph_at_def)
  from h obtain r kvs where r: "map_root_to_root (mf_edges_fwd m) params = Inr r" "intact S s kvs r" "ge = map_of kvs"
    "sorted_wrt (<) (map fst kvs)" by (rule holds_map_opened)
  let ?in = "filter (\<lambda>kv. prefix p (fst kv)) kvs"
  have e: "\<exists>edge rec. decode_fwd (fst kv) = Inr edge \<and> edge_record_decode (snd kv) = Inr rec \<and> edge_of_pair kv = (edge, rec)"
    if "kv \<in> set kvs" for kv
    using edge_entry_at [OF em [unfolded r(3)] r(4) that] by (metis edge_of_pair_def snd_conv)
  have "gfold push_edge ?in [] = Some (Inr ([] @ map edge_of_pair ?in))"
    by (rule gfold_collect) (use e in \<open>force simp: push_edge_def\<close>)
  then have "out_edges S s m n = Some (Inr (map edge_of_pair ?in))"
    using prefix_scan_ok [OF r(2), of p "incident_edge S s False None" "[]"]
    by (simp add: out_edges_def incident_def assms(3) snapshot_root_ok r(1) pm incident_edge_def [abs_def])
  moreover have "in_key_order encode_fwd (map fst (map edge_of_pair ?in))"
    unfolding map_map by (rule in_key_order_map [OF sorted_map_filter [OF r(4)]]) (use e decoded_edge(2) in force)
  moreover have "set (map edge_of_pair ?in) = {(e, rec). (\<exists>k. edge_at ge k e rec) \<and> ek_src e = norm_node n}"
  proof -
    have "prefix p (fst kv) \<longleftrightarrow> ek_src (fst (edge_of_pair kv)) = norm_node n" if "kv \<in> set kvs" for kv
    proof -
      obtain edge rec where d: "decode_fwd (fst kv) = Inr edge" "edge_of_pair kv = (edge, rec)" using e [OF \<open>kv \<in> set kvs\<close>] by blast
      have "norm_node (ek_src edge) = ek_src edge" using decoded_edge(3) [OF d(1)] by (metis edge_key.select_convs(1) norm_edge_def)
      then show ?thesis using edge_prefix(1) [OF decoded_edge(1) [OF d(1)] assms(2) decoded_edge(2) [OF d(1)] assms(3)] d(2) by simp
    qed
    then have "set (map edge_of_pair ?in) = {er \<in> edge_of_pair ` set kvs. ek_src (fst er) = norm_node n}" by force
    also have "edge_of_pair ` set kvs = {(e, rec). \<exists>k. edge_at ge k e rec}"
      unfolding r(3) edge_at_entry [OF em [unfolded r(3)] r(4), symmetric] by (rule pairs_of_entries)
    finally show ?thesis by (auto simp: case_prod_unfold)
  qed
  ultimately show ?thesis by blast
qed

text \<open>An entry of the reverse map names an edge of the forward map.\<close>

lemma reverse_entry:
  assumes "edge_map ge"
  shows "derived rev_entry ge x = Some v \<longleftrightarrow> v = [] \<and> (\<exists>k edge rec. edge_at ge k edge rec \<and> encode_rev edge = Inr x)"
proof -
  have "(\<exists>k v. ge k = Some v \<and> rev_entry k v = Some x) \<longleftrightarrow> (\<exists>k edge rec. edge_at ge k edge rec \<and> encode_rev edge = Inr x)"
  proof -
    have "rev_entry k v = Some x \<longleftrightarrow> (\<exists>edge. decode_fwd k = Inr edge \<and> encode_rev edge = Inr x)" for k v
      by (auto simp: rev_entry_def rbind_Inr_iff split: sum.splits)
    moreover have "ge k = Some v \<Longrightarrow> \<exists>rec. edge_record_decode v = Inr rec" for k v
      using assms by (auto simp: edge_map_def stored_edge_bytes_def)
    ultimately show ?thesis unfolding edge_at_def by blast
  qed
  then show ?thesis by (auto simp: derived_def)
qed

definition edge_record_of :: "(bytes \<rightharpoonup> bytes) \<Rightarrow> edge_key \<Rightarrow> edge_record" where
  "edge_record_of ge e = projr (edge_record_decode (the (ge (projr (encode_fwd e)))))"

lemma edge_record_of: "edge_at ge k e rec \<Longrightarrow> edge_record_of ge e = rec \<and> encode_fwd e = Inr k"
  using decoded_edge(2) by (fastforce simp: edge_at_def edge_record_of_def)

lemma in_edges_ok:
  assumes "graph_at S addr s params m gs gn ge" "holds_map S addr s params (mf_edges_rev m) (derived rev_entry ge)"
    "node_key_ok n" "edge_endpoint_prefix n = Inr p"
  shows "\<exists>es. in_edges S s m n = Some (Inr es) \<and> in_key_order encode_rev (map fst es) \<and>
    set es = {(e, rec). (\<exists>k. edge_at ge k e rec) \<and> ek_dst e = norm_node n}"
proof -
  have pm: "mf_chunk_params m = params" and em: "edge_map ge" and h: "holds_map S addr s params (mf_edges_fwd m) ge"
    using assms(1) by (simp_all add: graph_at_def)
  from h obtain f fkvs where f: "map_root_to_root (mf_edges_fwd m) params = Inr f" "is_map S addr s f ge" by (rule holds_map_opened)
  from assms(2) obtain r kvs where r: "map_root_to_root (mf_edges_rev m) params = Inr r" "intact S s kvs r" "derived rev_entry ge = map_of kvs"
    "sorted_wrt (<) (map fst kvs)" by (rule holds_map_opened)
  have kv: "kv \<in> set kvs \<longleftrightarrow> snd kv = [] \<and> (\<exists>k edge rec. edge_at ge k edge rec \<and> encode_rev edge = Inr (fst kv))" for kv
    using reverse_entry [OF em, of "fst kv" "snd kv"] r(3,4) by (simp add: strict_sorted_iff)
  let ?in = "filter (\<lambda>kv. prefix p (fst kv)) kvs" and ?of = "\<lambda>kv. let e = projr (decode_rev (fst kv)) in (e, edge_record_of ge e)"
  have e: "\<exists>k edge rec. edge_at ge k edge rec \<and> decode_rev (fst kv) = Inr edge \<and> encode_rev edge = Inr (fst kv) \<and> ?of kv = (edge, rec)"
    if "kv \<in> set kvs" for kv
  proof -
    from that [unfolded kv] obtain k edge rec where k: "edge_at ge k edge rec" "encode_rev edge = Inr (fst kv)" by blast
    moreover from k have "decode_rev (fst kv) = Inr edge" using decode_rev_encode decoded_edge by (metis edge_at_def)
    ultimately show ?thesis using edge_record_of by fastforce
  qed
  have "gfold (incident_edge S s True (Some f)) ?in [] = Some (Inr ([] @ map ?of ?in))"
  proof (rule gfold_collect)
    fix kv acc assume "kv \<in> set ?in"
    then obtain k edge rec where k: "edge_at ge k edge rec" "decode_rev (fst kv) = Inr edge" "?of kv = (edge, rec)" using e [of kv] by auto
    then obtain v where "ge k = Some v" "edge_record_decode v = Inr rec" by (auto simp: edge_at_def)
    then show "incident_edge S s True (Some f) kv acc = Some (Inr (acc @ [?of kv]))"
      using k edge_record_of [OF k(1)] prolly_get_map [OF f(2), of k] by (simp add: incident_edge_def Let_def)
  qed
  then have "in_edges S s m n = Some (Inr (map ?of ?in))"
    using prefix_scan_ok [OF r(2), of p "incident_edge S s True (Some f)" "[]"]
    by (simp add: in_edges_def incident_def assms(4) snapshot_root_ok r(1) f(1) pm)
  moreover have "in_key_order encode_rev (map fst (map ?of ?in))"
    unfolding map_map by (rule in_key_order_map [OF sorted_map_filter [OF r(4)]]) (use e in \<open>force simp: Let_def\<close>)
  moreover have "set (map ?of ?in) = {(e, rec). (\<exists>k. edge_at ge k e rec) \<and> ek_dst e = norm_node n}"
  proof -
    have "prefix p x \<longleftrightarrow> ek_dst edge = norm_node n" if "edge_at ge k edge rec" "encode_rev edge = Inr x" for x k edge rec
    proof -
      have d: "decode_fwd k = Inr edge" using that(1) by (auto simp: edge_at_def)
      have "norm_node (ek_dst edge) = ek_dst edge" using decoded_edge(3) [OF d] by (metis edge_key.select_convs(3) norm_edge_def)
      then show ?thesis using edge_prefix(2) [OF decoded_edge(1) [OF d] assms(3) that(2) assms(4)] by simp
    qed
    note px = this
    show ?thesis
    proof (intro equalityI subsetI, goal_cases)
      case (1 er)
      then show ?case using e px by fastforce
    next
      case (2 er)
      then obtain k edge rec where k: "er = (edge, rec)" "edge_at ge k edge rec" "ek_dst edge = norm_node n" by auto
      then obtain x where x: "encode_rev edge = Inr x" using decoded_edge_encodes(1) by (auto simp: edge_at_def)
      then have "(x, []) \<in> set ?in" using kv [of "(x, [])"] px [OF k(2) x] k by auto
      moreover have "decode_rev x = Inr edge" using decode_rev_encode [of edge x] decoded_edge [of k edge] k(2) x by (auto simp: edge_at_def)
      then have "?of (x, []) = er" using edge_record_of [OF k(2)] k(1) by simp
      ultimately show ?case unfolding set_map by (intro image_eqI [of _ _ "(x, [])"]) simp_all
    qed
  qed
  ultimately show ?thesis by blast
qed

end
