(* ===== verification/Snapshot_Diff.thy ===== *)
theory Snapshot_Diff
  imports Snapshot
begin

text \<open>
  The difference of two graph versions against its specification: the changes of nodes and of edges are read
  by the same loop, which the locale \<open>change_reader\<close> states and which is interpreted on both.
\<close>

section \<open>Classified changes\<close>

definition decoded :: "(bytes \<Rightarrow> 'e + 'r) \<Rightarrow> bytes option \<Rightarrow> 'r option" where
  "decoded dec side = Option.bind side (\<lambda>bs. case dec bs of Inr rec \<Rightarrow> Some rec | Inl _ \<Rightarrow> None)"

definition readable :: "(bytes \<Rightarrow> 'e + 'r) \<Rightarrow> bytes option \<Rightarrow> bool" where
  "readable dec side \<longleftrightarrow> (\<forall>bs. side = Some bs \<longrightarrow> (\<exists>rec. dec bs = Inr rec))"

definition kind_of :: "'r option \<Rightarrow> 'r option \<Rightarrow> change_kind" where
  "kind_of before after = (if before = None then Added else if after = None then Removed else Modified)"

lemma decode_side_ok:
  "readable dec side \<Longrightarrow> decode_side dec side = Inr (decoded dec side)"
  "readable dec side \<Longrightarrow> decoded dec side = None \<longleftrightarrow> side = None"
  by (cases side; auto simp: readable_def decode_side_def decoded_def)+

lemma classify_kind: "before \<noteq> after \<Longrightarrow> classify (before \<noteq> None) (after \<noteq> None) = Some (kind_of before after)"
  by (cases before; cases after) (auto simp: kind_of_def)

lemma decoded_inject:
  assumes "readable dec a" "readable dec b" "\<And>x r. dec x = Inr r \<Longrightarrow> enc r = Inr x"
  shows "decoded dec a = decoded dec b \<longleftrightarrow> a = b"
proof (cases a; cases b)
  fix x y
  assume xy: "a = Some x" "b = Some y"
  then obtain r q where "dec x = Inr r" "dec y = Inr q" using assms(1,2) by (auto simp: readable_def)
  with xy show ?thesis using assms(3) [of x r] assms(3) [of y q] by (auto simp: decoded_def)
qed (use assms(1,2) in \<open>auto simp: readable_def decoded_def\<close>)

text \<open>One change for each key whose record differs between two maps, and nothing else.\<close>

definition changes_between ::
  "(bytes \<Rightarrow> graph_key_error + 'k) \<Rightarrow> (bytes \<Rightarrow> record_decode_error + 'r) \<Rightarrow> (change_kind \<Rightarrow> 'k \<Rightarrow> 'r option \<Rightarrow> 'r option \<Rightarrow> 'c) \<Rightarrow>
     (bytes \<rightharpoonup> bytes) \<Rightarrow> (bytes \<rightharpoonup> bytes) \<Rightarrow> 'c set" where
  "changes_between key_dec dec change m m' =
     {change (kind_of before after) key before after | k key before after. key_dec k = Inr key \<and>
        before = decoded dec (m k) \<and> after = decoded dec (m' k) \<and> before \<noteq> after}"

locale change_reader =
  fixes body :: "diff_entry \<Rightarrow> 'c list \<Rightarrow> 'c list run"
    and key_dec :: "bytes \<Rightarrow> graph_key_error + 'k"
    and key_enc :: "'k \<Rightarrow> graph_key_error + bytes"
    and dec :: "bytes \<Rightarrow> record_decode_error + 'r"
    and enc :: "'r \<Rightarrow> record_encode_error + bytes"
    and change :: "change_kind \<Rightarrow> 'k \<Rightarrow> 'r option \<Rightarrow> 'r option \<Rightarrow> 'c"
    and change_key :: "'c \<Rightarrow> 'k"
  assumes body: "body entry out =
      gbind (lift (decode_side dec (de_before entry))) (\<lambda>before.
      gbind (lift (decode_side dec (de_after entry))) (\<lambda>after.
      case classify (before \<noteq> None) (after \<noteq> None) of
        None \<Rightarrow> None
      | Some kind \<Rightarrow> gbind (lift (map_err GGraphKey (key_dec (de_key entry)))) (\<lambda>key.
          Some (Inr (out @ [change kind key before after])))))"
    and change_key: "change_key (change kind key before after) = key"
    and key_strict: "key_dec x = Inr key \<Longrightarrow> key_enc key = Inr x"
    and rec_strict: "dec x = Inr rec \<Longrightarrow> enc rec = Inr x"
begin

definition change_of :: "diff_entry \<Rightarrow> 'c" where
  "change_of e = (let before = decoded dec (de_before e); after = decoded dec (de_after e)
     in change (kind_of before after) (projr (key_dec (de_key e))) before after)"

lemma changes_ok:
  assumes "intact S s kvs a" "intact S s kvs' b"
    and rd: "\<And>k. readable dec (map_of kvs k)" "\<And>k. readable dec (map_of kvs' k)"
    and kd: "\<And>k. k \<in> dom (map_of kvs) \<union> dom (map_of kvs') \<Longrightarrow> \<exists>key. key_dec k = Inr key"
  shows "\<exists>cs. for_diff S s a b body [] = Some (Inr cs) \<and> in_key_order key_enc (map change_key cs) \<and>
    set cs = changes_between key_dec dec change (map_of kvs) (map_of kvs') \<and> (cs = [] \<longleftrightarrow> map_of kvs = map_of kvs')"
proof -
  note so = assms(1,2) [THEN intact_sorted]
  let ?es = "diff_list kvs kvs'"
  note mem = diff_list_iff [OF so]
  have inj: "decoded dec (map_of kvs k) = decoded dec (map_of kvs' k) \<longleftrightarrow> map_of kvs k = map_of kvs' k" for k
    by (rule decoded_inject [OF rd rec_strict])
  have at: "\<exists>key. key_dec (de_key e) = Inr key \<and> body e out = Some (Inr (out @ [change_of e])) \<and> change_key (change_of e) = key"
    if "e \<in> set ?es" for e out
  proof -
    from that [unfolded mem] have e: "de_before e = map_of kvs (de_key e)" "de_after e = map_of kvs' (de_key e)" "de_before e \<noteq> de_after e"
      by blast+
    then have "de_key e \<in> dom (map_of kvs) \<union> dom (map_of kvs')" by (cases "de_before e"; cases "de_after e") auto
    then obtain key where "key_dec (de_key e) = Inr key" using kd by blast
    moreover have "readable dec (de_before e)" "readable dec (de_after e)" using e rd by simp_all
    moreover have "decoded dec (de_before e) \<noteq> decoded dec (de_after e)" using e inj by simp
    ultimately show ?thesis
      using classify_kind [of "decoded dec (de_before e)" "decoded dec (de_after e)"]
      by (simp add: body decode_side_ok(1) change_of_def change_key Let_def)
  qed
  have "gfold body ?es [] = Some (Inr ([] @ map change_of ?es))" by (rule gfold_collect) (use at in blast)
  moreover have "in_key_order key_enc (map change_key (map change_of ?es))"
    unfolding map_map by (rule in_key_order_map [OF diff_list_sorted [OF so]]) (use at key_strict in fastforce)
  moreover have "change_of ` set ?es = changes_between key_dec dec change (map_of kvs) (map_of kvs')"
  proof (intro equalityI subsetI)
    fix c assume "c \<in> change_of ` set ?es"
    then obtain e where e: "e \<in> set ?es" "c = change_of e" by blast
    then obtain key where "key_dec (de_key e) = Inr key" using at by blast
    then show "c \<in> changes_between key_dec dec change (map_of kvs) (map_of kvs')"
      using e inj [of "de_key e"] by (auto simp: mem changes_between_def change_of_def Let_def intro!: exI [of _ "de_key e"])
  next
    fix c assume "c \<in> changes_between key_dec dec change (map_of kvs) (map_of kvs')"
    then obtain k key where k: "key_dec k = Inr key" "decoded dec (map_of kvs k) \<noteq> decoded dec (map_of kvs' k)"
      "c = change (kind_of (decoded dec (map_of kvs k)) (decoded dec (map_of kvs' k))) key (decoded dec (map_of kvs k)) (decoded dec (map_of kvs' k))"
      by (auto simp: changes_between_def)
    let ?e = "\<lparr>de_key = k, de_before = map_of kvs k, de_after = map_of kvs' k\<rparr>"
    have "?e \<in> set ?es" using k(2) inj [of k] by (auto simp: mem)
    moreover have "c = change_of ?e" using k(1,3) by (simp add: change_of_def Let_def)
    ultimately show "c \<in> change_of ` set ?es" by blast
  qed
  moreover have "?es = [] \<longleftrightarrow> map_of kvs = map_of kvs'"
  proof -
    have "?es = [] \<longleftrightarrow> (\<forall>e. e \<notin> set ?es)" by (cases ?es) auto
    also have "\<dots> \<longleftrightarrow> (\<forall>k. map_of kvs k = map_of kvs' k)"
      unfolding mem by (metis diff_entry.select_convs(1-3))
    finally show ?thesis by (simp add: fun_eq_iff)
  qed
  ultimately show ?thesis using for_diff_ok [OF assms(1,2), of body "[]"]
    by (intro exI [of _ "map change_of ?es"]) auto
qed

end

definition node_change_at :: "change_kind \<Rightarrow> node_key \<Rightarrow> node_record option \<Rightarrow> node_record option \<Rightarrow> node_change_record" where
  "node_change_at kind key before after = \<lparr>nc_kind = kind, nc_key = key, nc_before = before, nc_after = after\<rparr>"

definition edge_change_at :: "change_kind \<Rightarrow> edge_key \<Rightarrow> edge_record option \<Rightarrow> edge_record option \<Rightarrow> edge_change_record" where
  "edge_change_at kind key before after = \<lparr>ec_kind = kind, ec_key = key, ec_before = before, ec_after = after\<rparr>"

interpretation node_reader: change_reader diff_node node_key_decode node_key_encode node_record_decode node_record_encode node_change_at nc_key
  by unfold_locales (unfold diff_node_def node_change_at_def, simp_all add: decoded_node(2) node_record_strict(1))

interpretation edge_reader: change_reader diff_edge decode_fwd encode_fwd edge_record_decode edge_record_encode edge_change_at ec_key
  by unfold_locales (unfold diff_edge_def edge_change_at_def, simp_all add: decoded_edge(2) edge_record_strict)

lemma snapshot_diff_ok:
  assumes "graph_at S addr s params m gs gn ge" "graph_at S addr s params' m' gs' gn' ge'"
  shows "\<exists>d. snapshot_diff S s m m' = Some (Inr d) \<and>
    in_key_order node_key_encode (map nc_key (gd_nodes d)) \<and> in_key_order encode_fwd (map ec_key (gd_edges d)) \<and>
    set (gd_nodes d) = changes_between node_key_decode node_record_decode node_change_at gn gn' \<and>
    set (gd_edges d) = changes_between decode_fwd edge_record_decode edge_change_at ge ge' \<and>
    (graph_diff_is_empty d \<longleftrightarrow> gn = gn' \<and> ge = ge')"
proof -
  note at = assms [unfolded graph_at_def]
  obtain rn kn where n: "map_root_to_root (mf_nodes m) params = Inr rn" "intact S s kn rn" "gn = map_of kn"
    using at by (blast elim: holds_map_opened)
  obtain rn' kn' where n': "map_root_to_root (mf_nodes m') params' = Inr rn'" "intact S s kn' rn'" "gn' = map_of kn'"
    using at by (blast elim: holds_map_opened)
  obtain re ke where e: "map_root_to_root (mf_edges_fwd m) params = Inr re" "intact S s ke re" "ge = map_of ke"
    using at by (blast elim: holds_map_opened)
  obtain re' ke' where e': "map_root_to_root (mf_edges_fwd m') params' = Inr re'" "intact S s ke' re'" "ge' = map_of ke'"
    using at by (blast elim: holds_map_opened)
  have nm: "node_map gn" "node_map gn'" and em: "edge_map ge" "edge_map ge'" using at by simp_all
  obtain ns where ns: "for_diff S s rn rn' diff_node [] = Some (Inr ns)" "in_key_order node_key_encode (map nc_key ns)"
    "set ns = changes_between node_key_decode node_record_decode node_change_at gn gn'" "ns = [] \<longleftrightarrow> gn = gn'"
    using node_reader.changes_ok [OF n(2) n'(2)] nm unfolding n(3) n'(3) node_map_def readable_def by blast
  obtain es where es: "for_diff S s re re' diff_edge [] = Some (Inr es)" "in_key_order encode_fwd (map ec_key es)"
    "set es = changes_between decode_fwd edge_record_decode edge_change_at ge ge'" "es = [] \<longleftrightarrow> ge = ge'"
    using edge_reader.changes_ok [OF e(2) e'(2)] em unfolding e(3) e'(3) edge_map_def readable_def stored_edge_bytes_def by blast
  have "mf_chunk_params m = params" "mf_chunk_params m' = params'" using at by simp_all
  then have "snapshot_diff S s m m' = Some (Inr \<lparr>gd_nodes = ns, gd_edges = es\<rparr>)"
    using ns(1) es(1) by (simp add: snapshot_diff_def snapshot_root_ok n(1) n'(1) e(1) e'(1))
  then show ?thesis using ns es by (intro exI [of _ "\<lparr>gd_nodes = ns, gd_edges = es\<rparr>"]) (simp add: graph_diff_is_empty_def)
qed

end
