(* ===== verification/Snapshot_Reads.thy ===== *)
theory Snapshot_Reads
  imports Snapshot_Diff
begin

text \<open>
  Seeks of declared indexes, and what the reads of a graph version return: incident edges, differences and
  index seeks over the graph that a manifest stands for.
\<close>

section \<open>Index reads\<close>

text \<open>The sign of a zero does not reach a key.\<close>

lemma write_norm:
  "write_element out (norm_value v) d = write_element out v d"
  "write_elements out (map norm_value vs) d = write_elements out vs d"
proof (induction out v d and out vs d rule: write_element_write_elements.induct)
  case (1 out v depth)
  have "float_key_bits (normalise_zero x) = float_key_bits x" "f64_is_nan (normalise_zero x) = f64_is_nan x" for x
    using normalise_zero_props [of x] by (auto simp: float_key_bits_eq normalise_zero_def)
  then show ?case using 1 by (cases v) (auto simp: write_element.simps)
qed (auto simp: rbind_def split: sum.splits)

lemma encodable_norm: "norm_value v = norm_value w \<Longrightarrow> encodable v \<longleftrightarrow> encodable w"
  unfolding encodable_def by (metis write_norm(1))

definition bears :: "bytes \<Rightarrow> node_key \<Rightarrow> node_record \<Rightarrow> bool" where
  "bears l key rec \<longleftrightarrow> nk_label key = l \<or> l \<in> set (nr_labels rec)"

definition index_entry_at :: "index_def \<Rightarrow> mvalue list \<Rightarrow> node_key \<Rightarrow> index_entry" where
  "index_entry_at def vs key = \<lparr>ie_label = id_label def, ie_properties = id_properties def, ie_values = vs, ie_node = key\<rparr>"

lemma index_entry_key_Some:
  assumes "index_def_ok def"
  shows "index_entry_key key (Some rec) def lk = Some (Some x) \<longleftrightarrow> bears (id_label def) key rec \<and>
    (\<exists>ws. indexed_values key rec lk (id_properties def) = Some ws \<and> index_entry_encode (index_entry_at def ws key) = Inr x)"
proof -
  have new: "index_entry_new (id_label def) (id_properties def) ws key = Inr (index_entry_at def ws key)"
    if "indexed_values key rec lk (id_properties def) = Some ws" for ws
    using indexed_values_length [OF that] assms
    by (auto simp: index_entry_new_Inr index_entry_at_def index_def_ok_def index_def_new_def split: if_splits)
  show ?thesis
    by (auto simp: index_entry_key_def Let_def bears_def expect_def new
      split: option.splits sum.splits if_splits graph_key_error.splits key_encode_error.splits)
qed

lemma index_entries_of:
  assumes "index_def_ok def" "node_map gn"
  shows "derived (index_of def lk) gn x = Some v \<longleftrightarrow> v = [] \<and> (\<exists>n key rec ws. node_at gn n key rec \<and> bears (id_label def) key rec \<and>
    indexed_values key rec lk (id_properties def) = Some ws \<and> index_entry_encode (index_entry_at def ws key) = Inr x)"
proof -
  have "(\<exists>k v. gn k = Some v \<and> index_of def lk k v = Some x) \<longleftrightarrow>
      (\<exists>n key rec. node_at gn n key rec \<and> index_entry_key key (Some rec) def lk = Some (Some x))"
  proof -
    have "index_of def lk k v = Some x \<longleftrightarrow> (\<exists>key rec. node_key_decode k = Inr key \<and> node_record_decode v = Inr rec \<and>
        index_entry_key key (Some rec) def lk = Some (Some x))" if "gn k = Some v" for k v
    proof -
      from that assms(2) obtain key rec where "length v < 2 ^ 63" "node_key_decode k = Inr key" "node_record_decode v = Inr rec"
        unfolding node_map_def by blast
      then show ?thesis using assms(1) by (auto simp: index_of_def bind_eq_Some_conv)
    qed
    then show ?thesis unfolding node_at_def by blast
  qed
  then show ?thesis unfolding index_entry_key_Some [OF assms(1)] by (auto simp: derived_def)
qed

lemma index_entry_at_ok:
  assumes "index_def_ok def" "node_at gn n key rec" "node_map gn" "indexed_values key rec lk (id_properties def) = Some ws"
  shows "index_entry_ok (index_entry_at def ws key)" "list_all wf_value ws"
proof -
  from assms(2,3) obtain v where v: "node_key_decode n = Inr key" "node_record_decode v = Inr rec" "length v < 2 ^ 63"
    by (auto simp: node_at_def node_map_def)
  show ws: "list_all wf_value ws"
    using indexed_values_wf [OF assms(4) decoded_node(1) [OF v(1)] node_record_decode_stored(1) [OF v(2,3)]] .
  show "index_entry_ok (index_entry_at def ws key)"
    using ws assms(1) decoded_node(1) [OF v(1)] indexed_values_length [OF assms(4)]
    by (auto simp: index_entry_ok_def index_entry_at_def index_def_ok_def index_def_new_def list_all_iff split: if_splits)
qed

lemma capped_loop_ok:
  assumes "\<forall>n. scan_take S s n sc = map Inr (take n kvs)" "\<And>kv. kv \<in> set (takeWhile (inside \<circ> fst) kvs) \<Longrightarrow>
    \<exists>ie. index_entry_decode (fst kv) = Inr ie" "length out \<le> cap"
  shows "capped_loop S s inside cap sc out = Some (Inr (take (Suc cap)
    (out @ map (\<lambda>kv. ie_node (projr (index_entry_decode (fst kv)))) (takeWhile (inside \<circ> fst) kvs))))"
  using assms
proof (induction kvs arbitrary: sc out)
  case Nil
  have "scan_take S s (Suc 0) sc = []" using Nil(1) [rule_format, of "Suc 0"] by (simp only: list.map take_Nil)
  then obtain sc' where "scan_next S s sc = (None, sc')" by (auto split: prod.splits option.splits)
  then show ?case using Nil(3) by (subst capped_loop.simps) simp
next
  case (Cons kv kvs)
  have "scan_take S s (Suc 0) sc = [Inr kv]"
    using Cons.prems(1) [rule_format, of "Suc 0"] by (simp only: list.map take_Suc_Cons take_0)
  then obtain sc' where n: "scan_next S s sc = (Some (Inr kv), sc')" by (auto split: prod.splits option.splits)
  have t: "\<forall>m. scan_take S s m sc' = map Inr (take m kvs)"
    using Cons.prems(1) n by (metis (no_types, lifting) list.simps(9) prod.simps(2) scan_take.simps(2) option.simps(5) take_Suc_Cons list.inject)
  show ?case
  proof (cases "inside (fst kv)")
    case False
    then show ?thesis using n Cons.prems(3) by (subst capped_loop.simps) simp
  next
    case True
    then obtain ie where ie: "index_entry_decode (fst kv) = Inr ie" using Cons.prems(2) [of kv] by auto
    have "capped_loop S s inside cap sc' (out @ [ie_node ie]) = Some (Inr (take (Suc cap)
        ((out @ [ie_node ie]) @ map (\<lambda>kv. ie_node (projr (index_entry_decode (fst kv)))) (takeWhile (inside \<circ> fst) kvs))))"
      if "length out < cap"
      by (rule Cons.IH [OF t]) (use Cons.prems(2) True that in auto)
    moreover have "cap = length out" if "\<not> length out < cap" using that Cons.prems(3) by simp
    ultimately show ?thesis using n ie True by (subst capped_loop.simps) (auto simp: Let_def)
  qed
qed

text \<open>The nodes an index holds under given values.\<close>

definition nodes_with :: "index_def \<Rightarrow> label_keys \<Rightarrow> (bytes \<rightharpoonup> bytes) \<Rightarrow> mvalue list \<Rightarrow> node_key set" where
  "nodes_with def lk gn vs = {key. \<exists>n rec ws. node_at gn n key rec \<and> bears (id_label def) key rec \<and>
     indexed_values key rec lk (id_properties def) = Some ws \<and> map norm_value ws = map norm_value vs}"

lemma index_entry_encodes:
  assumes "index_value_prefix (id_label def) (id_properties def) vs = Inr p" "map norm_value ws = map norm_value vs"
    "node_key_decode n = Inr key"
  shows "\<exists>x. index_entry_encode (index_entry_at def ws key) = Inr x"
proof -
  have "norm_value (VList ws) = norm_value (VList vs)" using assms(2) by simp
  moreover have "list_all encodable [VString (id_label def), VList (map VString (id_properties def)), VList vs]"
    using assms(1) encode_key_concat by (fastforce simp: index_value_prefix_def map_err_Inr_iff)
  moreover have "encodable (node_key_to_value key)"
    using decoded_node(2) [OF assms(3)] encode_key_concat [of "[node_key_to_value key]" n]
    by (simp add: node_key_encode_def map_err_Inr_iff)
  ultimately have "list_all encodable (index_tuple (index_entry_at def ws key))"
    using encodable_norm [of "VList ws" "VList vs"] by (simp add: index_tuple_def index_entry_at_def)
  then show ?thesis using encode_key_total by (fastforce simp: index_entry_encode_def)
qed

lemma index_entry_decode_encode: "index_entry_ok ie \<Longrightarrow> index_entry_encode ie = Inr x \<Longrightarrow> index_entry_decode x = Inr (norm_index ie)"
  unfolding index_entry_decode_def index_entry_encode_def
  by (rule index_layout.roundtrip) (simp_all add: map_err_Inr_iff)

lemma index_scan_ok:
  assumes "node_map gn" "index_def_ok def" "map_of (mf_indexes m) name = Some mr"
    "holds_map S addr s (mf_chunk_params m) mr (derived (index_of def lk) gn)"
    "list_all wf_value vs" "index_value_prefix (id_label def) (id_properties def) vs = Inr p"
  shows "\<exists>ns. index_scan_capped S s m name p cap = Some (Inr (Some (take (Suc cap) ns))) \<and> distinct ns \<and> set ns = nodes_with def lk gn vs"
proof -
  from assms(4) obtain r kvs where r: "map_root_to_root mr (mf_chunk_params m) = Inr r" "intact S s kvs r"
    "derived (index_of def lk) gn = map_of kvs" "sorted_wrt (<) (map fst kvs)" by (rule holds_map_opened)
  have kv: "(x, v) \<in> set kvs \<longleftrightarrow> v = [] \<and> (\<exists>n key rec ws. node_at gn n key rec \<and> bears (id_label def) key rec \<and>
      indexed_values key rec lk (id_properties def) = Some ws \<and> index_entry_encode (index_entry_at def ws key) = Inr x)" for x v
    using index_entries_of [OF assms(2,1), of lk x v] r(3,4) by (simp add: strict_sorted_iff)
  let ?in = "filter (\<lambda>kv. prefix p (fst kv)) kvs" and ?node = "\<lambda>kv. ie_node (projr (index_entry_decode (fst kv)))"
  have entry: "index_entry_decode x = Inr (norm_index (index_entry_at def ws key))" "?node (x, v) = key"
      "prefix p x \<longleftrightarrow> map norm_value ws = map norm_value vs"
    if "node_at gn n key rec" "indexed_values key rec lk (id_properties def) = Some ws" "index_entry_encode (index_entry_at def ws key) = Inr x"
    for n key rec ws x and v :: bytes
  proof -
    note ok = index_entry_at_ok [OF assms(2) that(1) assms(1) that(2)]
    show d: "index_entry_decode x = Inr (norm_index (index_entry_at def ws key))" by (rule index_entry_decode_encode [OF ok(1) that(3)])
    have "norm_node key = key" using that(1) decoded_node(3) by (auto simp: node_at_def)
    then show "?node (x, v) = key" by (simp add: d norm_index_def index_entry_at_def)
    show "prefix p x \<longleftrightarrow> map norm_value ws = map norm_value vs"
      using index_prefixes(2) [OF ok(1) _ _ that(3) assms(5,6)] assms(2) by (simp add: index_def_ok_def index_entry_at_def)
  qed
  obtain sc where sc: "scan S s r (Included p) Unbounded = Inr sc"
    "\<forall>n. scan_take S s n sc = map Inr (take n (filter (\<lambda>kv. p \<le> fst kv) kvs))"
    using seek_ok [OF r(2), of "Included p" Unbounded Forward] by (auto simp: scan_def)
  have tw: "takeWhile (prefix p \<circ> fst) (filter (\<lambda>kv. p \<le> fst kv) kvs) = ?in"
    using prefix_from [OF r(4), of p] by (simp add: comp_def)
  have "capped_loop S s (prefix p) cap sc [] = Some (Inr (take (Suc cap) ([] @ map ?node ?in)))"
    unfolding tw [symmetric] by (rule capped_loop_ok [OF sc(2)]) (unfold tw, use kv entry(1) in \<open>fastforce+\<close>)
  then have "index_scan_capped S s m name p cap = Some (Inr (Some (take (Suc cap) (map ?node ?in))))"
    by (simp add: index_scan_capped_def assms(3) snapshot_root_ok r(1) sc(1))
  moreover have "set (map ?node ?in) = nodes_with def lk gn vs"
  proof (intro equalityI subsetI)
    fix key assume "key \<in> set (map ?node ?in)"
    then show "key \<in> nodes_with def lk gn vs" using kv entry(2,3) unfolding nodes_with_def by fastforce
  next
    fix key assume "key \<in> nodes_with def lk gn vs"
    then obtain n rec ws where k: "node_at gn n key rec" "bears (id_label def) key rec"
      "indexed_values key rec lk (id_properties def) = Some ws" "map norm_value ws = map norm_value vs" by (auto simp: nodes_with_def)
    then obtain x where x: "index_entry_encode (index_entry_at def ws key) = Inr x"
      using index_entry_encodes [OF assms(6) k(4)] by (auto simp: node_at_def)
    then have "(x, []) \<in> set ?in" using kv entry(3) [OF k(1,3) x] k by auto
    moreover have "?node (x, [] :: bytes) = key" using entry(2) [OF k(1,3) x] .
    ultimately show "key \<in> set (map ?node ?in)" unfolding set_map by (intro image_eqI [of _ _ "(x, [])"]) simp_all
  qed
  moreover have "distinct (map ?node ?in)"
  proof -
    have "fst kv = fst kv'" if "kv \<in> set kvs" "kv' \<in> set kvs" "?node kv = ?node kv'" for kv kv'
    proof -
      obtain n key rec ws where k: "node_at gn n key rec" "indexed_values key rec lk (id_properties def) = Some ws"
        "index_entry_encode (index_entry_at def ws key) = Inr (fst kv)" using \<open>kv \<in> set kvs\<close> kv [of "fst kv" "snd kv"] by auto
      obtain n' key' rec' ws' where k': "node_at gn n' key' rec'" "indexed_values key' rec' lk (id_properties def) = Some ws'"
        "index_entry_encode (index_entry_at def ws' key') = Inr (fst kv')" using \<open>kv' \<in> set kvs\<close> kv [of "fst kv'" "snd kv'"] by auto
      have "key = key'" using that(3) entry(2) [OF k, of "snd kv"] entry(2) [OF k', of "snd kv'"] by simp
      moreover have "node_key_encode key = Inr n" "node_key_encode key' = Inr n'"
        using k(1) k'(1) decoded_node(2) unfolding node_at_def by blast+
      ultimately have "n = n'" by simp
      then have "rec = rec'" using k(1) k'(1) by (auto simp: node_at_def)
      with \<open>key = key'\<close> show ?thesis using k k' by simp
    qed
    moreover have "distinct (map fst ?in)" using r(4) by (simp add: strict_sorted_iff distinct_map_filter)
    ultimately show ?thesis by (auto simp: distinct_map inj_on_def) (metis fst_conv prod.inject)
  qed
  ultimately show ?thesis by blast
qed

section \<open>A graph with an edge and an index\<close>

definition loop_node :: node_key where "loop_node = \<lparr>nk_label = [0x50], nk_key = [VInt 7]\<rparr>"

definition loop_edge :: edge_key where
  "loop_edge = \<lparr>ek_src = loop_node, ek_rtype = [0x52], ek_dst = loop_node, ek_disc = VNull\<rparr>"

definition loop_key :: bytes where
  "loop_key = sample_key @ [6, 0x52, 0, 0, 0, 0, 0, 0, 0, 0xf8] @ sample_key @ [1]"

definition k_index :: index_def where "k_index = \<lparr>id_label = [0x50], id_properties = [[0x6b]]\<rparr>"

definition k_prefix :: bytes where
  "k_prefix = [6, 0x50, 0, 0, 0, 0, 0, 0, 0, 0xf8, 12, 6, 0x6b, 0, 0, 0, 0, 0, 0, 0, 0xf8, 0, 12, 4, 0x80, 0, 0, 0, 0, 0, 0, 1, 0]"

definition fwd_leaf :: bytes where "fwd_leaf = [0, 0, 0, 0, 1, 0, 0, 0, 53] @ loop_key @ [0, 0, 0, 1, 0xa0]"
definition rev_leaf :: bytes where "rev_leaf = [0, 0, 0, 0, 1, 0, 0, 0, 53] @ loop_key @ [0, 0, 0, 0]"
definition index_leaf :: bytes where "index_leaf = [0, 0, 0, 0, 1, 0, 0, 0, 54] @ k_prefix @ sample_key @ [0, 0, 0, 0]"

definition leaf_root :: "bytes \<Rightarrow> root" where
  "leaf_root leaf = \<lparr>root_hash = mem_digest leaf, root_height = 1, root_params = tiny\<rparr>"

definition loop_objs :: "(hash \<times> bytes) list" where
  "loop_objs = (mem_digest index_leaf, index_leaf) # (mem_digest rev_leaf, rev_leaf) # (mem_digest fwd_leaf, fwd_leaf) # sample_objs"

definition loop_manifest :: manifest where
  "loop_manifest = sample_manifest\<lparr>mf_edges_fwd := map_root_from_root (leaf_root fwd_leaf),
     mf_edges_rev := map_root_from_root (leaf_root rev_leaf), mf_indexes := [([0x69], map_root_from_root (leaf_root index_leaf))]\<rparr>"

lemmas loop_defs = loop_key_def k_prefix_def fwd_leaf_def rev_leaf_def index_leaf_def leaf_root_def loop_objs_def sample_defs

lemma loop_loaded:
  "bulk_load (mem_store 1000) sample_objs tiny [(loop_key, [0xa0])] = Inr (leaf_root fwd_leaf, (mem_digest fwd_leaf, fwd_leaf) # sample_objs)"
  "bulk_load (mem_store 1000) ((mem_digest fwd_leaf, fwd_leaf) # sample_objs) tiny [(loop_key, [])] =
     Inr (leaf_root rev_leaf, (mem_digest rev_leaf, rev_leaf) # (mem_digest fwd_leaf, fwd_leaf) # sample_objs)"
  "bulk_load (mem_store 1000) ((mem_digest rev_leaf, rev_leaf) # (mem_digest fwd_leaf, fwd_leaf) # sample_objs) tiny [(k_prefix @ sample_key, [])] =
     Inr (leaf_root index_leaf, loop_objs)"
  by (simp_all add: tree_eval loop_defs norm_def)

lemma loaded_map:
  assumes "bulk_load (mem_store 1000) s tiny [(k, v)] = Inr (r, s')"
  shows "grows (mem_store 1000) s s'" "is_map (mem_store 1000) mem_digest s' r [k \<mapsto> v]"
  using bulk_load_map [OF mem_chunk_store [of 1000], of "[(k, v)]" s tiny] assms by (simp_all add: fits_def)

lemma loop_maps:
  "holds_map (mem_store 1000) mem_digest loop_objs tiny (map_root_from_root empty_root) Map.empty"
  "holds_map (mem_store 1000) mem_digest loop_objs tiny (map_root_from_root node_root) [sample_key \<mapsto> sample_node]"
  "holds_map (mem_store 1000) mem_digest loop_objs tiny (map_root_from_root (leaf_root fwd_leaf)) [loop_key \<mapsto> [0xa0]]"
  "holds_map (mem_store 1000) mem_digest loop_objs tiny (map_root_from_root (leaf_root rev_leaf)) [loop_key \<mapsto> []]"
  "holds_map (mem_store 1000) mem_digest loop_objs tiny (map_root_from_root (leaf_root index_leaf)) [k_prefix @ sample_key \<mapsto> []]"
proof -
  note l = loop_loaded [THEN loaded_map(1)] and m = loop_loaded [THEN loaded_map(2)]
  note g = grows_trans [OF l(1) grows_trans [OF l(2,3)]] grows_trans [OF l(2,3)] l(3)
  show "holds_map (mem_store 1000) mem_digest loop_objs tiny (map_root_from_root empty_root) Map.empty"
    using holds_map_from_root [OF is_map_grows [OF sample_maps(1) g(1)]] by (simp add: empty_root_def)
  show "holds_map (mem_store 1000) mem_digest loop_objs tiny (map_root_from_root node_root) [sample_key \<mapsto> sample_node]"
    using holds_map_from_root [OF is_map_grows [OF sample_maps(2) g(1)]] by (simp add: node_root_def)
  show "holds_map (mem_store 1000) mem_digest loop_objs tiny (map_root_from_root (leaf_root fwd_leaf)) [loop_key \<mapsto> [0xa0]]"
    using holds_map_from_root [OF is_map_grows [OF m(1) g(2)]] by (simp add: leaf_root_def)
  show "holds_map (mem_store 1000) mem_digest loop_objs tiny (map_root_from_root (leaf_root rev_leaf)) [loop_key \<mapsto> []]"
    using holds_map_from_root [OF is_map_grows [OF m(2) g(3)]] by (simp add: leaf_root_def)
  show "holds_map (mem_store 1000) mem_digest loop_objs tiny (map_root_from_root (leaf_root index_leaf)) [k_prefix @ sample_key \<mapsto> []]"
    using holds_map_from_root [OF m(3)] by (simp add: leaf_root_def)
qed

lemma loop_key_eq: "encode_fwd loop_edge = Inr loop_key" "encode_rev loop_edge = Inr loop_key" "edge_endpoint_prefix loop_node = Inr sample_key"
  by (simp_all add: loop_edge_def loop_node_def encode_fwd_def encode_rev_def encode_tuple_def edge_tuple_def node_key_to_value_def loop_key_def
    sample_key_def edge_endpoint_prefix_def node_key_encode_def eval_simps)

lemma loop_ok: "node_key_ok loop_node" "norm_node loop_node = loop_node" "edge_key_ok loop_edge" "norm_edge loop_edge = loop_edge"
  by (simp_all add: loop_node_def loop_edge_def node_key_ok_def norm_node_def edge_key_ok_def norm_edge_def scalar_def check_scalar_def)

lemma loop_decodes: "decode_fwd loop_key = Inr loop_edge" "edge_record_decode [0xa0] = Inr \<lparr>er_properties = []\<rparr>"
proof -
  have "encode_key (edge_tuple loop_edge (ek_src loop_edge) (ek_dst loop_edge)) = Inr loop_key"
    using loop_key_eq(1) by (simp add: encode_fwd_def encode_tuple_def map_err_Inr_iff)
  from fwd_layout.roundtrip [OF loop_ok(3) this] show "decode_fwd loop_key = Inr loop_edge" by (simp add: decode_edge_of loop_ok)
  have "write_properties [] [] = Inr [0xa0]" by (simp add: write_properties_def write_text_map_def sort_by_def eval_simps)
  then show "edge_record_decode [0xa0] = Inr \<lparr>er_properties = []\<rparr>"
    using read_properties_write [of "[]" "[0xa0]" "[]"] by (simp add: edge_record_decode_def properties_ok_def bt_ok_def canon_properties_def)
qed

lemma loop_edge_at: "edge_at [loop_key \<mapsto> [0xa0]] k e rec \<longleftrightarrow> k = loop_key \<and> e = loop_edge \<and> rec = \<lparr>er_properties = []\<rparr>"
  by (auto simp: edge_at_def loop_decodes)

lemma loop_node_at: "node_at [sample_key \<mapsto> sample_node] n key rec \<longleftrightarrow>
    n = sample_key \<and> key = loop_node \<and> rec = \<lparr>nr_labels = [], nr_properties = [([0x6b], VInt 1)]\<rparr>"
  by (auto simp: node_at_def sample_decodes loop_node_def)

lemma loop_graph:
  "graph_at (mem_store 1000) mem_digest loop_objs tiny loop_manifest Map.empty [sample_key \<mapsto> sample_node] [loop_key \<mapsto> [0xa0]]"
proof -
  have "node_map [sample_key \<mapsto> sample_node]" by (auto simp: node_map_def sample_decodes) (simp add: sample_node_def)
  moreover have "edge_map [loop_key \<mapsto> [0xa0]]" by (auto simp: edge_map_def stored_edge_bytes_def loop_decodes)
  ultimately show ?thesis using loop_maps by (simp add: graph_at_def loop_manifest_def sample_manifest_def schema_map_def)
qed

lemma k_index_ok: "index_def_ok k_index" by (simp add: index_def_ok_def index_def_new_def k_index_def)

lemma loop_derived:
  "derived rev_entry [loop_key \<mapsto> [0xa0]] = [loop_key \<mapsto> []]"
  "derived (index_of k_index []) [sample_key \<mapsto> sample_node] = [k_prefix @ sample_key \<mapsto> []]"
proof -
  have "rev_entry loop_key v = Some loop_key" for v by (simp add: rev_entry_def loop_decodes loop_key_eq)
  then show "derived rev_entry [loop_key \<mapsto> [0xa0]] = [loop_key \<mapsto> []]" by (auto simp: derived_def fun_eq_iff)
  have "index_entry_encode (index_entry_at k_index [VInt 1] loop_node) = Inr (k_prefix @ sample_key)"
    by (simp add: index_entry_encode_def index_tuple_def index_entry_at_def k_index_def loop_node_def node_key_to_value_def k_prefix_def
      sample_key_def eval_simps)
  then have "index_entry_key loop_node (Some \<lparr>nr_labels = [], nr_properties = [([0x6b], VInt 1)]\<rparr>) k_index [] = Some (Some (k_prefix @ sample_key))"
    unfolding index_entry_key_Some [OF k_index_ok] by (simp add: bears_def k_index_def indexed_value_def) (simp add: loop_node_def)
  moreover have "length sample_node < 2 ^ 63" by (simp add: sample_node_def)
  ultimately have "index_of k_index [] sample_key sample_node = Some (k_prefix @ sample_key)"
    by (simp add: index_of_def sample_decodes k_index_ok loop_node_def)
  then show "derived (index_of k_index []) [sample_key \<mapsto> sample_node] = [k_prefix @ sample_key \<mapsto> []]"
    by (auto simp: derived_def fun_eq_iff)
qed

section \<open>Properties\<close>

text \<open>C10. The out-edges of a node in a graph version are exactly the edges that leave it and its in-edges, which
  are found through the reverse map, exactly the edges that enter it, each with the record of the forward map,
  once and in key order.\<close>

theorem incident_edges_exact:
  assumes "graph_at S addr s params m gs gn ge" "holds_map S addr s params (mf_edges_rev m) (derived rev_entry ge)"
    "node_key_ok n" "edge_endpoint_prefix n = Inr p"
  shows "(\<exists>es. out_edges S s m n = Some (Inr es) \<and> in_key_order encode_fwd (map fst es) \<and>
      set es = {(e, rec). (\<exists>k. edge_at ge k e rec) \<and> ek_src e = norm_node n}) \<and>
    (\<exists>es. in_edges S s m n = Some (Inr es) \<and> in_key_order encode_rev (map fst es) \<and>
      set es = {(e, rec). (\<exists>k. edge_at ge k e rec) \<and> ek_dst e = norm_node n})"
  using out_edges_ok [OF assms(1,3,4)] in_edges_ok [OF assms] by blast

theorem incident_edges_exact_witness:
  "\<exists>es. in_edges (mem_store 1000) loop_objs loop_manifest loop_node = Some (Inr es) \<and> set es = {(loop_edge, \<lparr>er_properties = []\<rparr>)}"
proof -
  have "holds_map (mem_store 1000) mem_digest loop_objs tiny (mf_edges_rev loop_manifest) (derived rev_entry [loop_key \<mapsto> [0xa0]])"
    using loop_maps(4) by (simp add: loop_derived loop_manifest_def)
  from incident_edges_exact [OF loop_graph this loop_ok(1) loop_key_eq(3)] obtain es where
    es: "in_edges (mem_store 1000) loop_objs loop_manifest loop_node = Some (Inr es)"
      "set es = {(e, rec). (\<exists>k. edge_at [loop_key \<mapsto> [0xa0]] k e rec) \<and> ek_dst e = norm_node loop_node}" by blast
  moreover have "ek_dst loop_edge = loop_node" by (simp add: loop_edge_def)
  ultimately show ?thesis by (intro exI [of _ es]) (auto simp: loop_edge_at loop_ok)
qed

text \<open>C11. The difference of two graph versions has one change for each node and each edge whose record differs, and
  no other: added, removed or modified as the sides say, with the decoded records of both sides, in key order.
  It is empty exactly when the versions have the same nodes and edges.\<close>

theorem snapshot_diff_exact:
  assumes "graph_at S addr s params m gs gn ge" "graph_at S addr s params' m' gs' gn' ge'"
  shows "\<exists>d. snapshot_diff S s m m' = Some (Inr d) \<and>
    in_key_order node_key_encode (map nc_key (gd_nodes d)) \<and> in_key_order encode_fwd (map ec_key (gd_edges d)) \<and>
    set (gd_nodes d) = changes_between node_key_decode node_record_decode node_change_at gn gn' \<and>
    set (gd_edges d) = changes_between decode_fwd edge_record_decode edge_change_at ge ge' \<and>
    (graph_diff_is_empty d \<longleftrightarrow> gn = gn' \<and> ge = ge')"
  using assms by (rule snapshot_diff_ok)

theorem snapshot_diff_exact_witness:
  "\<exists>d. snapshot_diff (mem_store 1000) sample_objs blank_manifest sample_manifest = Some (Inr d) \<and>
     \<lparr>nc_kind = Added, nc_key = loop_node, nc_before = None, nc_after = Some \<lparr>nr_labels = [], nr_properties = [([0x6b], VInt 1)]\<rparr>\<rparr> \<in> set (gd_nodes d)"
proof -
  note g = sample_graphs(1,2) [unfolded holds_graph_def blank_graph_def sample_graph_def prod.case]
  from snapshot_diff_exact [OF g] obtain d where
    d: "snapshot_diff (mem_store 1000) sample_objs blank_manifest sample_manifest = Some (Inr d)"
      "set (gd_nodes d) = changes_between node_key_decode node_record_decode node_change_at Map.empty [sample_key \<mapsto> sample_node]" by blast
  have "node_change_at Added loop_node None (Some \<lparr>nr_labels = [], nr_properties = [([0x6b], VInt 1)]\<rparr>) \<in> set (gd_nodes d)"
    unfolding d(2) changes_between_def
    by (intro CollectI exI [of _ sample_key] exI [of _ loop_node] exI [of _ None] exI)
      (auto simp: decoded_def sample_decodes loop_node_def kind_of_def)
  then show ?thesis using d(1) by (auto simp: node_change_at_def)
qed

text \<open>C12. A seek of a declared index that is the image of the nodes returns exactly the nodes that bear its label
  with the values sought, up to the sign of zeros, each once; a capped seek returns these nodes up to one more than the cap.\<close>

theorem index_seek_exact:
  assumes "node_map gn" "index_def_ok def" "map_of (mf_indexes m) name = Some mr"
    "holds_map S addr s (mf_chunk_params m) mr (derived (index_of def lk) gn)"
    "list_all wf_value vs" "index_value_prefix (id_label def) (id_properties def) vs = Inr p"
  shows "\<exists>ns. index_scan_capped S s m name p cap = Some (Inr (Some (take (Suc cap) ns))) \<and> distinct ns \<and> set ns = nodes_with def lk gn vs"
  using assms by (rule index_scan_ok)

theorem index_seek_exact_witness:
  "index_scan_capped (mem_store 1000) loop_objs loop_manifest [0x69] k_prefix 9 = Some (Inr (Some [loop_node]))"
proof -
  have n: "node_map [sample_key \<mapsto> sample_node]" using loop_graph by (simp add: graph_at_def)
  have i: "map_of (mf_indexes loop_manifest) [0x69] = Some (map_root_from_root (leaf_root index_leaf))"
    "holds_map (mem_store 1000) mem_digest loop_objs (mf_chunk_params loop_manifest) (map_root_from_root (leaf_root index_leaf))
      (derived (index_of k_index []) [sample_key \<mapsto> sample_node])"
    using loop_maps(5) by (simp_all add: loop_manifest_def loop_derived sample_manifest_def)
  have p: "list_all wf_value [VInt 1]" "index_value_prefix (id_label k_index) (id_properties k_index) [VInt 1] = Inr k_prefix"
    by (simp_all add: index_value_prefix_def k_index_def k_prefix_def eval_simps)
  from index_seek_exact [OF n k_index_ok i p, of 9] obtain ns where
    ns: "index_scan_capped (mem_store 1000) loop_objs loop_manifest [0x69] k_prefix 9 = Some (Inr (Some (take (Suc 9) ns)))"
      "distinct ns" "set ns = nodes_with k_index [] [sample_key \<mapsto> sample_node] [VInt 1]" by blast
  have "nodes_with k_index [] [sample_key \<mapsto> sample_node] [VInt 1] = {loop_node}"
    unfolding nodes_with_def loop_node_at by (auto simp: bears_def k_index_def indexed_value_def) (simp add: loop_node_def)
  then have "ns = [loop_node]" using ns(2,3) by (cases ns; cases "tl ns") auto
  then show ?thesis using ns(1) by simp
qed

end
