(* ===== verification/Spec2Isabelle.thy ===== *)
theory Spec2Isabelle
  imports Prolly_Merge Prolly_Verify Manifest Graph_Index Conflicts_Map Snapshot_Reads
begin

text \<open>
  A verification library for acetone, an embedded property-graph database whose every version is kept in a git
  object database. Paths below are relative to \<^verbatim>\<open>src/crates/\<close>.

  \<^bold>\<open>The program.\<close> A graph version is a \<^emph>\<open>manifest\<close>: the roots of a few ordered maps from byte strings to byte
  strings (schema, nodes, edges by source, edges by target, one map per declared index). Each map is a
  \<^emph>\<open>prolly tree\<close>: a search tree whose nodes are content-addressed chunks, cut where a rolling hash of the entries
  says so, so that equal contents share chunks and two versions can be compared by hash. From the bottom up:

  \<^item> \<^verbatim>\<open>acetone-model\<close>: property values, two encodings of them (a memcomparable one for keys and canonical CBOR for
    records), map keys, records, schema rows and the manifest;
  \<^item> \<^verbatim>\<open>acetone-store\<close>: the interface of a chunk store and its implementation over git;
  \<^item> \<^verbatim>\<open>acetone-prolly\<close>: construction, batches, lookup, scans, diff, three-way merge, integrity walk and chunk
    enumeration of prolly trees;
  \<^item> \<^verbatim>\<open>acetone-graph\<close>: cell-wise merge of records, indexes, constraints, the merge of graph versions and its
    persisted conflicts, reads of a version, transactions and repositories;
  \<^item> \<^verbatim>\<open>acetone-cypher\<close>, \<^verbatim>\<open>acetone-cli\<close>, \<^verbatim>\<open>acetone-core\<close>: the query language, the command line and a facade.

  \<^bold>\<open>Conventions.\<close> Bytes are \<^typ>\<open>8 word\<close>, machine integers keep their width, byte strings order
  lexicographically as slices do. \<^verbatim>\<open>Result\<close> is a sum with the error on the left and \<^verbatim>\<open>?\<close> is \<open>rbind\<close>. A
  function of the tree and graph crates takes the operations \<open>S\<close> of a chunk store (a record of \<open>put\<close> and \<open>get\<close>)
  and the store's state \<open>s\<close>, and returns the new state where it writes. Iterators are state records with a
  \<open>next\<close>. Loops over iterators and the recursive walks are \<open>partial_function (option)\<close>, or a result of type
  \<open>run\<close>, so that \<^const>\<open>None\<close> stands for divergence and, where a text block says so, for a Rust panic; that such a function returns is proved, as part of its
  property, and never assumed. \<open>gensures\<close> and \<open>ensures\<close> say that an operation returns, with a result that
  satisfies a predicate or with an error of its environment (the store failed or a tree grew past its bounds).
  Builds are release builds: \<^verbatim>\<open>debug_assert!\<close> is no operation. A \<^verbatim>\<open>BTreeMap\<close> is its sorted association list
  (\<open>Text_Maps\<close>). An error message is the data it is formatted from.

  \<^bold>\<open>Parameters.\<close> What is not in the repository is an argument: the git object database (\<open>Store\<close>: a record of
  \<open>gix\<close> operations; a lookup takes the number of the attempt, since a concurrent repack can make an attempt miss
  an object that is there, and the law of the database is that an object written is found within the retries of
  \<^verbatim>\<open>git.rs\<close>), the clock and the entropy source of surrogate identifiers. The address of a chunk is an arbitrary
  function \<open>addr\<close> of its bytes, as the digest is of the git object format; that chunks in the store do not collide
  is part of the contract \<open>chunk_store\<close>, by which a put keeps what is there.

  \<^bold>\<open>Bounds.\<close> The code's own: keys nest to depth 128 and trees have at most 64 levels. Of the machine:
  byte strings are shorter than \<open>2 ^ 63\<close> (no Rust allocation is larger), maps have fewer than \<open>2 ^ 64\<close> entries
  (the entry counter of the code is a \<^verbatim>\<open>u64\<close>; a third of that for each map that enters a merge, so that the
  merged map fits), and the fields of a conflict key are shorter than \<open>2 ^ 32\<close>. They appear as hypotheses of the
  theorems that need them. No theorem is limited to a size by fuel.

  \<^bold>\<open>Theories of the model crate.\<close>

  \<^item> \<open>Prelude\<close>: bytes, orderings, results, the locale \<open>order_code\<close> of order-preserving prefix codes.
  \<^item> \<open>Values\<close> (\<^verbatim>\<open>lib.rs\<close>), \<open>Keys\<close>, \<open>Keys_Order\<close>, \<open>Keys_Roundtrip\<close> (\<^verbatim>\<open>keys.rs\<close>): the order of encodings is the
    order of values, every field encoder is an interpretation of \<open>order_code\<close>; the decoder is the exact inverse.
  \<^item> \<open>Cbor\<close>, \<open>Floats\<close> (\<^verbatim>\<open>cbor.rs\<close>), \<open>Value_Codec\<close> (\<^verbatim>\<open>values.rs\<close>): the canonical encoding is unique; a float takes the
    shortest width that loses nothing.
  \<^item> \<open>Text_Maps\<close>, \<open>Records\<close>, \<open>Stored_Records\<close> (\<^verbatim>\<open>records.rs\<close>), \<open>Graph_Keys\<close> (\<^verbatim>\<open>graph_keys.rs\<close>), \<open>Schema\<close>
    (\<^verbatim>\<open>schema.rs\<close>), \<open>Manifest\<close> (\<^verbatim>\<open>manifest.rs\<close>): round trips both ways, exactness of scan prefixes, what
    declarations accept.

  \<^bold>\<open>Theories of the store and tree crates.\<close>

  \<^item> \<open>Store\<close> (\<^verbatim>\<open>store.rs\<close>, \<^verbatim>\<open>git.rs\<close>, \<^verbatim>\<open>hash.rs\<close>, \<^verbatim>\<open>error.rs\<close>): the contract of a chunk store as the locale
    \<open>chunk_store\<close>, interpreted on the git backend for every lawful object database.
  \<^item> \<open>Prolly_Chunker\<close> (\<^verbatim>\<open>chunker.rs\<close>, \<^verbatim>\<open>lib.rs\<close>), \<open>Prolly_Node\<close> (\<^verbatim>\<open>node.rs\<close>), \<open>Prolly_Tree\<close> (\<^verbatim>\<open>tree.rs\<close>): parameters,
    the boundary decision, node frames; the level builder, \<open>bulk_load\<close>, \<open>apply_batch\<close> and \<open>prolly_get\<close>.
  \<^item> \<open>Prolly_Canon\<close>, \<open>Prolly_Build\<close>, \<open>Prolly_Level\<close>, \<open>Prolly_History\<close>, \<open>Prolly_Lookup\<close>, \<open>Prolly_Batch\<close>,
    \<open>Prolly_Map\<close>: a reference chunking (\<open>chunks\<close>), that the incremental rebuild computes it from any mixture of
    reused and fresh nodes, and so that the tree refines a finite map (locale \<open>persistent_map\<close>); how far the root
    is a function of the contents, and where it is not.
  \<^item> \<open>Prolly_Ghost\<close>, \<open>Prolly_Eval\<close>: trees as nested data, and kernel evaluation for the examples.
  \<^item> \<open>Prolly_Scan\<close>, \<open>Scan_Ends\<close> (\<^verbatim>\<open>scan.rs\<close>), \<open>Prolly_Diff\<close> (\<^verbatim>\<open>diff.rs\<close>), \<open>Prolly_Merge\<close> (\<^verbatim>\<open>merge.rs\<close>), \<open>Prolly_Verify\<close>
    (\<^verbatim>\<open>verify.rs\<close>), \<open>Prolly_Walk\<close> (\<^verbatim>\<open>walk.rs\<close>): exactness of each over intact trees; order and
    termination of scans over any store, damaged or forged; what a clean integrity report guarantees.

  \<^bold>\<open>Theories of the graph crate.\<close>

  \<^item> \<open>Graph_Base\<close> (\<^verbatim>\<open>error.rs\<close>), \<open>Graph_Sample\<close>: errors, runs and loops over scans; a graph for the examples.
  \<^item> \<open>Cell_Merge\<close>, \<open>Merged_Records\<close> (\<^verbatim>\<open>cell_merge.rs\<close>): records merge property by property.
  \<^item> \<open>Derived_Maps\<close>, \<open>Graph_Index\<close> (\<^verbatim>\<open>index.rs\<close>): a map derived from a primary map stays its image under
    deltas (locale \<open>derived_map\<close>, interpreted for indexes and for reverse edges).
  \<^item> \<open>Constraints\<close> (\<^verbatim>\<open>constraints.rs\<close>): the reported breaches are exactly the breaches, in three code paths.
  \<^item> \<open>Conflicts_Map\<close> (\<^verbatim>\<open>conflicts.rs\<close>): the conflicts of a merge survive their persisted map.
  \<^item> \<open>Graph_Merge\<close>, \<open>Merge_Validation\<close>, \<open>Clean_Merge\<close> (\<^verbatim>\<open>merge.rs\<close>): the merge of manifests, its post-merge
    validation and both over the graphs that the manifests stand for. That a clean merge onto a sound base is sound
    holds under a condition on each side (\<open>keeps_identity\<close>): where it left a node or edge of the base as it was,
    it also left the key tuples and discriminators that the schema declares for it. The merge validates changed
    data against the merged schema and unchanged data against newly declared constraints only, so it does not
    see an identity property that a side redeclared under unchanged data.
  \<^item> \<open>Snapshot\<close>, \<open>Snapshot_Diff\<close>, \<open>Snapshot_Reads\<close> (\<^verbatim>\<open>repo.rs\<close>, \<^verbatim>\<open>diff.rs\<close>): the reads of a version, lookups, scans,
    incident edges, index seeks and ranges, and the classified difference of two versions, exact over every
    manifest whose maps hold a graph (locale \<open>change_reader\<close> for the two maps of a difference).

  \<^bold>\<open>Not modelled.\<close> Refs, commits, tags and packs of the store crate, and of the graph crate transactions, the repository, its
  working state, locks, import, migration and \<^verbatim>\<open>fsck\<close>: file-system and git protocols around the maps. The entry
  estimate of \<^verbatim>\<open>walk.rs\<close>, a sampled floating-point product that only guides the planner. The rendering of values
  and violations for people. The query language, the command line, the server and the facade crate.
\<close>

end
